(* ===== verification/Prelude.thy ===== *)
theory Prelude
  imports Main "HOL-Library.Sublist"
begin

text \<open>
  Shared vocabulary of the development.

  \<^item> \<open>fault\<close> and \<open>'a result\<close>: how a C++ call can end other than by returning: a read
    outside the readable bytes of an iterator, a null index pointer, \<^verbatim>\<open>std::terminate\<close>,
    a failed \<^verbatim>\<open>assert\<close>, a thrown \<^verbatim>\<open>std::invalid_argument\<close> or \<^verbatim>\<open>std::runtime_error\<close>.
  \<^item> \<open>'a outcome\<close> adds non-termination: \<open>None\<close> is a loop that never returns.
    \<open>bind_result\<close> and \<open>bind_outcome\<close> sequence calls.
  \<^item> \<open>sub_size\<close>: subtraction on \<^verbatim>\<open>size_t\<close>/\<^verbatim>\<open>uint64_t\<close>, which wraps at \<open>2 ^ 64\<close>.
  \<^item> \<open>deref\<close>: reading through an iterator. An iterator is modelled by the list of the bytes
    readable from it, so \<^verbatim>\<open>json + n\<close> is \<open>drop n\<close> and a read past the end is a fault.
  \<^item> the generic facts on lists the components share.
\<close>

named_theorems mode_simps \<open>how the scanner's mode and bits pass over concatenated text\<close>
named_theorems tree_simps \<open>text, mode and parentheses of a document tree\<close>

section \<open>Faults and results\<close>

datatype fault =
    Out_Of_Bounds
  | Null_Pointer
  | Terminate
  | Assertion_Failed
  | Invalid_Argument string
  | Runtime_Error string

type_synonym 'a result = "fault + 'a"
type_synonym 'a outcome = "'a result option"

definition bind_result :: "'a result \<Rightarrow> ('a \<Rightarrow> 'b result) \<Rightarrow> 'b result" where
  "bind_result r f = (case r of Inl e \<Rightarrow> Inl e | Inr x \<Rightarrow> f x)"

lemma bind_result_simps [simp]:
  "bind_result (Inl e) f = Inl e"
  "bind_result (Inr x) f = f x"
  by (simp_all add: bind_result_def)

lemma bind_result_Inr:
  "bind_result r f = Inr y \<longleftrightarrow> (\<exists>x. r = Inr x \<and> f x = Inr y)"
  by (cases r) auto

lemma bind_result_cong [fundef_cong]:
  "r = r' \<Longrightarrow> (\<And>x. r' = Inr x \<Longrightarrow> f x = f' x) \<Longrightarrow> bind_result r f = bind_result r' f'"
  by (cases r') auto

definition bind_outcome :: "'a outcome \<Rightarrow> ('a \<Rightarrow> 'b outcome) \<Rightarrow> 'b outcome" where
  "bind_outcome m f =
     (case m of None \<Rightarrow> None | Some r \<Rightarrow> (case r of Inl e \<Rightarrow> Some (Inl e) | Inr x \<Rightarrow> f x))"

lemma bind_outcome_simps [simp]:
  "bind_outcome None f = None"
  "bind_outcome (Some (Inl e)) f = Some (Inl e)"
  "bind_outcome (Some (Inr x)) f = f x"
  by (simp_all add: bind_outcome_def)

lemma bind_outcome_Inr:
  "bind_outcome m f = Some (Inr y) \<longleftrightarrow> (\<exists>x. m = Some (Inr x) \<and> f x = Some (Inr y))"
  by (cases m) (auto simp: bind_outcome_def split: sum.splits)

lemma bind_outcome_cong [fundef_cong]:
  "r = r' \<Longrightarrow> (\<And>x. r' = Some (Inr x) \<Longrightarrow> f x = f' x) \<Longrightarrow> bind_outcome r f = bind_outcome r' f'"
  by (auto simp: bind_outcome_def split: option.splits sum.splits)

section \<open>Machine arithmetic\<close>

definition sub_size :: "nat \<Rightarrow> nat \<Rightarrow> nat" where
  "sub_size a b = (if b \<le> a then a - b else 2 ^ 64 + a - b)"

lemma sub_size_le [simp]: "b \<le> a \<Longrightarrow> sub_size a b = a - b"
  by (simp add: sub_size_def)

lemma sub_size_add_left [simp]: "sub_size (b + a) b = a"
  by (simp add: sub_size_def)

lemma sub_size_zero [simp]: "sub_size a 0 = a"
  by (simp add: sub_size_def)

lemma sub_size_wraps: "a < b \<Longrightarrow> b \<le> 2 ^ 64 \<Longrightarrow> (sub_size a b + b) mod 2 ^ 64 = a mod 2 ^ 64"
  by (simp add: sub_size_def)

section \<open>Iterators\<close>

definition deref :: "'a list \<Rightarrow> nat \<Rightarrow> 'a result" where
  "deref bytes i = (if i < length bytes then Inr (bytes ! i) else Inl Out_Of_Bounds)"

lemma deref_append_length [simp]: "deref (xs @ y # ys) (length xs) = Inr y"
  by (simp add: deref_def)

lemma deref_append_Suc_length [simp]: "deref (xs @ y # z # ys) (Suc (length xs)) = Inr z"
  using deref_append_length [of "xs @ [y]" z ys] by (simp del: deref_append_length)

lemma deref_append_left: "i < length xs \<Longrightarrow> deref (xs @ ys) i = Inr (xs ! i)"
  by (simp add: deref_def nth_append)

section \<open>Lists\<close>

lemma take_drop_middle [simp]:
  "take (length xs) (drop (length ps) (ps @ xs @ ss)) = xs"
  by simp

lemma concat_take_Suc:
  "i < length xss \<Longrightarrow> concat (take (Suc i) xss) = concat (take i xss) @ xss ! i"
  by (simp add: take_Suc_conv_app_nth)

lemma concat_split_nth:
  "i < length xss \<Longrightarrow> concat xss = concat (take i xss) @ xss ! i @ concat (drop (Suc i) xss)"
  by (metis append.assoc append_take_drop_id concat_append concat_take_Suc)

fun find_first :: "('a \<Rightarrow> bool) \<Rightarrow> 'a list \<Rightarrow> 'a option" where
  "find_first p [] = None"
| "find_first p (x # xs) = (if p x then Some x else find_first p xs)"

lemma find_first_SomeD: "find_first p xs = Some x \<Longrightarrow> x \<in> set xs \<and> p x"
  by (induction xs) (auto split: if_splits)

lemma find_first_None_iff: "find_first p xs = None \<longleftrightarrow> (\<forall>x \<in> set xs. \<not> p x)"
  by (induction xs) auto

end
