(* ===== verification/Balanced_Parens.thy ===== *)
theory Balanced_Parens
  imports Prelude
begin

text \<open>
  The mathematics of the two bit vectors of a semi-index: the position of the \<open>i\<close>-th one
  (\<open>select1\<close>), balanced sequences of parentheses (\<open>True\<close> opens), and executable reference
  searches for the matching parenthesis (\<open>find_close_ref\<close>, \<open>find_open_ref\<close>), which are
  proved to find it. The last two are the reference behaviour of the succinct library's
  \<^verbatim>\<open>bp_vector\<close>; the library itself is a parameter of the model (\<open>Succinct\<close>).
\<close>

section \<open>Select\<close>

fun select1 :: "bool list \<Rightarrow> nat \<Rightarrow> nat" where
  "select1 [] i = 0"
| "select1 (False # bs) i = Suc (select1 bs i)"
| "select1 (True # bs) 0 = 0"
| "select1 (True # bs) (Suc i) = Suc (select1 bs i)"

lemma select1_middle: "select1 (xs @ True # ys) (count_list xs True) = length xs"
proof (induction xs)
  case (Cons x xs)
  then show ?case by (cases x) auto
qed simp

section \<open>Balanced sequences\<close>

inductive balanced :: "bool list \<Rightarrow> bool" where
  balanced_Nil [simp, intro]: "balanced []"
| balanced_node [intro]: "balanced xs \<Longrightarrow> balanced ys \<Longrightarrow> balanced (True # xs @ False # ys)"

lemma balanced_append [intro]: "balanced xs \<Longrightarrow> balanced ys \<Longrightarrow> balanced (xs @ ys)"
proof (induction rule: balanced.induct)
  case (balanced_node as bs)
  then have "balanced (True # as @ False # (bs @ ys))" by blast
  then show ?case by simp
qed simp

lemma balanced_wrap [intro]: "balanced xs \<Longrightarrow> balanced (True # xs @ [False])"
  using balanced_node [of xs "[]"] by simp

lemma balanced_pair [simp]: "balanced [True, False]"
  using balanced_wrap [OF balanced_Nil] by simp

lemma balanced_concat: "\<forall>xs \<in> set xss. balanced xs \<Longrightarrow> balanced (concat xss)"
  by (induction xss) auto

fun excess :: "bool list \<Rightarrow> int" where
  "excess [] = 0"
| "excess (b # bs) = (if b then 1 else -1) + excess bs"

lemma excess_append [simp]: "excess (xs @ ys) = excess xs + excess ys"
  by (induction xs) auto

lemma balanced_excess: "balanced xs \<Longrightarrow> excess xs = 0"
  by (induction rule: balanced.induct) auto

lemma balanced_excess_prefix: "balanced xs \<Longrightarrow> xs = as @ bs \<Longrightarrow> 0 \<le> excess as"
proof (induction arbitrary: as bs rule: balanced.induct)
  case (balanced_node us vs)
  show ?case
  proof (cases as)
    case (Cons a as')
    with balanced_node.prems have a: "a = True" and eq: "us @ False # vs = as' @ bs" by auto
    from eq consider cs where "us = as' @ cs" | cs where "as' = us @ False # cs" "vs = cs @ bs"
      by (auto simp: append_eq_append_conv2 Cons_eq_append_conv append_eq_Cons_conv)
    then show ?thesis
    proof cases
      case 1
      with balanced_node.IH(1) have "0 \<le> excess as'" by blast
      with a Cons show ?thesis by simp
    next
      case 2
      with balanced_node.IH(2) have "0 \<le> excess cs" by blast
      with 2 a Cons balanced_excess [OF balanced_node.hyps(1)] show ?thesis by simp
    qed
  qed simp
qed simp

lemma excess_rev [simp]: "excess (rev xs) = excess xs"
  by (induction xs) auto

section \<open>Searching the matching parenthesis\<close>

text \<open>
  \<open>match_dist d bs\<close> counts the parentheses passed before the depth \<open>d\<close> drops below zero:
  the number of symbols between a parenthesis and its match.
\<close>

fun match_dist :: "nat \<Rightarrow> bool list \<Rightarrow> nat" where
  "match_dist d [] = 0"
| "match_dist d (True # bs) = Suc (match_dist (Suc d) bs)"
| "match_dist 0 (False # bs) = 0"
| "match_dist (Suc d) (False # bs) = Suc (match_dist d bs)"

lemma match_dist_balanced:
  "balanced xs \<Longrightarrow> match_dist d (xs @ ys) = length xs + match_dist d ys"
  by (induction arbitrary: d ys rule: balanced.induct) auto

lemma balanced_rev_Not: "balanced xs \<Longrightarrow> balanced (rev (map Not xs))"
proof (induction rule: balanced.induct)
  case (balanced_node xs ys)
  then have "balanced (rev (map Not ys) @ (True # rev (map Not xs) @ [False]))"
    by blast
  then show ?case by simp
qed simp

definition find_close_ref :: "bool list \<Rightarrow> nat \<Rightarrow> nat" where
  "find_close_ref bs i = i + 1 + match_dist 0 (drop (i + 1) bs)"

definition find_open_ref :: "bool list \<Rightarrow> nat \<Rightarrow> nat" where
  "find_open_ref bs i = i - 1 - match_dist 0 (map Not (rev (take i bs)))"

lemma find_close_ref_match:
  assumes "balanced m"
  shows "find_close_ref (p @ True # m @ False # s) (length p) = length p + 1 + length m"
  using match_dist_balanced [OF assms, of 0 "False # s"]
  by (simp add: find_close_ref_def)

lemma find_open_ref_match:
  assumes "balanced m"
  shows "find_open_ref (p @ True # m @ False # s) (length p + 1 + length m) = length p"
proof -
  have "map Not (rev (take (length p + 1 + length m) (p @ True # m @ False # s)))
        = rev (map Not m) @ False # rev (map Not p)"
    by (simp add: rev_map)
  then show ?thesis
    using match_dist_balanced [OF balanced_rev_Not [OF assms], of 0 "False # rev (map Not p)"]
    by (simp add: find_open_ref_def)
qed

end
