(* ===== verification/Succinct.thy ===== *)
theory Succinct
  imports Balanced_Parens
begin

text \<open>
  The interface to the \<^verbatim>\<open>succinct\<close> library (a git submodule, so not part of the sources):
  the operations of \<^verbatim>\<open>bit_vector_builder\<close>, \<^verbatim>\<open>elias_fano\<close> and \<^verbatim>\<open>bp_vector\<close> that the
  semi-index calls are the fields of the record \<open>succinct\<close>, which every definition of the
  model takes as an argument. The locale \<open>succinct_spec\<close> states their documented
  behaviour: a builder accumulates bits; \<^verbatim>\<open>select(i)\<close> is the position of the \<open>i\<close>-th one;
  \<^verbatim>\<open>operator[]\<close> and \<^verbatim>\<open>size\<close> read the bits back; \<^verbatim>\<open>find_close\<close> and \<^verbatim>\<open>find_open\<close>
  return the matching parenthesis of a balanced sequence. The interpretation on plain bit
  lists shows that the laws can hold, and gives the executable instance the witnesses use.
\<close>

record ('bvb, 'ef, 'bp) succinct =
  bvb_new :: "'bvb"
  bvb_push_back :: "'bvb \<Rightarrow> bool \<Rightarrow> 'bvb"
  bvb_zero_extend :: "'bvb \<Rightarrow> nat \<Rightarrow> 'bvb"
  elias_fano :: "'bvb \<Rightarrow> 'ef"
  ef_select :: "'ef \<Rightarrow> nat \<Rightarrow> nat"
  bp_vector :: "'bvb \<Rightarrow> 'bp"
  bp_get :: "'bp \<Rightarrow> nat \<Rightarrow> bool"
  bp_size :: "'bp \<Rightarrow> nat"
  bp_find_close :: "'bp \<Rightarrow> nat \<Rightarrow> nat"
  bp_find_open :: "'bp \<Rightarrow> nat \<Rightarrow> nat"

locale succinct_spec =
  fixes S :: "('bvb, 'ef, 'bp) succinct" and bits :: "'bvb \<Rightarrow> bool list"
  assumes bits_new: "bits (bvb_new S) = []"
    and bits_push_back: "bits (bvb_push_back S b x) = bits b @ [x]"
    and bits_zero_extend: "bits (bvb_zero_extend S b n) = bits b @ replicate n False"
    and select_law:
      "bits b = xs @ True # ys \<Longrightarrow> i = count_list xs True \<Longrightarrow>
       ef_select S (elias_fano S b) i = length xs"
    and get_law: "i < length (bits b) \<Longrightarrow> bp_get S (bp_vector S b) i = bits b ! i"
    and size_law: "bp_size S (bp_vector S b) = length (bits b)"
    and find_close_law:
      "balanced (bits b) \<Longrightarrow> bits b = p @ True # m @ False # s \<Longrightarrow> balanced m \<Longrightarrow>
       i = length p \<Longrightarrow> bp_find_close S (bp_vector S b) i = length p + 1 + length m"
    and find_open_law:
      "balanced (bits b) \<Longrightarrow> bits b = p @ True # m @ False # s \<Longrightarrow> balanced m \<Longrightarrow>
       i = length p + 1 + length m \<Longrightarrow> bp_find_open S (bp_vector S b) i = length p"

definition list_succinct :: "(bool list, bool list, bool list) succinct" where
  "list_succinct = \<lparr>
     bvb_new = [],
     bvb_push_back = (\<lambda>b x. b @ [x]),
     bvb_zero_extend = (\<lambda>b n. b @ replicate n False),
     elias_fano = (\<lambda>b. b),
     ef_select = select1,
     bp_vector = (\<lambda>b. b),
     bp_get = (\<lambda>b i. b ! i),
     bp_size = length,
     bp_find_close = find_close_ref,
     bp_find_open = find_open_ref\<rparr>"

lemma list_succinct_simps [simp]:
  "bvb_new list_succinct = []"
  "bvb_push_back list_succinct b x = b @ [x]"
  "bvb_zero_extend list_succinct b n = b @ replicate n False"
  "elias_fano list_succinct b = b"
  "ef_select list_succinct = select1"
  "bp_vector list_succinct b = b"
  "bp_get list_succinct b i = b ! i"
  "bp_size list_succinct = length"
  "bp_find_close list_succinct = find_close_ref"
  "bp_find_open list_succinct = find_open_ref"
  by (simp_all add: list_succinct_def)

interpretation list_succ: succinct_spec list_succinct "\<lambda>b. b"
  by unfold_locales
    (simp_all add: select1_middle find_close_ref_match find_open_ref_match del: One_nat_def)

end
