(* ===== verification/Escape_Table.thy ===== *)
theory Escape_Table
  imports Prelude
begin

text \<open>
  The table of JSON escapes (\<^verbatim>\<open>semi_index/escape_table.cpp\<close>) and what it computes:
  the body of a string literal, with its escapes, and the string it denotes. The table is
  shared by the key comparison of the semi-index and by the quoted string parser.
\<close>

abbreviation quote :: char where "quote \<equiv> CHR 0x22"
abbreviation backslash :: char where "backslash \<equiv> CHR 0x5C"
abbreviation nul :: char where "nul \<equiv> CHR 0x00"

definition escape_table :: "char list" where
  "escape_table =
     replicate 16 nul @
     replicate 16 nul @
     [nul, nul, quote] @ replicate 12 nul @ [CHR ''/''] @
     replicate 16 nul @
     replicate 16 nul @
     replicate 12 nul @ [backslash, nul, nul, nul] @
     [nul, nul, CHR 0x08, nul, nul, nul, CHR 0x0C, nul, nul, nul, nul, nul, nul, nul, CHR 0x0A, nul] @
     [nul, nul, CHR 0x0D, nul, CHR 0x09] @ replicate 11 nul @
     replicate 128 nul"

text \<open>\<^verbatim>\<open>(char)json::parser::escape_table[(unsigned char)c]\<close>\<close>

definition unescape_char :: "char \<Rightarrow> char" where
  "unescape_char c = escape_table ! of_char c"

lemma escape_table_length: "length escape_table = 256"
  by (simp add: escape_table_def)

lemma unescape_char_standard:
  "unescape_char quote = quote" "unescape_char backslash = backslash"
  "unescape_char (CHR ''/'') = CHR ''/''" "unescape_char (CHR ''b'') = CHR 0x08"
  "unescape_char (CHR ''f'') = CHR 0x0C" "unescape_char (CHR ''n'') = CHR 0x0A"
  "unescape_char (CHR ''r'') = CHR 0x0D" "unescape_char (CHR ''t'') = CHR 0x09"
  "unescape_char (CHR ''u'') = nul"
  by (code_simp)+

text \<open>
  The body of a string literal (the text between its quotes) is closed when no quote in it
  is bare and it does not end inside an escape; \<open>unescape\<close> is the string it denotes.
\<close>

fun literal_body :: "string \<Rightarrow> bool" where
  "literal_body [] \<longleftrightarrow> True"
| "literal_body (c # cs) \<longleftrightarrow>
     (if c = quote then False
      else if c = backslash then (case cs of [] \<Rightarrow> False | d # ds \<Rightarrow> literal_body ds)
      else literal_body cs)"

fun unescape :: "string \<Rightarrow> string" where
  "unescape [] = []"
| "unescape (c # cs) =
     (if c = backslash then (case cs of [] \<Rightarrow> [] | d # ds \<Rightarrow> unescape_char d # unescape ds)
      else c # unescape cs)"

lemma literal_body_induct [consumes 1, case_names Nil Escape Plain]:
  assumes "literal_body s"
    and "P []"
    and "\<And>d ds. literal_body ds \<Longrightarrow> P ds \<Longrightarrow> P (backslash # d # ds)"
    and "\<And>c cs. c \<noteq> quote \<Longrightarrow> c \<noteq> backslash \<Longrightarrow> literal_body cs \<Longrightarrow> P cs \<Longrightarrow> P (c # cs)"
  shows "P s"
  using assms(1)
proof (induction s rule: literal_body.induct)
  case 1
  show ?case by (rule assms(2))
next
  case (2 c cs)
  show ?case
  proof (cases "c = backslash")
    case True
    with "2.prems" obtain d ds where "cs = d # ds" "literal_body ds"
      by (auto split: list.splits)
    with True "2.IH"(1) assms(3) show ?thesis by auto
  next
    case False
    with "2.prems" "2.IH"(2) assms(4) show ?thesis by (auto split: if_splits)
  qed
qed

lemma literal_body_plain: "quote \<notin> set s \<Longrightarrow> backslash \<notin> set s \<Longrightarrow> literal_body s \<and> unescape s = s"
  by (induction s) auto

end
