(* ===== verification/Semi_Index_Build.thy ===== *)
theory Semi_Index_Build
  imports Succinct Escape_Table
begin

text \<open>
  The construction of the semi-index: the constructor of \<^verbatim>\<open>json_semi_index_base\<close> in
  \<^verbatim>\<open>semi_index/json_semi_index.hpp\<close>. One pass over the characters of every document pushes
  one bit per character to \<open>nav\<close> (one for a structural character) and two parentheses per
  structural character to \<open>bp\<close>; a string literal is skipped by an inner loop, which throws
  when the document ends inside the literal.

  The specification is an automaton on characters (\<open>mode\<close>: outside a literal, inside one,
  after a backslash inside one): \<open>marks\<close> and \<open>parens\<close> give the bits of a text, and both
  are compositional over concatenation. \<open>build_json_refines\<close> shows that the nested loops of
  the code compute exactly the automaton's bits, and fail exactly when it ends inside a
  literal.
\<close>

section \<open>The constructor\<close>

record ('ef, 'bp) json_semi_index =
  m_nav :: "'ef"
  m_bp :: "'bp"

text \<open>
  The inner \<^verbatim>\<open>while (true)\<close> over a literal. The counter is \<^verbatim>\<open>json - first\<close>; the result is
  the counter at the closing quote and the text after that quote.
\<close>

fun skip_literal :: "bool \<Rightarrow> nat \<Rightarrow> string \<Rightarrow> (nat \<times> string) result" where
  "skip_literal escaped n [] = Inl (Invalid_Argument ''Unterminated string literal'')"
| "skip_literal escaped n (c # cs) =
     (if escaped then skip_literal False (Suc n) cs
      else if c = quote then Inr (n, cs)
      else skip_literal (c = backslash) (Suc n) cs)"

lemma skip_literal_shorter: "skip_literal e n cs = Inr (m, rest) \<Longrightarrow> length rest < length cs"
  by (induction e n cs rule: skip_literal.induct) (auto split: if_splits)

text \<open>The \<^verbatim>\<open>for\<close> loop over one document, with its \<^verbatim>\<open>switch\<close>.\<close>

function build_json ::
  "('bvb, 'ef, 'bp) succinct \<Rightarrow> 'bvb \<times> 'bvb \<Rightarrow> string \<Rightarrow> ('bvb \<times> 'bvb) result" where
  "build_json S (nav, bp) [] = Inr (nav, bp)"
| "build_json S (nav, bp) (c # cs) =
     (if c = CHR ''['' \<or> c = CHR ''{'' then
        build_json S (bvb_push_back S nav True,
                      bvb_push_back S (bvb_push_back S bp True) True) cs
      else if c = CHR ''}'' \<or> c = CHR '']'' then
        build_json S (bvb_push_back S nav True,
                      bvb_push_back S (bvb_push_back S bp False) False) cs
      else if c = CHR '','' \<or> c = CHR '':'' then
        build_json S (bvb_push_back S nav True,
                      bvb_push_back S (bvb_push_back S bp False) True) cs
      else if c = quote then
        bind_result (skip_literal False 1 cs)
          (\<lambda>r. build_json S (bvb_zero_extend S nav (fst r + 1), bp) (snd r))
      else build_json S (bvb_push_back S nav False, bp) cs)"
  by pat_completeness auto
termination
  by (relation "measure (\<lambda>(S, b, cs). length cs)") (auto dest: skip_literal_shorter)

text \<open>The loop over the documents.\<close>

fun build_jsons ::
  "('bvb, 'ef, 'bp) succinct \<Rightarrow> 'bvb \<times> 'bvb \<Rightarrow> string list \<Rightarrow> ('bvb \<times> 'bvb) result" where
  "build_jsons S b [] = Inr b"
| "build_jsons S b (s # ss) = bind_result (build_json S b s) (\<lambda>b'. build_jsons S b' ss)"

definition json_semi_index_base ::
  "('bvb, 'ef, 'bp) succinct \<Rightarrow> string list \<Rightarrow> ('ef, 'bp) json_semi_index result" where
  "json_semi_index_base S jsons =
     bind_result (build_jsons S (bvb_new S, bvb_new S) jsons)
       (\<lambda>b. Inr \<lparr>m_nav = elias_fano S (fst b), m_bp = bp_vector S (snd b)\<rparr>)"

section \<open>The automaton\<close>

datatype mode = Outside | Inside | Escaped

definition structural :: "char \<Rightarrow> bool" where
  "structural c \<longleftrightarrow> c \<in> set ''[]{},:''"

definition paren_pair :: "char \<Rightarrow> bool list" where
  "paren_pair c =
     (if c = CHR ''['' \<or> c = CHR ''{'' then [True, True]
      else if c = CHR ''}'' \<or> c = CHR '']'' then [False, False]
      else [False, True])"

fun next_mode :: "mode \<Rightarrow> char \<Rightarrow> mode" where
  "next_mode Outside c = (if c = quote then Inside else Outside)"
| "next_mode Inside c = (if c = quote then Outside else if c = backslash then Escaped else Inside)"
| "next_mode Escaped c = Inside"

definition is_mark :: "mode \<Rightarrow> char \<Rightarrow> bool" where
  "is_mark m c \<longleftrightarrow> m = Outside \<and> structural c"

fun end_mode :: "mode \<Rightarrow> string \<Rightarrow> mode" where
  "end_mode m [] = m"
| "end_mode m (c # cs) = end_mode (next_mode m c) cs"

fun marks :: "mode \<Rightarrow> string \<Rightarrow> bool list" where
  "marks m [] = []"
| "marks m (c # cs) = is_mark m c # marks (next_mode m c) cs"

fun parens :: "mode \<Rightarrow> string \<Rightarrow> bool list" where
  "parens m [] = []"
| "parens m (c # cs) = (if is_mark m c then paren_pair c else []) @ parens (next_mode m c) cs"

definition closed :: "string \<Rightarrow> bool" where
  "closed s \<longleftrightarrow> end_mode Outside s = Outside"

definition structs :: "string \<Rightarrow> nat" where
  "structs s = count_list (marks Outside s) True"

lemma structural_simps [simp]:
  "structural (CHR ''['')" "structural (CHR '']'')" "structural (CHR ''{'')"
  "structural (CHR ''}'')" "structural (CHR '','')" "structural (CHR '':'')"
  "\<not> structural quote" "\<not> structural backslash"
  by (simp_all add: structural_def)

lemma paren_pair_simps [simp]:
  "paren_pair (CHR ''['') = [True, True]" "paren_pair (CHR ''{'') = [True, True]"
  "paren_pair (CHR '']'') = [False, False]" "paren_pair (CHR ''}'') = [False, False]"
  "paren_pair (CHR '','') = [False, True]" "paren_pair (CHR '':'') = [False, True]"
  by (simp_all add: paren_pair_def)

lemma length_paren_pair [simp]: "length (paren_pair c) = 2"
  by (simp add: paren_pair_def)

lemma end_mode_append [simp]: "end_mode m (s @ t) = end_mode (end_mode m s) t"
  by (induction s arbitrary: m) auto

lemma marks_append [simp]: "marks m (s @ t) = marks m s @ marks (end_mode m s) t"
  by (induction s arbitrary: m) auto

lemma parens_append [simp]: "parens m (s @ t) = parens m s @ parens (end_mode m s) t"
  by (induction s arbitrary: m) auto

lemma length_marks [simp]: "length (marks m s) = length s"
  by (induction s arbitrary: m) auto

lemma length_parens: "length (parens m s) = 2 * count_list (marks m s) True"
  by (induction s arbitrary: m) auto

lemma length_parens_structs [mode_simps]: "length (parens Outside s) = 2 * structs s"
  by (simp add: length_parens structs_def)

lemma closed_Nil [simp, mode_simps]: "closed []"
  by (simp add: closed_def)

lemma closed_append [mode_simps]: "closed s \<Longrightarrow> closed (s @ t) \<longleftrightarrow> closed t"
  by (simp add: closed_def)

lemma closed_structural [mode_simps]: "structural c \<Longrightarrow> closed (c # s) \<longleftrightarrow> closed s"
  by (auto simp: closed_def)

lemma structs_Nil [mode_simps]: "structs [] = 0"
  by (simp add: structs_def)

lemma structs_append [mode_simps]: "closed s \<Longrightarrow> structs (s @ t) = structs s + structs t"
  by (simp add: structs_def closed_def)

lemma structs_structural [mode_simps]: "structural c \<Longrightarrow> structs (c # s) = Suc (structs s)"
  by (auto simp: structs_def is_mark_def)

lemma parens_closed_append [mode_simps]:
  "closed s \<Longrightarrow> parens Outside (s @ t) = parens Outside s @ parens Outside t"
  by (simp add: closed_def)

lemma parens_structural [mode_simps]:
  "structural c \<Longrightarrow> parens Outside (c # s) = paren_pair c @ parens Outside s"
  by (auto simp: is_mark_def)

lemma closed_concat: "\<forall>s \<in> set ss. closed s \<Longrightarrow> closed (concat ss)"
  by (induction ss) (auto simp: closed_append)

section \<open>The loops compute the automaton\<close>

lemma skip_literal_automaton:
  "skip_literal e n cs = Inr (k, rest) \<Longrightarrow>
   \<exists>lit. cs = lit @ rest \<and> k = n + length lit - 1 \<and> lit \<noteq> [] \<and>
     end_mode (if e then Escaped else Inside) lit = Outside \<and>
     marks (if e then Escaped else Inside) lit = replicate (length lit) False \<and>
     parens (if e then Escaped else Inside) lit = []"
proof (induction e n cs rule: skip_literal.induct)
  case (2 e n c cs)
  show ?case
  proof (cases "\<not> e \<and> c = quote")
    case True
    with "2.prems" show ?thesis by (intro exI [of _ "[c]"]) (auto simp: is_mark_def)
  next
    case False
    let ?e = "\<not> e \<and> c = backslash"
    from False "2.prems" have "skip_literal ?e (Suc n) cs = Inr (k, rest)" by (cases e) auto
    with False "2.IH" obtain lit where "cs = lit @ rest" "k = Suc n + length lit - 1" "lit \<noteq> []"
      and "end_mode (if ?e then Escaped else Inside) lit = Outside"
      and "marks (if ?e then Escaped else Inside) lit = replicate (length lit) False"
      and "parens (if ?e then Escaped else Inside) lit = []"
      by (cases e) auto
    with False show ?thesis by (intro exI [of _ "c # lit"]) (auto simp: is_mark_def split: if_splits)
  qed
qed simp

lemma skip_literal_unterminated:
  "skip_literal e n cs = Inl f \<Longrightarrow>
   f = Invalid_Argument ''Unterminated string literal'' \<and>
   end_mode (if e then Escaped else Inside) cs \<noteq> Outside"
  by (induction e n cs rule: skip_literal.induct) (auto split: if_splits)

context succinct_spec
begin

lemma build_json_Inr:
  "build_json S (nav, bp) s = Inr (nav', bp') \<Longrightarrow>
   closed s \<and> bits nav' = bits nav @ marks Outside s \<and> bits bp' = bits bp @ parens Outside s"
proof (induction s arbitrary: nav bp rule: measure_induct_rule [where f = length])
  case (less s)
  show ?case
  proof (cases s)
    case Nil
    with less.prems show ?thesis by simp
  next
    case (Cons c cs)
    show ?thesis
    proof (cases "c = quote")
      case True
      with Cons less.prems obtain k rest where sk: "skip_literal False 1 cs = Inr (k, rest)"
        and rec: "build_json S (bvb_zero_extend S nav (k + 1), bp) rest = Inr (nav', bp')"
        by (auto simp: bind_result_Inr)
      from skip_literal_automaton [OF sk] obtain lit where lit: "cs = lit @ rest" "k = length lit"
        "end_mode Inside lit = Outside" "marks Inside lit = replicate (length lit) False"
        "parens Inside lit = []" by auto
      from less.IH [OF _ rec] Cons lit True show ?thesis
        by (auto simp: closed_def bits_zero_extend is_mark_def replicate_append_same)
    next
      case False
      with Cons less.prems less.IH [of cs] show ?thesis
        by (auto simp: closed_def bits_push_back is_mark_def structural_def paren_pair_def
            split: if_splits)
    qed
  qed
qed

lemma build_json_Inl:
  "build_json S (nav, bp) s = Inl f \<Longrightarrow>
   f = Invalid_Argument ''Unterminated string literal'' \<and> \<not> closed s"
proof (induction s arbitrary: nav bp rule: measure_induct_rule [where f = length])
  case (less s)
  show ?case
  proof (cases s)
    case Nil
    with less.prems show ?thesis by simp
  next
    case (Cons c cs)
    show ?thesis
    proof (cases "c = quote")
      case quote: True
      show ?thesis
      proof (cases "skip_literal False 1 cs")
        case (Inl g)
        with quote Cons less.prems skip_literal_unterminated [OF Inl] show ?thesis
          by (auto simp: closed_def)
      next
        case (Inr r)
        then obtain k rest where sk: "skip_literal False 1 cs = Inr (k, rest)" by (cases r) auto
        with quote Cons less.prems
        have rec: "build_json S (bvb_zero_extend S nav (k + 1), bp) rest = Inl f" by simp
        from skip_literal_automaton [OF sk] obtain lit where "cs = lit @ rest"
          "end_mode Inside lit = Outside" by auto
        with less.IH [OF _ rec] quote Cons show ?thesis by (auto simp: closed_def)
      qed
    next
      case False
      with Cons less.prems less.IH [of cs] show ?thesis
        by (auto simp: closed_def split: if_splits)
    qed
  qed
qed

text \<open>The nested loops refine the automaton, on success and on failure.\<close>

lemma build_json_closed:
  assumes "closed s"
  obtains nav' bp' where "build_json S (nav, bp) s = Inr (nav', bp')"
    and "bits nav' = bits nav @ marks Outside s" and "bits bp' = bits bp @ parens Outside s"
proof (cases "build_json S (nav, bp) s")
  case (Inl f)
  from build_json_Inl [OF Inl] assms show thesis by simp
next
  case (Inr b)
  then have eq: "build_json S (nav, bp) s = Inr (fst b, snd b)" by simp
  from build_json_Inr [OF eq] show thesis by (intro that [OF eq]) simp_all
qed

lemma build_jsons_closed:
  assumes "\<forall>s \<in> set ss. closed s"
  shows "\<exists>nav' bp'. build_jsons S (nav, bp) ss = Inr (nav', bp') \<and>
    bits nav' = bits nav @ marks Outside (concat ss) \<and>
    bits bp' = bits bp @ parens Outside (concat ss)"
  using assms
proof (induction ss arbitrary: nav bp)
  case (Cons s ss)
  from Cons.prems have "closed s" and rest: "\<forall>s \<in> set ss. closed s" by auto
  obtain nav1 bp1 where one: "build_json S (nav, bp) s = Inr (nav1, bp1)"
    "bits nav1 = bits nav @ marks Outside s" "bits bp1 = bits bp @ parens Outside s"
    by (rule build_json_closed [OF \<open>closed s\<close>])
  from Cons.IH [OF rest, of nav1 bp1] one \<open>closed s\<close> show ?case
    by (auto simp: closed_def)
qed simp

lemma build_jsons_unclosed:
  assumes "\<exists>s \<in> set ss. \<not> closed s"
  shows "build_jsons S (nav, bp) ss = Inl (Invalid_Argument ''Unterminated string literal'')"
  using assms
proof (induction ss arbitrary: nav bp)
  case (Cons s ss)
  show ?case
  proof (cases "build_json S (nav, bp) s")
    case (Inl f)
    with build_json_Inl [OF Inl] show ?thesis by simp
  next
    case (Inr b)
    then obtain nav1 bp1 where one: "build_json S (nav, bp) s = Inr (nav1, bp1)"
      by (cases b) auto
    with build_json_Inr [OF one] Cons show ?thesis by auto
  qed
qed simp

text \<open>The index of a collection: both vectors come from builders that hold the automaton's bits.\<close>

lemma index_of_collection:
  assumes "\<forall>s \<in> set jsons. closed s"
  obtains nav bp where
    "json_semi_index_base S jsons =
       Inr \<lparr>m_nav = elias_fano S nav, m_bp = bp_vector S bp\<rparr>"
    and "bits nav = marks Outside (concat jsons)"
    and "bits bp = parens Outside (concat jsons)"
  using build_jsons_closed [OF assms, of "bvb_new S" "bvb_new S"] that
  by (auto simp: json_semi_index_base_def bits_new)

lemma index_unterminated:
  assumes "\<exists>s \<in> set jsons. \<not> closed s"
  shows "json_semi_index_base S jsons = Inl (Invalid_Argument ''Unterminated string literal'')"
  using build_jsons_unclosed [OF assms] by (simp add: json_semi_index_base_def)

end

text \<open>
  From here on texts are cut at structural characters with \<open>mode_simps\<close>; the automaton is
  unfolded character by character only on request (\<open>automaton_simps\<close>).
\<close>

lemmas automaton_simps =
  end_mode.simps marks.simps parens.simps end_mode_append marks_append parens_append
  closed_def structs_def is_mark_def

declare end_mode.simps [simp del] marks.simps [simp del] parens.simps [simp del]
  end_mode_append [simp del] marks_append [simp del] parens_append [simp del]

lemma parens_Nil [simp, mode_simps]: "parens m [] = []"
  by (simp add: parens.simps)

section \<open>Structural characters have positions\<close>

lemma structs_cut:
  "k < structs s \<Longrightarrow> \<exists>P c R. s = P @ c # R \<and> closed P \<and> structural c \<and> structs P = k"
proof (induction s arbitrary: k rule: rev_induct)
  case Nil
  then show ?case by (simp add: structs_Nil)
next
  case (snoc c s)
  show ?case
  proof (cases "k < structs s")
    case True
    from snoc.IH [OF this] obtain P d R where "s = P @ d # R" "closed P" "structural d" "structs P = k"
      by blast
    then show ?thesis by (intro exI [of _ P] exI [of _ d] exI [of _ "R @ [c]"]) simp
  next
    case False
    with snoc.prems have "structs (s @ [c]) \<noteq> structs s" and "structs s \<le> k" by auto
    then have "closed s" "structural c" and "structs (s @ [c]) = Suc (structs s)"
      by (auto simp: automaton_simps split: if_splits)
    with \<open>structs s \<le> k\<close> snoc.prems show ?thesis
      by (intro exI [of _ s] exI [of _ c] exI [of _ "[]"]) simp
  qed
qed

text \<open>The example document of the README.\<close>

definition readme_doc :: string where
  "readme_doc =
     ''{'' @ [quote] @ ''a'' @ [quote] @ '': 1, '' @ [quote] @ ''b'' @ [quote] @ '': {'' @
     [quote] @ ''l'' @ [quote] @ '': [1, null], '' @ [quote] @ ''v'' @ [quote] @ '': true}}''"

section \<open>Properties\<close>

text \<open>
  C31. On documents whose string literals are all terminated the constructor succeeds, and the
  two vectors it stores are built from exactly the bits of the one-pass automaton: one bit
  per character that marks the structural characters outside literals, and the two
  parentheses of each of them.
\<close>

theorem constructor_refines_automaton:
  assumes "succinct_spec S bits" and "list_all closed jsons"
  shows "\<exists>nav bp. json_semi_index_base S jsons =
      Inr \<lparr>m_nav = elias_fano S nav, m_bp = bp_vector S bp\<rparr> \<and>
    bits nav = marks Outside (concat jsons) \<and> bits bp = parens Outside (concat jsons)"
  using succinct_spec.index_of_collection [OF assms(1), of jsons] assms(2)
  by (metis list_all_iff)

theorem constructor_refines_automaton_witness:
  "\<exists>nav bp. json_semi_index_base list_succinct [readme_doc] =
      Inr \<lparr>m_nav = nav, m_bp = bp\<rparr> \<and>
    nav = map (\<lambda>c. c = CHR ''1'') ''100010010000101000101010000011000010000011'' \<and>
    bp = map (\<lambda>c. c = CHR ''('') ''(()()()((()((()()))()())))''"
proof -
  have "list_all closed [readme_doc]" by code_simp
  from constructor_refines_automaton [OF list_succ.succinct_spec_axioms this]
  have "json_semi_index_base list_succinct [readme_doc] =
      Inr \<lparr>m_nav = marks Outside readme_doc, m_bp = parens Outside readme_doc\<rparr>"
    by auto
  moreover have "marks Outside readme_doc =
      map (\<lambda>c. c = CHR ''1'') ''100010010000101000101010000011000010000011''"
    by code_simp
  moreover have "parens Outside readme_doc = map (\<lambda>c. c = CHR ''('') ''(()()()((()((()()))()())))''"
    by code_simp
  ultimately show ?thesis by simp
qed

text \<open>
  When some document ends inside a string literal the constructor throws
  \<^verbatim>\<open>std::invalid_argument("Unterminated string literal")\<close>, and builds no index.
\<close>

theorem constructor_unterminated:
  assumes "succinct_spec S bits" and "\<not> list_all closed jsons"
  shows "json_semi_index_base S jsons = Inl (Invalid_Argument ''Unterminated string literal'')"
  using succinct_spec.index_unterminated [OF assms(1), of jsons] assms(2)
  by (auto simp: list_all_iff)

theorem constructor_unterminated_witness:
  "json_semi_index_base list_succinct [''{}'', ''['' @ [quote, CHR ''a'', backslash, quote]] =
     Inl (Invalid_Argument ''Unterminated string literal'')"
  by (rule constructor_unterminated [OF list_succ.succinct_spec_axioms]) code_simp

text \<open>
  Selecting the \<open>k\<close>-th one of the navigation vector gives the position, in the
  concatenation of the documents, of a structural character outside literals that has exactly
  \<open>k\<close> structural characters before it.
\<close>

theorem nav_select_position:
  assumes "succinct_spec S bits" and "list_all closed jsons"
    and "json_semi_index_base S jsons = Inr ix" and "k < structs (concat jsons)"
  shows "\<exists>P c R. concat jsons = P @ c # R \<and> ef_select S (m_nav ix) k = length P \<and>
    structural c \<and> closed P \<and> structs P = k"
proof -
  from assms(2) have cl: "\<forall>s \<in> set jsons. closed s" by (simp add: list_all_iff)
  obtain nav bp where "json_semi_index_base S jsons =
      Inr \<lparr>m_nav = elias_fano S nav, m_bp = bp_vector S bp\<rparr>"
    and nav: "bits nav = marks Outside (concat jsons)"
    by (rule succinct_spec.index_of_collection [OF assms(1) cl])
  with assms(3) have ix: "m_nav ix = elias_fano S nav" by auto
  from structs_cut [OF assms(4)] obtain P c R where
    *: "concat jsons = P @ c # R" "closed P" "structural c" "structs P = k" by blast
  then have "marks Outside (concat jsons) = marks Outside P @ True # marks Outside R"
    by (auto simp: automaton_simps)
  with * have "ef_select S (m_nav ix) k = length P"
    using succinct_spec.select_law [OF assms(1), of nav "marks Outside P" _ k] nav
    by (simp add: ix structs_def)
  with * show ?thesis by blast
qed

theorem nav_select_position_witness:
  "\<exists>P c R. concat [readme_doc] = P @ c # R \<and>
     ef_select list_succinct (marks Outside readme_doc) 4 = length P \<and>
     structural c \<and> closed P \<and> structs P = 4"
proof -
  have "list_all closed [readme_doc]" "4 < structs (concat [readme_doc])" by code_simp+
  moreover have "json_semi_index_base list_succinct [readme_doc] =
      Inr \<lparr>m_nav = marks Outside readme_doc, m_bp = parens Outside readme_doc\<rparr>" by code_simp
  ultimately show ?thesis
    using nav_select_position [OF list_succ.succinct_spec_axioms, of "[readme_doc]"] by fastforce
qed

end
