(* ===== verification/Json_Tree.thy ===== *)
theory Json_Tree
  imports Semi_Index_Build
begin

text \<open>
  The abstract view of a document: a layout tree, which keeps the text of every part. An
  \<open>Atom\<close> is a text without structural characters outside literals (a string, number,
  \<^verbatim>\<open>true\<close>, \<^verbatim>\<open>null\<close>, with the whitespace around it); \<open>Arr\<close> and \<open>Obj\<close> carry the
  whitespace before and after them; a member of an object is the whitespace before its key,
  the key's literal body, the whitespace after it, and the value. \<open>json_text\<close> is the
  document, \<open>core_text\<close> the document without the outer whitespace of a container.

  \<open>wf_tree\<close> is the invariant of layout trees, \<open>spaced\<close> says that every member of an
  object but the first has whitespace before its key (the layout \<^verbatim>\<open>{"a": 1, "b": 2}\<close>), and
  \<open>child_index\<close>, \<open>child_key\<close> and \<open>lookup_path\<close> are the abstract navigation that the
  semi-index promises.
\<close>

section \<open>Paths\<close>

text \<open>\<^verbatim>\<open>path_element_t\<close> and \<^verbatim>\<open>path_t\<close> of \<^verbatim>\<open>semi_index/path_parser.hpp\<close>\<close>

datatype path_element = Key string | Index int

type_synonym path = "path_element list"
type_synonym path_list = "path list"

section \<open>Layout trees\<close>

datatype jtree =
    Atom string
  | Arr string "jtree list" string
  | Obj string "(string \<times> string \<times> string \<times> jtree) list" string

type_synonym member = "string \<times> string \<times> string \<times> jtree"

fun json_text :: "jtree \<Rightarrow> string"
  and elems_text :: "jtree list \<Rightarrow> string"
  and members_text :: "member list \<Rightarrow> string" where
  "json_text (Atom s) = s"
| "json_text (Arr p es q) = p @ CHR ''['' # elems_text es @ CHR '']'' # q"
| "json_text (Obj p ms q) = p @ CHR ''{'' # members_text ms @ CHR ''}'' # q"
| "elems_text [] = []"
| "elems_text (e # es) = json_text e @ (if es = [] then [] else CHR '','' # elems_text es)"
| "members_text [] = []"
| "members_text ((w, b, w', v) # ms) =
     w @ quote # b @ quote # w' @ CHR '':'' # json_text v @
     (if ms = [] then [] else CHR '','' # members_text ms)"

fun core_text :: "jtree \<Rightarrow> string" where
  "core_text (Atom s) = s"
| "core_text (Arr p es q) = CHR ''['' # elems_text es @ [CHR '']'']"
| "core_text (Obj p ms q) = CHR ''{'' # members_text ms @ [CHR ''}'']"

fun before :: "jtree \<Rightarrow> string" where
  "before (Atom s) = []"
| "before (Arr p es q) = p"
| "before (Obj p ms q) = p"

fun after :: "jtree \<Rightarrow> string" where
  "after (Atom s) = []"
| "after (Arr p es q) = q"
| "after (Obj p ms q) = q"

fun container :: "jtree \<Rightarrow> bool" where
  "container (Atom s) \<longleftrightarrow> False"
| "container t \<longleftrightarrow> True"

lemma json_text_core: "json_text t = before t @ core_text t @ after t"
  by (cases t) auto

section \<open>Well-formed layouts\<close>

definition gap :: "string \<Rightarrow> bool" where
  "gap s \<longleftrightarrow> list_all (\<lambda>c. c = CHR '' '' \<or> c = CHR 0x09 \<or> c = CHR 0x0A \<or> c = CHR 0x0D) s"

fun wf_tree :: "jtree \<Rightarrow> bool"
  and wf_elems :: "jtree list \<Rightarrow> bool"
  and wf_members :: "member list \<Rightarrow> bool" where
  "wf_tree (Atom s) \<longleftrightarrow> s \<noteq> [] \<and> closed s \<and> structs s = 0"
| "wf_tree (Arr p es q) \<longleftrightarrow> gap p \<and> gap q \<and> wf_elems es"
| "wf_tree (Obj p ms q) \<longleftrightarrow> gap p \<and> gap q \<and> wf_members ms"
| "wf_elems [] \<longleftrightarrow> True"
| "wf_elems (e # es) \<longleftrightarrow> wf_tree e \<and> wf_elems es"
| "wf_members [] \<longleftrightarrow> True"
| "wf_members ((w, b, w', v) # ms) \<longleftrightarrow>
     gap w \<and> literal_body b \<and> gap w' \<and> wf_tree v \<and> wf_members ms"

fun spaced :: "jtree \<Rightarrow> bool"
  and spaced_elems :: "jtree list \<Rightarrow> bool"
  and spaced_members :: "bool \<Rightarrow> member list \<Rightarrow> bool" where
  "spaced (Atom s) \<longleftrightarrow> True"
| "spaced (Arr p es q) \<longleftrightarrow> spaced_elems es"
| "spaced (Obj p ms q) \<longleftrightarrow> spaced_members True ms"
| "spaced_elems [] \<longleftrightarrow> True"
| "spaced_elems (e # es) \<longleftrightarrow> spaced e \<and> spaced_elems es"
| "spaced_members first [] \<longleftrightarrow> True"
| "spaced_members first ((w, b, w', v) # ms) \<longleftrightarrow>
     (first \<or> w \<noteq> []) \<and> spaced v \<and> spaced_members False ms"

lemma wf_elems_all: "wf_elems es \<longleftrightarrow> (\<forall>e \<in> set es. wf_tree e)"
  by (induction es) auto

lemma spaced_elems_all: "spaced_elems es \<longleftrightarrow> (\<forall>e \<in> set es. spaced e)"
  by (induction es) auto

lemma structs_zero_parens: "structs s = 0 \<longleftrightarrow> parens Outside s = []"
  using length_parens_structs [of s] by (metis length_0_conv mult_eq_0_iff zero_neq_numeral)

lemma gap_Nil [simp]: "gap []"
  by (simp add: gap_def)

lemma gap_Cons: "gap (c # s) \<longleftrightarrow> gap [c] \<and> gap s"
  by (simp add: gap_def)

lemma gap_no_quote: "gap s \<Longrightarrow> quote \<notin> set s"
  by (induction s) (auto simp: gap_def)

lemma gap_quiet [mode_simps]: "gap s \<Longrightarrow> closed s" "gap s \<Longrightarrow> structs s = 0"
  "gap s \<Longrightarrow> parens Outside s = []"
proof -
  have "closed s \<and> structs s = 0" if "gap s"
    using that
    by (induction s) (auto simp: gap_def automaton_simps structural_def)
  then show "gap s \<Longrightarrow> closed s" "gap s \<Longrightarrow> structs s = 0" "gap s \<Longrightarrow> parens Outside s = []"
    by (auto simp: structs_zero_parens)
qed

lemma literal_body_quiet:
  "literal_body b \<Longrightarrow> end_mode Inside b = Inside \<and> count_list (marks Inside b) True = 0"
  by (induction b rule: literal_body_induct) (auto simp: automaton_simps)

lemma literal_quiet [mode_simps]:
  assumes "literal_body b"
  shows "closed (quote # b @ quote # s) \<longleftrightarrow> closed s"
    and "structs (quote # b @ quote # s) = structs s"
    and "parens Outside (quote # b @ quote # s) = parens Outside s"
proof -
  note q = literal_body_quiet [OF assms]
  then show "closed (quote # b @ quote # s) \<longleftrightarrow> closed s"
    and "structs (quote # b @ quote # s) = structs s"
    by (auto simp: automaton_simps)
  have "parens Inside b = []" using q length_parens [of Inside b] by auto
  with q show "parens Outside (quote # b @ quote # s) = parens Outside s"
    by (auto simp: automaton_simps)
qed

text \<open>Every part of a well-formed layout is closed and its parentheses are balanced.\<close>

lemma layout_balanced:
  "wf_tree t \<Longrightarrow> closed (json_text t) \<and> balanced (parens Outside (json_text t))"
  "wf_elems es \<Longrightarrow> closed (elems_text es) \<and>
     balanced (True # parens Outside (elems_text es) @ [False])"
  "wf_members ms \<Longrightarrow> closed (members_text ms) \<and>
     balanced (True # parens Outside (members_text ms) @ [False])"
proof (induction t and es and ms rule: json_text_elems_text_members_text.induct)
  case (1 s)
  then show ?case by (simp add: structs_zero_parens)
next
  case (2 p es q)
  then have "balanced (True # (True # parens Outside (elems_text es) @ [False]) @ [False])"
    by (intro balanced_wrap [of "True # _"]) simp
  with 2 show ?case by (simp add: mode_simps)
next
  case (3 p ms q)
  then have "balanced (True # (True # parens Outside (members_text ms) @ [False]) @ [False])"
    by (intro balanced_wrap [of "True # _"]) simp
  with 3 show ?case by (simp add: mode_simps)
next
  case (5 e es)
  then have e: "closed (json_text e)" "balanced (parens Outside (json_text e))" by auto
  show ?case
  proof (cases "es = []")
    case True
    with e show ?thesis by auto
  next
    case False
    with 5 have "closed (elems_text es)" "balanced (True # parens Outside (elems_text es) @ [False])"
      by auto
    with e False balanced_node [OF e(2) this(2)] show ?thesis by (simp add: mode_simps)
  qed
next
  case (7 w b w' v ms)
  then have v: "closed (json_text v)" "balanced (parens Outside (json_text v))" by auto
  show ?case
  proof (cases "ms = []")
    case True
    with v 7 balanced_node [OF balanced_Nil balanced_wrap [OF v(2)]] show ?thesis
      by (simp add: mode_simps)
  next
    case False
    with 7 have ms: "closed (members_text ms)"
      "balanced (True # parens Outside (members_text ms) @ [False])"
      by auto
    with v False 7 balanced_node [OF balanced_Nil balanced_node [OF v(2) ms(2)]] show ?thesis
      by (simp add: mode_simps)
  qed
qed auto

lemmas tree_closed [tree_simps] = layout_balanced(1) [THEN conjunct1]
lemmas tree_balanced [tree_simps] = layout_balanced(1) [THEN conjunct2]
lemmas elems_closed [tree_simps] = layout_balanced(2) [THEN conjunct1]
lemmas members_closed [tree_simps] = layout_balanced(3) [THEN conjunct1]

lemma core_closed [tree_simps]: "wf_tree t \<Longrightarrow> closed (core_text t)"
  by (cases t) (auto simp: mode_simps tree_simps)

lemma before_gap [tree_simps]: "wf_tree t \<Longrightarrow> gap (before t)"
  by (cases t) auto

lemma after_gap [tree_simps]: "wf_tree t \<Longrightarrow> gap (after t)"
  by (cases t) auto

lemma core_parens: "wf_tree t \<Longrightarrow> parens Outside (json_text t) = parens Outside (core_text t)"
  by (simp add: json_text_core mode_simps tree_simps)

lemma core_balanced [tree_simps]: "wf_tree t \<Longrightarrow> balanced (parens Outside (core_text t))"
  using tree_balanced [of t] by (simp add: core_parens)

lemma collection_balanced:
  "\<forall>t \<in> set ts. wf_tree t \<Longrightarrow> balanced (parens Outside (concat (map json_text ts)))"
  by (induction ts) (auto simp: mode_simps tree_simps)

lemma collection_closed: "\<forall>t \<in> set ts. wf_tree t \<Longrightarrow> closed (concat (map json_text ts))"
  by (intro closed_concat) (auto simp: tree_simps)

section \<open>Abstract navigation\<close>

fun child_index :: "jtree \<Rightarrow> int \<Rightarrow> jtree option" where
  "child_index (Arr p es q) i =
     (if 0 \<le> i \<and> i < int (length es) then Some (es ! nat i)
      else if i < 0 \<and> - i \<le> int (length es) then Some (es ! nat (int (length es) + i))
      else None)"
| "child_index t i = None"

fun child_key :: "jtree \<Rightarrow> string \<Rightarrow> jtree option" where
  "child_key (Obj p ms q) k =
     map_option (\<lambda>(w, b, w', v). v) (find_first (\<lambda>(w, b, w', v). unescape b = k) ms)"
| "child_key t k = None"

fun lookup_path :: "jtree \<Rightarrow> path \<Rightarrow> jtree option" where
  "lookup_path t [] = Some t"
| "lookup_path t (Key k # p) =
     (case child_key t k of None \<Rightarrow> None | Some u \<Rightarrow> lookup_path u p)"
| "lookup_path t (Index i # p) =
     (case child_index t i of None \<Rightarrow> None | Some u \<Rightarrow> lookup_path u p)"

lemma members_wf: "wf_members ms \<Longrightarrow> (w, b, w', v) \<in> set ms \<Longrightarrow> wf_tree v"
  by (induction ms) auto

lemma members_spaced: "spaced_members first ms \<Longrightarrow> (w, b, w', v) \<in> set ms \<Longrightarrow> spaced v"
  by (induction ms arbitrary: first) auto

lemma child_index_member: "child_index t i = Some u \<Longrightarrow> \<exists>p es q. t = Arr p es q \<and> u \<in> set es"
  by (cases t) (auto split: if_splits)

lemma child_key_member:
  "child_key t k = Some u \<Longrightarrow> \<exists>p ms q w b w'. t = Obj p ms q \<and> (w, b, w', u) \<in> set ms \<and> unescape b = k"
  by (cases t) (auto dest!: find_first_SomeD)

lemma child_index_wf: "wf_tree t \<Longrightarrow> child_index t i = Some u \<Longrightarrow> wf_tree u"
  by (auto dest!: child_index_member simp: wf_elems_all)

lemma child_index_spaced: "spaced t \<Longrightarrow> child_index t i = Some u \<Longrightarrow> spaced u"
  by (auto dest!: child_index_member simp: spaced_elems_all)

lemma child_key_wf: "wf_tree t \<Longrightarrow> child_key t k = Some u \<Longrightarrow> wf_tree u"
  by (auto dest!: child_key_member members_wf)

lemma child_key_spaced: "spaced t \<Longrightarrow> child_key t k = Some u \<Longrightarrow> spaced u"
  by (auto dest!: child_key_member members_spaced)

section \<open>Properties\<close>

text \<open>
  C33. The parentheses stored for a collection of well-formed documents are balanced: no
  prefix closes more than it opens, and all are closed at the end (what the unit test
  \<^verbatim>\<open>test_balanced\<close> checks on two documents).
\<close>

theorem constructor_balanced:
  assumes "succinct_spec S bits" and "list_all wf_tree ts"
  shows "\<exists>nav bp. json_semi_index_base S (map json_text ts) =
      Inr \<lparr>m_nav = elias_fano S nav, m_bp = bp_vector S bp\<rparr> \<and>
    excess (bits bp) = 0 \<and> (\<forall>k. 0 \<le> excess (take k (bits bp)))"
proof -
  have "\<forall>s \<in> set (map json_text ts). closed s"
    using assms(2) by (auto simp: list_all_iff tree_simps)
  then obtain nav bp where ix: "json_semi_index_base S (map json_text ts) =
      Inr \<lparr>m_nav = elias_fano S nav, m_bp = bp_vector S bp\<rparr>"
    and bp: "bits bp = parens Outside (concat (map json_text ts))"
    by (rule succinct_spec.index_of_collection [OF assms(1)])
  have "balanced (bits bp)"
    unfolding bp using assms(2) by (intro collection_balanced) (simp add: list_all_iff)
  with ix balanced_excess balanced_excess_prefix [OF _ append_take_drop_id [symmetric]]
  show ?thesis by blast
qed

definition small_docs :: "jtree list" where
  "small_docs =
     [Obj [] [([], ''a'', [], Atom '' 1''),
              ('' '', ''b'', [], Arr '' '' [Atom ''7'', Atom '' 8''] [])] [CHR 0x0A],
      Arr [] [] [CHR 0x0A]]"

theorem constructor_balanced_witness:
  "\<exists>nav bp. json_semi_index_base list_succinct (map json_text small_docs) =
      Inr \<lparr>m_nav = nav, m_bp = bp\<rparr> \<and>
    length bp = 20 \<and> excess bp = 0 \<and> (\<forall>k. 0 \<le> excess (take k bp))"
proof -
  have "list_all wf_tree small_docs" by code_simp
  from constructor_balanced [OF list_succ.succinct_spec_axioms this] obtain nav bp where
    *: "json_semi_index_base list_succinct (map json_text small_docs) =
       Inr \<lparr>m_nav = nav, m_bp = bp\<rparr>" "excess bp = 0" "\<forall>k. 0 \<le> excess (take k bp)"
    by auto
  have "(case json_semi_index_base list_succinct (map json_text small_docs) of
      Inl _ \<Rightarrow> 0 | Inr ix \<Rightarrow> length (m_bp ix)) = 20" by code_simp
  with * show ?thesis by simp
qed

end
