(* ===== verification/Semi_Index_Nav.thy ===== *)
theory Semi_Index_Nav
  imports Json_Tree
begin

text \<open>
  Navigation in the semi-index: the protected operations of \<^verbatim>\<open>json_semi_index_base\<close>
  (\<^verbatim>\<open>get_pos\<close>, \<^verbatim>\<open>FindEnd\<close>, \<^verbatim>\<open>check_key\<close>, \<^verbatim>\<open>get_array_child\<close>, \<^verbatim>\<open>get_object_child\<close>
  in \<^verbatim>\<open>semi_index/json_semi_index.hpp\<close>). A \<^verbatim>\<open>bool\<close> result with the out-parameter
  \<^verbatim>\<open>child_node\<close> is an option. The \<^verbatim>\<open>while (true)\<close> loops move along the parentheses with
  the library's \<^verbatim>\<open>find_close\<close> and \<^verbatim>\<open>find_open\<close>; nothing in the code bounds them, so they
  are partial functions whose value \<open>None\<close> is non-termination.

  The lemmas cut the text of the collection at structural characters: the node of the
  element that follows the separator at \<open>P @ c # _\<close> is \<open>2 * structs P + 1\<close>, the node of
  the container that opens there is \<open>2 * structs P\<close>, and each step of a loop moves to the
  next separator. \<open>child_at\<close> relates a node number to the subtree at its place.
\<close>

section \<open>Operations\<close>

definition get_pos ::
  "('bvb, 'ef, 'bp) succinct \<Rightarrow> ('ef, 'bp) json_semi_index \<Rightarrow> nat \<Rightarrow> nat \<Rightarrow> nat" where
  "get_pos S ix node offset =
     sub_size (ef_select S (m_nav ix) (node div 2) + node mod 2) offset"

definition FindEnd ::
  "('bvb, 'ef, 'bp) succinct \<Rightarrow> ('ef, 'bp) json_semi_index \<Rightarrow> nat \<Rightarrow> nat \<Rightarrow> nat" where
  "FindEnd S ix node offset =
     (let closer = bp_find_close S (m_bp ix) node
      in sub_size (ef_select S (m_nav ix) (closer div 2) + (1 - node mod 2)) offset)"

text \<open>\<^verbatim>\<open>check_key\<close>: first \<^verbatim>\<open>while (*it++ != '"');\<close>, then the comparison loop.\<close>

fun skip_to_quote :: "string \<Rightarrow> string result" where
  "skip_to_quote [] = Inl Out_Of_Bounds"
| "skip_to_quote (c # cs) = (if c = quote then Inr cs else skip_to_quote cs)"

fun match_key :: "string \<Rightarrow> string \<Rightarrow> bool result" where
  "match_key [] it = (case it of [] \<Rightarrow> Inl Out_Of_Bounds | c # cs \<Rightarrow> Inr (c = quote))"
| "match_key (k # ks) it =
     (case it of
        [] \<Rightarrow> Inl Out_Of_Bounds
      | c # cs \<Rightarrow>
          (if c = backslash then
             (case cs of
                [] \<Rightarrow> Inl Out_Of_Bounds
              | d # ds \<Rightarrow> if unescape_char d \<noteq> k then Inr False else match_key ks ds)
           else if c \<noteq> k then Inr False
           else match_key ks cs))"

definition check_key :: "string \<Rightarrow> string \<Rightarrow> nat \<Rightarrow> bool result" where
  "check_key json key pos = bind_result (skip_to_quote (drop pos json)) (match_key key)"

partial_function (option) object_loop ::
  "('bvb, 'ef, 'bp) succinct \<Rightarrow> ('ef, 'bp) json_semi_index \<Rightarrow> string \<Rightarrow> string \<Rightarrow> nat \<Rightarrow>
   nat \<Rightarrow> nat \<Rightarrow> nat option outcome" where
  "object_loop S ix json key offset cur_node cur_node_pos =
     (if \<not> bp_get S (m_bp ix) cur_node then Some (Inr None)
      else
        let cur_node_end = bp_find_close S (m_bp ix) cur_node;
            cur_node_val_begin = cur_node_end + 1
        in (case check_key json key cur_node_pos of
              Inl e \<Rightarrow> Some (Inl e)
            | Inr found \<Rightarrow>
                (if found then Some (Inr (Some cur_node_val_begin))
                 else
                   let cur_node_val_end = bp_find_close S (m_bp ix) cur_node_val_begin;
                       next_node = cur_node_val_end + 1
                   in object_loop S ix json key offset next_node
                        (get_pos S ix next_node offset + 1))))"

definition get_object_child ::
  "('bvb, 'ef, 'bp) succinct \<Rightarrow> ('ef, 'bp) json_semi_index \<Rightarrow> string \<Rightarrow> nat \<Rightarrow> nat \<Rightarrow>
   string \<Rightarrow> nat option outcome" where
  "get_object_child S ix json node0 offset key =
     (let node = node0 + node0 mod 2;
          opening_pos = get_pos S ix node offset
      in case deref json opening_pos of
           Inl e \<Rightarrow> Some (Inl e)
         | Inr c \<Rightarrow>
             (if c \<noteq> CHR ''{'' then Some (Inr None)
              else case deref json (opening_pos + 1) of
                     Inl e \<Rightarrow> Some (Inl e)
                   | Inr d \<Rightarrow>
                       (if d = CHR ''}'' then Some (Inr None)
                        else object_loop S ix json key offset (node + 1) (opening_pos + 1))))"

partial_function (option) array_loop_forward ::
  "('bvb, 'ef, 'bp) succinct \<Rightarrow> ('ef, 'bp) json_semi_index \<Rightarrow> int \<Rightarrow> int \<Rightarrow> nat \<Rightarrow>
   nat option outcome" where
  "array_loop_forward S ix idx i cur_node =
     (if \<not> bp_get S (m_bp ix) cur_node then Some (Inr None)
      else if i = idx then Some (Inr (Some cur_node))
      else array_loop_forward S ix idx (i + 1) (bp_find_close S (m_bp ix) cur_node + 1))"

partial_function (option) array_loop_backward ::
  "('bvb, 'ef, 'bp) succinct \<Rightarrow> ('ef, 'bp) json_semi_index \<Rightarrow> int \<Rightarrow> int \<Rightarrow> nat \<Rightarrow>
   nat option outcome" where
  "array_loop_backward S ix idx i cur_node =
     (if bp_get S (m_bp ix) cur_node then Some (Inr None)
      else if i = - idx - 1 then Some (Inr (Some (bp_find_open S (m_bp ix) cur_node)))
      else array_loop_backward S ix idx (i + 1) (sub_size (bp_find_open S (m_bp ix) cur_node) 1))"

definition get_array_child ::
  "('bvb, 'ef, 'bp) succinct \<Rightarrow> ('ef, 'bp) json_semi_index \<Rightarrow> string \<Rightarrow> nat \<Rightarrow> nat \<Rightarrow>
   int \<Rightarrow> nat option outcome" where
  "get_array_child S ix json node0 offset idx =
     (let node = node0 + node0 mod 2;
          opening_pos = get_pos S ix node offset
      in case deref json opening_pos of
           Inl e \<Rightarrow> Some (Inl e)
         | Inr c \<Rightarrow>
             (if c \<noteq> CHR ''['' then Some (Inr None)
              else case deref json (opening_pos + 1) of
                     Inl e \<Rightarrow> Some (Inl e)
                   | Inr d \<Rightarrow>
                       (if d = CHR '']'' then Some (Inr None)
                        else if idx \<ge> 0 then array_loop_forward S ix idx 0 (node + 1)
                        else array_loop_backward S ix idx 0
                               (sub_size (bp_find_close S (m_bp ix) node) 1))))"

declare object_loop.simps [code] array_loop_forward.simps [code] array_loop_backward.simps [code]

definition tree_size ::
  "('bvb, 'ef, 'bp) succinct \<Rightarrow> ('ef, 'bp) json_semi_index \<Rightarrow> nat" where
  "tree_size S ix = bp_size S (m_bp ix)"

section \<open>Key comparison\<close>

lemma skip_to_quote_gap: "quote \<notin> set w \<Longrightarrow> skip_to_quote (w @ quote # s) = Inr s"
  by (induction w) auto

lemma match_key_literal:
  "literal_body b \<Longrightarrow> quote \<notin> set key \<Longrightarrow> match_key key (b @ quote # s) = Inr (unescape b = key)"
proof (induction b arbitrary: key rule: literal_body_induct)
  case Nil
  then show ?case by (cases key) auto
next
  case (Escape d ds)
  then show ?case by (cases key) auto
next
  case (Plain c cs)
  then show ?case by (cases key) auto
qed

lemma match_key_complete: "literal_body b \<Longrightarrow> match_key (unescape b) (b @ quote # s) = Inr True"
  by (induction b rule: literal_body_induct) auto

lemma check_key_literal:
  assumes "quote \<notin> set w" and "literal_body b" and "quote \<notin> set key"
  shows "check_key (pre @ w @ quote # b @ quote # s) key (length pre) = Inr (unescape b = key)"
  using assms by (simp add: check_key_def skip_to_quote_gap match_key_literal)

section \<open>Separators and nodes\<close>

definition opens :: "char \<Rightarrow> bool" where
  "opens c \<longleftrightarrow> c \<in> set ''[{,:''"

definition closes :: "char \<Rightarrow> bool" where
  "closes c \<longleftrightarrow> c \<in> set '']},:''"

lemma opens_simps [simp]:
  "opens (CHR ''['')" "opens (CHR ''{'')" "opens (CHR '','')" "opens (CHR '':'')"
  by (simp_all add: opens_def)

lemma closes_simps [simp]:
  "closes (CHR '']'')" "closes (CHR ''}'')" "closes (CHR '','')" "closes (CHR '':'')"
  by (simp_all add: closes_def)

lemma opens_structural [simp]: "opens c \<Longrightarrow> structural c"
  by (auto simp: opens_def structural_def)

lemma closes_structural [simp]: "closes c \<Longrightarrow> structural c"
  by (auto simp: closes_def structural_def)

lemma opens_pair: "opens c \<Longrightarrow> \<exists>b. paren_pair c = [b, True]"
  by (auto simp: opens_def)

lemma closes_pair: "closes c \<Longrightarrow> \<exists>b. paren_pair c = [False, b]"
  by (auto simp: closes_def)

definition indexes ::
  "('bvb, 'ef, 'bp) succinct \<Rightarrow> ('bvb \<Rightarrow> bool list) \<Rightarrow> ('ef, 'bp) json_semi_index \<Rightarrow>
   string \<Rightarrow> bool" where
  "indexes S bits ix D \<longleftrightarrow>
     (\<exists>nav bp. ix = \<lparr>m_nav = elias_fano S nav, m_bp = bp_vector S bp\<rparr> \<and>
        bits nav = marks Outside D \<and> bits bp = parens Outside D \<and>
        balanced (parens Outside D))"

lemma marks_cut:
  assumes "closed P" and "structural c"
  shows "marks Outside (P @ c # R) = marks Outside P @ True # marks Outside R"
  using assms by (auto simp: automaton_simps)

context succinct_spec
begin

lemma select_at:
  assumes "indexes S bits ix D" and "D = P @ c # R" and "closed P" and "structural c"
  shows "ef_select S (m_nav ix) (structs P) = length P"
proof -
  from assms(1) obtain nav bp where "m_nav ix = elias_fano S nav" "bits nav = marks Outside D"
    by (auto simp: indexes_def)
  with assms select_law [of nav "marks Outside P" "marks Outside R" "structs P"] show ?thesis
    by (simp add: marks_cut structs_def)
qed

lemma bp_at:
  assumes "indexes S bits ix D" and "D = P @ c # R" and "closed P" and "structural c"
  shows "bp_get S (m_bp ix) (2 * structs P) = paren_pair c ! 0"
    and "bp_get S (m_bp ix) (2 * structs P + 1) = paren_pair c ! 1"
proof -
  from assms(1) obtain bp where bp: "m_bp ix = bp_vector S bp" "bits bp = parens Outside D"
    by (auto simp: indexes_def)
  from assms(2-4) have D: "parens Outside D = parens Outside P @ paren_pair c @ parens Outside R"
    by (simp add: mode_simps)
  have len: "length (parens Outside P) = 2 * structs P" by (rule length_parens_structs)
  from bp D len show "bp_get S (m_bp ix) (2 * structs P) = paren_pair c ! 0"
    by (subst bp(1), subst get_law) (simp_all add: nth_append)
  from bp D len show "bp_get S (m_bp ix) (2 * structs P + 1) = paren_pair c ! 1"
    by (subst bp(1), subst get_law) (simp_all add: nth_append)
qed

lemma bp_open:
  assumes "indexes S bits ix D" and "D = P @ c # R" and "closed P" and "opens c"
  shows "bp_get S (m_bp ix) (Suc (2 * structs P))"
  using bp_at(2) [OF assms(1-3)] opens_pair [OF assms(4)] assms(4) by auto

lemma bp_close:
  assumes "indexes S bits ix D" and "D = P @ c # R" and "closed P" and "closes c"
  shows "\<not> bp_get S (m_bp ix) (2 * structs P)"
  using bp_at(1) [OF assms(1-3)] closes_pair [OF assms(4)] assms(4) by auto

text \<open>The parentheses of an element between two separators, and of a container.\<close>

lemma child_match:
  assumes ix: "indexes S bits ix D" and D: "D = P @ c # M @ d # R" and "closed P" "opens c"
    and "closed M" "balanced (parens Outside M)" "closes d"
  shows "bp_find_close S (m_bp ix) (Suc (2 * structs P)) = 2 * structs (P @ c # M)"
    and "bp_find_open S (m_bp ix) (2 * structs (P @ c # M)) = Suc (2 * structs P)"
proof -
  from ix obtain bp where bp: "m_bp ix = bp_vector S bp" "bits bp = parens Outside D"
    "balanced (bits bp)" by (auto simp: indexes_def)
  from assms obtain b b' where "paren_pair c = [b, True]" "paren_pair d = [False, b']"
    by (meson opens_pair closes_pair)
  with bp assms have eq: "bits bp = (parens Outside P @ [b]) @ True # parens Outside M @
      False # (b' # parens Outside R)"
    by (simp add: mode_simps)
  from assms have len: "2 * structs (P @ c # M) = length (parens Outside P @ [b]) + 1 +
      length (parens Outside M)"
    by (simp add: mode_simps)
  have len': "Suc (2 * structs P) = length (parens Outside P @ [b])"
    by (simp add: mode_simps)
  show "bp_find_close S (m_bp ix) (Suc (2 * structs P)) = 2 * structs (P @ c # M)"
    using find_close_law [OF bp(3) eq assms(6) len'] bp(1) len by simp
  show "bp_find_open S (m_bp ix) (2 * structs (P @ c # M)) = Suc (2 * structs P)"
    using find_open_law [OF bp(3) eq assms(6) len] bp(1) len' by simp
qed

lemma container_match:
  assumes ix: "indexes S bits ix D" and D: "D = P @ c # M @ d # R" and "closed P"
    and "c = CHR ''['' \<and> d = CHR '']'' \<or> c = CHR ''{'' \<and> d = CHR ''}''"
    and "closed M" "balanced (True # parens Outside M @ [False])"
  shows "bp_find_close S (m_bp ix) (2 * structs P) = Suc (2 * structs (P @ c # M))"
proof -
  from ix obtain bp where bp: "m_bp ix = bp_vector S bp" "bits bp = parens Outside D"
    "balanced (bits bp)" by (auto simp: indexes_def)
  from bp assms have eq: "bits bp = parens Outside P @ True # (True # parens Outside M @ [False]) @
      False # parens Outside R"
    by (auto simp: mode_simps)
  from find_close_law [OF bp(3) eq assms(6), of "2 * structs P"] bp(1) assms(3,4) show ?thesis
    by (auto simp: mode_simps)
qed

lemma tree_size_indexes: "indexes S bits ix D \<Longrightarrow> tree_size S ix = 2 * structs D"
  by (auto simp: indexes_def tree_size_def size_law length_parens_structs)

end

section \<open>Properties\<close>

text \<open>
  C38. At the start of a member of an object (whitespace, then the key's literal),
  \<^verbatim>\<open>check_key\<close> answers whether the literal denotes the given key, escapes included, provided
  the given key contains no quote. It never reads past the literal's closing quote.
\<close>

theorem check_key_decides:
  assumes "gap w" and "literal_body b" and "quote \<notin> set key"
  shows "check_key (pre @ w @ quote # b @ [quote]) key (length pre) = Inr (unescape b = key)"
  using check_key_literal [OF gap_no_quote [OF assms(1)] assms(2,3), of pre "[]"] by simp

theorem check_key_decides_witness:
  "check_key (''{'' @ '' '' @ quote # [CHR ''a'', backslash, CHR ''n''] @ [quote]) ''a'' (length ''{'')
     = Inr False \<and>
   check_key (''{'' @ '' '' @ quote # [CHR ''a'', backslash, CHR ''n''] @ [quote])
     [CHR ''a'', CHR 0x0A] (length ''{'') = Inr True"
proof -
  have hyps: "gap '' ''" "literal_body [CHR ''a'', backslash, CHR ''n'']"
    "quote \<notin> set ''a''" "quote \<notin> set [CHR ''a'', CHR 0x0A]" by code_simp+
  have "unescape [CHR ''a'', backslash, CHR ''n''] = [CHR ''a'', CHR 0x0A]" by code_simp
  with check_key_decides [OF hyps(1,2,3), of "''{''"] check_key_decides [OF hyps(1,2,4), of "''{''"]
  show ?thesis by simp
qed

text \<open>
  A key that contains a quote can match where it should not: the comparison runs over the
  closing quote of the literal. On the member \<^verbatim>\<open>"a":"x"\<close> the key \<^verbatim>\<open>a":\<close> is accepted,
  although the literal denotes \<^verbatim>\<open>a\<close>.
\<close>

theorem check_key_runs_over_quote:
  "check_key ([quote] @ ''a'' @ [quote] @ '':'' @ [quote] @ ''x'' @ [quote])
     (''a'' @ [quote] @ '':'') 0 = Inr True \<and> unescape ''a'' \<noteq> ''a'' @ [quote] @ '':''"
  by code_simp

end
