(* ===== verification/Semi_Index_Children.thy ===== *)
theory Semi_Index_Children
  imports Semi_Index_Nav
begin

text \<open>
  Correctness of the child navigation: in a collection \<open>P0 @ doc @ R0\<close>, with the iterator
  at \<open>doc\<close> (so that the offset is \<open>length P0\<close>), the loops of \<^verbatim>\<open>get_array_child\<close> and
  \<^verbatim>\<open>get_object_child\<close> return, and return the node of the abstract child.

  \<open>child_at P0 doc n t\<close>: node \<open>n\<close> is the element \<open>t\<close> of \<open>doc\<close> between two
  separators. \<open>container_at P0 doc n t\<close>: the even node \<open>n\<close> is the container \<open>t\<close>.
\<close>

definition child_at :: "string \<Rightarrow> string \<Rightarrow> nat \<Rightarrow> jtree \<Rightarrow> bool" where
  "child_at P0 doc n t \<longleftrightarrow>
     (\<exists>Q c d R. doc = Q @ c # json_text t @ d # R \<and> closed Q \<and> opens c \<and> closes d \<and>
        n = Suc (2 * structs (P0 @ Q)))"

definition container_at :: "string \<Rightarrow> string \<Rightarrow> nat \<Rightarrow> jtree \<Rightarrow> bool" where
  "container_at P0 doc n t \<longleftrightarrow>
     (\<exists>Q R. doc = Q @ core_text t @ R \<and> closed Q \<and> container t \<and> n = 2 * structs (P0 @ Q))"

lemma child_atI:
  "doc = Q @ c # json_text t @ d # R \<Longrightarrow> closed Q \<Longrightarrow> opens c \<Longrightarrow> closes d \<Longrightarrow>
   child_at P0 doc (Suc (2 * structs (P0 @ Q))) t"
  by (auto simp: child_at_def)

lemma elems_text_snoc:
  "elems_text (es @ [e]) =
     (if es = [] then json_text e else elems_text es @ CHR '','' # json_text e)"
  by (induction es) auto

lemma check_key_member:
  assumes "gap w" and "literal_body b" and "quote \<notin> set key" and "first \<or> w \<noteq> []"
    and "txt = Q @ c # w @ quote # b @ quote # s"
  shows "check_key txt key (Suc (length Q) + (if first then 0 else 1)) = Inr (unescape b = key)"
proof (cases first)
  case True
  then show ?thesis
    using check_key_literal [OF gap_no_quote [OF assms(1)] assms(2,3), of "Q @ [c]" s] assms(5)
    by simp
next
  case False
  with assms(4) obtain x y where w: "w = x # y" by (cases w) auto
  then have "quote \<notin> set y" using gap_no_quote [OF assms(1)] by simp
  from check_key_literal [OF this assms(2,3), of "Q @ [c, x]" s] w False assms(5) show ?thesis
    by simp
qed

lemma container_at_even: "container_at P0 doc n t \<Longrightarrow> n mod 2 = 0"
  by (auto simp: container_at_def)

text \<open>Rounding the node of an element up to even gives its container, or the next separator.\<close>

lemma child_at_round:
  assumes "child_at P0 doc n t" and "closed P0" and "wf_tree t"
  shows "if container t then container_at P0 doc (n + n mod 2) t
    else \<exists>Q d R. doc = Q @ d # R \<and> closed Q \<and> closes d \<and> n + n mod 2 = 2 * structs (P0 @ Q)"
proof -
  from assms(1) obtain Q c d R where doc: "doc = Q @ c # json_text t @ d # R" and Q: "closed Q"
    and cd: "opens c" "closes d" and n: "n = Suc (2 * structs (P0 @ Q))"
    by (auto simp: child_at_def)
  have "n mod 2 = 1" unfolding n by presburger
  then have n2: "n + n mod 2 = 2 * Suc (structs (P0 @ Q))" using n by simp
  show ?thesis
  proof (cases "container t")
    case True
    let ?Q' = "Q @ c # before t"
    have "doc = ?Q' @ core_text t @ (after t @ d # R)"
      using doc by (simp add: json_text_core)
    moreover have "closed ?Q'" "structs (P0 @ ?Q') = Suc (structs (P0 @ Q))"
      using Q cd assms(2,3) before_gap [OF assms(3)] by (simp_all add: mode_simps)
    ultimately have "container_at P0 doc (n + n mod 2) t"
      using True n2 unfolding container_at_def by metis
    with True show ?thesis by simp
  next
    case False
    then obtain a where t: "t = Atom a" by (cases t) auto
    let ?Q' = "Q @ c # a"
    have "doc = ?Q' @ d # R" "closed ?Q'" "structs (P0 @ ?Q') = Suc (structs (P0 @ Q))"
      using doc t Q cd assms(2,3) by (simp_all add: mode_simps)
    with False n2 cd show ?thesis by (metis (no_types, lifting))
  qed
qed

lemma json_text_first:
  assumes "wf_tree t"
  obtains c cs where "json_text t = c # cs" and "c \<noteq> CHR '']''" and "c \<noteq> CHR ''}''"
proof (cases "json_text t")
  case Nil
  with assms show thesis by (cases t) auto
next
  case (Cons c cs)
  have "c \<noteq> CHR '']'' \<and> c \<noteq> CHR ''}''"
  proof (cases t)
    case (Atom s)
    with Cons assms have "structs (c # cs) = 0" by auto
    then have "\<not> structural c" by (auto simp: structs_structural)
    then show ?thesis by (auto simp: structural_def)
  next
    case (Arr p es q)
    with Cons assms show ?thesis by (cases p) (auto simp: gap_def)
  next
    case (Obj p ms q)
    with Cons assms show ?thesis by (cases p) (auto simp: gap_def)
  qed
  with Cons that show thesis by blast
qed

lemma members_text_first:
  assumes "wf_members ms" and "ms \<noteq> []"
  obtains c cs where "members_text ms = c # cs" and "c \<noteq> CHR ''}''"
proof -
  obtain w b w' v ms' where ms: "ms = (w, b, w', v) # ms'" using assms(2) by (cases ms) auto
  show thesis
  proof (cases w)
    case Nil
    with ms that show thesis by simp
  next
    case (Cons x xs)
    with ms assms(1) have "x \<noteq> CHR ''}''" by (auto simp: gap_def)
    with ms Cons that show thesis by simp
  qed
qed

context succinct_spec
begin

text \<open>
  One step of each loop, at an element (or a member) between the separators \<open>c\<close> and \<open>d\<close>.
\<close>

lemma element_step:
  assumes ix: "indexes S bits ix (P0 @ doc @ R0)" and P0: "closed P0"
    and doc: "doc = Q @ c # json_text e @ d # R" and Q: "closed Q" and c: "opens c"
    and d: "closes d" and wf: "wf_tree e"
  shows "bp_get S (m_bp ix) (Suc (2 * structs (P0 @ Q)))"
    and "bp_find_close S (m_bp ix) (Suc (2 * structs (P0 @ Q))) = 2 * structs (P0 @ Q @ c # json_text e)"
    and "\<not> bp_get S (m_bp ix) (2 * structs (P0 @ Q @ c # json_text e))"
    and "bp_find_open S (m_bp ix) (2 * structs (P0 @ Q @ c # json_text e)) = Suc (2 * structs (P0 @ Q))"
    and "closed (Q @ c # json_text e)"
    and "child_at P0 doc (Suc (2 * structs (P0 @ Q))) e"
proof -
  have P: "closed (P0 @ Q)" using P0 Q by (simp add: closed_append)
  show Q': "closed (Q @ c # json_text e)"
    using Q c wf by (simp add: closed_append closed_structural tree_simps)
  show "bp_get S (m_bp ix) (Suc (2 * structs (P0 @ Q)))"
    by (rule bp_open [OF ix _ P c]) (simp add: doc)
  show "\<not> bp_get S (m_bp ix) (2 * structs (P0 @ Q @ c # json_text e))"
    using bp_close [OF ix, of "P0 @ Q @ c # json_text e" d "R @ R0"] doc d P0 Q'
    by (simp add: closed_append)
  show "bp_find_close S (m_bp ix) (Suc (2 * structs (P0 @ Q))) = 2 * structs (P0 @ Q @ c # json_text e)"
    "bp_find_open S (m_bp ix) (2 * structs (P0 @ Q @ c # json_text e)) = Suc (2 * structs (P0 @ Q))"
    using child_match [OF ix _ P c _ _ d, of "json_text e" "R @ R0"] wf by (simp_all add: doc tree_simps)
  show "child_at P0 doc (Suc (2 * structs (P0 @ Q))) e" by (rule child_atI [OF doc Q c d])
qed

lemma array_loop_forward_correct:
  assumes ix: "indexes S bits ix (P0 @ doc @ R0)" and P0: "closed P0"
    and "doc = Q @ c # elems_text es @ CHR '']'' # R" and "closed Q" and "opens c"
    and "es \<noteq> []" and "wf_elems es" and "i \<le> idx"
  shows "\<exists>r. array_loop_forward S ix idx i (Suc (2 * structs (P0 @ Q))) = Some (Inr r) \<and>
    (case r of None \<Rightarrow> length es \<le> nat (idx - i)
     | Some n \<Rightarrow> nat (idx - i) < length es \<and> child_at P0 doc n (es ! nat (idx - i)))"
  using assms(3-)
proof (induction es arbitrary: Q c i)
  case (Cons e es)
  let ?d = "if es = [] then CHR '']'' else CHR '',''"
  let ?R = "if es = [] then R else elems_text es @ CHR '']'' # R"
  let ?Q' = "Q @ c # json_text e"
  have doc: "doc = Q @ c # json_text e @ ?d # ?R" and d: "closes ?d" using Cons.prems(1) by auto
  have wf: "wf_tree e" "wf_elems es" using Cons.prems by auto
  note step = element_step [OF ix P0 doc Cons.prems(2,3) d wf(1)]
  show ?case
  proof (cases "i = idx")
    case True
    then show ?thesis using step(1,6) by (subst array_loop_forward.simps) simp
  next
    case neq: False
    have more: "array_loop_forward S ix idx i (Suc (2 * structs (P0 @ Q))) =
        array_loop_forward S ix idx (i + 1) (Suc (2 * structs (P0 @ ?Q')))"
      using step(1,2) neq by (subst array_loop_forward.simps) simp
    show ?thesis
    proof (cases "es = []")
      case True
      have "\<not> bp_get S (m_bp ix) (Suc (2 * structs (P0 @ ?Q')))"
        using bp_at(2) [OF ix, of "P0 @ ?Q'" "CHR '']''" "R @ R0"] P0 step(5) True doc
        by (simp add: closed_append)
      then have "array_loop_forward S ix idx (i + 1) (Suc (2 * structs (P0 @ ?Q'))) = Some (Inr None)"
        by (subst array_loop_forward.simps) simp
      with more True neq Cons.prems show ?thesis by auto
    next
      case False
      then have "doc = ?Q' @ CHR '','' # elems_text es @ CHR '']'' # R" using doc by simp
      moreover have "nat (idx - i) = Suc (nat (idx - (i + 1)))" using neq Cons.prems(6) by simp
      ultimately show ?thesis
        using Cons.IH [OF _ step(5) _ False wf(2), of "CHR '',''" "i + 1"] neq Cons.prems(6) more
        by (auto split: option.splits)
    qed
  qed
qed simp

lemma array_loop_backward_correct:
  assumes ix: "indexes S bits ix (P0 @ doc @ R0)" and P0: "closed P0"
    and "doc = Q @ CHR ''['' # elems_text es @ d # R" and "closed Q" and "closes d"
    and "es \<noteq> []" and "wf_elems es" and "0 \<le> i" and "i \<le> - idx - 1"
  shows "\<exists>r. array_loop_backward S ix idx i (2 * structs (P0 @ Q @ CHR ''['' # elems_text es))
      = Some (Inr r) \<and>
    (case r of None \<Rightarrow> int (length es) + idx + i < 0
     | Some n \<Rightarrow> 0 \<le> int (length es) + idx + i \<and>
         child_at P0 doc n (es ! nat (int (length es) + idx + i)))"
  using assms(3-)
proof (induction es arbitrary: d R i rule: rev_induct)
  case (snoc e es)
  obtain Q' c where Q': "Q @ CHR ''['' # elems_text (es @ [e]) = Q' @ c # json_text e"
    and c: "opens c" "closed Q'"
    and cases: "es = [] \<Longrightarrow> Q' = Q \<and> c = CHR ''[''"
      "es \<noteq> [] \<Longrightarrow> Q' = Q @ CHR ''['' # elems_text es \<and> c = CHR '',''"
  proof (cases "es = []")
    case True
    then show thesis using snoc.prems(2) by (intro that [of Q "CHR ''[''"]) auto
  next
    case False
    then show thesis using snoc.prems(2,5)
      by (intro that [of "Q @ CHR ''['' # elems_text es" "CHR '',''"])
        (auto simp: elems_text_snoc mode_simps tree_simps wf_elems_all)
  qed
  have doc: "doc = Q' @ c # json_text e @ d # R"
    using snoc.prems(1) arg_cong [OF Q', of "\<lambda>x. x @ d # R"] by simp
  have wf: "wf_tree e" "wf_elems es" using snoc.prems(5) by (auto simp: wf_elems_all)
  note step = element_step [OF ix P0 doc c(2,1) snoc.prems(3) wf(1)]
  show ?case
  proof (cases "i = - idx - 1")
    case True
    then have k: "int (length (es @ [e])) + idx + i = int (length es)" by simp
    have "array_loop_backward S ix idx i (2 * structs (P0 @ Q' @ c # json_text e)) =
        Some (Inr (Some (Suc (2 * structs (P0 @ Q')))))"
      using step(3,4) True by (subst array_loop_backward.simps) simp
    with step(6) show ?thesis unfolding k Q' by simp
  next
    case neq: False
    have more: "array_loop_backward S ix idx i (2 * structs (P0 @ Q' @ c # json_text e)) =
        array_loop_backward S ix idx (i + 1) (2 * structs (P0 @ Q'))"
      using step(3,4) neq by (subst array_loop_backward.simps) simp
    show ?thesis
    proof (cases "es = []")
      case True
      have "bp_get S (m_bp ix) (2 * structs (P0 @ Q'))"
        using bp_at(1) [OF ix, of "P0 @ Q'" c] P0 c cases(1) [OF True] doc
        by (simp add: closed_append)
      then have "array_loop_backward S ix idx (i + 1) (2 * structs (P0 @ Q')) = Some (Inr None)"
        by (subst array_loop_backward.simps) simp
      with more True neq snoc.prems show ?thesis unfolding Q' by auto
    next
      case False
      have "nat (int (length es) + idx + (i + 1)) < length es"
        if "0 \<le> int (length es) + idx + (i + 1)" using that neq snoc.prems(7) by linarith
      with snoc.IH [of "CHR '',''" "json_text e @ d # R" "i + 1"] cases(2) [OF False] doc
        snoc.prems(2,6,7) False wf(2) neq more
      show ?thesis unfolding Q' by (auto simp: nth_append algebra_simps split: option.splits)
    qed
  qed
qed simp

lemma object_loop_step:
  assumes ix: "indexes S bits ix (P0 @ doc @ R0)" and P0: "closed P0"
    and doc: "doc = Q @ c # K @ CHR '':'' # json_text v @ d # R"
    and Q: "closed Q" and c: "opens c" and K: "closed K" "balanced (parens Outside K)"
    and v: "wf_tree v" and d: "closes d" and ck: "check_key (doc @ rest) key pos = Inr found"
  shows "object_loop S ix (doc @ rest) key (length P0) (Suc (2 * structs (P0 @ Q))) pos =
      (if found then Some (Inr (Some (Suc (2 * structs (P0 @ Q @ c # K)))))
       else object_loop S ix (doc @ rest) key (length P0)
              (Suc (2 * structs (P0 @ Q @ c # K @ CHR '':'' # json_text v)))
              (Suc (Suc (length (Q @ c # K @ CHR '':'' # json_text v)))))"
    and "child_at P0 doc (Suc (2 * structs (P0 @ Q @ c # K))) v"
    and "closed (Q @ c # K @ CHR '':'' # json_text v)"
proof -
  have P: "closed (P0 @ Q)" using P0 Q by (simp add: closed_append)
  have Q1: "closed (Q @ c # K)" using Q c K(1) by (simp add: closed_append closed_structural)
  have doc1: "doc = (Q @ c # K) @ CHR '':'' # json_text v @ d # R" using doc by simp
  note val = element_step [OF ix P0 doc1 Q1 opens_simps(4) d v]
  show "child_at P0 doc (Suc (2 * structs (P0 @ Q @ c # K))) v" using val(6) by simp
  show Q2: "closed (Q @ c # K @ CHR '':'' # json_text v)" using val(5) by simp
  have "bp_get S (m_bp ix) (Suc (2 * structs (P0 @ Q)))"
    by (rule bp_open [OF ix _ P c]) (simp add: doc)
  moreover have "bp_find_close S (m_bp ix) (Suc (2 * structs (P0 @ Q))) = 2 * structs (P0 @ Q @ c # K)"
    using child_match(1) [OF ix _ P c K closes_simps(4), of "json_text v @ d # R @ R0"]
    by (simp add: doc)
  moreover have "get_pos S ix (Suc (2 * structs (P0 @ Q @ c # K @ CHR '':'' # json_text v))) (length P0) =
      Suc (length (Q @ c # K @ CHR '':'' # json_text v))"
    using select_at [OF ix, of "P0 @ Q @ c # K @ CHR '':'' # json_text v" d "R @ R0"] doc Q2 P0 d
    by (simp add: get_pos_def closed_append)
  ultimately show "object_loop S ix (doc @ rest) key (length P0) (Suc (2 * structs (P0 @ Q))) pos =
      (if found then Some (Inr (Some (Suc (2 * structs (P0 @ Q @ c # K)))))
       else object_loop S ix (doc @ rest) key (length P0)
              (Suc (2 * structs (P0 @ Q @ c # K @ CHR '':'' # json_text v)))
              (Suc (Suc (length (Q @ c # K @ CHR '':'' # json_text v)))))"
    using val(2) ck by (subst object_loop.simps) (simp add: Let_def)
qed

lemma object_loop_end:
  assumes ix: "indexes S bits ix (P0 @ doc @ R0)" and P0: "closed P0"
    and "doc = Q @ CHR ''}'' # R" and "closed Q"
  shows "object_loop S ix json key offset (Suc (2 * structs (P0 @ Q))) pos = Some (Inr None)"
  using bp_at(2) [OF ix, of "P0 @ Q" "CHR ''}''" "R @ R0"] assms(2-)
  by (subst object_loop.simps) (simp add: closed_append)

lemma key_text_quiet:
  "gap w \<Longrightarrow> literal_body b \<Longrightarrow> gap w' \<Longrightarrow>
   closed (w @ quote # b @ quote # w') \<and> balanced (parens Outside (w @ quote # b @ quote # w'))"
  by (simp add: mode_simps)

lemma object_loop_correct:
  assumes ix: "indexes S bits ix (P0 @ doc @ R0)" and P0: "closed P0" and key: "quote \<notin> set key"
    and "doc = Q @ c # members_text ms @ CHR ''}'' # R" and "closed Q" and "opens c"
    and "ms \<noteq> []" and "wf_members ms" and "spaced_members first ms"
  shows "\<exists>r. object_loop S ix (doc @ rest) key (length P0) (Suc (2 * structs (P0 @ Q)))
      (Suc (length Q) + (if first then 0 else 1)) = Some (Inr r) \<and>
    rel_option (child_at P0 doc) r
      (map_option (\<lambda>(w, b, w', v). v) (find_first (\<lambda>(w, b, w', v). unescape b = key) ms))"
  using assms(4-)
proof (induction ms arbitrary: Q c first)
  case (Cons m ms)
  obtain w b w' v where m: "m = (w, b, w', v)" by (cases m)
  let ?d = "if ms = [] then CHR ''}'' else CHR '',''"
  let ?R = "if ms = [] then R else members_text ms @ CHR ''}'' # R"
  let ?K = "w @ quote # b @ quote # w'"
  have wf: "gap w" "literal_body b" "gap w'" "wf_tree v" "wf_members ms"
    and sp: "first \<or> w \<noteq> []" "spaced_members False ms"
    using Cons.prems m by auto
  have doc: "doc = Q @ c # ?K @ CHR '':'' # json_text v @ ?d # ?R" and d: "closes ?d"
    using Cons.prems(1) m by auto
  have "check_key (doc @ rest) key (Suc (length Q) + (if first then 0 else 1)) = Inr (unescape b = key)"
    by (rule check_key_member [OF wf(1,2) key sp(1)]) (simp add: doc)
  note step = object_loop_step [OF ix P0 doc Cons.prems(2,3) _ _ wf(4) d this]
  have K: "closed ?K" "balanced (parens Outside ?K)" using key_text_quiet [OF wf(1-3)] by auto
  let ?Q' = "Q @ c # ?K @ CHR '':'' # json_text v"
  show ?case
  proof (cases "unescape b = key \<or> ms = []")
    case True
    with step [OF K] m doc object_loop_end [OF ix P0, of ?Q' R] show ?thesis by auto
  next
    case False
    then have "doc = ?Q' @ CHR '','' # members_text ms @ CHR ''}'' # R" using doc by simp
    from Cons.IH [OF this step(3) [OF K] _ _ wf(5) sp(2)] step(1) [OF K] False m show ?thesis
      by simp
  qed
qed simp

lemma get_pos_even:
  assumes ix: "indexes S bits ix (P0 @ doc @ R0)" and "closed P0" and "doc = Q @ c # R"
    and "closed Q" and "structural c"
  shows "get_pos S ix (2 * structs (P0 @ Q)) (length P0) = length Q"
  using select_at [OF ix, of "P0 @ Q" c "R @ R0"] assms(2-)
  by (simp add: get_pos_def closed_append)

lemma get_array_child_container:
  assumes ix: "indexes S bits ix (P0 @ doc @ R0)" and P0: "closed P0"
    and n: "container_at P0 doc n t" and wf: "wf_tree t"
  shows "\<exists>r. get_array_child S ix (doc @ rest) n (length P0) idx = Some (Inr r) \<and>
    rel_option (child_at P0 doc) r (child_index t idx)"
proof -
  from n obtain Q R where doc: "doc = Q @ core_text t @ R" and Q: "closed Q"
    and num: "n = 2 * structs (P0 @ Q)" by (auto simp: container_at_def)
  from n have con: "container t" by (auto simp: container_at_def)
  show ?thesis
  proof (cases t)
    case (Obj p ms q)
    with doc get_pos_even [OF ix P0 _ Q] num show ?thesis
      by (simp add: get_array_child_def)
  next
    case (Arr p es q)
    have D: "doc = Q @ CHR ''['' # elems_text es @ CHR '']'' # R" using doc Arr by simp
    have pos: "get_pos S ix n (length P0) = length Q"
      using get_pos_even [OF ix P0 D Q] num by simp
    have wfe: "wf_elems es" using wf Arr by simp
    show ?thesis
    proof (cases "es = []")
      case True
      with D pos num Arr show ?thesis by (simp add: get_array_child_def)
    next
      case False
      then obtain e es' where es: "es = e # es'" by (cases es) auto
      then have "wf_tree e" using wfe by simp
      then obtain c cs where "json_text e = c # cs" "c \<noteq> CHR '']''" by (rule json_text_first)
      then obtain cs' where D2: "doc @ rest = Q @ CHR ''['' # c # cs'" "c \<noteq> CHR '']''"
        using D es by auto
      then have start: "get_array_child S ix (doc @ rest) n (length P0) idx =
          (if idx \<ge> 0 then array_loop_forward S ix idx 0 (Suc n)
           else array_loop_backward S ix idx 0 (sub_size (bp_find_close S (m_bp ix) n) 1))"
        using pos num by (simp add: get_array_child_def)
      show ?thesis
      proof (cases "idx \<ge> 0")
        case True
        from array_loop_forward_correct [OF ix P0 D Q _ False wfe True] start True num Arr
        show ?thesis by (force split: option.splits)
      next
        case neg: False
        have "balanced (True # parens Outside (elems_text es) @ [False])" "closed (elems_text es)"
          using layout_balanced(2) [OF wfe] by auto
        then have "bp_find_close S (m_bp ix) n =
            Suc (2 * structs (P0 @ Q @ CHR ''['' # elems_text es))"
          using container_match [OF ix, of "P0 @ Q" "CHR ''[''" "elems_text es" "CHR '']''" "R @ R0"]
            D Q P0 num by (simp add: closed_append)
        with array_loop_backward_correct [OF ix P0 D Q _ False wfe, of 0 idx] neg start Arr
        show ?thesis by (force split: option.splits)
      qed
    qed
  qed (use con in simp)
qed

lemma get_object_child_container:
  assumes ix: "indexes S bits ix (P0 @ doc @ R0)" and P0: "closed P0"
    and n: "container_at P0 doc n t" and wf: "wf_tree t" and sp: "spaced t"
    and key: "quote \<notin> set key"
  shows "\<exists>r. get_object_child S ix (doc @ rest) n (length P0) key = Some (Inr r) \<and>
    rel_option (child_at P0 doc) r (child_key t key)"
proof -
  from n obtain Q R where doc: "doc = Q @ core_text t @ R" and Q: "closed Q"
    and num: "n = 2 * structs (P0 @ Q)" by (auto simp: container_at_def)
  from n have con: "container t" by (auto simp: container_at_def)
  show ?thesis
  proof (cases t)
    case (Arr p es q)
    with doc get_pos_even [OF ix P0 _ Q] num show ?thesis
      by (simp add: get_object_child_def)
  next
    case (Obj p ms q)
    have D: "doc = Q @ CHR ''{'' # members_text ms @ CHR ''}'' # R" using doc Obj by simp
    have pos: "get_pos S ix n (length P0) = length Q"
      using get_pos_even [OF ix P0 D Q] num by simp
    have wfm: "wf_members ms" "spaced_members True ms" using wf sp Obj by auto
    show ?thesis
    proof (cases "ms = []")
      case True
      with D pos num Obj show ?thesis by (simp add: get_object_child_def)
    next
      case False
      with wfm obtain c cs where "members_text ms = c # cs" "c \<noteq> CHR ''}''"
        by (elim members_text_first)
      then obtain cs' where "doc @ rest = Q @ CHR ''{'' # c # cs'" "c \<noteq> CHR ''}''"
        using D by auto
      then have "get_object_child S ix (doc @ rest) n (length P0) key =
          object_loop S ix (doc @ rest) key (length P0) (Suc n) (Suc (length Q))"
        using pos num by (simp add: get_object_child_def)
      with object_loop_correct [OF ix P0 key D Q _ False wfm, of rest] num Obj
      show ?thesis by simp
    qed
  qed (use con in simp)
qed

text \<open>Both operations round the node to even, so a child node is as good as a container node.\<close>

lemma get_child_round:
  "get_array_child S ix json (n + n mod 2) offset idx = get_array_child S ix json n offset idx"
  "get_object_child S ix json (n + n mod 2) offset key = get_object_child S ix json n offset key"
proof -
  have "(n + n mod 2) mod 2 = 0" by presburger
  then show "get_array_child S ix json (n + n mod 2) offset idx = get_array_child S ix json n offset idx"
    "get_object_child S ix json (n + n mod 2) offset key = get_object_child S ix json n offset key"
    by (simp_all only: get_array_child_def get_object_child_def Let_def add_0_right)
qed

lemma get_child_atom:
  assumes ix: "indexes S bits ix (P0 @ doc @ R0)" and P0: "closed P0"
    and doc: "doc = Q @ d # R" and Q: "closed Q" and d: "closes d"
    and num: "n + n mod 2 = 2 * structs (P0 @ Q)"
  shows "get_array_child S ix (doc @ rest) n (length P0) idx = Some (Inr None)"
    and "get_object_child S ix (doc @ rest) n (length P0) key = Some (Inr None)"
  using get_pos_even [OF ix P0 doc Q] num doc d
  by (auto simp: get_array_child_def get_object_child_def closes_def)

lemma get_array_child_node:
  assumes ix: "indexes S bits ix (P0 @ doc @ R0)" and P0: "closed P0"
    and n: "child_at P0 doc n t \<or> container_at P0 doc n t" and wf: "wf_tree t"
  shows "\<exists>r. get_array_child S ix (doc @ rest) n (length P0) idx = Some (Inr r) \<and>
    rel_option (child_at P0 doc) r (child_index t idx)"
proof (cases "container t")
  case True
  with n child_at_round [OF _ P0 wf] container_at_even [of P0 doc n t]
  have "container_at P0 doc (n + n mod 2) t" by (metis add_0_right)
  from get_array_child_container [OF ix P0 this wf] show ?thesis by (simp only: get_child_round)
next
  case False
  then have "child_index t idx = None" by (cases t) auto
  moreover from False n child_at_round [OF _ P0 wf, of doc n] obtain Q d R where
    "doc = Q @ d # R" "closed Q" "closes d" "n + n mod 2 = 2 * structs (P0 @ Q)"
    by (auto simp: container_at_def)
  ultimately show ?thesis using get_child_atom(1) [OF ix P0] by simp
qed

lemma get_object_child_node:
  assumes ix: "indexes S bits ix (P0 @ doc @ R0)" and P0: "closed P0"
    and n: "child_at P0 doc n t \<or> container_at P0 doc n t" and wf: "wf_tree t" and sp: "spaced t"
    and key: "quote \<notin> set key"
  shows "\<exists>r. get_object_child S ix (doc @ rest) n (length P0) key = Some (Inr r) \<and>
    rel_option (child_at P0 doc) r (child_key t key)"
proof (cases "container t")
  case True
  with n child_at_round [OF _ P0 wf] container_at_even [of P0 doc n t]
  have "container_at P0 doc (n + n mod 2) t" by (metis add_0_right)
  from get_object_child_container [OF ix P0 this wf sp key] show ?thesis
    by (simp only: get_child_round)
next
  case False
  then have "child_key t key = None" by (cases t) auto
  moreover from False n child_at_round [OF _ P0 wf, of doc n] obtain Q d R where
    "doc = Q @ d # R" "closed Q" "closes d" "n + n mod 2 = 2 * structs (P0 @ Q)"
    by (auto simp: container_at_def)
  ultimately show ?thesis using get_child_atom(2) [OF ix P0] by simp
qed

text \<open>The text range of a node: an element's text, or a container without its whitespace.\<close>

lemma child_range:
  assumes ix: "indexes S bits ix (P0 @ doc @ R0)" and P0: "closed P0"
    and n: "child_at P0 doc n t" and wf: "wf_tree t"
  shows "\<exists>Q R. doc = Q @ json_text t @ R \<and> get_pos S ix n (length P0) = length Q \<and>
    FindEnd S ix n (length P0) = length Q + length (json_text t)"
proof -
  from n obtain Q c d R where doc: "doc = Q @ c # json_text t @ d # R" and Q: "closed Q"
    and cd: "opens c" "closes d" and num: "n = Suc (2 * structs (P0 @ Q))"
    by (auto simp: child_at_def)
  have "closed (P0 @ Q)" using Q P0 by (simp add: closed_append)
  then have close: "bp_find_close S (m_bp ix) n = 2 * structs (P0 @ Q @ c # json_text t)"
    using child_match(1) [OF ix, of "P0 @ Q" c "json_text t" d "R @ R0"] doc cd wf num
    by (simp add: tree_simps)
  have "closed (Q @ c # json_text t)"
    using Q cd wf by (simp add: mode_simps tree_simps)
  then have "ef_select S (m_nav ix) (structs (P0 @ Q @ c # json_text t)) =
      length (P0 @ Q @ c # json_text t)"
    using select_at [OF ix, of "P0 @ Q @ c # json_text t" d "R @ R0"] doc cd P0
    by (simp add: closed_append)
  moreover have "ef_select S (m_nav ix) (structs (P0 @ Q)) = length (P0 @ Q)"
    using select_at [OF ix, of "P0 @ Q" c "json_text t @ d # R @ R0"] doc cd \<open>closed (P0 @ Q)\<close>
    by simp
  moreover have "n div 2 = structs (P0 @ Q)" "n mod 2 = 1" unfolding num by presburger+
  ultimately show ?thesis
    using doc close by (intro exI [of _ "Q @ [c]"] exI [of _ "d # R"])
      (simp add: get_pos_def FindEnd_def)
qed

lemma core_text_split:
  assumes "wf_tree t" and "container t"
  obtains c M d where "core_text t = c # M @ [d]" and "closed M"
    and "balanced (True # parens Outside M @ [False])"
    and "c = CHR ''['' \<and> d = CHR '']'' \<or> c = CHR ''{'' \<and> d = CHR ''}''"
proof (cases t)
  case (Arr p es q)
  with assms layout_balanced(2) [of es] show thesis
    by (intro that [of "CHR ''[''" "elems_text es" "CHR '']''"]) auto
next
  case (Obj p ms q)
  with assms layout_balanced(3) [of ms] show thesis
    by (intro that [of "CHR ''{''" "members_text ms" "CHR ''}''"]) auto
qed (use assms in simp)

lemma container_range_at:
  assumes ix: "indexes S bits ix (P0 @ doc @ R0)" and P0: "closed P0"
    and doc: "doc = Q @ core_text t @ R" and Q: "closed Q" and num: "n = 2 * structs (P0 @ Q)"
    and con: "container t" and wf: "wf_tree t"
  shows "get_pos S ix n (length P0) = length Q"
    and "FindEnd S ix n (length P0) = length Q + length (core_text t)"
    and "bp_find_close S (m_bp ix) n + 1 = 2 * structs (P0 @ Q @ core_text t)"
proof -
  from core_text_split [OF wf con] obtain c M d where core: "core_text t = c # M @ [d]"
    and M: "closed M" "balanced (True # parens Outside M @ [False])"
    and cd: "c = CHR ''['' \<and> d = CHR '']'' \<or> c = CHR ''{'' \<and> d = CHR ''}''" by blast
  have P: "closed (P0 @ Q)" using P0 Q by (simp add: closed_append)
  have sc: "structural c" "structural d" using cd by auto
  have close: "bp_find_close S (m_bp ix) n = Suc (2 * structs (P0 @ Q @ c # M))"
    using container_match [OF ix, of "P0 @ Q" c M d "R @ R0"] doc core num P cd M by simp
  have "closed (P0 @ Q @ c # M)" using P0 Q M sc by (simp add: mode_simps)
  then have sel: "ef_select S (m_nav ix) (structs (P0 @ Q @ c # M)) = length (P0 @ Q @ c # M)"
    using select_at [OF ix, of "P0 @ Q @ c # M" d "R @ R0"] doc core sc by simp
  show "get_pos S ix n (length P0) = length Q"
    using get_pos_even [OF ix P0 _ Q sc(1)] doc core num by simp
  have "n mod 2 = 0" unfolding num by presburger
  with sel close core show "FindEnd S ix n (length P0) = length Q + length (core_text t)"
    by (simp add: FindEnd_def)
  have "structs (P0 @ Q @ core_text t) = Suc (structs (P0 @ Q @ c # M))"
    using P0 Q M sc core by (simp add: mode_simps)
  with close show "bp_find_close S (m_bp ix) n + 1 = 2 * structs (P0 @ Q @ core_text t)" by simp
qed

lemma container_range:
  assumes ix: "indexes S bits ix (P0 @ doc @ R0)" and P0: "closed P0"
    and n: "container_at P0 doc n t" and wf: "wf_tree t"
  shows "\<exists>Q R. doc = Q @ core_text t @ R \<and> get_pos S ix n (length P0) = length Q \<and>
    FindEnd S ix n (length P0) = length Q + length (core_text t)"
proof -
  from n obtain Q R where "doc = Q @ core_text t @ R" "closed Q" "n = 2 * structs (P0 @ Q)"
    "container t" by (auto simp: container_at_def)
  with container_range_at [OF ix P0 this wf] show ?thesis by blast
qed

end

section \<open>Members without whitespace\<close>

text \<open>
  After the first member the loop of \<^verbatim>\<open>get_object_child\<close> looks for a key from the second
  character after the comma (\<^verbatim>\<open>get_pos(cur_node, offset) + 1\<close>, and \<^verbatim>\<open>get_pos\<close> of an odd node
  is already one past the comma). When the key's opening quote follows the comma directly it
  is skipped, and the key is compared with what follows its closing quote.
\<close>

lemma check_key_skips_quote:
  assumes "quote \<notin> set k" and "key = [] \<or> hd key \<noteq> CHR '':''"
  shows "check_key (Q @ c # quote # k @ quote # CHR '':'' # s) key (Suc (Suc (length Q))) = Inr False"
proof -
  have "match_key key (CHR '':'' # s) = Inr False" using assms(2) by (cases key) auto
  with assms(1) show ?thesis by (simp add: check_key_def skip_to_quote_gap)
qed

context succinct_spec
begin

lemma compact_second_member:
  assumes ix: "indexes S bits ix (P0 @ doc @ R0)" and P0: "closed P0"
    and doc: "doc = core_text (Obj [] [([], k1, [], v1), ([], k2, [], v2)] []) @ R"
    and wf: "wf_tree (Obj [] [([], k1, [], v1), ([], k2, [], v2)] [])"
    and key: "unescape k2 = key" "unescape k1 \<noteq> key" "quote \<notin> set key" "backslash \<notin> set k2"
      "key = [] \<or> hd key \<noteq> CHR '':''"
  shows "get_object_child S ix (doc @ rest) (2 * structs P0) (length P0) key = Some (Inr None)"
proof -
  let ?K1 = "quote # k1 @ [quote]" and ?K2 = "quote # k2 @ [quote]"
  let ?Q1 = "CHR ''{'' # ?K1 @ CHR '':'' # json_text v1"
  let ?Q2 = "?Q1 @ CHR '','' # ?K2 @ CHR '':'' # json_text v2"
  have b: "literal_body k1" "literal_body k2" "wf_tree v1" "wf_tree v2" using wf by auto
  have k2: "quote \<notin> set k2" using b(2) key(4)
    by (induction k2 rule: literal_body_induct) auto
  have doc1: "doc = [] @ CHR ''{'' # ?K1 @ CHR '':'' # json_text v1 @ CHR '','' #
      (?K2 @ CHR '':'' # json_text v2 @ CHR ''}'' # R)" using doc by simp
  have doc2: "doc = ?Q1 @ CHR '','' # ?K2 @ CHR '':'' # json_text v2 @ CHR ''}'' # R"
    using doc by simp
  have doc3: "doc = ?Q2 @ CHR ''}'' # R" using doc by simp
  have K: "closed ?K1" "balanced (parens Outside ?K1)" "closed ?K2" "balanced (parens Outside ?K2)"
    using key_text_quiet [of "[]" k1 "[]"] key_text_quiet [of "[]" k2 "[]"] b by auto
  have ck1: "check_key (doc @ rest) key 1 = Inr False"
    using check_key_member [OF gap_Nil b(1) key(3), of True "doc @ rest" "[]"] key(2) doc1 by simp
  have ck2: "check_key (doc @ rest) key (Suc (Suc (length ?Q1))) = Inr False"
    using check_key_skips_quote [OF k2 key(5), of ?Q1 "CHR '',''"] doc2 by simp
  note s1 = object_loop_step [OF ix P0 doc1 closed_Nil opens_simps(2) K(1,2) b(3) closes_simps(3) ck1]
  have Q1: "closed ?Q1" using s1(3) by simp
  note s2 = object_loop_step [OF ix P0 doc2 Q1 opens_simps(3) K(3,4) b(4) closes_simps(2) ck2]
  have "get_pos S ix (2 * structs P0) (length P0) = 0"
    using get_pos_even [OF ix P0, of "[]" "CHR ''{''"] doc1 by simp
  then have "get_object_child S ix (doc @ rest) (2 * structs P0) (length P0) key =
      object_loop S ix (doc @ rest) key (length P0) (Suc (2 * structs P0)) 1"
    using doc1 by (simp add: get_object_child_def deref_def)
  with s1(1) s2(1) object_loop_end [OF ix P0 doc3] s2(3) show ?thesis by simp
qed

end

section \<open>Properties\<close>

text \<open>
  C8. From any node of a document, whether the node of an element or of a container,
  \<^verbatim>\<open>get_array_child\<close> returns; it finds a child exactly when the abstract array has one at
  that index (negative indexes count from the end), and the node it returns is the node of
  that child.
\<close>

theorem get_array_child_finds:
  assumes "succinct_spec S bits" and "indexes S bits ix (P0 @ doc @ R0)" and "closed P0"
    and "child_at P0 doc n t \<or> container_at P0 doc n t" and "wf_tree t"
  shows "\<exists>r. get_array_child S ix (doc @ rest) n (length P0) idx = Some (Inr r) \<and>
    rel_option (child_at P0 doc) r (child_index t idx)"
  by (rule succinct_spec.get_array_child_node [OF assms])

text \<open>
  C7. From any node of a document \<^verbatim>\<open>get_object_child\<close> returns; it finds a child exactly when
  the abstract object has a member with that key, and the node it returns is the node of the
  value of the first such member. Members after the first have whitespace before the key, and
  the key contains no quote.
\<close>

theorem get_object_child_finds:
  assumes "succinct_spec S bits" and "indexes S bits ix (P0 @ doc @ R0)" and "closed P0"
    and "child_at P0 doc n t \<or> container_at P0 doc n t" and "wf_tree t" and "spaced t"
    and "quote \<notin> set key"
  shows "\<exists>r. get_object_child S ix (doc @ rest) n (length P0) key = Some (Inr r) \<and>
    rel_option (child_at P0 doc) r (child_key t key)"
  by (rule succinct_spec.get_object_child_node [OF assms])

text \<open>
  C34. \<^verbatim>\<open>get_pos\<close> and \<^verbatim>\<open>FindEnd\<close> of the node of an element delimit exactly the text of the
  element, relative to the start of the document.
\<close>

theorem element_range:
  assumes "succinct_spec S bits" and "indexes S bits ix (P0 @ doc @ R0)" and "closed P0"
    and "child_at P0 doc n t" and "wf_tree t"
  shows "\<exists>Q R. doc = Q @ json_text t @ R \<and> get_pos S ix n (length P0) = length Q \<and>
    FindEnd S ix n (length P0) = length Q + length (json_text t)"
  by (rule succinct_spec.child_range [OF assms])

text \<open>
  The second member of an object written without whitespace, such as
  \<^verbatim>\<open>{"a":1,"b":2}\<close>, is never found: the search for its key starts one character too late,
  after the opening quote of the key.
\<close>

theorem compact_member_missed:
  assumes "succinct_spec S bits" and "indexes S bits ix (P0 @ doc @ R0)" and "closed P0"
    and "doc = core_text (Obj [] [([], k1, [], v1), ([], k2, [], v2)] []) @ R"
    and "wf_tree (Obj [] [([], k1, [], v1), ([], k2, [], v2)] [])"
    and "unescape k2 = key" "unescape k1 \<noteq> key" "quote \<notin> set key" "backslash \<notin> set k2"
      "key = [] \<or> hd key \<noteq> CHR '':''"
  shows "child_key (Obj [] [([], k1, [], v1), ([], k2, [], v2)] []) key = Some v2 \<and>
    get_object_child S ix (doc @ rest) (2 * structs P0) (length P0) key = Some (Inr None)"
  using succinct_spec.compact_second_member [OF assms] assms(6,7) by simp

text \<open>One document, its index on plain bit lists, and the place of its root, for the witnesses.\<close>

definition list_index :: "jtree \<Rightarrow> (bool list, bool list) json_semi_index" where
  "list_index t =
     \<lparr>m_nav = marks Outside (json_text t), m_bp = parens Outside (json_text t)\<rparr>"

lemma list_index_indexes:
  "wf_tree t \<Longrightarrow> indexes list_succinct (\<lambda>b. b) (list_index t) ([] @ json_text t @ [])"
  by (simp add: indexes_def list_index_def tree_simps)

lemma root_container:
  "container t \<Longrightarrow> before t = [] \<Longrightarrow> container_at [] (json_text t) 0 t"
  unfolding container_at_def json_text_core
  by (intro exI [of _ "[]"] exI [of _ "after t"]) (simp add: structs_Nil)

definition spaced_doc :: jtree where
  "spaced_doc =
     Obj [] [([], ''a'', [], Atom '' 1''),
             ('' '', ''b'', [], Arr '' '' [Atom ''7'', Atom '' 8''] [])] []"

definition compact_doc :: jtree where
  "compact_doc = Obj [] [([], ''a'', [], Atom ''1''), ([], ''b'', [], Atom ''2'')] []"

theorem get_array_child_finds_witness:
  "let t = Arr [] [Atom ''7'', Atom '' 8''] [] in
   \<exists>n. get_array_child list_succinct (list_index t) (json_text t) 0 0 (-1) = Some (Inr (Some n)) \<and>
     child_at [] (json_text t) n (Atom '' 8'')"
proof -
  let ?t = "Arr [] [Atom ''7'', Atom '' 8''] []"
  have t: "wf_tree ?t" "child_index ?t (-1) = Some (Atom '' 8'')" by code_simp+
  from get_array_child_finds [OF list_succ.succinct_spec_axioms list_index_indexes [OF t(1)]
      closed_Nil disjI2 [OF root_container [of ?t]] t(1), of "[]" "-1"] t(2)
  show ?thesis unfolding Let_def by (auto simp: rel_option_iff split: option.splits)
qed

theorem get_object_child_finds_witness:
  "(\<exists>n. get_object_child list_succinct (list_index spaced_doc) (json_text spaced_doc) 0 0 ''b'' =
      Some (Inr (Some n)) \<and>
    child_at [] (json_text spaced_doc) n (Arr '' '' [Atom ''7'', Atom '' 8''] [])) \<and>
   get_object_child list_succinct (list_index spaced_doc) (json_text spaced_doc) 0 0 ''c'' =
      Some (Inr None)"
proof -
  have t: "wf_tree spaced_doc" "spaced spaced_doc" "container spaced_doc" "before spaced_doc = []"
    "child_key spaced_doc ''c'' = None"
    "child_key spaced_doc ''b'' = Some (Arr '' '' [Atom ''7'', Atom '' 8''] [])"
    "quote \<notin> set ''b''" "quote \<notin> set ''c''" by code_simp+
  note found = get_object_child_finds [OF list_succ.succinct_spec_axioms list_index_indexes [OF t(1)]
      closed_Nil disjI2 [OF root_container [OF t(3,4)]] t(1,2)]
  from found [OF t(7), of "[]"] found [OF t(8), of "[]"] t(5,6) show ?thesis
    by (auto simp: rel_option_iff split: option.splits)
qed

theorem element_range_witness:
  "let t = Arr [] [Atom ''7'', Atom '' 8''] [] in
   \<exists>Q R. json_text t = Q @ '' 8'' @ R \<and>
     get_pos list_succinct (list_index t) 3 0 = length Q \<and>
     FindEnd list_succinct (list_index t) 3 0 = length Q + 2"
proof -
  let ?t = "Arr [] [Atom ''7'', Atom '' 8''] []"
  have t: "wf_tree ?t" "wf_tree (Atom '' 8'')" by code_simp+
  have "child_at [] (json_text ?t) (Suc (2 * structs ([] @ ''[7''))) (Atom '' 8'')"
    by (rule child_atI [where c = "CHR '',''" and d = "CHR '']''" and R = "[]"]) code_simp+
  moreover have "Suc (2 * structs ([] @ ''[7'')) = 3" by code_simp
  ultimately have "child_at [] (json_text ?t) 3 (Atom '' 8'')" by simp
  from element_range [OF list_succ.succinct_spec_axioms list_index_indexes [OF t(1)] closed_Nil
      this t(2)] show ?thesis unfolding Let_def by simp
qed

theorem compact_member_missed_witness:
  "child_key compact_doc ''b'' = Some (Atom ''2'') \<and>
   get_object_child list_succinct (list_index compact_doc) (json_text compact_doc) 0 0 ''b'' =
     Some (Inr None)"
proof -
  have t: "wf_tree compact_doc" by code_simp
  have h: "unescape ''b'' = ''b''" "unescape ''a'' \<noteq> ''b''" "quote \<notin> set ''b''"
    "backslash \<notin> set ''b''" "''b'' = [] \<or> hd ''b'' \<noteq> CHR '':''" by code_simp+
  have doc: "json_text compact_doc = core_text compact_doc @ []" by code_simp
  from compact_member_missed [OF list_succ.succinct_spec_axioms list_index_indexes [OF t, unfolded compact_doc_def]
      closed_Nil doc [unfolded compact_doc_def] t [unfolded compact_doc_def] h, of "[]"]
  show ?thesis by (simp add: compact_doc_def structs_Nil)
qed

end
