(* ===== verification/Semi_Index_Access.thy ===== *)
theory Semi_Index_Access
  imports Semi_Index_Children
begin

text \<open>
  The public interface of the semi-index: the classes \<^verbatim>\<open>accessor\<close> and \<^verbatim>\<open>cursor\<close> of
  \<^verbatim>\<open>semi_index/json_semi_index.hpp\<close>. Both hold a pointer to the index; a heap maps
  addresses to index objects (address 0 is the null pointer), and dereferencing a pointer
  that holds no index is a fault.

  \<open>get_path_correct\<close> is the contract of an accessor: following a path reaches exactly the
  abstract subtree, the accessor stays valid if and only if the path exists, and its range is
  the subtree's text. \<open>cursor_steps\<close> is the contract of a cursor: \<^verbatim>\<open>next\<close> visits the
  documents of the collection in order and ends at the default cursor.
\<close>

type_synonym ('ef, 'bp) heap = "nat \<Rightarrow> ('ef, 'bp) json_semi_index option"

definition null_ptr :: nat where
  "null_ptr = 0"

definition index_at :: "('ef, 'bp) heap \<Rightarrow> nat \<Rightarrow> ('ef, 'bp) json_semi_index result" where
  "index_at mem p =
     (if p = null_ptr then Inl Null_Pointer
      else case mem p of None \<Rightarrow> Inl Null_Pointer | Some ix \<Rightarrow> Inr ix)"

section \<open>Accessors\<close>

text \<open>The type parameter is the iterator type, the template parameter of the class.\<close>

record 'it accessor =
  is_valid :: bool
  a_node :: nat
  a_json :: 'it
  a_index :: nat
  a_offset :: nat

text \<open>
  The default constructor leaves \<^verbatim>\<open>m_node\<close> uninitialised: its value is an argument, and so
  is the default-constructed iterator.
\<close>

definition accessor_default :: "nat \<Rightarrow> 'it \<Rightarrow> 'it accessor" where
  "accessor_default garbage it =
     \<lparr>is_valid = False, a_node = garbage, a_json = it, a_index = null_ptr, a_offset = 0\<rparr>"

definition accessor_make :: "'it \<Rightarrow> nat \<Rightarrow> nat \<Rightarrow> nat \<Rightarrow> 'it accessor" where
  "accessor_make json index node offset =
     \<lparr>is_valid = True, a_node = node, a_json = json, a_index = index, a_offset = offset\<rparr>"

definition set_child :: "'it accessor \<Rightarrow> nat option \<Rightarrow> 'it accessor" where
  "set_child a r =
     (case r of None \<Rightarrow> a\<lparr>is_valid := False\<rparr> | Some n \<Rightarrow> a\<lparr>is_valid := True, a_node := n\<rparr>)"

definition at_index ::
  "('bvb, 'ef, 'bp) succinct \<Rightarrow> ('ef, 'bp) heap \<Rightarrow> string accessor \<Rightarrow> int \<Rightarrow> string accessor outcome" where
  "at_index S mem a idx =
     (if \<not> is_valid a then Some (Inr (a\<lparr>is_valid := False\<rparr>))
      else case index_at mem (a_index a) of
             Inl e \<Rightarrow> Some (Inl e)
           | Inr ix \<Rightarrow>
               bind_outcome (get_array_child S ix (a_json a) (a_node a) (a_offset a) idx)
                 (\<lambda>r. Some (Inr (set_child a r))))"

definition at_key ::
  "('bvb, 'ef, 'bp) succinct \<Rightarrow> ('ef, 'bp) heap \<Rightarrow> string accessor \<Rightarrow> string \<Rightarrow> string accessor outcome" where
  "at_key S mem a key =
     (if \<not> is_valid a then Some (Inr (a\<lparr>is_valid := False\<rparr>))
      else case index_at mem (a_index a) of
             Inl e \<Rightarrow> Some (Inl e)
           | Inr ix \<Rightarrow>
               bind_outcome (get_object_child S ix (a_json a) (a_node a) (a_offset a) key)
                 (\<lambda>r. Some (Inr (set_child a r))))"

fun get_path ::
  "('bvb, 'ef, 'bp) succinct \<Rightarrow> ('ef, 'bp) heap \<Rightarrow> string accessor \<Rightarrow> path \<Rightarrow> string accessor outcome" where
  "get_path S mem a [] = Some (Inr a)"
| "get_path S mem a (x # p) =
     (if is_valid a then
        bind_outcome (case x of Key k \<Rightarrow> at_key S mem a k | Index i \<Rightarrow> at_index S mem a i)
          (\<lambda>a'. get_path S mem a' p)
      else Some (Inr a))"

definition accessor_get_pos ::
  "('bvb, 'ef, 'bp) succinct \<Rightarrow> ('ef, 'bp) heap \<Rightarrow> 'it accessor \<Rightarrow> nat result" where
  "accessor_get_pos S mem a =
     bind_result (index_at mem (a_index a)) (\<lambda>ix. Inr (get_pos S ix (a_node a) (a_offset a)))"

definition get_range ::
  "('bvb, 'ef, 'bp) succinct \<Rightarrow> ('ef, 'bp) heap \<Rightarrow> 'it accessor \<Rightarrow> (nat \<times> nat) result" where
  "get_range S mem a =
     bind_result (accessor_get_pos S mem a)
       (\<lambda>pos. bind_result (index_at mem (a_index a))
          (\<lambda>ix. Inr (pos, FindEnd S ix (a_node a) (a_offset a))))"

text \<open>Reading the bytes from one position to another through an iterator.\<close>

definition read_range :: "string \<Rightarrow> nat \<times> nat \<Rightarrow> string result" where
  "read_range json r =
     (if fst r \<le> snd r \<and> snd r \<le> length json
      then Inr (take (snd r - fst r) (drop (fst r) json)) else Inl Out_Of_Bounds)"

text \<open>
  \<^verbatim>\<open>accessor::parse\<close>; the JSON parser is an argument, it gives \<open>None\<close> when it returns
  \<^verbatim>\<open>false\<close> (the parser of the code is in \<open>Json_Parser\<close>).
\<close>

definition accessor_parse ::
  "('bvb, 'ef, 'bp) succinct \<Rightarrow> ('ef, 'bp) heap \<Rightarrow> (string \<Rightarrow> 'v option result) \<Rightarrow> string accessor \<Rightarrow>
   'v result" where
  "accessor_parse S mem parser a =
     (if \<not> is_valid a then Inl Terminate
      else bind_result (get_range S mem a)
        (\<lambda>r. bind_result (read_range (a_json a) r)
           (\<lambda>txt. bind_result (parser txt)
              (\<lambda>ret. case ret of None \<Rightarrow> Inl Terminate | Some v \<Rightarrow> Inr v))))"

section \<open>Cursors\<close>

record cursor =
  c_index :: nat
  c_node :: nat
  c_offset :: nat

definition cursor_default :: cursor where
  "cursor_default = \<lparr>c_index = null_ptr, c_node = 0, c_offset = 0\<rparr>"

definition cursor_make ::
  "('bvb, 'ef, 'bp) succinct \<Rightarrow> ('ef, 'bp) heap \<Rightarrow> nat \<Rightarrow> nat \<Rightarrow> cursor result" where
  "cursor_make S mem index node =
     bind_result (index_at mem index)
       (\<lambda>ix. Inr \<lparr>c_index = index, c_node = node, c_offset = get_pos S ix node 0\<rparr>)"

definition get_accessor :: "cursor \<Rightarrow> 'it \<Rightarrow> 'it accessor" where
  "get_accessor c json = accessor_make json (c_index c) (c_node c) (c_offset c)"

definition get_offset :: "cursor \<Rightarrow> nat" where
  "get_offset c = c_offset c"

definition cursor_next ::
  "('bvb, 'ef, 'bp) succinct \<Rightarrow> ('ef, 'bp) heap \<Rightarrow> cursor \<Rightarrow> cursor result" where
  "cursor_next S mem c =
     bind_result (index_at mem (c_index c))
       (\<lambda>ix. let next_node = bp_find_close S (m_bp ix) (c_node c) + 1
              in if \<not> next_node \<le> tree_size S ix then Inl Assertion_Failed
                 else if next_node = tree_size S ix then Inr cursor_default
                 else cursor_make S mem (c_index c) next_node)"

definition cursor_eq :: "cursor \<Rightarrow> cursor \<Rightarrow> bool" where
  "cursor_eq c d \<longleftrightarrow>
     c_index c = c_index d \<and> c_node c = c_node d \<and> c_offset c = c_offset d"

definition get_cursor ::
  "('bvb, 'ef, 'bp) succinct \<Rightarrow> ('ef, 'bp) heap \<Rightarrow> nat \<Rightarrow> cursor result" where
  "get_cursor S mem this = cursor_make S mem this 0"

section \<open>The contract of an accessor\<close>

text \<open>The text a path selects: the root without its outer whitespace, or a whole element.\<close>

definition select_text :: "jtree \<Rightarrow> path \<Rightarrow> string option" where
  "select_text t p =
     map_option (\<lambda>u. if p = [] then core_text u else json_text u) (lookup_path t p)"

fun plain_keys :: "path \<Rightarrow> bool" where
  "plain_keys [] \<longleftrightarrow> True"
| "plain_keys (Key k # p) \<longleftrightarrow> quote \<notin> set k \<and> plain_keys p"
| "plain_keys (Index i # p) \<longleftrightarrow> plain_keys p"

text \<open>An accessor that stands at a node of the document \<open>doc\<close> of the collection.\<close>

definition stands_at ::
  "('ef, 'bp) heap \<Rightarrow> ('ef, 'bp) json_semi_index \<Rightarrow> string \<Rightarrow> string \<Rightarrow> string accessor \<Rightarrow> bool" where
  "stands_at mem ix P0 doc a \<longleftrightarrow>
     is_valid a \<and> index_at mem (a_index a) = Inr ix \<and> a_offset a = length P0 \<and>
     (\<exists>rest. a_json a = doc @ rest)"

lemma read_range_middle:
  "read_range (Q @ xs @ R) (length Q, length Q + length xs) = Inr xs"
  by (simp add: read_range_def)

lemma read_range_prefix:
  "doc = Q @ xs @ R \<Longrightarrow> read_range (doc @ rest) (length Q, length Q + length xs) = Inr xs"
  using read_range_middle [of Q xs "R @ rest"] by simp

context succinct_spec
begin

lemma at_step:
  assumes ix: "indexes S bits ix (P0 @ doc @ R0)" and P0: "closed P0"
    and a: "stands_at mem ix P0 doc a"
    and n: "child_at P0 doc (a_node a) t \<or> container_at P0 doc (a_node a) t"
    and wf: "wf_tree t" and sp: "spaced t" and key: "plain_keys [x]"
  shows "\<exists>a'. (case x of Key k \<Rightarrow> at_key S mem a k | Index i \<Rightarrow> at_index S mem a i) = Some (Inr a') \<and>
    a_json a' = a_json a \<and>
    (case lookup_path t [x] of None \<Rightarrow> \<not> is_valid a'
     | Some u \<Rightarrow> stands_at mem ix P0 doc a' \<and> child_at P0 doc (a_node a') u)"
proof -
  from a obtain rest where json: "a_json a = doc @ rest"
    and st: "is_valid a" "index_at mem (a_index a) = Inr ix" "a_offset a = length P0"
    by (auto simp: stands_at_def)
  show ?thesis
  proof (cases x)
    case (Key k)
    with key have "quote \<notin> set k" by simp
    from get_object_child_node [OF ix P0 n wf sp this, of rest] obtain r where
      "get_object_child S ix (a_json a) (a_node a) (a_offset a) k = Some (Inr r)"
      "rel_option (child_at P0 doc) r (child_key t k)" by (auto simp: json st)
    with Key st json show ?thesis
      by (cases r; cases "child_key t k") (auto simp: at_key_def set_child_def stands_at_def)
  next
    case (Index i)
    from get_array_child_node [OF ix P0 n wf, of rest i] obtain r where
      "get_array_child S ix (a_json a) (a_node a) (a_offset a) i = Some (Inr r)"
      "rel_option (child_at P0 doc) r (child_index t i)" by (auto simp: json st)
    with Index st json show ?thesis
      by (cases r; cases "child_index t i") (auto simp: at_index_def set_child_def stands_at_def)
  qed
qed

lemma lookup_path_Cons:
  "lookup_path t (x # p) =
     (case lookup_path t [x] of None \<Rightarrow> None | Some u \<Rightarrow> lookup_path u p)"
  by (cases x) (auto split: option.splits)

lemma lookup_step_wf: "wf_tree t \<Longrightarrow> lookup_path t [x] = Some u \<Longrightarrow> wf_tree u"
  by (cases x) (auto split: option.splits dest: child_key_wf child_index_wf)

lemma lookup_step_spaced: "spaced t \<Longrightarrow> lookup_path t [x] = Some u \<Longrightarrow> spaced u"
  by (cases x) (auto split: option.splits dest: child_key_spaced child_index_spaced)

lemma plain_keys_Cons: "plain_keys (x # p) \<longleftrightarrow> plain_keys [x] \<and> plain_keys p"
  by (cases x) auto

lemma get_path_invalid: "\<not> is_valid a \<Longrightarrow> get_path S mem a p = Some (Inr a)"
  by (cases p) auto

lemma get_path_node:
  assumes ix: "indexes S bits ix (P0 @ doc @ R0)" and P0: "closed P0"
    and "stands_at mem ix P0 doc a"
    and "child_at P0 doc (a_node a) t \<or> container_at P0 doc (a_node a) t"
    and "wf_tree t" and "spaced t" and "plain_keys p"
  shows "\<exists>a'. get_path S mem a p = Some (Inr a') \<and> a_json a' = a_json a \<and>
    (case lookup_path t p of None \<Rightarrow> \<not> is_valid a'
     | Some u \<Rightarrow> stands_at mem ix P0 doc a' \<and> wf_tree u \<and>
         (if p = [] then a' = a else child_at P0 doc (a_node a') u))"
  using assms(3-)
proof (induction p arbitrary: a t)
  case (Cons x p)
  from Cons.prems(5) have x: "plain_keys [x]" "plain_keys p" by (simp_all add: plain_keys_Cons [of x p])
  from at_step [OF ix P0 Cons.prems(1-4) x(1)] obtain a1 where
    a1: "(case x of Key k \<Rightarrow> at_key S mem a k | Index i \<Rightarrow> at_index S mem a i) = Some (Inr a1)"
    "a_json a1 = a_json a"
    "case lookup_path t [x] of None \<Rightarrow> \<not> is_valid a1
     | Some u \<Rightarrow> stands_at mem ix P0 doc a1 \<and> child_at P0 doc (a_node a1) u" by blast
  have step: "get_path S mem a (x # p) = get_path S mem a1 p"
    using a1(1) Cons.prems(1) by (simp add: stands_at_def)
  show ?case
  proof (cases "lookup_path t [x]")
    case None
    with a1 step get_path_invalid [of a1 mem p] show ?thesis
      by (simp add: lookup_path_Cons [of t x p])
  next
    case (Some u)
    with a1 have st: "stands_at mem ix P0 doc a1" "child_at P0 doc (a_node a1) u" by auto
    have u: "wf_tree u" "spaced u"
      using lookup_step_wf [OF Cons.prems(3) Some] lookup_step_spaced [OF Cons.prems(4) Some] by auto
    from Cons.IH [OF st(1) _ u x(2)] st(2) a1(2) step Some show ?thesis
      by (cases "p = []") (auto simp: lookup_path_Cons [of t x p] split: option.splits)
  qed
qed simp

text \<open>The contract: from the root, \<^verbatim>\<open>get_path\<close> and \<^verbatim>\<open>get_range\<close> select the abstract text.\<close>

lemma get_path_correct:
  assumes ix: "indexes S bits ix (P0 @ doc @ R0)" and P0: "closed P0"
    and a: "stands_at mem ix P0 doc a" and n: "container_at P0 doc (a_node a) t"
    and wf: "wf_tree t" and sp: "spaced t" and keys: "plain_keys p"
  shows "\<exists>a'. get_path S mem a p = Some (Inr a') \<and> a_json a' = a_json a \<and>
    (case select_text t p of None \<Rightarrow> \<not> is_valid a'
     | Some txt \<Rightarrow> is_valid a' \<and>
         (\<exists>r. get_range S mem a' = Inr r \<and> read_range (a_json a') r = Inr txt))"
proof -
  from get_path_node [OF ix P0 a _ wf sp keys] n obtain a' where
    a': "get_path S mem a p = Some (Inr a')" "a_json a' = a_json a"
    and res: "case lookup_path t p of None \<Rightarrow> \<not> is_valid a'
     | Some u \<Rightarrow> stands_at mem ix P0 doc a' \<and> wf_tree u \<and>
         (if p = [] then a' = a else child_at P0 doc (a_node a') u)" by blast
  show ?thesis
  proof (cases "lookup_path t p")
    case None
    with a' res show ?thesis by (simp add: select_text_def)
  next
    case (Some u)
    with res have st: "stands_at mem ix P0 doc a'" and wfu: "wf_tree u" by auto
    from st obtain rest where a'_simps: "a_json a' = doc @ rest" "is_valid a'"
      "index_at mem (a_index a') = Inr ix" "a_offset a' = length P0"
      by (auto simp: stands_at_def)
    have "\<exists>Q R. doc = Q @ (if p = [] then core_text u else json_text u) @ R \<and>
        get_pos S ix (a_node a') (length P0) = length Q \<and>
        FindEnd S ix (a_node a') (length P0) =
          length Q + length (if p = [] then core_text u else json_text u)"
    proof (cases "p = []")
      case True
      with res Some n container_range [OF ix P0 n wf] show ?thesis by auto
    next
      case False
      with res Some child_range [OF ix P0 _ wfu] show ?thesis by auto
    qed
    then obtain Q R where QR: "doc = Q @ (if p = [] then core_text u else json_text u) @ R"
      "get_pos S ix (a_node a') (length P0) = length Q"
      "FindEnd S ix (a_node a') (length P0) =
          length Q + length (if p = [] then core_text u else json_text u)" by blast
    with Some a' a'_simps read_range_prefix [OF QR(1), of rest] show ?thesis
      by (auto simp: select_text_def get_range_def accessor_get_pos_def)
  qed
qed

end

section \<open>The contract of a cursor\<close>

text \<open>Where document \<open>i\<close> of the collection starts (after its leading whitespace).\<close>

definition doc_start :: "jtree list \<Rightarrow> nat \<Rightarrow> string" where
  "doc_start ts i = concat (map json_text (take i ts)) @ before (ts ! i)"

definition doc_cursor :: "nat \<Rightarrow> jtree list \<Rightarrow> nat \<Rightarrow> cursor" where
  "doc_cursor addr ts i =
     \<lparr>c_index = addr, c_node = 2 * structs (doc_start ts i), c_offset = length (doc_start ts i)\<rparr>"

definition wf_collection :: "jtree list \<Rightarrow> bool" where
  "wf_collection ts \<longleftrightarrow> list_all (\<lambda>t. wf_tree t \<and> container t) ts"

lemma wf_collection_nth: "wf_collection ts \<Longrightarrow> i < length ts \<Longrightarrow> wf_tree (ts ! i) \<and> container (ts ! i)"
  by (simp add: wf_collection_def list_all_length)

lemma doc_start_closed:
  assumes "wf_collection ts" and "i < length ts"
  shows "closed (doc_start ts i)"
proof -
  have "closed (concat (map json_text (take i ts)))"
    using assms(1) by (intro collection_closed) (auto simp: wf_collection_def list_all_iff dest: in_set_takeD)
  moreover have "gap (before (ts ! i))" using wf_collection_nth [OF assms] by (simp add: tree_simps)
  ultimately show ?thesis by (simp add: doc_start_def mode_simps)
qed

lemma collection_split:
  assumes "i < length ts"
  shows "concat (map json_text ts) =
    doc_start ts i @ core_text (ts ! i) @ after (ts ! i) @ concat (map json_text (drop (Suc i) ts))"
  using concat_split_nth [of i "map json_text ts"] assms
  by (simp add: doc_start_def json_text_core take_map drop_map)

lemma doc_start_Suc:
  assumes "Suc i < length ts"
  shows "doc_start ts (Suc i) = doc_start ts i @ core_text (ts ! i) @ after (ts ! i) @ before (ts ! Suc i)"
proof -
  have "concat (map json_text (take (Suc i) ts)) = concat (map json_text (take i ts)) @ json_text (ts ! i)"
    using assms by (simp add: take_Suc_conv_app_nth)
  then show ?thesis by (simp add: doc_start_def json_text_core)
qed

lemma structs_core_pos: "wf_tree t \<Longrightarrow> container t \<Longrightarrow> 0 < structs (core_text t)"
  by (cases t) (auto simp: mode_simps)

context succinct_spec
begin

lemma collection_indexes:
  assumes "wf_collection ts"
  shows "\<exists>ix. json_semi_index_base S (map json_text ts) = Inr ix \<and>
    indexes S bits ix (concat (map json_text ts))"
proof -
  have "\<forall>s \<in> set (map json_text ts). closed s"
    using assms by (auto simp: wf_collection_def list_all_iff tree_simps)
  then obtain nav bp where "json_semi_index_base S (map json_text ts) =
       Inr \<lparr>m_nav = elias_fano S nav, m_bp = bp_vector S bp\<rparr>"
    "bits nav = marks Outside (concat (map json_text ts))"
    "bits bp = parens Outside (concat (map json_text ts))"
    by (rule index_of_collection)
  moreover have "balanced (parens Outside (concat (map json_text ts)))"
    using assms by (intro collection_balanced) (auto simp: wf_collection_def list_all_iff)
  ultimately show ?thesis by (auto simp: indexes_def)
qed

lemma cursor_make_doc:
  assumes ix: "indexes S bits ix (concat (map json_text ts))" and at: "index_at mem addr = Inr ix"
    and wf: "wf_collection ts" and i: "i < length ts" and n: "n = 2 * structs (doc_start ts i)"
  shows "cursor_make S mem addr n = Inr (doc_cursor addr ts i)"
proof -
  from wf_collection_nth [OF wf i] obtain c M where "core_text (ts ! i) = c # M" "structural c"
    by (cases "ts ! i") auto
  with get_pos_even [of ix "[]" "concat (map json_text ts)" "[]" "doc_start ts i" c]
    ix collection_split [OF i] doc_start_closed [OF wf i]
  have "get_pos S ix n 0 = length (doc_start ts i)" by (simp add: n)
  with at n show ?thesis by (simp add: cursor_make_def doc_cursor_def)
qed

lemma cursor_first:
  assumes "indexes S bits ix (concat (map json_text ts))" and "index_at mem addr = Inr ix"
    and "wf_collection ts" and "ts \<noteq> []"
  shows "get_cursor S mem addr = Inr (doc_cursor addr ts 0)"
proof -
  from assms(3,4) have "gap (before (ts ! 0))"
    using wf_collection_nth [of ts 0] by (auto simp: tree_simps)
  with cursor_make_doc [OF assms(1-3), of 0 0] assms(4) show ?thesis
    by (simp add: get_cursor_def doc_start_def mode_simps)
qed

lemma cursor_steps:
  assumes ix: "indexes S bits ix (concat (map json_text ts))" and at: "index_at mem addr = Inr ix"
    and wf: "wf_collection ts" and i: "i < length ts"
  shows "cursor_next S mem (doc_cursor addr ts i) =
    Inr (if Suc i < length ts then doc_cursor addr ts (Suc i) else cursor_default)"
proof -
  let ?P = "doc_start ts i" and ?t = "ts ! i"
  let ?rest = "concat (map json_text (drop (Suc i) ts))"
  have t: "wf_tree ?t" "container ?t" using wf_collection_nth [OF wf i] by auto
  have P: "closed ?P" by (rule doc_start_closed [OF wf i])
  have D: "concat (map json_text ts) = ?P @ core_text ?t @ after ?t @ ?rest"
    by (rule collection_split [OF i])
  have next_node: "bp_find_close S (m_bp ix) (2 * structs ?P) + 1 = 2 * structs (?P @ core_text ?t)"
    using container_range_at(3) [of ix ?P "core_text ?t" "after ?t @ ?rest" "[]" ?t "[]"] ix D P t
    by simp
  have size: "tree_size S ix = 2 * structs (?P @ core_text ?t) + 2 * structs ?rest"
    using tree_size_indexes [OF ix] D P t by (simp add: mode_simps tree_simps)
  show ?thesis
  proof (cases "Suc i < length ts")
    case True
    have rest: "?rest = before (ts ! Suc i) @ core_text (ts ! Suc i) @ after (ts ! Suc i) @
        concat (map json_text (drop (Suc (Suc i)) ts))"
      using True by (simp add: Cons_nth_drop_Suc [symmetric] json_text_core)
    have t': "wf_tree (ts ! Suc i)" "container (ts ! Suc i)"
      using wf_collection_nth [OF wf True] by auto
    have "0 < structs ?rest"
      using structs_core_pos [OF t'] t' unfolding rest by (simp add: mode_simps tree_simps)
    moreover have "structs (doc_start ts (Suc i)) = structs (?P @ core_text ?t)"
      using t t' P by (simp add: doc_start_Suc [OF True] mode_simps tree_simps)
    ultimately show ?thesis
      using next_node size at True cursor_make_doc [OF ix at wf True]
      by (simp add: cursor_next_def doc_cursor_def Let_def)
  next
    case False
    with next_node size at show ?thesis
      by (simp add: cursor_next_def doc_cursor_def Let_def structs_Nil)
  qed
qed

lemma doc_accessor:
  assumes ix: "indexes S bits ix (concat (map json_text ts))" and at: "index_at mem addr = Inr ix"
    and wf: "wf_collection ts" and i: "i < length ts" and sp: "spaced (ts ! i)"
    and keys: "plain_keys p" and json: "json = core_text (ts ! i) @ rest"
  shows "\<exists>a'. get_path S mem (get_accessor (doc_cursor addr ts i) json) p = Some (Inr a') \<and>
    a_json a' = json \<and>
    (case select_text (ts ! i) p of None \<Rightarrow> \<not> is_valid a'
     | Some txt \<Rightarrow> is_valid a' \<and>
         (\<exists>r. get_range S mem a' = Inr r \<and> read_range json r = Inr txt))"
proof -
  let ?a = "get_accessor (doc_cursor addr ts i) json"
  have t: "wf_tree (ts ! i)" "container (ts ! i)" using wf_collection_nth [OF wf i] by auto
  have "indexes S bits ix (doc_start ts i @ core_text (ts ! i) @
      (after (ts ! i) @ concat (map json_text (drop (Suc i) ts))))"
    using ix collection_split [OF i] by simp
  moreover have "stands_at mem ix (doc_start ts i) (core_text (ts ! i)) ?a"
    using at json by (auto simp: stands_at_def get_accessor_def accessor_make_def doc_cursor_def)
  moreover have "container_at (doc_start ts i) (core_text (ts ! i)) (a_node ?a) (ts ! i)"
    using t by (auto simp: container_at_def get_accessor_def accessor_make_def doc_cursor_def
        intro: exI [of _ "[]"])
  ultimately show ?thesis
    using get_path_correct [OF _ doc_start_closed [OF wf i] _ _ t(1) sp keys, of ix
        "core_text (ts ! i)" "after (ts ! i) @ concat (map json_text (drop (Suc i) ts))" mem ?a]
    by (auto simp: get_accessor_def accessor_make_def)
qed

end

section \<open>Parsing what an accessor selects\<close>

lemma accessor_parse_text:
  assumes "succinct_spec S bits" and "wf_collection ts"
    and "json_semi_index_base S (map json_text ts) = Inr ix" and "index_at mem addr = Inr ix"
    and "i < length ts" and "spaced (ts ! i)" and "plain_keys p"
    and "json = core_text (ts ! i) @ rest"
    and "get_path S mem (get_accessor (doc_cursor addr ts i) json) p = Some (Inr a)"
  shows "accessor_parse S mem parser a =
    (case select_text (ts ! i) p of None \<Rightarrow> Inl Terminate
     | Some txt \<Rightarrow> bind_result (parser txt)
         (\<lambda>ret. case ret of None \<Rightarrow> Inl Terminate | Some v \<Rightarrow> Inr v))"
proof -
  have "indexes S bits ix (concat (map json_text ts))"
    using succinct_spec.collection_indexes [OF assms(1,2)] assms(3) by simp
  from succinct_spec.doc_accessor [OF assms(1) this assms(4,2,5-8)] assms(9) show ?thesis
    by (auto simp: accessor_parse_def split: option.splits)
qed

section \<open>Properties\<close>

text \<open>
  C3. The contract of an accessor. On the index of a collection, from the accessor of the
  \<open>i\<close>-th document, \<^verbatim>\<open>get_path\<close> returns for every path; the accessor it returns is valid if
  and only if the path exists in the document, and then the range it gives is exactly the text
  of the value the path selects.
\<close>

theorem get_path_selects:
  assumes "succinct_spec S bits" and "wf_collection ts"
    and "json_semi_index_base S (map json_text ts) = Inr ix" and "index_at mem addr = Inr ix"
    and "i < length ts" and "spaced (ts ! i)" and "plain_keys p"
    and "json = core_text (ts ! i) @ rest"
  shows "\<exists>a'. get_path S mem (get_accessor (doc_cursor addr ts i) json) p = Some (Inr a') \<and>
    a_json a' = json \<and>
    (case select_text (ts ! i) p of None \<Rightarrow> \<not> is_valid a'
     | Some txt \<Rightarrow> is_valid a' \<and>
         (\<exists>r. get_range S mem a' = Inr r \<and> read_range json r = Inr txt))"
proof -
  have "indexes S bits ix (concat (map json_text ts))"
    using succinct_spec.collection_indexes [OF assms(1,2)] assms(3) by simp
  from succinct_spec.doc_accessor [OF assms(1) this assms(4,2,5-8)] show ?thesis .
qed

text \<open>The cursor after \<open>n\<close> calls of \<^verbatim>\<open>next\<close>.\<close>

fun cursor_after ::
  "('bvb, 'ef, 'bp) succinct \<Rightarrow> ('ef, 'bp) heap \<Rightarrow> nat \<Rightarrow> cursor \<Rightarrow> cursor result" where
  "cursor_after S mem 0 c = Inr c"
| "cursor_after S mem (Suc n) c = bind_result (cursor_after S mem n c) (cursor_next S mem)"

text \<open>
  C6. The contract of a cursor. \<^verbatim>\<open>get_cursor\<close> stands at the first document of the collection,
  each \<^verbatim>\<open>next\<close> moves to the following document (its offset is where the document's text
  starts), and after the last document the cursor equals the default cursor; the assertion
  in \<^verbatim>\<open>next\<close> never fails on the way.
\<close>

theorem cursor_visits_documents:
  assumes "succinct_spec S bits" and "wf_collection ts" and "ts \<noteq> []"
    and "json_semi_index_base S (map json_text ts) = Inr ix" and "index_at mem addr = Inr ix"
    and "n \<le> length ts"
  shows "bind_result (get_cursor S mem addr) (cursor_after S mem n) =
    Inr (if n < length ts then doc_cursor addr ts n else cursor_default)"
  using assms(6)
proof (induction n)
  case 0
  have "indexes S bits ix (concat (map json_text ts))"
    using succinct_spec.collection_indexes [OF assms(1,2)] assms(4) by simp
  with succinct_spec.cursor_first [OF assms(1) this assms(5,2,3)] assms(3) show ?case by simp
next
  case (Suc n)
  have "indexes S bits ix (concat (map json_text ts))"
    using succinct_spec.collection_indexes [OF assms(1,2)] assms(4) by simp
  from succinct_spec.cursor_steps [OF assms(1) this assms(5,2), of n] Suc show ?case
    by (auto simp: bind_result_Inr)
qed

text \<open>
  \<^verbatim>\<open>accessor::parse\<close> hands the parser exactly the text of the value that the path selects,
  and returns the parser's value; it terminates the program on an invalid accessor and on a
  text that the parser refuses.
\<close>

theorem accessor_parse_selected:
  assumes "succinct_spec S bits" and "wf_collection ts"
    and "json_semi_index_base S (map json_text ts) = Inr ix" and "index_at mem addr = Inr ix"
    and "i < length ts" and "spaced (ts ! i)" and "plain_keys p"
    and "json = core_text (ts ! i) @ rest"
    and "get_path S mem (get_accessor (doc_cursor addr ts i) json) p = Some (Inr a)"
  shows "accessor_parse S mem parser a =
    (case select_text (ts ! i) p of None \<Rightarrow> Inl Terminate
     | Some txt \<Rightarrow> bind_result (parser txt)
         (\<lambda>ret. case ret of None \<Rightarrow> Inl Terminate | Some v \<Rightarrow> Inr v))"
  by (rule accessor_parse_text [OF assms])

text \<open>The two documents of \<open>small_docs\<close>, indexed on plain bit lists, for the witnesses.\<close>

definition small_index :: "(bool list, bool list) json_semi_index" where
  "small_index =
     \<lparr>m_nav = marks Outside (concat (map json_text small_docs)),
      m_bp = parens Outside (concat (map json_text small_docs))\<rparr>"

lemma small_facts:
  "wf_collection small_docs" "small_docs \<noteq> []" "length small_docs = 2" "spaced (small_docs ! 0)"
  "select_text (small_docs ! 0) [Key ''b'', Index (-1)] = Some '' 8''"
  "select_text (small_docs ! 0) [Key ''b'', Key ''a''] = None"
  by code_simp+

lemma small_index_built:
  "json_semi_index_base list_succinct (map json_text small_docs) = Inr small_index"
  by code_simp

lemma small_index_at: "index_at [3 \<mapsto> small_index] 3 = Inr small_index"
  by (simp add: index_at_def null_ptr_def)

theorem get_path_selects_witness:
  "\<exists>a. get_path list_succinct [3 \<mapsto> small_index]
       (get_accessor (doc_cursor 3 small_docs 0) (core_text (small_docs ! 0) @ [nul]))
       [Key ''b'', Index (-1)] = Some (Inr a) \<and> is_valid a \<and>
     (\<exists>r. get_range list_succinct [3 \<mapsto> small_index] a = Inr r \<and>
        read_range (core_text (small_docs ! 0) @ [nul]) r = Inr '' 8'')"
proof -
  have "plain_keys [Key ''b'', Index (-1)]" by code_simp
  from get_path_selects [OF list_succ.succinct_spec_axioms small_facts(1) small_index_built
      small_index_at _ small_facts(4) this refl, of "[nul]"] small_facts(3,5)
  show ?thesis by (auto simp del: get_path.simps)
qed

theorem cursor_visits_documents_witness:
  "bind_result (get_cursor list_succinct [3 \<mapsto> small_index] 3)
     (cursor_after list_succinct [3 \<mapsto> small_index] 1) =
     Inr \<lparr>c_index = 3, c_node = 16, c_offset = 22\<rparr> \<and>
   bind_result (get_cursor list_succinct [3 \<mapsto> small_index] 3)
     (cursor_after list_succinct [3 \<mapsto> small_index] 2) = Inr cursor_default"
proof -
  have "doc_cursor 3 small_docs 1 = \<lparr>c_index = 3, c_node = 16, c_offset = 22\<rparr>" by code_simp
  with cursor_visits_documents [OF list_succ.succinct_spec_axioms small_facts(1,2)
      small_index_built small_index_at, of 1]
    cursor_visits_documents [OF list_succ.succinct_spec_axioms small_facts(1,2)
      small_index_built small_index_at, of 2] small_facts(3)
  show ?thesis by simp
qed

theorem accessor_parse_selected_witness:
  "\<exists>a. get_path list_succinct [3 \<mapsto> small_index]
       (get_accessor (doc_cursor 3 small_docs 0) (core_text (small_docs ! 0) @ [nul]))
       [Key ''b'', Index (-1)] = Some (Inr a) \<and>
     accessor_parse list_succinct [3 \<mapsto> small_index] (\<lambda>txt. Inr (Some txt)) a = Inr '' 8''"
proof -
  have keys: "plain_keys [Key ''b'', Index (-1)]" by code_simp
  have "case get_path list_succinct [3 \<mapsto> small_index]
       (get_accessor (doc_cursor 3 small_docs 0) (core_text (small_docs ! 0) @ [nul]))
       [Key ''b'', Index (-1)] of Some (Inr a) \<Rightarrow> True | _ \<Rightarrow> False" by code_simp
  then obtain a where a: "get_path list_succinct [3 \<mapsto> small_index]
       (get_accessor (doc_cursor 3 small_docs 0) (core_text (small_docs ! 0) @ [nul]))
       [Key ''b'', Index (-1)] = Some (Inr a)" by (auto split: option.splits sum.splits)
  from accessor_parse_selected [OF list_succ.succinct_spec_axioms small_facts(1) small_index_built
      small_index_at _ small_facts(4) keys refl a, of "\<lambda>txt. Inr (Some txt)"] small_facts(3,5) a
  show ?thesis by (auto simp del: get_path.simps)
qed

end
