(* ===== verification/Json_Select.thy ===== *)
theory Json_Select
  imports Semi_Index_Access
begin

text \<open>
  The commands of \<^verbatim>\<open>json_select.cpp\<close> that work on a semi-index. What a command writes to
  standard output is its value; standard input is the list of lines that
  \<^verbatim>\<open>succinct::util::fast_getline\<close> (or \<^verbatim>\<open>lines\<close>) returns, each with its newline; a C
  string is the line followed by a null character. The index object of a command is the one
  object of the heap, at address \<open>index_addr\<close>.

  \<^verbatim>\<open>succinct::mapper\<close> (freezing an index to a file and mapping it back) is an argument,
  the record \<open>mapper\<close>, whose documented behaviour is the locale \<open>mapper_spec\<close>. The parser
  of path lists (\<^verbatim>\<open>json::path::parse\<close>) is an argument as well; it is modelled in its own
  component.

  The theorems show that the in-memory command, the command on a saved index read along the
  stream, and the command on a saved index over the mapped file all print, for every document
  and every path, exactly the text of the selected value, or \<^verbatim>\<open>null\<close>.
\<close>

section \<open>The mapper\<close>

record ('ef, 'bp) mapper =
  freeze_index :: "('ef, 'bp) json_semi_index \<Rightarrow> string"
  map_index :: "string \<Rightarrow> ('ef, 'bp) json_semi_index"

locale mapper_spec =
  fixes M :: "('ef, 'bp) mapper"
  assumes map_freeze: "map_index M (freeze_index M ix) = ix"

section \<open>The commands\<close>

definition index_addr :: nat where
  "index_addr = 1"

definition heap_with :: "('ef, 'bp) json_semi_index \<Rightarrow> ('ef, 'bp) heap" where
  "heap_with ix = [index_addr \<mapsto> ix]"

definition c_str :: "string \<Rightarrow> string" where
  "c_str s = s @ [nul]"

text \<open>The loop over the paths, the same in every command.\<close>

fun write_paths ::
  "('bvb, 'ef, 'bp) succinct \<Rightarrow> ('ef, 'bp) heap \<Rightarrow> string accessor \<Rightarrow> string \<Rightarrow> bool \<Rightarrow>
   path_list \<Rightarrow> string outcome" where
  "write_paths S mem root line first [] = Some (Inr [])"
| "write_paths S mem root line first (p # ps) =
     bind_outcome (get_path S mem root p)
       (\<lambda>a. bind_outcome
          (if is_valid a then Some (bind_result (get_range S mem a) (read_range line))
           else Some (Inr ''null''))
          (\<lambda>v. bind_outcome (write_paths S mem root line False ps)
             (\<lambda>out. Some (Inr ((if first then [] else '','') @ v @ out)))))"

definition write_document ::
  "('bvb, 'ef, 'bp) succinct \<Rightarrow> ('ef, 'bp) heap \<Rightarrow> string accessor \<Rightarrow> string \<Rightarrow> path_list \<Rightarrow>
   string outcome" where
  "write_document S mem root line paths =
     bind_outcome (write_paths S mem root line True paths)
       (\<lambda>out. Some (Inr (''['' @ out @ CHR '']'' # [CHR 0x0A])))"

text \<open>\<^verbatim>\<open>si_parse_stream\<close>: one index per line.\<close>

fun si_parse_lines ::
  "('bvb, 'ef, 'bp) succinct \<Rightarrow> path_list \<Rightarrow> string list \<Rightarrow> string outcome" where
  "si_parse_lines S paths [] = Some (Inr [])"
| "si_parse_lines S paths (line # rest) =
     bind_outcome (Some (json_semi_index_base S [line]))
       (\<lambda>ix. bind_outcome (Some (get_cursor S (heap_with ix) index_addr))
          (\<lambda>c. bind_outcome
             (write_document S (heap_with ix) (get_accessor c (c_str line)) (c_str line) paths)
             (\<lambda>out. bind_outcome (si_parse_lines S paths rest)
                (\<lambda>out'. Some (Inr (out @ out'))))))"

definition si_parse_stream ::
  "('bvb, 'ef, 'bp) succinct \<Rightarrow> (string \<Rightarrow> path_list result) \<Rightarrow> string \<Rightarrow> string list \<Rightarrow>
   string outcome" where
  "si_parse_stream S path_parse paths_spec stdin =
     bind_outcome (Some (path_parse paths_spec)) (\<lambda>paths. si_parse_lines S paths stdin)"

text \<open>\<^verbatim>\<open>si_save\<close>: the contents of the index file.\<close>

definition si_save ::
  "('bvb, 'ef, 'bp) succinct \<Rightarrow> ('ef, 'bp) mapper \<Rightarrow> string list \<Rightarrow> string result" where
  "si_save S M stdin =
     bind_result (json_semi_index_base S stdin) (\<lambda>ix. Inr (freeze_index M ix))"

text \<open>\<^verbatim>\<open>saved_si_parse_stream\<close>: a saved index, the documents read from the stream.\<close>

fun saved_lines ::
  "('bvb, 'ef, 'bp) succinct \<Rightarrow> ('ef, 'bp) heap \<Rightarrow> path_list \<Rightarrow> cursor \<Rightarrow> string list \<Rightarrow>
   string outcome" where
  "saved_lines S mem paths c [] = Some (Inr [])"
| "saved_lines S mem paths c (line # rest) =
     bind_outcome (Some (cursor_next S mem c))
       (\<lambda>c'. bind_outcome
          (write_document S mem (get_accessor c (c_str line)) (c_str line) paths)
          (\<lambda>out. bind_outcome (saved_lines S mem paths c' rest)
             (\<lambda>out'. Some (Inr (out @ out')))))"

definition saved_si_parse_stream ::
  "('bvb, 'ef, 'bp) succinct \<Rightarrow> ('ef, 'bp) mapper \<Rightarrow> (string \<Rightarrow> path_list result) \<Rightarrow>
   string \<Rightarrow> string \<Rightarrow> string list \<Rightarrow> string outcome" where
  "saved_si_parse_stream S M path_parse index_file paths_spec stdin =
     (let mem = heap_with (map_index M index_file)
      in bind_outcome (Some (get_cursor S mem index_addr))
           (\<lambda>c. bind_outcome (Some (path_parse paths_spec))
              (\<lambda>paths. saved_lines S mem paths c stdin)))"

text \<open>
  \<^verbatim>\<open>saved_si_parse_mapped\<close>: a saved index over the mapped collection. The loop runs until the
  cursor equals the default cursor; the last argument is what has been written so far.
\<close>

partial_function (option) mapped_loop ::
  "('bvb, 'ef, 'bp) succinct \<Rightarrow> ('ef, 'bp) heap \<Rightarrow> path_list \<Rightarrow> string \<Rightarrow> cursor \<Rightarrow>
   string \<Rightarrow> string outcome" where
  "mapped_loop S mem paths json c written =
     (if cursor_eq c cursor_default then Some (Inr written)
      else
        let line = drop (get_offset c) json;
            root = get_accessor c line
        in (case cursor_next S mem c of
              Inl e \<Rightarrow> Some (Inl e)
            | Inr c' \<Rightarrow>
                (case write_document S mem root line paths of
                   None \<Rightarrow> None
                 | Some r \<Rightarrow>
                     (case r of
                        Inl e \<Rightarrow> Some (Inl e)
                      | Inr out \<Rightarrow> mapped_loop S mem paths json c' (written @ out)))))"

declare mapped_loop.simps [code]

definition saved_si_parse_mapped ::
  "('bvb, 'ef, 'bp) succinct \<Rightarrow> ('ef, 'bp) mapper \<Rightarrow> (string \<Rightarrow> path_list result) \<Rightarrow>
   string \<Rightarrow> string \<Rightarrow> string \<Rightarrow> string outcome" where
  "saved_si_parse_mapped S M path_parse json_file index_file paths_spec =
     (let mem = heap_with (map_index M index_file)
      in bind_outcome (Some (get_cursor S mem index_addr))
           (\<lambda>c. bind_outcome (Some (path_parse paths_spec))
              (\<lambda>paths. mapped_loop S mem paths json_file c [])))"

section \<open>What the commands should print\<close>

fun commas :: "string list \<Rightarrow> string" where
  "commas [] = []"
| "commas [x] = x"
| "commas (x # y # zs) = x @ CHR '','' # commas (y # zs)"

definition selected :: "jtree \<Rightarrow> path \<Rightarrow> string" where
  "selected t p = (case select_text t p of None \<Rightarrow> ''null'' | Some txt \<Rightarrow> txt)"

definition expected_line :: "path_list \<Rightarrow> jtree \<Rightarrow> string" where
  "expected_line paths t =
     ''['' @ commas (map (selected t) paths) @ CHR '']'' # [CHR 0x0A]"

definition expected_output :: "path_list \<Rightarrow> jtree list \<Rightarrow> string" where
  "expected_output paths ts = concat (map (expected_line paths) ts)"

definition queryable :: "jtree list \<Rightarrow> bool" where
  "queryable ts \<longleftrightarrow> wf_collection ts \<and> list_all spaced ts"

lemma index_at_heap [simp]: "index_at (heap_with ix) index_addr = Inr ix"
  by (simp add: index_at_def heap_with_def index_addr_def null_ptr_def)

lemma mapped_json:
  "k < length ts \<Longrightarrow> \<exists>rest. drop (length (doc_start ts k)) (concat (map json_text ts)) =
     core_text (ts ! k) @ rest"
  by (subst collection_split) auto

lemma doc_cursor_not_default: "\<not> cursor_eq (doc_cursor index_addr ts i) cursor_default"
  by (simp add: cursor_eq_def doc_cursor_def cursor_default_def index_addr_def null_ptr_def)

context succinct_spec
begin

lemma write_paths_correct:
  assumes ix: "indexes S bits ix (concat (map json_text ts))" and at: "index_at mem addr = Inr ix"
    and q: "queryable ts" and i: "i < length ts"
    and keys: "list_all plain_keys paths" and json: "json = core_text (ts ! i) @ rest"
  shows "write_paths S mem (get_accessor (doc_cursor addr ts i) json) json first paths =
    Some (Inr (if paths = [] then []
      else (if first then [] else '','') @ commas (map (selected (ts ! i)) paths)))"
  using keys
proof (induction paths arbitrary: first)
  case (Cons p ps)
  have wf: "wf_collection ts" and sp: "spaced (ts ! i)"
    using q i by (auto simp: queryable_def list_all_length)
  from doc_accessor [OF ix at wf i sp _ json, of p] Cons.prems obtain a' where
    a': "get_path S mem (get_accessor (doc_cursor addr ts i) json) p = Some (Inr a')"
    "case select_text (ts ! i) p of None \<Rightarrow> \<not> is_valid a'
     | Some txt \<Rightarrow> is_valid a' \<and> (\<exists>r. get_range S mem a' = Inr r \<and> read_range json r = Inr txt)"
    by auto
  then have "(if is_valid a' then Some (bind_result (get_range S mem a') (read_range json))
      else Some (Inr ''null'')) = Some (Inr (selected (ts ! i) p))"
    by (auto simp: selected_def split: option.splits)
  with a' Cons.IH [of False] Cons.prems show ?case by (cases ps) simp_all
qed simp

lemma write_document_correct:
  assumes "indexes S bits ix (concat (map json_text ts))" and "index_at mem addr = Inr ix"
    and "queryable ts" and "i < length ts" and "list_all plain_keys paths"
    and "json = core_text (ts ! i) @ rest"
  shows "write_document S mem (get_accessor (doc_cursor addr ts i) json) json paths =
    Some (Inr (expected_line paths (ts ! i)))"
  using write_paths_correct [OF assms, of True]
  by (auto simp: write_document_def expected_line_def)

lemma si_parse_lines_correct:
  assumes "queryable ts" and "list_all (\<lambda>t. before t = []) ts" and "list_all plain_keys paths"
  shows "si_parse_lines S paths (map json_text ts) = Some (Inr (expected_output paths ts))"
  using assms(1,2)
proof (induction ts)
  case (Cons t ts)
  have q: "queryable [t]" using Cons.prems by (auto simp: queryable_def wf_collection_def)
  then have wf: "wf_collection [t]" by (simp add: queryable_def)
  from collection_indexes [OF wf] obtain ix where
    ix: "json_semi_index_base S [json_text t] = Inr ix"
    "indexes S bits ix (concat (map json_text [t]))" by auto
  from cursor_first [OF ix(2) index_at_heap wf]
  have cur: "get_cursor S (heap_with ix) index_addr = Inr (doc_cursor index_addr [t] 0)" by simp
  have "c_str (json_text t) = core_text ([t] ! 0) @ (after t @ [nul])"
    using Cons.prems by (simp add: c_str_def json_text_core)
  from write_document_correct [OF ix(2) index_at_heap q _ assms(3) this]
  have "write_document S (heap_with ix)
      (get_accessor (doc_cursor index_addr [t] 0) (c_str (json_text t))) (c_str (json_text t)) paths =
      Some (Inr (expected_line paths t))" by simp
  with ix cur Cons show ?case
    by (simp add: expected_output_def queryable_def wf_collection_def)
qed (simp add: expected_output_def)

lemma saved_lines_correct:
  assumes ix: "indexes S bits ix (concat (map json_text ts))" and q: "queryable ts"
    and start: "list_all (\<lambda>t. before t = []) ts" and keys: "list_all plain_keys paths"
    and i: "i \<le> length ts"
    and c: "c = (if i < length ts then doc_cursor index_addr ts i else cursor_default)"
  shows "saved_lines S (heap_with ix) paths c (map json_text (drop i ts) @ extra) =
    (if extra = [] then Some (Inr (expected_output paths (drop i ts))) else Some (Inl Null_Pointer))"
  using i c
proof (induction "drop i ts" arbitrary: i c)
  case (Cons t us)
  then have il: "i < length ts" by (metis drop_eq_Nil linorder_not_le list.distinct(1))
  then have t: "t = ts ! i" and us: "us = drop (Suc i) ts"
    using Cons.hyps(2) by (simp_all add: Cons_nth_drop_Suc [symmetric])
  have wf: "wf_collection ts" using q by (simp add: queryable_def)
  have nxt: "cursor_next S (heap_with ix) c =
      Inr (if Suc i < length ts then doc_cursor index_addr ts (Suc i) else cursor_default)"
    using cursor_steps [OF ix index_at_heap wf il] il Cons.prems by simp
  have "c_str (json_text t) = core_text (ts ! i) @ (after t @ [nul])"
    using start il t by (simp add: c_str_def json_text_core list_all_length)
  from write_document_correct [OF ix index_at_heap q il keys this]
  have doc: "write_document S (heap_with ix) (get_accessor c (c_str (json_text t)))
      (c_str (json_text t)) paths = Some (Inr (expected_line paths t))"
    using il Cons.prems t by simp
  from Cons.hyps(1) [OF us _ refl] il
  have "saved_lines S (heap_with ix) paths
      (if Suc i < length ts then doc_cursor index_addr ts (Suc i) else cursor_default)
      (map json_text us @ extra) =
      (if extra = [] then Some (Inr (expected_output paths us)) else Some (Inl Null_Pointer))"
    by (simp add: us)
  with nxt doc Cons.hyps(2) show ?case by (simp add: expected_output_def flip: Cons.hyps(2))
next
  case Nil
  then show ?case
    by (cases extra) (simp_all add: expected_output_def cursor_next_def cursor_default_def index_at_def)
qed

lemma mapped_loop_correct:
  assumes ix: "indexes S bits ix (concat (map json_text ts))" and q: "queryable ts"
    and keys: "list_all plain_keys paths" and i: "i \<le> length ts"
    and json: "json = concat (map json_text ts)"
    and c: "c = (if i < length ts then doc_cursor index_addr ts i else cursor_default)"
  shows "mapped_loop S (heap_with ix) paths json c written =
    Some (Inr (written @ expected_output paths (drop i ts)))"
  using i c
proof (induction "drop i ts" arbitrary: i c written)
  case Nil
  then have "cursor_eq c cursor_default" by (simp add: cursor_eq_def)
  with Nil show ?case by (subst mapped_loop.simps) (simp add: expected_output_def)
next
  case (Cons t us)
  then have il: "i < length ts" by (metis drop_eq_Nil linorder_not_le list.distinct(1))
  then have t: "t = ts ! i" and us: "us = drop (Suc i) ts"
    using Cons.hyps(2) by (simp_all add: Cons_nth_drop_Suc [symmetric])
  have wf: "wf_collection ts" using q by (simp add: queryable_def)
  have cur: "c = doc_cursor index_addr ts i" using il Cons.prems by simp
  have nxt: "cursor_next S (heap_with ix) c =
      Inr (if Suc i < length ts then doc_cursor index_addr ts (Suc i) else cursor_default)"
    using cursor_steps [OF ix index_at_heap wf il] cur by simp
  obtain rest where "drop (get_offset c) json = core_text (ts ! i) @ rest"
    using mapped_json [OF il] json cur by (auto simp: get_offset_def doc_cursor_def)
  from write_document_correct [OF ix index_at_heap q il keys this]
  have doc: "write_document S (heap_with ix) (get_accessor c (drop (get_offset c) json))
      (drop (get_offset c) json) paths = Some (Inr (expected_line paths t))"
    using cur t by simp
  have "\<not> cursor_eq c cursor_default" using doc_cursor_not_default cur by simp
  with nxt doc have "mapped_loop S (heap_with ix) paths json c written =
      mapped_loop S (heap_with ix) paths json
        (if Suc i < length ts then doc_cursor index_addr ts (Suc i) else cursor_default)
        (written @ expected_line paths t)"
    by (subst mapped_loop.simps) (simp add: Let_def)
  with Cons.hyps(1) [OF us _ refl] il show ?case
    by (simp add: us expected_output_def flip: Cons.hyps(2))
qed

end

section \<open>A mapper\<close>

text \<open>
  An executable instance of the mapper, for the index on plain bit lists: the bits as
  characters, the two vectors separated by a bar.
\<close>

definition bit_chars :: "bool list \<Rightarrow> string" where
  "bit_chars bs = map (\<lambda>b. if b then CHR ''1'' else CHR ''0'') bs"

definition chars_bits :: "string \<Rightarrow> bool list" where
  "chars_bits cs = map (\<lambda>c. c = CHR ''1'') cs"

definition list_mapper :: "(bool list, bool list) mapper" where
  "list_mapper = \<lparr>
     freeze_index = (\<lambda>ix. bit_chars (m_nav ix) @ CHR ''|'' # bit_chars (m_bp ix)),
     map_index = (\<lambda>cs. \<lparr>m_nav = chars_bits (takeWhile (\<lambda>c. c \<noteq> CHR ''|'') cs),
                         m_bp = chars_bits (tl (dropWhile (\<lambda>c. c \<noteq> CHR ''|'') cs))\<rparr>)\<rparr>"

lemma bit_chars_inverse [simp]: "chars_bits (bit_chars bs) = bs"
  by (induction bs) (auto simp: bit_chars_def chars_bits_def)

lemma bit_chars_bar:
  "takeWhile (\<lambda>c. c \<noteq> CHR ''|'') (bit_chars bs @ CHR ''|'' # s) = bit_chars bs"
  "dropWhile (\<lambda>c. c \<noteq> CHR ''|'') (bit_chars bs @ CHR ''|'' # s) = CHR ''|'' # s"
  by (induction bs) (auto simp: bit_chars_def)

interpretation list_map: mapper_spec list_mapper
  by unfold_locales (simp add: list_mapper_def bit_chars_bar)

section \<open>What each command prints\<close>

lemma si_save_returns:
  assumes "succinct_spec S bits" and "queryable ts"
  shows "\<exists>index_file. si_save S M (map json_text ts) = Inr index_file"
  using succinct_spec.collection_indexes [OF assms(1), of ts] assms(2)
  by (auto simp: si_save_def queryable_def)

lemma mapped_prints:
  assumes "succinct_spec S bits" and "mapper_spec M"
    and "queryable ts" and "ts \<noteq> []"
    and "path_parse spec = Inr paths" and "list_all plain_keys paths"
    and "si_save S M (map json_text ts) = Inr index_file"
  shows "saved_si_parse_mapped S M path_parse (concat (map json_text ts)) index_file spec =
    Some (Inr (expected_output paths ts))"
proof -
  have wf: "wf_collection ts" using assms(3) by (simp add: queryable_def)
  from succinct_spec.collection_indexes [OF assms(1) wf] obtain ix where
    ix: "json_semi_index_base S (map json_text ts) = Inr ix"
    "indexes S bits ix (concat (map json_text ts))" by blast
  with assms(2,7) have "map_index M index_file = ix"
    by (auto simp: si_save_def mapper_spec.map_freeze)
  with succinct_spec.cursor_first [OF assms(1) ix(2) index_at_heap wf assms(4)]
    succinct_spec.mapped_loop_correct [OF assms(1) ix(2) assms(3,6) _ refl refl,
      of 0 "[]"] assms(4,5)
  show ?thesis by (simp add: saved_si_parse_mapped_def)
qed

text \<open>Two documents, one per line, and two paths, for the witnesses.\<close>

definition example_docs :: "jtree list" where
  "example_docs =
     [Obj [] [([], ''a'', [], Atom '' 1''),
              ('' '', ''b'', [], Arr '' '' [Atom ''7'', Atom '' 8''] [])] [CHR 0x0A],
      Obj [] [([], ''b'', [], Atom '' true'')] [CHR 0x0A]]"

definition example_paths :: path_list where
  "example_paths = [[Key ''b'', Index (-1)], [Key ''a'']]"

lemma example_facts:
  "queryable example_docs" "example_docs \<noteq> []" "list_all plain_keys example_paths"
  "list_all (\<lambda>t. before t = []) example_docs"
  "expected_output example_paths example_docs =
     ''[ 8, 1]'' @ [CHR 0x0A] @ ''[null,null]'' @ [CHR 0x0A]"
  by code_simp+

lemma stream_prints:
  assumes "succinct_spec S bits" and "queryable ts" and "list_all (\<lambda>t. before t = []) ts"
    and "path_parse spec = Inr paths" and "list_all plain_keys paths"
  shows "si_parse_stream S path_parse spec (map json_text ts) =
    Some (Inr (expected_output paths ts))"
  using succinct_spec.si_parse_lines_correct [OF assms(1-3,5)] assms(4)
  by (simp add: si_parse_stream_def)

lemma saved_stream_prints:
  assumes "succinct_spec S bits" and "mapper_spec M" and "queryable ts" and "ts \<noteq> []"
    and "list_all (\<lambda>t. before t = []) ts"
    and "path_parse spec = Inr paths" and "list_all plain_keys paths"
    and "si_save S M (map json_text ts) = Inr index_file"
  shows "saved_si_parse_stream S M path_parse index_file spec (map json_text ts @ extra) =
    (if extra = [] then Some (Inr (expected_output paths ts)) else Some (Inl Null_Pointer))"
proof -
  have wf: "wf_collection ts" using assms(3) by (simp add: queryable_def)
  from succinct_spec.collection_indexes [OF assms(1) wf] obtain ix where
    ix: "json_semi_index_base S (map json_text ts) = Inr ix"
    "indexes S bits ix (concat (map json_text ts))" by blast
  with assms(2,8) have "map_index M index_file = ix"
    by (auto simp: si_save_def mapper_spec.map_freeze)
  with succinct_spec.cursor_first [OF assms(1) ix(2) index_at_heap wf assms(4)]
    succinct_spec.saved_lines_correct [OF assms(1) ix(2) assms(3,5,7) _ refl, of 0 extra]
    assms(4,6)
  show ?thesis by (simp add: saved_si_parse_stream_def)
qed

section \<open>Properties\<close>

definition quoted :: "string \<Rightarrow> string" where
  "quoted s = quote # s @ [quote]"

text \<open>
  Whitespace before the document of a line: the offset of the cursor is the position of
  the opening brace, but the iterator given to the accessor is the start of the line, so every
  position is off by the whitespace and a member that exists is printed as \<^verbatim>\<open>null\<close>.
\<close>

theorem leading_space_misses:
  "si_parse_stream list_succinct (\<lambda>_. Inr [[Key ''a'']]) ''a''
     ['' {'' @ quoted ''a'' @ '': 1}''] = Some (Inr (''[null]'' @ [CHR 0x0A])) \<and>
   si_parse_stream list_succinct (\<lambda>_. Inr [[Key ''a'']]) ''a''
     [''{'' @ quoted ''a'' @ '': 1}''] = Some (Inr (''[ 1]'' @ [CHR 0x0A]))"
  by code_simp

text \<open>
  An empty array with whitespace inside is not recognised as empty, because only the
  character after the bracket is compared: it has a child 0, whose text is the whitespace. An
  empty object with whitespace inside is searched for the key in the text that follows it.
\<close>

theorem spaced_empty_container:
  "si_parse_stream list_succinct (\<lambda>_. Inr [[Index 0]]) ''[0]'' [''[ ]''] =
     Some (Inr (''[ ]'' @ [CHR 0x0A])) \<and>
   si_parse_stream list_succinct (\<lambda>_. Inr [[Key ''a'', Key ''b'']]) ''a.b''
     [''{'' @ quoted ''a'' @ '': { }, '' @ quoted ''b'' @ '': 2}''] =
     Some (Inr (''[]'' @ [CHR 0x0A]))"
  by code_simp

end
