(* ===== verification/Zrandom_Cache.thy ===== *)
theory Zrandom_Cache
  imports Prelude
begin

text \<open>
  The block cache of the random-access decompressor (class \<^verbatim>\<open>decompressor::cache\<close> in
  \<^verbatim>\<open>semi_index/zrandom.cpp\<close>). The \<^verbatim>\<open>unordered_map\<close> from block numbers to a time stamp and a
  block is an association list, in the (unspecified) order of its iterators; nothing proved
  here depends on that order. A \<^verbatim>\<open>block_t\<close> is the position of the block's first byte and its
  bytes. The time stamp is a \<^verbatim>\<open>uint64_t\<close> and wraps, at which point the cache is emptied.

  The interface \<open>coherent_cache\<close> is what the decompressor relies on: whatever \<^verbatim>\<open>get\<close>
  returns for a key is what was put for it, \<^verbatim>\<open>get\<close> and \<^verbatim>\<open>put\<close> keep the cache within its
  bound. It is interpreted on the cache of the code.
\<close>

type_synonym block = "nat \<times> string"

record cache =
  m_timestamp :: nat
  m_cache :: "(nat \<times> nat \<times> block) list"

definition max_entries :: nat where
  "max_entries = 8"

definition cache_new :: cache where
  "cache_new = \<lparr>m_timestamp = 0, m_cache = []\<rparr>"

definition tick :: "cache \<Rightarrow> cache" where
  "tick c =
     (let t = (m_timestamp c + 1) mod 2 ^ 64
      in if t = 0 then c\<lparr>m_timestamp := t, m_cache := []\<rparr> else c\<lparr>m_timestamp := t\<rparr>)"

text \<open>Assignment through an iterator to the entry of a key, and insertion by \<^verbatim>\<open>operator[]\<close>.\<close>

fun set_entry :: "nat \<Rightarrow> nat \<times> block \<Rightarrow> (nat \<times> nat \<times> block) list \<Rightarrow> (nat \<times> nat \<times> block) list" where
  "set_entry k v [] = [(k, v)]"
| "set_entry k v ((k', v') # es) = (if k = k' then (k, v) # es else (k', v') # set_entry k v es)"

definition cache_get :: "cache \<Rightarrow> nat \<Rightarrow> block option \<times> cache" where
  "cache_get c key =
     (case map_of (m_cache c) key of
        Some (_, b) \<Rightarrow>
          (Some b, tick (c\<lparr>m_cache := set_entry key (m_timestamp c, b) (m_cache c)\<rparr>))
      | None \<Rightarrow> (None, c))"

text \<open>The search for the entry to evict; \<open>None\<close> is the iterator \<^verbatim>\<open>m_cache.end()\<close>.\<close>

fun find_min :: "nat option \<Rightarrow> nat \<Rightarrow> (nat \<times> nat \<times> block) list \<Rightarrow> nat option" where
  "find_min min_iter min_timestamp [] = min_iter"
| "find_min min_iter min_timestamp ((k, v) # es) =
     (if min_iter = None \<or> k \<le> min_timestamp then find_min (Some k) k es
      else find_min min_iter min_timestamp es)"

definition cache_put :: "cache \<Rightarrow> nat \<Rightarrow> block \<Rightarrow> cache result" where
  "cache_put c key b =
     (let entries =
            (if length (m_cache c) = max_entries then
               (case find_min None 0 (m_cache c) of
                  None \<Rightarrow> m_cache c
                | Some k \<Rightarrow> filter (\<lambda>e. fst e \<noteq> k) (m_cache c))
             else m_cache c)
      in if \<not> length entries < max_entries then Inl Assertion_Failed
         else Inr (tick (c\<lparr>m_cache := set_entry key (m_timestamp c, b) entries\<rparr>)))"

section \<open>Invariant\<close>

definition cache_inv :: "cache \<Rightarrow> bool" where
  "cache_inv c \<longleftrightarrow>
     distinct (map fst (m_cache c)) \<and> length (m_cache c) \<le> max_entries \<and> m_timestamp c < 2 ^ 64"

definition cached :: "cache \<Rightarrow> nat \<Rightarrow> block option" where
  "cached c key = map_option snd (map_of (m_cache c) key)"

lemma keys_set_entry: "set (map fst (set_entry k v es)) = insert k (set (map fst es))"
  by (induction k v es rule: set_entry.induct) (simp_all add: insert_commute)

lemma distinct_set_entry:
  "distinct (map fst es) \<Longrightarrow> distinct (map fst (set_entry k v es))"
proof (induction k v es rule: set_entry.induct)
  case (2 k v k' v' es)
  then show ?case using keys_set_entry [of k v es] by (simp del: set_map)
qed simp

lemma length_set_entry:
  "length (set_entry k v es) = (if k \<in> set (map fst es) then length es else Suc (length es))"
  by (induction k v es rule: set_entry.induct) (simp_all del: set_map)

lemma map_of_set_entry: "map_of (set_entry k v es) = (map_of es)(k \<mapsto> v)"
  by (induction k v es rule: set_entry.induct) (simp_all add: fun_eq_iff)

text \<open>The entry chosen for eviction is the one with the least \<^emph>\<open>key\<close>, whatever the order.\<close>

lemma find_min_Some:
  "find_min (Some m) m es = Some (Min (insert m (set (map fst es))))"
proof (induction es arbitrary: m)
  case (Cons e es)
  obtain k v where e: "e = (k, v)" by (cases e)
  show ?case
  proof (cases "es = []")
    case False
    then have ne: "finite (fst ` set es)" "fst ` set es \<noteq> {}" by auto
    with Cons e show ?thesis by (auto simp: min_def)
  qed (auto simp: e min_def)
qed simp

lemma find_min_least: "es \<noteq> [] \<Longrightarrow> find_min None t es = Some (Min (set (map fst es)))"
proof (cases es)
  case (Cons e es')
  then show ?thesis by (cases e) (simp add: find_min_Some)
qed simp

lemma length_remove_key:
  assumes "distinct (map fst es)" and "k \<in> set (map fst es)"
  shows "length (filter (\<lambda>e. fst e \<noteq> k) es) = length es - 1"
  using assms
proof (induction es)
  case (Cons e es)
  show ?case
  proof (cases "fst e = k")
    case True
    with Cons.prems have "\<forall>x \<in> set es. fst x \<noteq> k" by (auto simp: image_iff)
    then have "filter (\<lambda>e. fst e \<noteq> k) es = es" by (simp add: filter_id_conv)
    with True show ?thesis by simp
  next
    case False
    with Cons have "length (filter (\<lambda>e. fst e \<noteq> k) es) = length es - 1" "es \<noteq> []" by auto
    with False show ?thesis by (cases es) auto
  qed
qed simp

lemma map_of_remove_key:
  "map_of (filter (\<lambda>e. fst e \<noteq> k) es) = (map_of es)(k := None)"
  by (induction es) (auto simp: fun_eq_iff)

lemma distinct_remove_key: "distinct (map fst es) \<Longrightarrow> distinct (map fst (filter p es))"
  by (rule distinct_map_filter)

lemma tick_inv: "cache_inv c \<Longrightarrow> cache_inv (tick c)"
  by (auto simp: tick_def cache_inv_def Let_def)

lemma cached_tick: "cached (tick c) k = None \<or> cached (tick c) k = cached c k"
  by (simp add: tick_def cached_def Let_def)

lemma cached_tick_eq: "m_timestamp c + 1 < 2 ^ 64 \<Longrightarrow> cached (tick c) = cached c"
  by (simp add: tick_def cached_def Let_def fun_eq_iff)

lemma cache_new_inv: "cache_inv cache_new"
  by (simp add: cache_inv_def cache_new_def max_entries_def)

lemma set_entry_present_inv:
  "cache_inv c \<Longrightarrow> k \<in> set (map fst (m_cache c)) \<Longrightarrow>
   cache_inv (c\<lparr>m_cache := set_entry k v (m_cache c)\<rparr>)"
  using distinct_set_entry [of "m_cache c" k v]
  by (simp add: cache_inv_def length_set_entry del: set_map)

lemma cache_get_result: "fst (cache_get c k) = cached c k"
  by (auto simp: cache_get_def cached_def split: option.splits)

lemma cache_get_inv:
  assumes "cache_inv c"
  shows "cache_inv (snd (cache_get c k))"
proof (cases "map_of (m_cache c) k")
  case None
  with assms show ?thesis by (simp add: cache_get_def)
next
  case (Some v)
  then have "k \<in> set (map fst (m_cache c))" by (force dest: map_of_SomeD)
  with Some set_entry_present_inv [OF assms] tick_inv show ?thesis
    by (simp add: cache_get_def case_prod_beta)
qed

lemma cache_get_cached:
  "cached (snd (cache_get c k)) j = None \<or> cached (snd (cache_get c k)) j = cached c j"
proof (cases "map_of (m_cache c) k")
  case None
  then show ?thesis by (simp add: cache_get_def)
next
  case (Some v)
  let ?d = "c\<lparr>m_cache := set_entry k (m_timestamp c, snd v) (m_cache c)\<rparr>"
  have "cached ?d j = cached c j" using Some by (simp add: cached_def map_of_set_entry)
  moreover have "snd (cache_get c k) = tick ?d"
    using Some by (simp add: cache_get_def case_prod_beta)
  ultimately show ?thesis using cached_tick [of ?d j] by simp
qed

text \<open>What \<^verbatim>\<open>put\<close> keeps before it inserts: a cache below its bound, one entry fewer if full.\<close>

definition make_room :: "(nat \<times> nat \<times> block) list \<Rightarrow> (nat \<times> nat \<times> block) list" where
  "make_room es =
     (if length es = max_entries then filter (\<lambda>e. fst e \<noteq> Min (set (map fst es))) es else es)"

lemma make_room_props:
  assumes "cache_inv c"
  shows "length (make_room (m_cache c)) < max_entries"
    and "distinct (map fst (make_room (m_cache c)))"
    and "map_of (make_room (m_cache c)) k = None \<or>
         map_of (make_room (m_cache c)) k = map_of (m_cache c) k"
proof -
  let ?es = "m_cache c"
  have inv: "distinct (map fst ?es)" "length ?es \<le> max_entries"
    using assms by (auto simp: cache_inv_def)
  have ne: "?es \<noteq> []" if "length ?es = max_entries" using that by (auto simp: max_entries_def)
  then have "Min (set (map fst ?es)) \<in> set (map fst ?es)" if "length ?es = max_entries"
    using that by (intro Min_in) auto
  with inv length_remove_key [OF inv(1)] show "length (make_room ?es) < max_entries"
    by (auto simp: make_room_def max_entries_def)
  from inv show "distinct (map fst (make_room ?es))"
    by (simp add: make_room_def distinct_map_filter)
  show "map_of (make_room ?es) k = None \<or> map_of (make_room ?es) k = map_of ?es k"
    by (simp add: make_room_def map_of_remove_key del: set_map)
qed

lemma cache_put_eq:
  assumes "cache_inv c"
  shows "cache_put c k b =
    Inr (tick (c\<lparr>m_cache := set_entry k (m_timestamp c, b) (make_room (m_cache c))\<rparr>))"
proof -
  have "m_cache c \<noteq> []" if "length (m_cache c) = max_entries"
    using that by (auto simp: max_entries_def)
  then have "(if length (m_cache c) = max_entries
      then case find_min None 0 (m_cache c) of None \<Rightarrow> m_cache c
           | Some k \<Rightarrow> filter (\<lambda>e. fst e \<noteq> k) (m_cache c)
      else m_cache c) = make_room (m_cache c)"
    by (simp add: make_room_def find_min_least del: set_map)
  with make_room_props(1) [OF assms] show ?thesis
    by (simp add: cache_put_def Let_def)
qed

lemma cache_put_inv:
  assumes "cache_inv c"
  shows "\<exists>c'. cache_put c k b = Inr c' \<and> cache_inv c'"
proof -
  have "cache_inv (c\<lparr>m_cache := set_entry k (m_timestamp c, b) (make_room (m_cache c))\<rparr>)"
    using assms make_room_props(1,2) [OF assms]
      distinct_set_entry [of "make_room (m_cache c)" k "(m_timestamp c, b)"]
    by (simp add: cache_inv_def length_set_entry del: set_map)
  with tick_inv cache_put_eq [OF assms] show ?thesis by blast
qed

lemma cache_put_cached:
  assumes "cache_inv c" and "cache_put c k b = Inr c'"
  shows "cached c' j = None \<or> cached c' j = (if j = k then Some b else cached c j)"
proof -
  let ?d = "c\<lparr>m_cache := set_entry k (m_timestamp c, b) (make_room (m_cache c))\<rparr>"
  have "c' = tick ?d" using assms cache_put_eq by auto
  moreover have "cached ?d j = None \<or> cached ?d j = (if j = k then Some b else cached c j)"
    using make_room_props(3) [OF assms(1), of j] by (auto simp: cached_def map_of_set_entry)
  ultimately show ?thesis using cached_tick [of ?d j] by auto
qed

lemma cache_put_get:
  assumes "cache_inv c" and "m_timestamp c + 1 < 2 ^ 64" and "cache_put c k b = Inr c'"
  shows "fst (cache_get c' k) = Some b"
proof -
  let ?d = "c\<lparr>m_cache := set_entry k (m_timestamp c, b) (make_room (m_cache c))\<rparr>"
  have "c' = tick ?d" using assms cache_put_eq by auto
  moreover have "cached ?d k = Some b" by (simp add: cached_def map_of_set_entry)
  ultimately show ?thesis using cached_tick_eq [of ?d] assms(2) by (simp add: cache_get_result)
qed

section \<open>The interface of the decompressor's cache\<close>

text \<open>
  A cache is coherent with a function from keys to blocks when every block it holds is the
  function's. The laws say that the operations keep the invariant, and change what is
  cached only by forgetting, or by the block that was put.
\<close>

locale coherent_cache =
  fixes inv :: "'c \<Rightarrow> bool" and view :: "'c \<Rightarrow> nat \<Rightarrow> block option" and empty :: "'c"
    and get :: "'c \<Rightarrow> nat \<Rightarrow> block option \<times> 'c" and put :: "'c \<Rightarrow> nat \<Rightarrow> block \<Rightarrow> 'c result"
  assumes empty_inv: "inv empty" and empty_view: "view empty k = None"
    and get_view: "inv c \<Longrightarrow> fst (get c k) = view c k"
    and get_inv: "inv c \<Longrightarrow> inv (snd (get c k))"
    and get_forgets: "inv c \<Longrightarrow> view (snd (get c k)) j = None \<or> view (snd (get c k)) j = view c j"
    and put_inv: "inv c \<Longrightarrow> \<exists>c'. put c k b = Inr c' \<and> inv c'"
    and put_view: "inv c \<Longrightarrow> put c k b = Inr c' \<Longrightarrow>
      view c' j = None \<or> view c' j = (if j = k then Some b else view c j)"
begin

definition coherent :: "(nat \<Rightarrow> block) \<Rightarrow> 'c \<Rightarrow> bool" where
  "coherent f c \<longleftrightarrow> inv c \<and> (\<forall>k. view c k = None \<or> view c k = Some (f k))"

lemma coherent_empty: "coherent f empty"
  by (simp add: coherent_def empty_inv empty_view)

lemma coherent_get:
  assumes "coherent f c" and "get c k = (r, c')"
  shows "coherent f c' \<and> (r = None \<or> r = Some (f k))"
proof -
  have c: "inv c" "\<And>j. view c j = None \<or> view c j = Some (f j)"
    using assms(1) by (simp_all add: coherent_def)
  have "view c' j = None \<or> view c' j = Some (f j)" for j
    using get_forgets [OF c(1), of k j] c(2) [of j] assms(2) by auto
  moreover have "inv c'" "r = view c k" using get_inv [OF c(1), of k] get_view [OF c(1), of k] assms(2) by auto
  ultimately show ?thesis using c(2) [of k] by (simp add: coherent_def)
qed

lemma coherent_put:
  assumes "coherent f c"
  shows "\<exists>c'. put c k (f k) = Inr c' \<and> coherent f c'"
proof -
  have c: "inv c" "\<And>j. view c j = None \<or> view c j = Some (f j)"
    using assms by (simp_all add: coherent_def)
  from put_inv [OF c(1)] obtain c' where c': "put c k (f k) = Inr c'" "inv c'" by blast
  have "view c' j = None \<or> view c' j = Some (f j)" for j
    using put_view [OF c(1) c'(1), of j] c(2) [of j] by (cases "j = k") auto
  with c' show ?thesis by (simp add: coherent_def)
qed

end

interpretation block_cache: coherent_cache cache_inv cached cache_new cache_get cache_put
proof unfold_locales
  show "cached cache_new k = None" for k by (simp add: cached_def cache_new_def)
qed (simp_all add: cache_new_inv cache_get_result cache_get_inv cache_get_cached cache_put_inv
    cache_put_cached)

section \<open>Properties\<close>

text \<open>A history of calls on a cache, and the block last put for a key.\<close>

datatype cache_call = Get nat | Put nat block

fun run_calls :: "cache \<Rightarrow> cache_call list \<Rightarrow> cache result" where
  "run_calls c [] = Inr c"
| "run_calls c (Get k # calls) = run_calls (snd (cache_get c k)) calls"
| "run_calls c (Put k b # calls) = bind_result (cache_put c k b) (\<lambda>c'. run_calls c' calls)"

fun last_put :: "(nat \<Rightarrow> block option) \<Rightarrow> cache_call list \<Rightarrow> nat \<Rightarrow> block option" where
  "last_put m [] = m"
| "last_put m (Get k # calls) = last_put m calls"
| "last_put m (Put k b # calls) = last_put (m(k \<mapsto> b)) calls"

lemma run_calls_inv:
  "cache_inv c \<Longrightarrow> (\<And>k. cached c k = None \<or> cached c k = m k) \<Longrightarrow>
   \<exists>c'. run_calls c calls = Inr c' \<and> cache_inv c' \<and>
     (\<forall>k. cached c' k = None \<or> cached c' k = last_put m calls k)"
proof (induction calls arbitrary: c m rule: list.induct)
  case (Cons call calls)
  show ?case
  proof (cases call)
    case (Get k)
    have "cached (snd (cache_get c k)) j = None \<or> cached (snd (cache_get c k)) j = m j" for j
      using cache_get_cached [of c k j] Cons.prems(2) [of j] by auto
    from Cons.IH [OF cache_get_inv [OF Cons.prems(1)] this] show ?thesis by (simp add: Get)
  next
    case (Put k b)
    from cache_put_inv [OF Cons.prems(1)] obtain c1 where
      c1: "cache_put c k b = Inr c1" "cache_inv c1" by blast
    let ?m = "m(k \<mapsto> b)"
    have "cached c1 j = None \<or> cached c1 j = ?m j" for j
      using cache_put_cached [OF Cons.prems(1) c1(1), of j] Cons.prems(2) [of j]
      by (auto split: if_splits)
    from Cons.IH [of c1 ?m, OF c1(2) this] show ?thesis
      by (simp only: Put c1 run_calls.simps last_put.simps bind_result_simps)
  qed
qed simp

text \<open>
  C35. Whatever calls are made on a new cache, the assertion in \<^verbatim>\<open>put\<close> never fails, the cache
  never holds more than \<^verbatim>\<open>max_entries\<close> blocks nor two for one key, and \<^verbatim>\<open>get\<close> returns for a
  key nothing but the block that was put last for it.
\<close>

theorem cache_history:
  "\<exists>c. run_calls cache_new calls = Inr c \<and> cache_inv c \<and>
     (\<forall>k. fst (cache_get c k) = None \<or> fst (cache_get c k) = last_put (\<lambda>_. None) calls k)"
  using run_calls_inv [OF cache_new_inv, of "\<lambda>_. None" calls]
  by (simp add: block_cache.empty_view cache_get_result)

text \<open>
  A block that has just been put is found, unless the time stamp has reached the end of its
  range (then the cache is emptied).
\<close>

theorem cache_put_then_get:
  assumes "cache_inv c" and "m_timestamp c + 1 < 2 ^ 64"
  shows "\<exists>c'. cache_put c k b = Inr c' \<and> fst (cache_get c' k) = Some b"
  using cache_put_inv [OF assms(1)] cache_put_get [OF assms] by blast

theorem cache_put_then_get_witness:
  "\<exists>c'. cache_put cache_new 5 (81920, ''xyz'') = Inr c' \<and>
     fst (cache_get c' 5) = Some (81920, ''xyz'')"
proof -
  have "m_timestamp cache_new + 1 < 2 ^ 64" by (simp add: cache_new_def)
  from cache_put_then_get [OF cache_new_inv this] show ?thesis .
qed

text \<open>
  When the cache is full, \<^verbatim>\<open>put\<close> evicts the block with the least block number, whatever
  the time stamps are, and keeps every other block: the policy is not least recently used.
\<close>

theorem cache_evicts_least_key:
  assumes "cache_inv c" and "length (m_cache c) = max_entries" and "m_timestamp c + 1 < 2 ^ 64"
  shows "\<exists>c'. cache_put c k b = Inr c' \<and>
    (\<forall>j. fst (cache_get c' j) =
       (if j = k then Some b
        else if j = Min (set (map fst (m_cache c))) then None
        else fst (cache_get c j)))"
proof -
  let ?d = "c\<lparr>m_cache := set_entry k (m_timestamp c, b) (make_room (m_cache c))\<rparr>"
  have "cached (tick ?d) = cached ?d" using cached_tick_eq [of ?d] assms(3) by simp
  moreover have "cached ?d j = (if j = k then Some b
      else if j = Min (set (map fst (m_cache c))) then None else cached c j)" for j
    using assms(2) by (simp add: cached_def map_of_set_entry make_room_def map_of_remove_key
        del: set_map)
  ultimately show ?thesis using cache_put_eq [OF assms(1)] by (simp add: cache_get_result)
qed

text \<open>Eight blocks are put, block 0 is read last, and then a ninth block is put.\<close>

definition full_cache :: cache where
  "full_cache =
     (case run_calls cache_new (map (\<lambda>k. Put k (k * 16384, ''b'')) [0, 1, 2, 3, 4, 5, 6, 7] @ [Get 0]) of
        Inr c \<Rightarrow> c | Inl _ \<Rightarrow> cache_new)"

lemma full_cache_eq:
  "full_cache = \<lparr>m_timestamp = 9, m_cache =
     (0, 8, 0, ''b'') # map (\<lambda>k. (k, k, k * 16384, ''b'')) [1, 2, 3, 4, 5, 6, 7]\<rparr>"
  by (simp add: full_cache_def cache_new_def cache_put_def cache_get_def tick_def max_entries_def)

theorem cache_evicts_least_key_witness:
  "\<exists>c'. cache_put full_cache 8 (131072, ''b'') = Inr c' \<and>
     fst (cache_get c' 0) = None \<and> fst (cache_get c' 1) = Some (16384, ''b'')"
proof -
  have h: "cache_inv full_cache" "length (m_cache full_cache) = max_entries"
    "m_timestamp full_cache + 1 < 2 ^ 64" "Min (set (map fst (m_cache full_cache))) = 0"
    "fst (cache_get full_cache 1) = Some (16384, ''b'')"
    by (simp_all add: full_cache_eq cache_inv_def max_entries_def cache_get_def)
  from cache_evicts_least_key [OF h(1-3), of 8 "(131072, ''b'')"] obtain c' where
    c': "cache_put full_cache 8 (131072, ''b'') = Inr c'"
    "\<forall>j. fst (cache_get c' j) = (if j = 8 then Some (131072, ''b'') else if j = 0 then None
        else fst (cache_get full_cache j))" unfolding h(4) by blast
  with h(5) show ?thesis by simp
qed

end
