(* ===== verification/Little_Endian.thy ===== *)
theory Little_Endian
  imports Prelude
begin

text \<open>
  Unsigned integers as bytes in memory, least significant first (x86-64): how \<^verbatim>\<open>zrandom.cpp\<close>
  writes the size of a compressed file, and how BSON stores numbers and sizes.
\<close>

fun le_bytes :: "nat \<Rightarrow> nat \<Rightarrow> string" where
  "le_bytes 0 n = []"
| "le_bytes (Suc k) n = char_of (n mod 256) # le_bytes k (n div 256)"

fun le_value :: "string \<Rightarrow> nat" where
  "le_value [] = 0"
| "le_value (c # cs) = of_char c + 256 * le_value cs"

lemma le_bytes_length [simp]: "length (le_bytes k n) = k"
  by (induction k arbitrary: n) auto

lemma le_value_bytes: "n < 256 ^ k \<Longrightarrow> le_value (le_bytes k n) = n"
proof (induction k arbitrary: n)
  case (Suc k)
  then have "n div 256 < 256 ^ k" by (simp add: less_mult_imp_div_less mult.commute)
  with Suc.IH have "le_value (le_bytes k (n div 256)) = n div 256" by blast
  then show ?case by (simp add: of_char_of take_bit_eq_mod)
qed simp

end
