(* ===== verification/Zrandom_Compress.thy ===== *)
theory Zrandom_Compress
  imports Zrandom_Cache Little_Endian
begin

text \<open>
  The compressor of \<^verbatim>\<open>semi_index/zrandom.cpp\<close>: \<^verbatim>\<open>compress\<close> deflates a file block by block,
  with a full flush after each block, and records where the compressed bytes of each block
  start. \<^verbatim>\<open>zlib\<close> and \<^verbatim>\<open>succinct::mapper\<close> are arguments (the records \<open>zlib\<close> and
  \<open>zmapper\<close>). The locale \<open>zlib_spec\<close> states what zlib documents: a chunk deflated from a
  freshly flushed stream is written out completely once a call leaves room in the output
  buffer; a full flush leaves the stream flushed, and raw inflation can start at the chunk's
  first byte and returns the chunk.

  \<open>compress_layout\<close> is the contract of the compressor: it terminates, the checkpoints are
  the prefix sums of the compressed blocks, and block \<open>i\<close> inflates to the \<open>i\<close>-th slice of
  the file.
\<close>

section \<open>zlib\<close>

datatype flush = Z_FULL_FLUSH | Z_FINISH

record 'z zlib =
  z_init :: "'z"
  z_deflate :: "'z \<Rightarrow> string \<Rightarrow> flush \<Rightarrow> nat \<Rightarrow> 'z \<times> string \<times> string"
  z_inflate :: "string \<Rightarrow> nat \<Rightarrow> bool \<times> string"

text \<open>
  \<open>z_deflate z input flush avail_out\<close> is one call of \<^verbatim>\<open>deflate\<close>: the new stream state, the
  input that is left, the bytes written. \<open>z_inflate input avail_out\<close> is \<^verbatim>\<open>inflateInit2\<close>
  followed by one \<^verbatim>\<open>inflate(Z_BLOCK)\<close>: whether it returned \<^verbatim>\<open>Z_OK\<close>, and the bytes written.
\<close>

definition block_size :: nat where
  "block_size = 16384"

text \<open>Calls of \<^verbatim>\<open>deflate\<close> with full output buffers, up to the first call that leaves room.\<close>

inductive emits :: "'z zlib \<Rightarrow> nat \<Rightarrow> flush \<Rightarrow> 'z \<Rightarrow> string \<Rightarrow> string \<Rightarrow> 'z \<Rightarrow> bool"
  for Z :: "'z zlib" and n :: nat and f :: flush where
  emits_last: "z_deflate Z z input f n = (z', input', out) \<Longrightarrow> length out < n \<Longrightarrow>
    emits Z n f z input out z'"
| emits_more: "z_deflate Z z input f n = (z1, input1, out1) \<Longrightarrow> length out1 = n \<Longrightarrow>
    emits Z n f z1 input1 out2 z' \<Longrightarrow> emits Z n f z input (out1 @ out2) z'"

locale zlib_spec =
  fixes Z :: "'z zlib" and flushed :: "'z \<Rightarrow> bool"
  assumes init_flushed: "flushed (z_init Z)"
    and flush_law: "flushed z \<Longrightarrow> length chunk \<le> block_size \<Longrightarrow>
      \<exists>out z'. emits Z block_size f z chunk out z' \<and> (f = Z_FULL_FLUSH \<longrightarrow> flushed z') \<and>
        (chunk \<noteq> [] \<longrightarrow> (\<forall>rest. z_inflate Z (out @ rest) block_size = (True, chunk)))"

section \<open>The compressor\<close>

record 'z compress_state =
  strm :: "'z"
  written :: string
  compressed_size :: nat
  original_size :: nat
  checkpoints :: "nat list"

text \<open>The inner \<^verbatim>\<open>do ... while (strm.avail_out == 0)\<close>.\<close>

partial_function (option) deflate_loop ::
  "'z zlib \<Rightarrow> flush \<Rightarrow> string \<Rightarrow> 'z compress_state \<Rightarrow> 'z compress_state option" where
  "deflate_loop Z flush input s =
     (case z_deflate Z (strm s) input flush block_size of
        (z', input', out) \<Rightarrow>
          let have_bytes = length out;
              avail_out = block_size - have_bytes;
              s' = s\<lparr>strm := z', written := written s @ out,
                     compressed_size := compressed_size s + have_bytes\<rparr>
          in if avail_out = 0 then deflate_loop Z flush input' s' else Some s')"

declare deflate_loop.simps [code]

text \<open>The outer loop: \<^verbatim>\<open>fin.read\<close> fails when fewer than \<^verbatim>\<open>block_size\<close> bytes are left.\<close>

function compress_loop ::
  "'z zlib \<Rightarrow> string \<Rightarrow> 'z compress_state \<Rightarrow> 'z compress_state option" where
  "compress_loop Z fin s =
     (let block = take block_size fin;
          flush = (if length fin < block_size then Z_FINISH else Z_FULL_FLUSH);
          s1 = s\<lparr>original_size := original_size s + length block,
                 checkpoints := checkpoints s @ [compressed_size s]\<rparr>
      in case deflate_loop Z flush block s1 of
           None \<Rightarrow> None
         | Some s2 \<Rightarrow>
             if flush = Z_FINISH then Some s2 else compress_loop Z (drop block_size fin) s2)"
  by pat_completeness auto
termination
  by (relation "measure (\<lambda>(Z, fin, s). length fin)") (auto simp: block_size_def split: if_splits)

declare compress_loop.simps [simp del]

record zmapper =
  freeze_u64 :: "nat \<Rightarrow> string"
  map_u64 :: "string \<Rightarrow> nat \<times> nat"
  freeze_vector :: "nat list \<Rightarrow> string"
  map_vector :: "string \<Rightarrow> nat list \<times> nat"

text \<open>
  \<^verbatim>\<open>mapper::map\<close> reads a value at the start of the data and returns the number of bytes it
  occupies.
\<close>

locale zmapper_spec =
  fixes M :: zmapper
  assumes map_freeze_u64: "n < 2 ^ 64 \<Longrightarrow> map_u64 M (freeze_u64 M n @ rest) = (n, length (freeze_u64 M n))"
    and map_freeze_vector: "list_all (\<lambda>n. n < 2 ^ 64) ns \<Longrightarrow> length ns < 2 ^ 64 \<Longrightarrow>
      map_vector M (freeze_vector M ns @ rest) = (ns, length (freeze_vector M ns))"

definition compress_init :: "'z zlib \<Rightarrow> 'z compress_state" where
  "compress_init Z =
     \<lparr>strm = z_init Z, written = [], compressed_size = 0, original_size = 0, checkpoints = []\<rparr>"

text \<open>
  The output file: the eight-byte size (written last, over a placeholder), the compressed
  data, and the frozen sizes and checkpoints.
\<close>

definition compress :: "'z zlib \<Rightarrow> zmapper \<Rightarrow> string \<Rightarrow> string option" where
  "compress Z M fin =
     (case compress_loop Z fin (compress_init Z) of
        None \<Rightarrow> None
      | Some s \<Rightarrow>
          Some (le_bytes 8 (compressed_size s) @ written s @
                freeze_u64 M (original_size s) @ freeze_u64 M block_size @
                freeze_vector M (checkpoints s)))"

section \<open>Correctness\<close>

text \<open>The inner loop runs to the end of the calls that \<open>emits\<close> describes.\<close>

lemma deflate_loop_emits:
  "emits Z block_size f (strm s) input out z' \<Longrightarrow>
   deflate_loop Z f input s = Some (s\<lparr>strm := z', written := written s @ out,
     compressed_size := compressed_size s + length out\<rparr>)"
proof (induction "strm s" input out z' arbitrary: s rule: emits.induct)
  case (emits_last input z' input' out)
  then show ?case by (subst deflate_loop.simps) (simp add: Let_def)
next
  case (emits_more input z1 input1 out1 out2 z')
  let ?s1 = "s\<lparr>strm := z1, written := written s @ out1,
    compressed_size := compressed_size s + length out1\<rparr>"
  have "deflate_loop Z f input s = deflate_loop Z f input1 ?s1"
    using emits_more.hyps(1,2) by (subst deflate_loop.simps) (simp add: Let_def)
  also have "\<dots> = Some (?s1\<lparr>strm := z', written := written ?s1 @ out2,
      compressed_size := compressed_size ?s1 + length out2\<rparr>)"
    by (rule emits_more.hyps(4)) simp
  finally show ?case by (simp add: add.assoc)
qed

text \<open>The slices of the file: full blocks, and a last one that is shorter.\<close>

function slices :: "string \<Rightarrow> string list" where
  "slices fin =
     (if length fin < block_size then [fin]
      else take block_size fin # slices (drop block_size fin))"
  by pat_completeness auto
termination
  by (relation "measure length") (auto simp: block_size_def)

declare slices.simps [simp del]

lemma slices_length: "length (slices fin) = length fin div block_size + 1"
proof (induction fin rule: slices.induct)
  case (1 fin)
  show ?case
  proof (cases "length fin < block_size")
    case True
    then show ?thesis by (subst slices.simps) simp
  next
    case False
    moreover from this have "length fin div block_size = Suc ((length fin - block_size) div block_size)"
      by (simp add: le_div_geq block_size_def)
    ultimately show ?thesis using 1 by (subst slices.simps) simp
  qed
qed

lemma slices_nth:
  "i < length (slices fin) \<Longrightarrow> slices fin ! i = take block_size (drop (i * block_size) fin)"
proof (induction fin arbitrary: i rule: slices.induct)
  case (1 fin)
  show ?case
  proof (cases "length fin < block_size")
    case True
    with "1.prems" show ?thesis by (simp add: slices.simps [of fin])
  next
    case False
    show ?thesis
    proof (cases i)
      case 0
      with False show ?thesis by (simp add: slices.simps [of fin])
    next
      case (Suc j)
      with False "1.prems" have "j < length (slices (drop block_size fin))"
        by (simp add: slices.simps [of fin])
      with "1.IH" [OF False] Suc False show ?thesis
        by (simp add: slices.simps [of fin] add.commute)
    qed
  qed
qed

text \<open>The compressed blocks \<open>outs\<close>, and the offsets at which they start.\<close>

fun offsets :: "nat \<Rightarrow> string list \<Rightarrow> nat list" where
  "offsets n [] = []"
| "offsets n (o1 # os) = n # offsets (n + length o1) os"

lemma offsets_length [simp]: "length (offsets n os) = length os"
  by (induction os arbitrary: n) auto

lemma offsets_nth: "i < length os \<Longrightarrow> offsets n os ! i = n + length (concat (take i os))"
proof (induction os arbitrary: n i)
  case (Cons x os)
  then show ?case by (cases i) auto
qed simp

lemma offsets_bound: "x \<in> set (offsets n os) \<Longrightarrow> x \<le> n + length (concat os)"
  by (induction os arbitrary: n) force+

context zlib_spec
begin

lemma compress_loop_layout:
  "flushed (strm s) \<Longrightarrow>
   \<exists>s' outs. compress_loop Z fin s = Some s' \<and> length outs = length (slices fin) \<and>
     written s' = written s @ concat outs \<and>
     compressed_size s' = compressed_size s + length (concat outs) \<and>
     original_size s' = original_size s + length fin \<and>
     checkpoints s' = checkpoints s @ offsets (compressed_size s) outs \<and>
     (\<forall>i < length outs. slices fin ! i \<noteq> [] \<longrightarrow>
        (\<forall>rest. z_inflate Z (outs ! i @ rest) block_size = (True, slices fin ! i)))"
proof (induction fin arbitrary: s rule: slices.induct)
  case (1 fin)
  let ?block = "take block_size fin"
  let ?flush = "if length fin < block_size then Z_FINISH else Z_FULL_FLUSH"
  let ?s1 = "s\<lparr>original_size := original_size s + length ?block,
    checkpoints := checkpoints s @ [compressed_size s]\<rparr>"
  from flush_law [OF "1.prems", of ?block ?flush] obtain out z' where
    em: "emits Z block_size ?flush (strm s) ?block out z'"
    and fl: "?flush = Z_FULL_FLUSH \<longrightarrow> flushed z'"
    and inf: "?block \<noteq> [] \<longrightarrow> (\<forall>rest. z_inflate Z (out @ rest) block_size = (True, ?block))"
    by auto
  let ?s2 = "?s1\<lparr>strm := z', written := written s @ out,
    compressed_size := compressed_size s + length out\<rparr>"
  have inner: "deflate_loop Z ?flush ?block ?s1 = Some ?s2"
    using deflate_loop_emits [of Z ?flush ?s1 ?block out z'] em by simp
  show ?case
  proof (cases "length fin < block_size")
    case True
    with inner have "compress_loop Z fin s = Some ?s2"
      by (subst compress_loop.simps) (simp add: Let_def)
    with True inf show ?thesis
      by (intro exI [of _ ?s2] exI [of _ "[out]"]) (simp add: slices.simps [of fin])
  next
    case False
    with inner have eq: "compress_loop Z fin s = compress_loop Z (drop block_size fin) ?s2"
      by (subst compress_loop.simps) (simp add: Let_def)
    from "1.IH" [OF False, of ?s2] fl False obtain s' outs where
      ih: "compress_loop Z (drop block_size fin) ?s2 = Some s'"
      "length outs = length (slices (drop block_size fin))"
      "written s' = written ?s2 @ concat outs"
      "compressed_size s' = compressed_size ?s2 + length (concat outs)"
      "original_size s' = original_size ?s2 + length (drop block_size fin)"
      "checkpoints s' = checkpoints ?s2 @ offsets (compressed_size ?s2) outs"
      "\<forall>i < length outs. slices (drop block_size fin) ! i \<noteq> [] \<longrightarrow>
        (\<forall>rest. z_inflate Z (outs ! i @ rest) block_size = (True, slices (drop block_size fin) ! i))"
      by auto
    have "z_inflate Z ((out # outs) ! i @ rest) block_size = (True, slices fin ! i)"
      if "i < length (out # outs)" "slices fin ! i \<noteq> []" for i rest
      using that ih(7) inf False by (cases i) (simp_all add: slices.simps [of fin])
    with eq ih False show ?thesis
      by (intro exI [of _ s'] exI [of _ "out # outs"]) (simp add: slices.simps [of fin])
  qed
qed

lemma compress_layout:
  "\<exists>s outs. compress_loop Z fin (compress_init Z) = Some s \<and>
     length outs = length fin div block_size + 1 \<and>
     written s = concat outs \<and> compressed_size s = length (concat outs) \<and>
     original_size s = length fin \<and> checkpoints s = offsets 0 outs \<and>
     (\<forall>i < length outs. i * block_size < length fin \<longrightarrow>
        (\<forall>rest. z_inflate Z (outs ! i @ rest) block_size =
           (True, take block_size (drop (i * block_size) fin))))"
proof -
  have "flushed (strm (compress_init Z))" by (simp add: compress_init_def init_flushed)
  from compress_loop_layout [OF this, of fin] obtain s outs where
    *: "compress_loop Z fin (compress_init Z) = Some s" "length outs = length (slices fin)"
     "written s = concat outs" "compressed_size s = length (concat outs)"
     "original_size s = length fin" "checkpoints s = offsets 0 outs"
     "\<forall>i < length outs. slices fin ! i \<noteq> [] \<longrightarrow>
        (\<forall>rest. z_inflate Z (outs ! i @ rest) block_size = (True, slices fin ! i))"
    by (auto simp: compress_init_def)
  have "slices fin ! i = take block_size (drop (i * block_size) fin)"
    and "i * block_size < length fin \<longrightarrow> slices fin ! i \<noteq> []"
    if "i < length outs" for i
    using slices_nth [of i fin] that *(2) by (auto simp: block_size_def)
  with * slices_length [of fin] show ?thesis by auto
qed

end

end
