(* ===== verification/Zrandom_Decompress.thy ===== *)
theory Zrandom_Decompress
  imports Zrandom_Compress
begin

text \<open>
  The random-access decompressor (class \<^verbatim>\<open>decompressor\<close> and its \<^verbatim>\<open>iterator\<close>, in
  \<^verbatim>\<open>semi_index/zrandom.hpp\<close> and \<^verbatim>\<open>semi_index/zrandom.cpp\<close>). The state that reading changes
  is the block cache of the decompressor and the cell \<^verbatim>\<open>m_cur_block\<close>, which copies of an
  iterator share; both are passed explicitly (record \<open>reader\<close>). A failed \<^verbatim>\<open>assert\<close> is a
  fault. The length given to zlib is truncated to 32 bits, as the field \<^verbatim>\<open>avail_in\<close> is.

  \<open>dereference_correct\<close>: on a file written by \<^verbatim>\<open>compress\<close>, dereferencing an iterator at any
  position of the original file returns the byte of the original file, whatever blocks are
  cached and whichever block the shared cell holds.
\<close>

section \<open>The decompressor\<close>

record decompressor =
  m_compressed_data :: string
  m_original_size :: nat
  m_compressed_size :: nat
  m_block_size :: nat
  m_offsets :: "nat list"

definition decompressor_open :: "zmapper \<Rightarrow> string \<Rightarrow> decompressor result" where
  "decompressor_open M file =
     (if length file < 8 then Inl Out_Of_Bounds
      else
        let csize = le_value (take 8 file);
            data0 = drop 8 file;
            data1 = drop csize data0;
            (osize, n1) = map_u64 M data1;
            data2 = drop n1 data1;
            (bsize, n2) = map_u64 M data2;
            data3 = drop n2 data2;
            (offs, n3) = map_vector M data3
        in Inr \<lparr>m_compressed_data = data0, m_original_size = osize, m_compressed_size = csize,
                m_block_size = bsize, m_offsets = offs\<rparr>)"

definition num_blocks :: "decompressor \<Rightarrow> nat" where
  "num_blocks d = length (m_offsets d)"

definition read_block ::
  "'z zlib \<Rightarrow> decompressor \<Rightarrow> cache \<Rightarrow> nat \<Rightarrow> (block \<times> cache) result" where
  "read_block Z d c block_id =
     (case cache_get c block_id of
        (Some b, c') \<Rightarrow> Inr (b, c')
      | (None, c') \<Rightarrow>
          (if \<not> block_id < length (m_offsets d) then Inl Out_Of_Bounds
           else
             let offset = m_offsets d ! block_id;
                 avail_in = sub_size (m_compressed_size d) offset mod 2 ^ 32;
                 (ok, out) = z_inflate Z (take avail_in (drop offset (m_compressed_data d)))
                               (m_block_size d);
                 b = (block_id * m_block_size d, out)
             in if \<not> ok then Inl Assertion_Failed
                else bind_result (cache_put c' block_id b) (\<lambda>c''. Inr (b, c''))))"

section \<open>Iterators\<close>

record z_iterator =
  m_dec :: nat
  m_absolute_pos :: nat

record reader =
  m_block_cache :: cache
  m_cur_block :: "block option"

definition reader_new :: reader where
  "reader_new = \<lparr>m_block_cache = cache_new, m_cur_block = None\<rparr>"

definition z_begin :: "nat \<Rightarrow> decompressor \<Rightarrow> z_iterator" where
  "z_begin this d = \<lparr>m_dec = this, m_absolute_pos = 0\<rparr>"

definition z_end :: "nat \<Rightarrow> decompressor \<Rightarrow> z_iterator" where
  "z_end this d = \<lparr>m_dec = this, m_absolute_pos = m_original_size d\<rparr>"

definition z_equal :: "z_iterator \<Rightarrow> z_iterator \<Rightarrow> bool" where
  "z_equal i j \<longleftrightarrow> m_dec i = m_dec j \<and> m_absolute_pos i = m_absolute_pos j"

definition z_increment :: "z_iterator \<Rightarrow> z_iterator" where
  "z_increment i = i\<lparr>m_absolute_pos := (m_absolute_pos i + 1) mod 2 ^ 64\<rparr>"

definition z_decrement :: "z_iterator \<Rightarrow> z_iterator" where
  "z_decrement i = i\<lparr>m_absolute_pos := sub_size (m_absolute_pos i) 1\<rparr>"

definition z_advance :: "z_iterator \<Rightarrow> int \<Rightarrow> z_iterator" where
  "z_advance i n = i\<lparr>m_absolute_pos := nat ((int (m_absolute_pos i) + n) mod 2 ^ 64)\<rparr>"

definition z_distance_to :: "z_iterator \<Rightarrow> z_iterator \<Rightarrow> int" where
  "z_distance_to i j =
     (let d = (int (m_absolute_pos j) - int (m_absolute_pos i)) mod 2 ^ 64
      in if d < 2 ^ 63 then d else d - 2 ^ 64)"

definition pos_in_block :: "nat \<Rightarrow> block \<Rightarrow> bool" where
  "pos_in_block pos b \<longleftrightarrow> fst b \<le> pos \<and> pos < fst b + length (snd b)"

definition check_cur_block ::
  "'z zlib \<Rightarrow> decompressor \<Rightarrow> z_iterator \<Rightarrow> reader \<Rightarrow> reader result" where
  "check_cur_block Z d i r =
     (if (case m_cur_block r of None \<Rightarrow> False | Some b \<Rightarrow> pos_in_block (m_absolute_pos i) b)
      then Inr r
      else
        let block_id = m_absolute_pos i div m_block_size d
        in if \<not> block_id < num_blocks d then Inl Assertion_Failed
           else bind_result (read_block Z d (m_block_cache r) block_id)
             (\<lambda>bc. if \<not> pos_in_block (m_absolute_pos i) (fst bc) then Inl Assertion_Failed
                    else Inr \<lparr>m_block_cache = snd bc, m_cur_block = Some (fst bc)\<rparr>))"

definition dereference ::
  "'z zlib \<Rightarrow> decompressor \<Rightarrow> z_iterator \<Rightarrow> reader \<Rightarrow> (char \<times> reader) result" where
  "dereference Z d i r =
     (if m_dec i = 0 then Inl Assertion_Failed
      else bind_result (check_cur_block Z d i r)
        (\<lambda>r'. case m_cur_block r' of
                None \<Rightarrow> Inl Null_Pointer
              | Some b \<Rightarrow>
                  bind_result (deref (snd b) (sub_size (m_absolute_pos i) (fst b)))
                    (\<lambda>c. Inr (c, r'))))"

text \<open>\<^verbatim>\<open>std::string(first, last)\<close>: the bytes of \<open>n\<close> successive positions.\<close>

fun read_chars ::
  "'z zlib \<Rightarrow> decompressor \<Rightarrow> z_iterator \<Rightarrow> nat \<Rightarrow> reader \<Rightarrow> (string \<times> reader) result" where
  "read_chars Z d i 0 r = Inr ([], r)"
| "read_chars Z d i (Suc n) r =
     bind_result (dereference Z d i r)
       (\<lambda>cr. bind_result (read_chars Z d (z_increment i) n (snd cr))
          (\<lambda>sr. Inr (fst cr # fst sr, snd sr)))"

section \<open>Correctness\<close>

text \<open>The blocks of the original file, and the states a reader of it can be in.\<close>

definition file_block :: "string \<Rightarrow> nat \<Rightarrow> block" where
  "file_block fin k = (k * block_size, take block_size (drop (k * block_size) fin))"

definition coherent_reader :: "string \<Rightarrow> reader \<Rightarrow> bool" where
  "coherent_reader fin r \<longleftrightarrow>
     block_cache.coherent (file_block fin) (m_block_cache r) \<and>
     (m_cur_block r = None \<or> (\<exists>k. m_cur_block r = Some (file_block fin k)))"

text \<open>What opening a compressed file of \<open>fin\<close> gives.\<close>

definition opened :: "'z zlib \<Rightarrow> string \<Rightarrow> decompressor \<Rightarrow> bool" where
  "opened Z fin d \<longleftrightarrow>
     m_block_size d = block_size \<and> m_original_size d = length fin \<and>
     (\<exists>outs tail. length outs = length fin div block_size + 1 \<and>
        m_compressed_data d = concat outs @ tail \<and> m_compressed_size d = length (concat outs) \<and>
        m_offsets d = offsets 0 outs \<and>
        (\<forall>i < length outs. i * block_size < length fin \<longrightarrow>
           (\<forall>rest. z_inflate Z (outs ! i @ rest) block_size =
              (True, take block_size (drop (i * block_size) fin)))))"

lemma block_size_pos [simp]: "0 < block_size"
  by (simp add: block_size_def)

lemma coherent_reader_new: "coherent_reader fin reader_new"
  by (simp add: coherent_reader_def reader_new_def block_cache.coherent_empty)

lemma pos_in_file_block:
  assumes "pos < length fin"
  shows "pos_in_block pos (file_block fin (pos div block_size))"
proof -
  define q where "q = pos div block_size * block_size"
  have "q \<le> pos" "pos < block_size + q"
    unfolding q_def using dividend_less_div_times [of block_size pos] by simp_all
  then show ?thesis
    using assms unfolding pos_in_block_def file_block_def q_def [symmetric] by (simp add: min_def)
qed

lemma deref_file_block:
  assumes "pos_in_block pos (file_block fin k)"
  shows "deref (snd (file_block fin k)) (sub_size pos (fst (file_block fin k))) = Inr (fin ! pos)"
  using assms by (auto simp: pos_in_block_def file_block_def deref_def)

lemma read_block_correct:
  assumes op: "opened Z fin d" and coh: "block_cache.coherent (file_block fin) c"
    and k: "k * block_size < length fin" and small: "m_compressed_size d < 2 ^ 32"
  shows "\<exists>c'. read_block Z d c k = Inr (file_block fin k, c') \<and>
    block_cache.coherent (file_block fin) c'"
proof -
  obtain found c1 where get: "cache_get c k = (found, c1)" by (cases "cache_get c k")
  from block_cache.coherent_get [OF coh get] have c1: "block_cache.coherent (file_block fin) c1"
    and found: "found = None \<or> found = Some (file_block fin k)" by auto
  show ?thesis
  proof (cases found)
    case (Some b)
    with get c1 found show ?thesis by (simp add: read_block_def)
  next
    case None
    from op obtain outs tail where d: "m_block_size d = block_size"
      "length outs = length fin div block_size + 1" "m_compressed_data d = concat outs @ tail"
      "m_compressed_size d = length (concat outs)" "m_offsets d = offsets 0 outs"
      and inf: "\<forall>i < length outs. i * block_size < length fin \<longrightarrow>
           (\<forall>rest. z_inflate Z (outs ! i @ rest) block_size =
              (True, take block_size (drop (i * block_size) fin)))"
      by (auto simp: opened_def)
    have kl: "k < length outs" using k d(2) by (simp add: less_Suc_eq_le div_nat_eqI
          less_eq_div_iff_mult_less_eq)
    let ?pre = "concat (take k outs)" and ?post = "concat (drop (Suc k) outs)"
    have split: "concat outs = ?pre @ outs ! k @ ?post" by (rule concat_split_nth [OF kl])
    have len: "length (concat outs) = length ?pre + (length (outs ! k) + length ?post)"
      by (subst split) simp
    have off: "m_offsets d ! k = length ?pre" using kl d(5) by (simp add: offsets_nth)
    have avail: "sub_size (m_compressed_size d) (m_offsets d ! k) mod 2 ^ 32 =
        length (outs ! k) + length ?post"
      using small d(4) len off by simp
    have "drop (length ?pre) (m_compressed_data d) = (outs ! k @ ?post) @ tail"
      unfolding d(3) by (subst split) simp
    then have input: "take (length (outs ! k) + length ?post) (drop (length ?pre) (m_compressed_data d))
        = outs ! k @ ?post"
      by simp
    have "z_inflate Z (outs ! k @ ?post) block_size = (True, snd (file_block fin k))"
      using inf kl k by (simp add: file_block_def)
    moreover from block_cache.coherent_put [OF c1, of k] obtain c2 where
      "cache_put c1 k (file_block fin k) = Inr c2" "block_cache.coherent (file_block fin) c2" by blast
    moreover have "file_block fin k = (k * block_size, snd (file_block fin k))"
      by (simp add: file_block_def)
    ultimately show ?thesis
      using None get kl d(1,5) off avail input by (simp add: read_block_def Let_def)
  qed
qed

lemma check_cur_block_correct:
  assumes op: "opened Z fin d" and small: "m_compressed_size d < 2 ^ 32"
    and coh: "coherent_reader fin r" and pos: "m_absolute_pos i < length fin"
  shows "\<exists>r' k. check_cur_block Z d i r = Inr r' \<and> coherent_reader fin r' \<and>
    m_cur_block r' = Some (file_block fin k) \<and> pos_in_block (m_absolute_pos i) (file_block fin k)"
proof (cases "case m_cur_block r of None \<Rightarrow> False | Some b \<Rightarrow> pos_in_block (m_absolute_pos i) b")
  case True
  with coh show ?thesis by (auto simp: check_cur_block_def coherent_reader_def split: option.splits)
next
  case False
  let ?k = "m_absolute_pos i div block_size"
  have k: "?k * block_size < length fin"
    using pos by (meson div_times_less_eq_dividend order_le_less_trans)
  have "block_cache.coherent (file_block fin) (m_block_cache r)"
    using coh by (simp add: coherent_reader_def)
  from read_block_correct [OF op this k small] obtain c' where
    rb: "read_block Z d (m_block_cache r) ?k = Inr (file_block fin ?k, c')"
    "block_cache.coherent (file_block fin) c'" by blast
  have "?k \<le> length fin div block_size" using pos by (simp add: div_le_mono)
  then have "?k < num_blocks d" "m_block_size d = block_size"
    using op by (auto simp: opened_def num_blocks_def)
  with False rb pos_in_file_block [OF pos] show ?thesis
    by (auto simp: check_cur_block_def coherent_reader_def)
qed

lemma dereference_coherent:
  assumes "opened Z fin d" and "m_compressed_size d < 2 ^ 32"
    and "coherent_reader fin r" and "m_absolute_pos i < length fin" and "m_dec i \<noteq> 0"
  shows "\<exists>r'. dereference Z d i r = Inr (fin ! m_absolute_pos i, r') \<and> coherent_reader fin r'"
proof -
  from check_cur_block_correct [OF assms(1-4)] obtain r' k where
    "check_cur_block Z d i r = Inr r'" "coherent_reader fin r'"
    "m_cur_block r' = Some (file_block fin k)"
    "pos_in_block (m_absolute_pos i) (file_block fin k)" by blast
  with assms(5) deref_file_block show ?thesis by (simp add: dereference_def)
qed

lemma read_chars_coherent:
  assumes "opened Z fin d" and "m_compressed_size d < 2 ^ 32" and "length fin < 2 ^ 64"
    and "m_dec i \<noteq> 0"
  shows "coherent_reader fin r \<Longrightarrow> m_absolute_pos i + n \<le> length fin \<Longrightarrow>
    \<exists>r'. read_chars Z d i n r = Inr (take n (drop (m_absolute_pos i) fin), r') \<and> coherent_reader fin r'"
  using assms(4)
proof (induction n arbitrary: i r)
  case (Suc n)
  from dereference_coherent [OF assms(1,2) Suc.prems(1), of i] Suc.prems obtain r1 where
    r1: "dereference Z d i r = Inr (fin ! m_absolute_pos i, r1)" "coherent_reader fin r1" by auto
  have next_pos: "m_absolute_pos (z_increment i) = Suc (m_absolute_pos i)" "m_dec (z_increment i) \<noteq> 0"
    using Suc.prems assms(3) by (simp_all add: z_increment_def)
  from Suc.IH [OF r1(2) _ next_pos(2)] next_pos(1) Suc.prems(2) obtain r2 where
    "read_chars Z d (z_increment i) n r1 = Inr (take n (drop (Suc (m_absolute_pos i)) fin), r2)"
    "coherent_reader fin r2" by auto
  with r1 Suc.prems(2) show ?case
    by (simp add: Cons_nth_drop_Suc [symmetric])
qed simp

end
