(* ===== verification/Zrandom_Roundtrip.thy ===== *)
theory Zrandom_Roundtrip
  imports Zrandom_Decompress
begin

text \<open>
  Compressing a file and opening the result: the round trip of \<^verbatim>\<open>zrandom\<close>. The second part
  gives concrete instances of the two external interfaces: a stream format that stores each
  chunk behind its length (\<open>stored_zlib\<close>), and a mapper that writes 64-bit words
  (\<open>word_zmapper\<close>). They show that the laws of \<open>zlib_spec\<close> and \<open>zmapper_spec\<close> can
  hold, and make the whole component executable.
\<close>

section \<open>Opening a compressed file\<close>

lemma offsets_all_below: "length (concat os) + n < b \<Longrightarrow> list_all (\<lambda>x. x < b) (offsets n os)"
  using offsets_bound [of _ n os] by (fastforce simp: list_all_iff)

lemma compress_returns:
  assumes "zlib_spec Z flushed"
  shows "\<exists>file. compress Z M fin = Some file"
  using zlib_spec.compress_layout [OF assms, of fin] by (auto simp: compress_def)

lemma open_compressed:
  assumes zl: "zlib_spec Z flushed" and zm: "zmapper_spec M"
    and cf: "compress Z M fin = Some file" and small: "length file < 2 ^ 64" "length fin < 2 ^ 64"
  shows "\<exists>d. decompressor_open M file = Inr d \<and> opened Z fin d \<and> m_compressed_size d \<le> length file"
proof -
  from zlib_spec.compress_layout [OF zl, of fin] obtain s outs where
    s: "compress_loop Z fin (compress_init Z) = Some s"
     "length outs = length fin div block_size + 1"
     "written s = concat outs" "compressed_size s = length (concat outs)"
     "original_size s = length fin" "checkpoints s = offsets 0 outs"
     and inf: "\<forall>i < length outs. i * block_size < length fin \<longrightarrow>
        (\<forall>rest. z_inflate Z (outs ! i @ rest) block_size =
           (True, take block_size (drop (i * block_size) fin)))"
    by blast
  let ?cs = "length (concat outs)"
  let ?tail = "freeze_u64 M (length fin) @ freeze_u64 M block_size @ freeze_vector M (offsets 0 outs)"
  have f: "file = le_bytes 8 ?cs @ concat outs @ ?tail"
    using cf s by (simp add: compress_def)
  have cs: "?cs < 2 ^ 64" "?cs \<le> length file" using small(1) f by simp_all
  then have "le_value (le_bytes 8 ?cs) = ?cs" by (intro le_value_bytes) simp
  moreover have "map_u64 M ?tail = (length fin, length (freeze_u64 M (length fin)))"
    by (rule zmapper_spec.map_freeze_u64 [OF zm small(2)])
  moreover have "map_u64 M (freeze_u64 M block_size @ freeze_vector M (offsets 0 outs)) =
      (block_size, length (freeze_u64 M block_size))"
    by (rule zmapper_spec.map_freeze_u64 [OF zm]) (simp add: block_size_def)
  moreover have "map_vector M (freeze_vector M (offsets 0 outs)) =
      (offsets 0 outs, length (freeze_vector M (offsets 0 outs)))"
  proof -
    have "length fin div block_size \<le> length fin div 2"
      by (rule div_le_mono2) (simp_all add: block_size_def)
    then have "length (offsets 0 outs) < 2 ^ 64" using s(2) small(2) by simp
    moreover have "list_all (\<lambda>x. x < 2 ^ 64) (offsets 0 outs)"
      using cs(1) by (intro offsets_all_below) simp
    ultimately show ?thesis using zmapper_spec.map_freeze_vector [OF zm, of _ "[]"] by simp
  qed
  ultimately have "decompressor_open M file = Inr \<lparr>m_compressed_data = concat outs @ ?tail,
      m_original_size = length fin, m_compressed_size = ?cs, m_block_size = block_size,
      m_offsets = offsets 0 outs\<rparr>"
    by (simp add: decompressor_open_def f Let_def)
  with s(2) inf cs(2) show ?thesis by (auto simp: opened_def)
qed

section \<open>Instances of the external interfaces\<close>

definition stored_zlib :: "string option zlib" where
  "stored_zlib = \<lparr>
     z_init = None,
     z_deflate = (\<lambda>z input f n.
       let p = (case z of None \<Rightarrow> le_bytes 2 (length input) @ input | Some p \<Rightarrow> p)
       in (if length p < n then None else Some (drop n p), [], take n p)),
     z_inflate = (\<lambda>input n. (True, take (le_value (take 2 input)) (drop 2 input)))\<rparr>"

lemma stored_emits: "0 < n \<Longrightarrow> emits stored_zlib n f (Some p) [] p None"
proof (induction p rule: measure_induct_rule [where f = length])
  case (less p)
  show ?case
  proof (cases "length p < n")
    case True
    then show ?thesis by (intro emits_last) (auto simp: stored_zlib_def)
  next
    case False
    then have "z_deflate stored_zlib (Some p) [] f n = (Some (drop n p), [], take n p)"
      by (simp add: stored_zlib_def)
    from emits_more [OF this _ less.IH [of "drop n p"]] False less.prems show ?thesis by simp
  qed
qed

lemma stored_emits_first:
  assumes "0 < n"
  shows "emits stored_zlib n f None chunk (le_bytes 2 (length chunk) @ chunk) None"
proof -
  let ?p = "le_bytes 2 (length chunk) @ chunk"
  show ?thesis
  proof (cases "length ?p < n")
    case True
    then show ?thesis by (intro emits_last [where input' = "[]"]) (auto simp: stored_zlib_def)
  next
    case False
    then have "z_deflate stored_zlib None chunk f n = (Some (drop n ?p), [], take n ?p)"
      by (simp add: stored_zlib_def)
    from emits_more [OF this _ stored_emits [OF assms]] False show ?thesis
      by (simp only: append_take_drop_id length_take min_absorb2 not_less)
  qed
qed

interpretation stored: zlib_spec stored_zlib "\<lambda>z. z = None"
proof unfold_locales
  show "z_init stored_zlib = None" by (simp add: stored_zlib_def)
next
  fix z :: "string option" and chunk :: string and f :: flush
  assume "z = None" and len: "length chunk \<le> block_size"
  have "le_value (le_bytes 2 (length chunk)) = length chunk"
    using len by (intro le_value_bytes) (simp add: block_size_def)
  then have "z_inflate stored_zlib ((le_bytes 2 (length chunk) @ chunk) @ rest) block_size = (True, chunk)"
    for rest by (simp add: stored_zlib_def)
  with \<open>z = None\<close> stored_emits_first [OF block_size_pos, of f chunk]
  show "\<exists>out z'. emits stored_zlib block_size f z chunk out z' \<and>
      (f = Z_FULL_FLUSH \<longrightarrow> z' = None) \<and>
      (chunk \<noteq> [] \<longrightarrow> (\<forall>rest. z_inflate stored_zlib (out @ rest) block_size = (True, chunk)))"
    by blast
qed

fun words_value :: "nat \<Rightarrow> string \<Rightarrow> nat list" where
  "words_value 0 cs = []"
| "words_value (Suc k) cs = le_value (take 8 cs) # words_value k (drop 8 cs)"

definition word_zmapper :: zmapper where
  "word_zmapper = \<lparr>
     freeze_u64 = le_bytes 8,
     map_u64 = (\<lambda>cs. (le_value (take 8 cs), 8)),
     freeze_vector = (\<lambda>ns. le_bytes 8 (length ns) @ concat (map (le_bytes 8) ns)),
     map_vector = (\<lambda>cs. let k = le_value (take 8 cs) in (words_value k (drop 8 cs), 8 + 8 * k))\<rparr>"

lemma words_value_concat:
  "list_all (\<lambda>n. n < 2 ^ 64) ns \<Longrightarrow>
   words_value (length ns) (concat (map (le_bytes 8) ns) @ rest) = ns"
proof (induction ns)
  case (Cons n ns)
  then have "le_value (le_bytes 8 n) = n" by (intro le_value_bytes) simp
  with Cons show ?case by simp
qed simp

interpretation words: zmapper_spec word_zmapper
proof unfold_locales
  fix n :: nat and rest :: string
  assume "n < 2 ^ 64"
  then have "le_value (le_bytes 8 n) = n" by (intro le_value_bytes) simp
  then show "map_u64 word_zmapper (freeze_u64 word_zmapper n @ rest) =
      (n, length (freeze_u64 word_zmapper n))"
    by (simp add: word_zmapper_def)
next
  fix ns :: "nat list" and rest :: string
  assume ns: "list_all (\<lambda>n. n < 2 ^ 64) ns" and "length ns < 2 ^ 64"
  then have "le_value (le_bytes 8 (length ns)) = length ns" by (intro le_value_bytes) simp
  moreover have "length (concat (map (le_bytes 8) ns)) = 8 * length ns"
    by (induction ns) auto
  ultimately show "map_vector word_zmapper (freeze_vector word_zmapper ns @ rest) =
      (ns, length (freeze_vector word_zmapper ns))"
    using words_value_concat [OF ns] by (simp add: word_zmapper_def Let_def)
qed

section \<open>Properties\<close>

text \<open>Dereferencing iterators at a sequence of positions, one after the other.\<close>

fun read_at ::
  "'z zlib \<Rightarrow> decompressor \<Rightarrow> z_iterator \<Rightarrow> nat list \<Rightarrow> reader \<Rightarrow> string result" where
  "read_at Z d i [] r = Inr []"
| "read_at Z d i (p # ps) r =
     bind_result (dereference Z d (z_advance i (int p)) r)
       (\<lambda>cr. bind_result (read_at Z d i ps (snd cr)) (\<lambda>s. Inr (fst cr # s)))"

lemma read_at_coherent:
  assumes op: "opened Z fin d" and small: "m_compressed_size d < 2 ^ 32" "length fin < 2 ^ 64"
    and i: "m_dec i \<noteq> 0" "m_absolute_pos i = 0"
  shows "coherent_reader fin r \<Longrightarrow> list_all (\<lambda>p. p < length fin) ps \<Longrightarrow>
    read_at Z d i ps r = Inr (map (\<lambda>p. fin ! p) ps)"
proof (induction ps arbitrary: r)
  case (Cons p ps)
  have "m_absolute_pos (z_advance i (int p)) = p" "m_dec (z_advance i (int p)) \<noteq> 0"
    using Cons.prems(2) small(2) i by (simp_all add: z_advance_def)
  with dereference_coherent [OF op small(1) Cons.prems(1), of "z_advance i (int p)"] Cons
  show ?case by auto
qed simp



text \<open>
  C37. \<^verbatim>\<open>compress\<close> terminates on every file, given the zlib contract, and records one checkpoint
  per block: the number of blocks is the size of the file divided by the block size, plus one.
\<close>

theorem compress_terminates:
  assumes "zlib_spec Z flushed"
  shows "\<exists>s outs. compress_loop Z fin (compress_init Z) = Some s \<and>
    compress Z M fin = Some (le_bytes 8 (compressed_size s) @ concat outs @
      freeze_u64 M (length fin) @ freeze_u64 M block_size @ freeze_vector M (offsets 0 outs)) \<and>
    length (checkpoints s) = length fin div block_size + 1"
proof -
  from zlib_spec.compress_layout [OF assms, of fin] obtain s outs where
    "compress_loop Z fin (compress_init Z) = Some s" "length outs = length fin div block_size + 1"
    "written s = concat outs" "original_size s = length fin" "checkpoints s = offsets 0 outs"
    by blast
  then show ?thesis by (auto simp: compress_def)
qed

text \<open>
  The arithmetic of iterators is consistent modulo the width of a position: advancing by
  the distance to another iterator of the same decompressor reaches it, and increment and
  decrement are inverse to each other.
\<close>

theorem z_iterator_arithmetic:
  assumes "m_dec i = m_dec j" and "m_absolute_pos i < 2 ^ 64" and "m_absolute_pos j < 2 ^ 64"
  shows "z_equal (z_advance i (z_distance_to i j)) j \<and> z_decrement (z_increment i) = i \<and>
    z_increment (z_decrement i) = i"
proof -
  have "(int (m_absolute_pos i) + z_distance_to i j) mod 2 ^ 64 = int (m_absolute_pos j)"
    using assms(3) by (simp add: z_distance_to_def Let_def mod_simps add_diff_eq)
  then have "z_equal (z_advance i (z_distance_to i j)) j"
    using assms(1) by (simp add: z_equal_def z_advance_def)
  moreover have "z_decrement (z_increment i) = i" "z_increment (z_decrement i) = i"
    using assms(2) by (auto simp: z_decrement_def z_increment_def sub_size_def mod_Suc)
  ultimately show ?thesis by simp
qed

text \<open>A file of one block, compressed with the instances above.\<close>

definition stored_file :: "string \<Rightarrow> string" where
  "stored_file fin =
     le_bytes 8 (length fin + 2) @ (le_bytes 2 (length fin) @ fin) @ le_bytes 8 (length fin) @
     le_bytes 8 16384 @ le_bytes 8 1 @ le_bytes 8 0"

lemma stored_file_compressed:
  "length fin + 2 < block_size \<Longrightarrow> compress stored_zlib word_zmapper fin = Some (stored_file fin)"
  by (simp add: compress_def compress_loop.simps deflate_loop.simps stored_zlib_def
      word_zmapper_def compress_init_def block_size_def stored_file_def)

lemma stored_file_length: "length (stored_file fin) = length fin + 42"
  by (simp add: stored_file_def)

definition hello_file :: string where
  "hello_file = stored_file ''hello''"

lemma hello_compressed: "compress stored_zlib word_zmapper ''hello'' = Some hello_file"
  unfolding hello_file_def by (rule stored_file_compressed) (simp add: block_size_def)

lemma hello_length: "length hello_file < 2 ^ 32"
  by (simp add: hello_file_def stored_file_length)

lemma hello_size: "length ''hello'' = 5"
  by simp



theorem compress_terminates_witness:
  "\<exists>s outs. compress_loop stored_zlib ''hello'' (compress_init stored_zlib) = Some s \<and>
     compress stored_zlib word_zmapper ''hello'' = Some (le_bytes 8 (compressed_size s) @
       concat outs @ freeze_u64 word_zmapper 5 @ freeze_u64 word_zmapper block_size @
       freeze_vector word_zmapper (offsets 0 outs)) \<and> length (checkpoints s) = 1"
  using compress_terminates [OF stored.zlib_spec_axioms, of "''hello''" word_zmapper]
  unfolding hello_size by (simp add: block_size_def)

theorem z_iterator_arithmetic_witness:
  "let i = \<lparr>m_dec = 1, m_absolute_pos = 7\<rparr>; j = \<lparr>m_dec = 1, m_absolute_pos = 3\<rparr> in
   z_distance_to i j = -4 \<and> z_equal (z_advance i (-4)) j"
proof -
  let ?i = "\<lparr>m_dec = 1, m_absolute_pos = 7\<rparr>" and ?j = "\<lparr>m_dec = 1, m_absolute_pos = 3\<rparr>"
  have "z_distance_to ?i ?j = -4" by (simp add: z_distance_to_def Let_def)
  with z_iterator_arithmetic [of ?i ?j] show ?thesis by (simp add: Let_def)
qed

end
