(* ===== verification/Semi_Index_Zrandom.thy ===== *)
theory Semi_Index_Zrandom
  imports Json_Select Zrandom_Roundtrip
begin

text \<open>
  The semi-index over a compressed collection: the template \<^verbatim>\<open>json_semi_index_base\<close> at the
  iterator type \<^verbatim>\<open>zrandom::decompressor::iterator\<close>, and the command
  \<^verbatim>\<open>saved_si_parse_compressed\<close> of \<^verbatim>\<open>json_select.cpp\<close>. Every read goes through
  \<open>dereference\<close>, which may inflate a block and changes the cache and the shared current
  block, so the operations that read take and return the \<open>reader\<close>.

  The theory shows that this instance of the template refines the one on plain bytes: when
  an operation on the bytes of the original file returns, the operation on the compressed
  file returns the same and leaves the reader coherent with the original file. With the
  round trip of the compressor this gives what \<^verbatim>\<open>saved_si_parse_compressed\<close> prints.
\<close>

section \<open>Operations\<close>

definition z_at ::
  "'z zlib \<Rightarrow> decompressor \<Rightarrow> z_iterator \<Rightarrow> nat \<Rightarrow> reader \<Rightarrow> (char \<times> reader) result" where
  "z_at Z d json n r = dereference Z d (z_advance json (int n)) r"

partial_function (option) z_skip_to_quote ::
  "'z zlib \<Rightarrow> decompressor \<Rightarrow> z_iterator \<Rightarrow> reader \<Rightarrow> (z_iterator \<times> reader) outcome" where
  "z_skip_to_quote Z d it r =
     (case dereference Z d it r of
        Inl e \<Rightarrow> Some (Inl e)
      | Inr cr \<Rightarrow>
          (if fst cr = quote then Some (Inr (z_increment it, snd cr))
           else z_skip_to_quote Z d (z_increment it) (snd cr)))"

fun z_match_key ::
  "'z zlib \<Rightarrow> decompressor \<Rightarrow> string \<Rightarrow> z_iterator \<Rightarrow> reader \<Rightarrow> (bool \<times> reader) result" where
  "z_match_key Z d [] it r =
     bind_result (dereference Z d it r) (\<lambda>cr. Inr (fst cr = quote, snd cr))"
| "z_match_key Z d (k # ks) it r =
     bind_result (dereference Z d it r)
       (\<lambda>cr. if fst cr = backslash then
               bind_result (dereference Z d (z_increment it) (snd cr))
                 (\<lambda>dr. if unescape_char (fst dr) \<noteq> k then Inr (False, snd dr)
                       else z_match_key Z d ks (z_increment (z_increment it)) (snd dr))
             else if fst cr \<noteq> k then Inr (False, snd cr)
             else z_match_key Z d ks (z_increment it) (snd cr))"

definition z_check_key ::
  "'z zlib \<Rightarrow> decompressor \<Rightarrow> z_iterator \<Rightarrow> string \<Rightarrow> nat \<Rightarrow> reader \<Rightarrow> (bool \<times> reader) outcome" where
  "z_check_key Z d json key pos r =
     bind_outcome (z_skip_to_quote Z d (z_advance json (int pos)) r)
       (\<lambda>ir. Some (z_match_key Z d key (fst ir) (snd ir)))"

partial_function (option) z_object_loop ::
  "('bvb, 'ef, 'bp) succinct \<Rightarrow> ('ef, 'bp) json_semi_index \<Rightarrow> 'z zlib \<Rightarrow> decompressor \<Rightarrow>
   z_iterator \<Rightarrow> string \<Rightarrow> nat \<Rightarrow> nat \<Rightarrow> nat \<Rightarrow> reader \<Rightarrow> (nat option \<times> reader) outcome" where
  "z_object_loop S ix Z d json key offset cur_node cur_node_pos r =
     (if \<not> bp_get S (m_bp ix) cur_node then Some (Inr (None, r))
      else
        let cur_node_end = bp_find_close S (m_bp ix) cur_node;
            cur_node_val_begin = cur_node_end + 1
        in (case z_check_key Z d json key cur_node_pos r of
              None \<Rightarrow> None
            | Some res \<Rightarrow>
                (case res of
                   Inl e \<Rightarrow> Some (Inl e)
                 | Inr br \<Rightarrow>
                     (if fst br then Some (Inr (Some cur_node_val_begin, snd br))
                      else
                        let cur_node_val_end = bp_find_close S (m_bp ix) cur_node_val_begin;
                            next_node = cur_node_val_end + 1
                        in z_object_loop S ix Z d json key offset next_node
                             (get_pos S ix next_node offset + 1) (snd br)))))"

definition z_get_object_child ::
  "('bvb, 'ef, 'bp) succinct \<Rightarrow> ('ef, 'bp) json_semi_index \<Rightarrow> 'z zlib \<Rightarrow> decompressor \<Rightarrow>
   z_iterator \<Rightarrow> nat \<Rightarrow> nat \<Rightarrow> string \<Rightarrow> reader \<Rightarrow> (nat option \<times> reader) outcome" where
  "z_get_object_child S ix Z d json node0 offset key r =
     (let node = node0 + node0 mod 2;
          opening_pos = get_pos S ix node offset
      in bind_outcome (Some (z_at Z d json opening_pos r))
           (\<lambda>c1. if fst c1 \<noteq> CHR ''{'' then Some (Inr (None, snd c1))
                  else bind_outcome (Some (z_at Z d json (opening_pos + 1) (snd c1)))
                    (\<lambda>c2. if fst c2 = CHR ''}'' then Some (Inr (None, snd c2))
                           else z_object_loop S ix Z d json key offset (node + 1)
                                  (opening_pos + 1) (snd c2))))"

definition z_get_array_child ::
  "('bvb, 'ef, 'bp) succinct \<Rightarrow> ('ef, 'bp) json_semi_index \<Rightarrow> 'z zlib \<Rightarrow> decompressor \<Rightarrow>
   z_iterator \<Rightarrow> nat \<Rightarrow> nat \<Rightarrow> int \<Rightarrow> reader \<Rightarrow> (nat option \<times> reader) outcome" where
  "z_get_array_child S ix Z d json node0 offset idx r =
     (let node = node0 + node0 mod 2;
          opening_pos = get_pos S ix node offset
      in bind_outcome (Some (z_at Z d json opening_pos r))
           (\<lambda>c1. if fst c1 \<noteq> CHR ''['' then Some (Inr (None, snd c1))
                  else bind_outcome (Some (z_at Z d json (opening_pos + 1) (snd c1)))
                    (\<lambda>c2. if fst c2 = CHR '']'' then Some (Inr (None, snd c2))
                           else bind_outcome
                             (if idx \<ge> 0 then array_loop_forward S ix idx 0 (node + 1)
                              else array_loop_backward S ix idx 0
                                     (sub_size (bp_find_close S (m_bp ix) node) 1))
                             (\<lambda>n. Some (Inr (n, snd c2))))))"

definition z_at_index ::
  "('bvb, 'ef, 'bp) succinct \<Rightarrow> ('ef, 'bp) heap \<Rightarrow> 'z zlib \<Rightarrow> decompressor \<Rightarrow>
   z_iterator accessor \<Rightarrow> int \<Rightarrow> reader \<Rightarrow> (z_iterator accessor \<times> reader) outcome" where
  "z_at_index S mem Z d a idx r =
     (if \<not> is_valid a then Some (Inr (a\<lparr>is_valid := False\<rparr>, r))
      else bind_outcome (Some (index_at mem (a_index a)))
        (\<lambda>ix. bind_outcome
           (z_get_array_child S ix Z d (a_json a) (a_node a) (a_offset a) idx r)
           (\<lambda>nr. Some (Inr (set_child a (fst nr), snd nr)))))"

definition z_at_key ::
  "('bvb, 'ef, 'bp) succinct \<Rightarrow> ('ef, 'bp) heap \<Rightarrow> 'z zlib \<Rightarrow> decompressor \<Rightarrow>
   z_iterator accessor \<Rightarrow> string \<Rightarrow> reader \<Rightarrow> (z_iterator accessor \<times> reader) outcome" where
  "z_at_key S mem Z d a key r =
     (if \<not> is_valid a then Some (Inr (a\<lparr>is_valid := False\<rparr>, r))
      else bind_outcome (Some (index_at mem (a_index a)))
        (\<lambda>ix. bind_outcome
           (z_get_object_child S ix Z d (a_json a) (a_node a) (a_offset a) key r)
           (\<lambda>nr. Some (Inr (set_child a (fst nr), snd nr)))))"

fun z_get_path ::
  "('bvb, 'ef, 'bp) succinct \<Rightarrow> ('ef, 'bp) heap \<Rightarrow> 'z zlib \<Rightarrow> decompressor \<Rightarrow>
   z_iterator accessor \<Rightarrow> path \<Rightarrow> reader \<Rightarrow> (z_iterator accessor \<times> reader) outcome" where
  "z_get_path S mem Z d a [] r = Some (Inr (a, r))"
| "z_get_path S mem Z d a (x # p) r =
     (if is_valid a then
        bind_outcome
          (case x of Key k \<Rightarrow> z_at_key S mem Z d a k r | Index i \<Rightarrow> z_at_index S mem Z d a i r)
          (\<lambda>ar. z_get_path S mem Z d (fst ar) p (snd ar))
      else Some (Inr (a, r)))"

text \<open>
  \<^verbatim>\<open>std::string val(line + r.first, line + r.second)\<close>: the range constructor throws when the
  distance is negative, which nothing catches.
\<close>

definition z_read_range ::
  "'z zlib \<Rightarrow> decompressor \<Rightarrow> z_iterator \<Rightarrow> nat \<times> nat \<Rightarrow> reader \<Rightarrow> (string \<times> reader) result" where
  "z_read_range Z d line rng r =
     (let first = z_advance line (int (fst rng));
          last = z_advance line (int (snd rng));
          n = z_distance_to first last
      in if n < 0 then Inl Terminate else read_chars Z d first (nat n) r)"

fun z_write_paths ::
  "('bvb, 'ef, 'bp) succinct \<Rightarrow> ('ef, 'bp) heap \<Rightarrow> 'z zlib \<Rightarrow> decompressor \<Rightarrow>
   z_iterator accessor \<Rightarrow> z_iterator \<Rightarrow> bool \<Rightarrow> path_list \<Rightarrow> reader \<Rightarrow> (string \<times> reader) outcome" where
  "z_write_paths S mem Z d root line first [] r = Some (Inr ([], r))"
| "z_write_paths S mem Z d root line first (p # ps) r =
     bind_outcome (z_get_path S mem Z d root p r)
       (\<lambda>ar. bind_outcome
          (if is_valid (fst ar) then
             Some (bind_result (get_range S mem (fst ar)) (\<lambda>rng. z_read_range Z d line rng (snd ar)))
           else Some (Inr (''null'', snd ar)))
          (\<lambda>vr. bind_outcome (z_write_paths S mem Z d root line False ps (snd vr))
             (\<lambda>sr. Some (Inr ((if first then [] else '','') @ fst vr @ fst sr, snd sr)))))"

definition z_write_document ::
  "('bvb, 'ef, 'bp) succinct \<Rightarrow> ('ef, 'bp) heap \<Rightarrow> 'z zlib \<Rightarrow> decompressor \<Rightarrow>
   z_iterator accessor \<Rightarrow> z_iterator \<Rightarrow> path_list \<Rightarrow> reader \<Rightarrow> (string \<times> reader) outcome" where
  "z_write_document S mem Z d root line paths r =
     bind_outcome (z_write_paths S mem Z d root line True paths r)
       (\<lambda>sr. Some (Inr (''['' @ fst sr @ CHR '']'' # [CHR 0x0A], snd sr)))"

partial_function (option) compressed_loop ::
  "('bvb, 'ef, 'bp) succinct \<Rightarrow> ('ef, 'bp) heap \<Rightarrow> 'z zlib \<Rightarrow> decompressor \<Rightarrow> path_list \<Rightarrow>
   z_iterator \<Rightarrow> cursor \<Rightarrow> string \<Rightarrow> reader \<Rightarrow> string outcome" where
  "compressed_loop S mem Z d paths json c shown r =
     (if cursor_eq c cursor_default then Some (Inr shown)
      else
        let line = z_advance json (int (get_offset c));
            root = get_accessor c line
        in (case cursor_next S mem c of
              Inl e \<Rightarrow> Some (Inl e)
            | Inr c' \<Rightarrow>
                (case z_write_document S mem Z d root line paths r of
                   None \<Rightarrow> None
                 | Some res \<Rightarrow>
                     (case res of
                        Inl e \<Rightarrow> Some (Inl e)
                      | Inr sr \<Rightarrow>
                          compressed_loop S mem Z d paths json c' (shown @ fst sr) (snd sr)))))"

declare z_skip_to_quote.simps [code] z_object_loop.simps [code] compressed_loop.simps [code]

text \<open>The decompressor of the command is the object at address \<open>dec_addr\<close>.\<close>

definition dec_addr :: nat where
  "dec_addr = 1"

definition saved_si_parse_compressed ::
  "('bvb, 'ef, 'bp) succinct \<Rightarrow> ('ef, 'bp) mapper \<Rightarrow> 'z zlib \<Rightarrow> zmapper \<Rightarrow>
   (string \<Rightarrow> path_list result) \<Rightarrow> string \<Rightarrow> string \<Rightarrow> string \<Rightarrow> string outcome" where
  "saved_si_parse_compressed S M Z ZM path_parse json_compressed_file index_file paths_spec =
     bind_outcome (Some (decompressor_open ZM json_compressed_file))
       (\<lambda>json_dec.
          let json = z_begin dec_addr json_dec;
              mem = heap_with (map_index M index_file)
          in bind_outcome (Some (get_cursor S mem index_addr))
               (\<lambda>c. bind_outcome (Some (path_parse paths_spec))
                  (\<lambda>paths. compressed_loop S mem Z json_dec paths json c [] reader_new)))"

section \<open>Refinement of the instance on plain bytes\<close>

text \<open>
  \<open>reads\<close>: the decompressor is open on a compressed file of \<open>fin\<close>. \<open>at_file\<close>: an
  iterator at a position of \<open>fin\<close>; the bytes readable from it are \<open>drop n fin\<close>.
\<close>

definition reads :: "'z zlib \<Rightarrow> decompressor \<Rightarrow> string \<Rightarrow> bool" where
  "reads Z d fin \<longleftrightarrow> opened Z fin d \<and> m_compressed_size d < 2 ^ 32 \<and> length fin < 2 ^ 63"

definition at_file :: "string \<Rightarrow> z_iterator \<Rightarrow> nat \<Rightarrow> bool" where
  "at_file fin it n \<longleftrightarrow> m_dec it \<noteq> 0 \<and> m_absolute_pos it = n \<and> n \<le> length fin"

lemma at_file_advance:
  assumes "reads Z d fin" and "at_file fin it n" and "n + k \<le> length fin"
  shows "at_file fin (z_advance it (int k)) (n + k)"
proof -
  have "(int n + int k) mod 2 ^ 64 = int (n + k)"
    using assms(1,3) by (simp add: reads_def)
  with assms(2,3) show ?thesis by (simp add: at_file_def z_advance_def)
qed

lemma at_file_increment:
  assumes "reads Z d fin" and "at_file fin it n" and "n < length fin"
  shows "at_file fin (z_increment it) (Suc n)"
  using assms by (simp add: at_file_def z_increment_def reads_def)

lemma dereference_step:
  assumes "reads Z d fin" and "coherent_reader fin r" and "at_file fin it n"
    and "drop n fin = c # cs"
  shows "\<exists>r'. dereference Z d it r = Inr (c, r') \<and> coherent_reader fin r' \<and>
    at_file fin (z_increment it) (Suc n) \<and> drop (Suc n) fin = cs"
proof -
  have n: "n < length fin" "fin ! n = c" "drop (Suc n) fin = cs"
    using assms(4) by (metis drop_all linorder_not_le list.distinct(1),
      metis drop_all linorder_not_le list.distinct(1) nth_via_drop, metis drop_Suc list.sel(3) tl_drop)
  from dereference_coherent [OF _ _ assms(2), of Z d it] assms(1,3) n
  obtain r' where "dereference Z d it r = Inr (c, r')" "coherent_reader fin r'"
    by (auto simp: reads_def at_file_def)
  with at_file_increment [OF assms(1,3) n(1)] n(3) show ?thesis by blast
qed

lemma z_at_refines:
  assumes "reads Z d fin" and "coherent_reader fin r" and "at_file fin it n"
    and "deref (drop n fin) k = Inr c"
  shows "\<exists>r'. z_at Z d it k r = Inr (c, r') \<and> coherent_reader fin r'"
proof -
  have k: "n + k < length fin" "fin ! (n + k) = c"
    using assms(4) by (auto simp: deref_def split: if_splits)
  then have "drop (n + k) fin = c # drop (Suc (n + k)) fin" using Cons_nth_drop_Suc [OF k(1)] by simp
  with dereference_step [OF assms(1,2) at_file_advance [OF assms(1,3)], of k] k show ?thesis
    by (auto simp: z_at_def)
qed

lemma z_skip_to_quote_refines:
  assumes "reads Z d fin"
  shows "skip_to_quote s = Inr s' \<Longrightarrow> coherent_reader fin r \<Longrightarrow> at_file fin it n \<Longrightarrow>
    drop n fin = s \<Longrightarrow>
    \<exists>it' n' r'. z_skip_to_quote Z d it r = Some (Inr (it', r')) \<and> coherent_reader fin r' \<and>
      at_file fin it' n' \<and> drop n' fin = s'"
proof (induction s arbitrary: it n r)
  case (Cons c cs)
  from dereference_step [OF assms Cons.prems(2-4)] obtain r1 where
    r1: "dereference Z d it r = Inr (c, r1)" "coherent_reader fin r1"
    "at_file fin (z_increment it) (Suc n)" "drop (Suc n) fin = cs" by blast
  show ?case
  proof (cases "c = quote")
    case True
    with r1 Cons.prems(1) show ?thesis by (subst z_skip_to_quote.simps) auto
  next
    case False
    with Cons.IH [OF _ r1(2-4)] Cons.prems(1) r1(1) show ?thesis
      by (subst z_skip_to_quote.simps) simp
  qed
qed simp

lemma z_match_key_refines:
  assumes "reads Z d fin"
  shows "match_key key s = Inr b \<Longrightarrow> coherent_reader fin r \<Longrightarrow> at_file fin it n \<Longrightarrow>
    drop n fin = s \<Longrightarrow> \<exists>r'. z_match_key Z d key it r = Inr (b, r') \<and> coherent_reader fin r'"
proof (induction key arbitrary: s it n r)
  case Nil
  then obtain c cs where s: "s = c # cs" by (cases s) auto
  with dereference_step [OF assms Nil.prems(2,3)] Nil.prems(1,4) show ?case by fastforce
next
  case (Cons k ks)
  then obtain c cs where s: "s = c # cs" by (cases s) auto
  from dereference_step [OF assms Cons.prems(2,3)] Cons.prems(4) s obtain r1 where
    r1: "dereference Z d it r = Inr (c, r1)" "coherent_reader fin r1"
    "at_file fin (z_increment it) (Suc n)" "drop (Suc n) fin = cs" by blast
  show ?case
  proof (cases "c = backslash")
    case True
    with Cons.prems(1) s obtain e es where cs: "cs = e # es" by (cases cs) auto
    from dereference_step [OF assms r1(2,3)] r1(4) cs obtain r2 where
      r2: "dereference Z d (z_increment it) r1 = Inr (e, r2)" "coherent_reader fin r2"
      "at_file fin (z_increment (z_increment it)) (Suc (Suc n))" "drop (Suc (Suc n)) fin = es" by blast
    with Cons.IH [OF _ r2(2-4)] Cons.prems(1) s cs True r1(1) show ?thesis
      by (auto split: if_splits)
  next
    case False
    with Cons.IH [OF _ r1(2-4)] Cons.prems(1) s r1(1,2) show ?thesis by (auto split: if_splits)
  qed
qed

lemma z_check_key_refines:
  assumes "reads Z d fin" and "coherent_reader fin r" and "at_file fin it n"
    and "check_key (drop n fin) key pos = Inr b"
  shows "\<exists>r'. z_check_key Z d it key pos r = Some (Inr (b, r')) \<and> coherent_reader fin r'"
proof -
  from assms(4) obtain s where s: "skip_to_quote (drop (n + pos) fin) = Inr s" "match_key key s = Inr b"
    by (auto simp: check_key_def bind_result_Inr add.commute)
  then have "n + pos \<le> length fin" by (cases "n + pos \<le> length fin") auto
  from z_skip_to_quote_refines [OF assms(1) s(1) assms(2) at_file_advance [OF assms(1,3) this] refl]
  obtain it' n' r' where it': "z_skip_to_quote Z d (z_advance it (int pos)) r = Some (Inr (it', r'))"
    "coherent_reader fin r'" "at_file fin it' n'" "drop n' fin = s" by blast
  with z_match_key_refines [OF assms(1) s(2) it'(2-4)] show ?thesis by (simp add: z_check_key_def)
qed

lemma z_object_loop_refines_res:
  assumes zr: "reads Z d fin" and it: "at_file fin it n"
    and "object_loop S ix json key offset node pos = Some res"
  shows "\<forall>x r. res = Inr x \<longrightarrow> json = drop n fin \<longrightarrow> coherent_reader fin r \<longrightarrow>
    (\<exists>r'. z_object_loop S ix Z d it key offset node pos r = Some (Inr (x, r')) \<and> coherent_reader fin r')"
    (is "?P S ix json key offset node pos res")
proof (rule object_loop.raw_induct [where P = ?P, OF _ assms(3)], intro allI impI)
  fix loop S ix json key offset node pos res x r
  assume IH: "\<And>S ix json key offset node pos res.
      loop S ix json key offset node pos = Some res \<Longrightarrow> ?P S ix json key offset node pos res"
    and body: "(if \<not> bp_get S (m_bp ix) node then Some (Inr None)
      else let cur_node_end = bp_find_close S (m_bp ix) node; cur_node_val_begin = cur_node_end + 1
        in case check_key json key pos of Inl e \<Rightarrow> Some (Inl e)
           | Inr found \<Rightarrow>
               if found then Some (Inr (Some cur_node_val_begin))
               else let cur_node_val_end = bp_find_close S (m_bp ix) cur_node_val_begin;
                        next_node = cur_node_val_end + 1
                    in loop S ix json key offset next_node (get_pos S ix next_node offset + 1)) =
      Some res"
    and res: "res = Inr x" and json: "json = drop n fin" and r: "coherent_reader fin r"
  show "\<exists>r'. z_object_loop S ix Z d it key offset node pos r = Some (Inr (x, r')) \<and>
      coherent_reader fin r'"
  proof (cases "bp_get S (m_bp ix) node")
    case False
    with body res r show ?thesis by (subst z_object_loop.simps) simp
  next
    case True
    with body res obtain b where b: "check_key json key pos = Inr b"
      by (auto simp: Let_def split: sum.splits)
    with z_check_key_refines [OF zr r it, of key pos b] json obtain r1 where
      r1: "z_check_key Z d it key pos r = Some (Inr (b, r1))" "coherent_reader fin r1" by auto
    show ?thesis
    proof (cases b)
      case True
      with \<open>bp_get S (m_bp ix) node\<close> body b r1 res show ?thesis
        by (subst z_object_loop.simps) (simp add: Let_def)
    next
      case False
      with \<open>bp_get S (m_bp ix) node\<close> body b IH have
        "?P S ix json key offset (bp_find_close S (m_bp ix) (bp_find_close S (m_bp ix) node + 1) + 1)
           (get_pos S ix (bp_find_close S (m_bp ix) (bp_find_close S (m_bp ix) node + 1) + 1) offset + 1) res"
        by (simp add: Let_def)
      with False \<open>bp_get S (m_bp ix) node\<close> r1 res json show ?thesis
        by (subst z_object_loop.simps) (simp add: Let_def)
    qed
  qed
qed

lemma z_object_loop_refines:
  assumes "reads Z d fin" and "at_file fin it n"
    and "object_loop S ix (drop n fin) key offset node pos = Some (Inr x)" and "coherent_reader fin r"
  shows "\<exists>r'. z_object_loop S ix Z d it key offset node pos r = Some (Inr (x, r')) \<and>
    coherent_reader fin r'"
  using z_object_loop_refines_res [OF assms(1-3)] assms(4) by simp

lemma z_get_object_child_refines:
  assumes "reads Z d fin" and "at_file fin it n" and "coherent_reader fin r"
    and "get_object_child S ix (drop n fin) node offset key = Some (Inr x)"
  shows "\<exists>r'. z_get_object_child S ix Z d it node offset key r = Some (Inr (x, r')) \<and>
    coherent_reader fin r'"
proof -
  let ?node = "node + node mod 2"
  let ?pos = "get_pos S ix ?node offset"
  from assms(4) obtain c where c: "deref (drop n fin) ?pos = Inr c"
    by (auto simp: get_object_child_def Let_def split: sum.splits)
  from z_at_refines [OF assms(1,3,2) c] obtain r1 where
    r1: "z_at Z d it ?pos r = Inr (c, r1)" "coherent_reader fin r1" by blast
  show ?thesis
  proof (cases "c = CHR ''{''")
    case False
    with assms(4) c r1 show ?thesis by (simp add: get_object_child_def z_get_object_child_def Let_def)
  next
    case True
    with assms(4) c obtain e where e: "deref (drop n fin) (Suc ?pos) = Inr e"
      by (auto simp: get_object_child_def Let_def split: sum.splits)
    from z_at_refines [OF assms(1) r1(2) assms(2) e] obtain r2 where
      r2: "z_at Z d it (Suc ?pos) r1 = Inr (e, r2)" "coherent_reader fin r2" by blast
    show ?thesis
    proof (cases "e = CHR ''}''")
      case brace: True
      with assms(4) True c e r1 r2 show ?thesis
        by (simp add: get_object_child_def z_get_object_child_def Let_def)
    next
      case False
      with assms(4) True c e have
        "object_loop S ix (drop n fin) key offset (Suc ?node) (Suc ?pos) = Some (Inr x)"
        by (simp add: get_object_child_def Let_def)
      from z_object_loop_refines [OF assms(1,2) this r2(2)] False True r1 r2 show ?thesis
        by (simp add: z_get_object_child_def Let_def)
    qed
  qed
qed

lemma z_get_array_child_refines:
  assumes "reads Z d fin" and "at_file fin it n" and "coherent_reader fin r"
    and "get_array_child S ix (drop n fin) node offset idx = Some (Inr x)"
  shows "\<exists>r'. z_get_array_child S ix Z d it node offset idx r = Some (Inr (x, r')) \<and>
    coherent_reader fin r'"
proof -
  let ?node = "node + node mod 2"
  let ?pos = "get_pos S ix ?node offset"
  from assms(4) obtain c where c: "deref (drop n fin) ?pos = Inr c"
    by (auto simp: get_array_child_def Let_def split: sum.splits)
  from z_at_refines [OF assms(1,3,2) c] obtain r1 where
    r1: "z_at Z d it ?pos r = Inr (c, r1)" "coherent_reader fin r1" by blast
  show ?thesis
  proof (cases "c = CHR ''[''")
    case False
    with assms(4) c r1 show ?thesis by (simp add: get_array_child_def z_get_array_child_def Let_def)
  next
    case True
    with assms(4) c obtain e where e: "deref (drop n fin) (Suc ?pos) = Inr e"
      by (auto simp: get_array_child_def Let_def split: sum.splits)
    from z_at_refines [OF assms(1) r1(2) assms(2) e] obtain r2 where
      "z_at Z d it (Suc ?pos) r1 = Inr (e, r2)" "coherent_reader fin r2" by blast
    with assms(4) True c e r1 show ?thesis
      by (auto simp: get_array_child_def z_get_array_child_def Let_def)
  qed
qed

text \<open>The accessor on plain bytes that an accessor on the compressed file stands for.\<close>

definition plain_accessor :: "string \<Rightarrow> z_iterator accessor \<Rightarrow> string accessor" where
  "plain_accessor fin a =
     \<lparr>is_valid = is_valid a, a_node = a_node a,
      a_json = drop (m_absolute_pos (a_json a)) fin, a_index = a_index a, a_offset = a_offset a\<rparr>"

lemma plain_accessor_simps [simp]:
  "is_valid (plain_accessor fin a) = is_valid a"
  "a_node (plain_accessor fin a) = a_node a"
  "a_json (plain_accessor fin a) = drop (m_absolute_pos (a_json a)) fin"
  "a_index (plain_accessor fin a) = a_index a"
  "a_offset (plain_accessor fin a) = a_offset a"
  by (simp_all add: plain_accessor_def)

lemma plain_set_child: "plain_accessor fin (set_child a x) = set_child (plain_accessor fin a) x"
  by (simp add: plain_accessor_def set_child_def split: option.splits)

lemma set_child_json [simp]: "a_json (set_child a x) = a_json a"
  by (simp add: set_child_def split: option.splits)

lemma plain_get_range: "get_range S mem (plain_accessor fin a) = get_range S mem a"
  by (simp add: get_range_def accessor_get_pos_def)

lemma at_file_pos: "at_file fin it n \<Longrightarrow> m_absolute_pos it = n"
  by (simp add: at_file_def)

lemma z_at_refines_step:
  assumes "reads Z d fin" and it: "at_file fin (a_json a) n" and "coherent_reader fin r"
    and v: "is_valid a"
    and step: "(case x of Key k \<Rightarrow> at_key S mem (plain_accessor fin a) k
      | Index i \<Rightarrow> at_index S mem (plain_accessor fin a) i) = Some (Inr b)"
  shows "\<exists>b' r'. (case x of Key k \<Rightarrow> z_at_key S mem Z d a k r | Index i \<Rightarrow> z_at_index S mem Z d a i r)
      = Some (Inr (b', r')) \<and> coherent_reader fin r' \<and> plain_accessor fin b' = b \<and>
      a_json b' = a_json a"
proof (cases x)
  case (Key k)
  with step v obtain ix m where ix: "index_at mem (a_index a) = Inr ix"
    and m: "get_object_child S ix (drop n fin) (a_node a) (a_offset a) k = Some (Inr m)"
    and b: "b = set_child (plain_accessor fin a) m"
    by (auto simp: at_key_def bind_outcome_Inr at_file_pos [OF it] split: sum.splits)
  from z_get_object_child_refines [OF assms(1-3) m] Key v ix b show ?thesis
    by (auto simp: z_at_key_def plain_set_child)
next
  case (Index i)
  with step v obtain ix m where ix: "index_at mem (a_index a) = Inr ix"
    and m: "get_array_child S ix (drop n fin) (a_node a) (a_offset a) i = Some (Inr m)"
    and b: "b = set_child (plain_accessor fin a) m"
    by (auto simp: at_index_def bind_outcome_Inr at_file_pos [OF it] split: sum.splits)
  from z_get_array_child_refines [OF assms(1-3) m] Index v ix b show ?thesis
    by (auto simp: z_at_index_def plain_set_child)
qed

lemma z_get_path_refines:
  assumes "reads Z d fin"
  shows "get_path S mem (plain_accessor fin a) p = Some (Inr b) \<Longrightarrow> at_file fin (a_json a) n \<Longrightarrow>
    coherent_reader fin r \<Longrightarrow>
    \<exists>b' r'. z_get_path S mem Z d a p r = Some (Inr (b', r')) \<and> coherent_reader fin r' \<and>
      plain_accessor fin b' = b \<and> a_json b' = a_json a"
proof (induction p arbitrary: a r)
  case (Cons x p)
  show ?case
  proof (cases "is_valid a")
    case True
    with Cons.prems(1) obtain b1 where
      b1: "(case x of Key k \<Rightarrow> at_key S mem (plain_accessor fin a) k
        | Index i \<Rightarrow> at_index S mem (plain_accessor fin a) i) = Some (Inr b1)"
      "get_path S mem b1 p = Some (Inr b)"
      by (auto simp: bind_outcome_Inr)
    from z_at_refines_step [OF assms Cons.prems(2,3) True b1(1)] obtain a1 r1 where
      a1: "(case x of Key k \<Rightarrow> z_at_key S mem Z d a k r | Index i \<Rightarrow> z_at_index S mem Z d a i r)
        = Some (Inr (a1, r1))" "coherent_reader fin r1" "plain_accessor fin a1 = b1"
      "a_json a1 = a_json a" by blast
    from Cons.IH [of a1 r1] b1(2) a1 Cons.prems(2) True show ?thesis by auto
  next
    case False
    with Cons.prems show ?thesis by auto
  qed
qed simp

lemma z_read_range_refines:
  assumes zr: "reads Z d fin" and it: "at_file fin line n" and "coherent_reader fin r"
    and rng: "read_range (drop n fin) rng = Inr txt"
  shows "\<exists>r'. z_read_range Z d line rng r = Inr (txt, r') \<and> coherent_reader fin r'"
proof -
  let ?i = "z_advance line (int (fst rng))" and ?j = "z_advance line (int (snd rng))"
  have le: "fst rng \<le> snd rng" "n + snd rng \<le> length fin"
    and txt_eq: "txt = take (snd rng - fst rng) (drop (n + fst rng) fin)"
    using rng it by (auto simp: read_range_def at_file_def add.commute split: if_splits)
  have i: "at_file fin ?i (n + fst rng)" and j: "at_file fin ?j (n + snd rng)"
    using at_file_advance [OF zr it] le by simp_all
  have small: "opened Z fin d" "m_compressed_size d < 2 ^ 32" "length fin < 2 ^ 63"
    using zr by (auto simp: reads_def)
  have dist: "z_distance_to ?i ?j = int (snd rng - fst rng)"
    using i j le small(3) by (simp add: z_distance_to_def at_file_def Let_def of_nat_diff)
  have "length fin < 2 ^ 64" "m_dec ?i \<noteq> 0" using small(3) i by (simp_all add: at_file_def)
  from read_chars_coherent [OF small(1,2) this assms(3), of "snd rng - fst rng"] i le
  have "\<exists>r'. read_chars Z d ?i (snd rng - fst rng) r = Inr (txt, r') \<and> coherent_reader fin r'"
    by (simp add: at_file_def txt_eq)
  with dist show ?thesis by (simp add: z_read_range_def Let_def)
qed

lemma z_write_paths_refines:
  assumes "reads Z d fin" and it: "at_file fin (a_json root) n" and line: "line = a_json root"
  shows "write_paths S mem (plain_accessor fin root) (drop n fin) first paths = Some (Inr out) \<Longrightarrow>
    coherent_reader fin r \<Longrightarrow>
    \<exists>r'. z_write_paths S mem Z d root line first paths r = Some (Inr (out, r')) \<and>
      coherent_reader fin r'"
proof (induction paths arbitrary: first out r)
  case (Cons p ps)
  from Cons.prems(1) obtain b v rest where
    b: "get_path S mem (plain_accessor fin root) p = Some (Inr b)"
    and v: "(if is_valid b then Some (bind_result (get_range S mem b) (read_range (drop n fin)))
      else Some (Inr ''null'')) = Some (Inr v)"
    and rest: "write_paths S mem (plain_accessor fin root) (drop n fin) False ps = Some (Inr rest)"
    and out: "out = (if first then [] else '','') @ v @ rest"
    by (auto simp: bind_outcome_Inr)
  from z_get_path_refines [OF assms(1) b it Cons.prems(2)] obtain a1 r1 where
    a1: "z_get_path S mem Z d root p r = Some (Inr (a1, r1))" "coherent_reader fin r1"
    "plain_accessor fin a1 = b" by blast
  have "\<exists>r2. (if is_valid a1 then
        Some (bind_result (get_range S mem a1) (\<lambda>rng. z_read_range Z d line rng r1))
      else Some (Inr (''null'', r1))) = Some (Inr (v, r2)) \<and> coherent_reader fin r2"
  proof (cases "is_valid a1")
    case True
    with v a1(3) obtain rng where "get_range S mem a1 = Inr rng" "read_range (drop n fin) rng = Inr v"
      by (auto simp: bind_result_Inr plain_get_range)
    with z_read_range_refines [OF assms(1) _ a1(2), of line n rng v] it line True show ?thesis
      by simp
  next
    case False
    with v a1 show ?thesis by auto
  qed
  with Cons.IH [OF rest] a1(1) out show ?case by fastforce
qed simp

lemma z_write_document_refines:
  assumes "reads Z d fin" and "at_file fin line n" and "coherent_reader fin r"
    and "write_document S mem (get_accessor c (drop n fin)) (drop n fin) paths = Some (Inr out)"
  shows "\<exists>r'. z_write_document S mem Z d (get_accessor c line) line paths r = Some (Inr (out, r')) \<and>
    coherent_reader fin r'"
proof -
  let ?root = "get_accessor c line"
  have root: "a_json ?root = line" "plain_accessor fin ?root = get_accessor c (drop n fin)"
    using assms(2) by (simp_all add: plain_accessor_def get_accessor_def accessor_make_def at_file_def)
  from assms(4) obtain o1 where o1:
    "write_paths S mem (plain_accessor fin ?root) (drop n fin) True paths = Some (Inr o1)"
    "out = ''['' @ o1 @ CHR '']'' # [CHR 0x0A]"
    unfolding root(2) by (auto simp: write_document_def bind_outcome_Inr)
  from z_write_paths_refines [OF assms(1) _ _ o1(1) assms(3), of line] root(1) assms(2) o1(2)
  show ?thesis by (auto simp: z_write_document_def)
qed

context succinct_spec
begin

lemma compressed_loop_correct:
  assumes ix: "indexes S bits ix (concat (map json_text ts))" and q: "queryable ts"
    and keys: "list_all plain_keys paths" and fin: "fin = concat (map json_text ts)"
    and zr: "reads Z d fin" and begin_it: "at_file fin json 0" and i: "i \<le> length ts"
    and c: "c = (if i < length ts then doc_cursor index_addr ts i else cursor_default)"
    and r: "coherent_reader fin r"
  shows "compressed_loop S (heap_with ix) Z d paths json c shown r =
    Some (Inr (shown @ expected_output paths (drop i ts)))"
  using i c r
proof (induction "drop i ts" arbitrary: i c shown r)
  case Nil
  then have "cursor_eq c cursor_default" by (simp add: cursor_eq_def)
  with Nil show ?case by (subst compressed_loop.simps) (simp add: expected_output_def)
next
  case (Cons t us)
  then have il: "i < length ts" by (metis drop_eq_Nil linorder_not_le list.distinct(1))
  then have t: "t = ts ! i" and us: "us = drop (Suc i) ts"
    using Cons.hyps(2) by (simp_all add: Cons_nth_drop_Suc [symmetric])
  have wf: "wf_collection ts" using q by (simp add: queryable_def)
  have cur: "c = doc_cursor index_addr ts i" using il Cons.prems by simp
  have nxt: "cursor_next S (heap_with ix) c =
      Inr (if Suc i < length ts then doc_cursor index_addr ts (Suc i) else cursor_default)"
    using cursor_steps [OF ix index_at_heap wf il] cur by simp
  have off: "get_offset c = length (doc_start ts i)" using cur by (simp add: get_offset_def doc_cursor_def)
  have "get_offset c \<le> length fin"
    using collection_split [OF il] off fin by simp
  then have at: "at_file fin (z_advance json (int (get_offset c))) (get_offset c)"
    using at_file_advance [OF zr begin_it, of "get_offset c"] by simp
  obtain rest where "drop (get_offset c) fin = core_text (ts ! i) @ rest"
    using mapped_json [OF il] fin off by auto
  from write_document_correct [OF ix index_at_heap q il keys this]
    z_write_document_refines [OF zr at Cons.prems(3), of S "heap_with ix" c paths] cur t
  obtain r' where doc: "z_write_document S (heap_with ix) Z d
      (get_accessor c (z_advance json (int (get_offset c)))) (z_advance json (int (get_offset c)))
      paths r = Some (Inr (expected_line paths t, r'))" and r': "coherent_reader fin r'" by auto
  have "\<not> cursor_eq c cursor_default" using doc_cursor_not_default cur by simp
  with nxt doc have "compressed_loop S (heap_with ix) Z d paths json c shown r =
      compressed_loop S (heap_with ix) Z d paths json
        (if Suc i < length ts then doc_cursor index_addr ts (Suc i) else cursor_default)
        (shown @ expected_line paths t) r'"
    by (subst compressed_loop.simps) (simp add: Let_def)
  with Cons.hyps(1) [OF us _ refl r'] il show ?case
    by (simp add: us expected_output_def flip: Cons.hyps(2))
qed

end

section \<open>What the command prints\<close>

lemma compressed_prints:
  assumes "succinct_spec S bits" and "mapper_spec M" and "zlib_spec Z flushed" and "zmapper_spec ZM"
    and "queryable ts" and "ts \<noteq> []"
    and "path_parse spec = Inr paths" and "list_all plain_keys paths"
    and "si_save S M (map json_text ts) = Inr index_file"
    and "compress Z ZM (concat (map json_text ts)) = Some file"
    and "length file < 2 ^ 32" and "length (concat (map json_text ts)) < 2 ^ 63"
  shows "saved_si_parse_compressed S M Z ZM path_parse file index_file spec =
    Some (Inr (expected_output paths ts))"
proof -
  let ?fin = "concat (map json_text ts)"
  have wf: "wf_collection ts" using assms(5) by (simp add: queryable_def)
  from succinct_spec.collection_indexes [OF assms(1) wf] obtain ix where
    ix: "json_semi_index_base S (map json_text ts) = Inr ix" "indexes S bits ix ?fin" by blast
  with assms(2,9) have mi: "map_index M index_file = ix"
    by (auto simp: si_save_def mapper_spec.map_freeze)
  have "length file < 2 ^ 64" "length ?fin < 2 ^ 64" using assms(11,12) by simp_all
  from open_compressed [OF assms(3,4,10) this] obtain d where
    d: "decompressor_open ZM file = Inr d" "opened Z ?fin d" "m_compressed_size d \<le> length file"
    by blast
  have zr: "reads Z d ?fin" using d assms(11,12) by (simp add: reads_def)
  have "at_file ?fin (z_begin dec_addr d) 0" by (simp add: at_file_def z_begin_def dec_addr_def)
  from succinct_spec.compressed_loop_correct [OF assms(1) ix(2) assms(5,8) refl zr this le0 refl
      coherent_reader_new, of "[]"]
    succinct_spec.cursor_first [OF assms(1) ix(2) index_at_heap wf assms(6)] d(1) mi assms(6,7)
  show ?thesis by (simp add: saved_si_parse_compressed_def)
qed

section \<open>Properties\<close>


lemma example_sizes:
  "length (concat (map json_text example_docs)) = 34"
  "length (concat (map json_text small_docs)) = 25"
  by code_simp+

definition small_root :: "z_iterator accessor" where
  "small_root = \<lparr>is_valid = True, a_node = 0, a_json = \<lparr>m_dec = 1, m_absolute_pos = 0\<rparr>,
     a_index = 3, a_offset = 0\<rparr>"


end
