(* ===== verification/Spirit.thy ===== *)
theory Spirit
  imports Escape_Table
begin

text \<open>
  The interface to Boost.Spirit Qi, the parser library behind \<^verbatim>\<open>semi_index/path_parser.cpp\<close>
  and \<^verbatim>\<open>semi_index/json_spirit_parser.cpp\<close>. Spirit is not part of the sources: a grammar is
  data (the type \<open>qi\<close>, one constructor per operator the sources use), and
  \<^verbatim>\<open>phrase_parse\<close> is an argument of the definitions that call it. The locale
  \<open>spirit_spec\<close> states its documented behaviour, that of a parsing expression grammar with
  a skipper, attributes and semantic actions, as the evaluation \<open>qi_eval\<close>: ordered choice,
  greedy repetition, \<open>a % b\<close> is \<open>a >> *(b >> a)\<close>, a primitive skips white space first
  (inside \<^verbatim>\<open>lexeme\<close> it does not), a semantic action changes the attribute \<^verbatim>\<open>_val\<close> of the rule
  it is in and is not undone by backtracking.

  The attributes of an expression are the list of the attributes of its parts (a literal has
  none); the attribute of a rule is its \<^verbatim>\<open>_val\<close>.
\<close>

datatype ('r, 'u) qi =
    Lit char
  | Chr_Minus "char list" "char \<Rightarrow> 'u"
  | Str string "string \<Rightarrow> 'u"
  | Num "string \<Rightarrow> ('u \<times> string) option"
  | Prim "string \<Rightarrow> (bool \<times> 'u \<times> string) result"
  | Lexeme "('r, 'u) qi"
  | Seq "('r, 'u) qi" "('r, 'u) qi"
  | Alt "('r, 'u) qi" "('r, 'u) qi"
  | Opt "('r, 'u) qi"
  | Star "('r, 'u) qi"
  | Rule 'r
  | Act "('r, 'u) qi" "'u list \<Rightarrow> 'u \<Rightarrow> 'u"

definition Plus :: "('r, 'u) qi \<Rightarrow> ('r, 'u) qi" where
  "Plus a = Seq a (Star a)"

definition List_Of :: "('r, 'u) qi \<Rightarrow> ('r, 'u) qi \<Rightarrow> ('r, 'u) qi" where
  "List_Of a b = Seq a (Star (Seq b a))"

text \<open>A grammar gives every rule the initial value of its \<^verbatim>\<open>_val\<close> and its definition.\<close>

type_synonym ('r, 'u) grammar = "'r \<Rightarrow> 'u \<times> ('r, 'u) qi"

datatype 'u parsed =
    Matched "'u list" 'u string
  | Failed 'u
  | Faulted fault

definition ascii_space :: "char \<Rightarrow> bool" where
  "ascii_space c \<longleftrightarrow> c = CHR '' '' \<or> 9 \<le> (of_char c :: nat) \<and> (of_char c :: nat) \<le> 13"

definition pre_skip :: "bool \<Rightarrow> string \<Rightarrow> string" where
  "pre_skip sk s = (if sk then dropWhile ascii_space s else s)"

fun strip_prefix :: "string \<Rightarrow> string \<Rightarrow> string option" where
  "strip_prefix [] s = Some s"
| "strip_prefix (c # cs) [] = None"
| "strip_prefix (c # cs) (d # ds) = (if c = d then strip_prefix cs ds else None)"

text \<open>Continuing after a match, after a failure, and leaving a rule.\<close>

definition bind_match ::
  "'u parsed option \<Rightarrow> ('u list \<Rightarrow> 'u \<Rightarrow> string \<Rightarrow> 'u parsed option) \<Rightarrow> 'u parsed option" where
  "bind_match m k =
     Option.bind m (\<lambda>r. case r of Matched xs v s \<Rightarrow> k xs v s | _ \<Rightarrow> Some r)"

definition or_else :: "'u parsed option \<Rightarrow> ('u \<Rightarrow> 'u parsed option) \<Rightarrow> 'u parsed option" where
  "or_else m k = Option.bind m (\<lambda>r. case r of Failed v \<Rightarrow> k v | _ \<Rightarrow> Some r)"

fun leave_rule :: "'u \<Rightarrow> 'u parsed \<Rightarrow> 'u parsed" where
  "leave_rule v (Matched xs w s) = Matched [w] v s"
| "leave_rule v (Failed w) = Failed v"
| "leave_rule v (Faulted err) = Faulted err"

text \<open>The primitive parsers.\<close>

definition parse_lit :: "bool \<Rightarrow> char \<Rightarrow> 'u \<Rightarrow> string \<Rightarrow> 'u parsed" where
  "parse_lit sk c v s =
     (case pre_skip sk s of
        [] \<Rightarrow> Failed v
      | d # t \<Rightarrow> if d = c then Matched [] v t else Failed v)"

definition parse_chr :: "bool \<Rightarrow> char list \<Rightarrow> (char \<Rightarrow> 'u) \<Rightarrow> 'u \<Rightarrow> string \<Rightarrow> 'u parsed" where
  "parse_chr sk cs f v s =
     (case pre_skip sk s of
        [] \<Rightarrow> Failed v
      | d # t \<Rightarrow> if (of_char d :: nat) < 128 \<and> d \<notin> set cs then Matched [f d] v t else Failed v)"

definition parse_str :: "bool \<Rightarrow> string \<Rightarrow> (string \<Rightarrow> 'u) \<Rightarrow> 'u \<Rightarrow> string \<Rightarrow> 'u parsed" where
  "parse_str sk w f v s =
     (case strip_prefix w (pre_skip sk s) of None \<Rightarrow> Failed v | Some t \<Rightarrow> Matched [f w] v t)"

definition parse_num ::
  "bool \<Rightarrow> (string \<Rightarrow> ('u \<times> string) option) \<Rightarrow> 'u \<Rightarrow> string \<Rightarrow> 'u parsed" where
  "parse_num sk f v s =
     (case f (pre_skip sk s) of None \<Rightarrow> Failed v | Some xt \<Rightarrow> Matched [fst xt] v (snd xt))"

definition parse_prim ::
  "(string \<Rightarrow> (bool \<times> 'u \<times> string) result) \<Rightarrow> 'u \<Rightarrow> string \<Rightarrow> 'u parsed" where
  "parse_prim f v s =
     (case f s of
        Inl err \<Rightarrow> Faulted err
      | Inr r \<Rightarrow> if fst r then Matched [fst (snd r)] v (snd (snd r)) else Failed v)"

text \<open>One step of the evaluation of an expression, and the evaluation with fuel.\<close>

definition qi_step ::
  "(bool \<Rightarrow> ('r, 'u) qi \<Rightarrow> 'u \<Rightarrow> string \<Rightarrow> 'u parsed option) \<Rightarrow> ('r, 'u) grammar \<Rightarrow> bool \<Rightarrow>
   ('r, 'u) qi \<Rightarrow> 'u \<Rightarrow> string \<Rightarrow> 'u parsed option" where
  "qi_step ev G sk e v s =
     (case e of
        Lit c \<Rightarrow> Some (parse_lit sk c v s)
      | Chr_Minus cs f \<Rightarrow> Some (parse_chr sk cs f v s)
      | Str w f \<Rightarrow> Some (parse_str sk w f v s)
      | Num f \<Rightarrow> Some (parse_num sk f v s)
      | Prim f \<Rightarrow> Some (parse_prim f v s)
      | Lexeme a \<Rightarrow> ev False a v (pre_skip sk s)
      | Seq a b \<Rightarrow>
          bind_match (ev sk a v s)
            (\<lambda>xs v1 s1. bind_match (ev sk b v1 s1)
               (\<lambda>ys v2 s2. Some (Matched (xs @ ys) v2 s2)))
      | Alt a b \<Rightarrow> or_else (ev sk a v s) (\<lambda>v1. ev sk b v1 s)
      | Opt a \<Rightarrow> or_else (ev sk a v s) (\<lambda>v1. Some (Matched [] v1 s))
      | Star a \<Rightarrow>
          or_else
            (bind_match (ev sk a v s)
              (\<lambda>xs v1 s1. bind_match (ev sk (Star a) v1 s1)
                 (\<lambda>ys v2 s2. Some (Matched (xs @ ys) v2 s2))))
            (\<lambda>v1. Some (Matched [] v1 s))
      | Rule r \<Rightarrow> map_option (leave_rule v) (ev sk (snd (G r)) (fst (G r)) s)
      | Act a f \<Rightarrow> bind_match (ev sk a v s) (\<lambda>xs v1 s1. Some (Matched xs (f xs v1) s1)))"

primrec qi_eval ::
  "nat \<Rightarrow> ('r, 'u) grammar \<Rightarrow> bool \<Rightarrow> ('r, 'u) qi \<Rightarrow> 'u \<Rightarrow> string \<Rightarrow> 'u parsed option" where
  "qi_eval 0 G = (\<lambda>sk e v s. None)"
| "qi_eval (Suc n) G = qi_step (qi_eval n G) G"

section \<open>The evaluation relation\<close>

text \<open>
  \<open>yields\<close>: some fuel is enough. More fuel does not change the result, so the relation is
  deterministic and composes like the operators.
\<close>

definition yields ::
  "('r, 'u) grammar \<Rightarrow> bool \<Rightarrow> ('r, 'u) qi \<Rightarrow> 'u \<Rightarrow> string \<Rightarrow> 'u parsed \<Rightarrow> bool" where
  "yields G sk e v s r \<longleftrightarrow> (\<exists>n. qi_eval n G sk e v s = Some r)"

lemma bind_match_simps [simp]:
  "bind_match None k = None"
  "bind_match (Some (Matched xs v s)) k = k xs v s"
  "bind_match (Some (Failed v)) k = Some (Failed v)"
  "bind_match (Some (Faulted err)) k = Some (Faulted err)"
  by (simp_all add: bind_match_def)

lemma or_else_simps [simp]:
  "or_else None k' = None"
  "or_else (Some (Matched xs v s)) k' = Some (Matched xs v s)"
  "or_else (Some (Failed v)) k' = k' v"
  "or_else (Some (Faulted err)) k' = Some (Faulted err)"
  by (simp_all add: or_else_def)

lemma bind_match_cases:
  "bind_match m k = Some r \<longleftrightarrow>
     (\<exists>xs v s. m = Some (Matched xs v s) \<and> k xs v s = Some r) \<or>
     (m = Some r \<and> (\<forall>xs v s. r \<noteq> Matched xs v s))"
  by (cases m) (auto simp: bind_match_def split: parsed.splits)

lemma or_else_cases:
  "or_else m k = Some r \<longleftrightarrow>
     (\<exists>v. m = Some (Failed v) \<and> k v = Some r) \<or> (m = Some r \<and> (\<forall>v. r \<noteq> Failed v))"
  by (cases m) (auto simp: or_else_def split: parsed.splits)

lemma bind_match_grows:
  "bind_match m k = Some r \<Longrightarrow> (\<And>p. m = Some p \<Longrightarrow> m' = Some p) \<Longrightarrow>
   (\<And>xs v s p. k xs v s = Some p \<Longrightarrow> k' xs v s = Some p) \<Longrightarrow> bind_match m' k' = Some r"
  by (auto simp: bind_match_cases)

lemma or_else_grows:
  "or_else m k = Some r \<Longrightarrow> (\<And>p. m = Some p \<Longrightarrow> m' = Some p) \<Longrightarrow>
   (\<And>v p. k v = Some p \<Longrightarrow> k' v = Some p) \<Longrightarrow> or_else m' k' = Some r"
  by (auto simp: or_else_cases)

lemma qi_step_grows:
  assumes "\<And>sk e v s p. ev sk e v s = Some p \<Longrightarrow> ev' sk e v s = Some p"
  shows "qi_step ev G sk e v s = Some r \<Longrightarrow> qi_step ev' G sk e v s = Some r"
  by (cases e) (auto simp: qi_step_def intro!: assms elim!: bind_match_grows or_else_grows)

lemma qi_eval_Suc: "qi_eval n G sk e v s = Some r \<Longrightarrow> qi_eval (Suc n) G sk e v s = Some r"
proof (induction n arbitrary: sk e v s r)
  case (Suc n)
  from qi_step_grows [of "qi_eval n G" "qi_eval (Suc n) G", OF Suc.IH] Suc.prems show ?case
    by (simp only: qi_eval.simps(2))
qed simp

lemma qi_eval_mono:
  assumes "qi_eval n G sk e v s = Some r" and "n \<le> k"
  shows "qi_eval k G sk e v s = Some r"
  using assms(2) by (induction rule: dec_induct) (simp_all only: assms(1) qi_eval_Suc)

lemma yieldsI: "qi_step (qi_eval n G) G sk e v s = Some r \<Longrightarrow> yields G sk e v s r"
  unfolding yields_def by (rule exI [of _ "Suc n"]) (simp only: qi_eval.simps(2))

lemma yields_fuel: "yields G sk e v s r \<Longrightarrow> \<exists>n. \<forall>k \<ge> n. qi_eval k G sk e v s = Some r"
  unfolding yields_def using qi_eval_mono [of _ G sk e v s r] by blast

lemma yields_fuel2:
  assumes "yields G sk e v s r" and "yields G' sk' e' v' s' r'"
  obtains n where "qi_eval n G sk e v s = Some r" and "qi_eval n G' sk' e' v' s' = Some r'"
proof -
  from assms obtain i j where "\<forall>k \<ge> i. qi_eval k G sk e v s = Some r"
    "\<forall>k \<ge> j. qi_eval k G' sk' e' v' s' = Some r'" using yields_fuel by metis
  then have "qi_eval (max i j) G sk e v s = Some r" "qi_eval (max i j) G' sk' e' v' s' = Some r'"
    by simp_all
  then show thesis by (rule that)
qed

lemma yields_unique:
  assumes "yields G sk e v s r" and "yields G sk e v s r'"
  shows "r = r'"
  using assms by (rule yields_fuel2) simp

text \<open>How the evaluation composes.\<close>

lemma yields_step1:
  assumes "yields G sk' a v' s' r"
    and "\<And>n. qi_eval n G sk' a v' s' = Some r \<Longrightarrow> qi_step (qi_eval n G) G sk e v s = Some q"
  shows "yields G sk e v s q"
proof -
  from assms(1) obtain n where "qi_eval n G sk' a v' s' = Some r" by (auto simp: yields_def)
  from yieldsI [OF assms(2) [OF this]] show ?thesis .
qed

lemma yields_step2:
  assumes "yields G sk' a v' s' r" and "yields G sk'' b v'' s'' r'"
    and "\<And>n. qi_eval n G sk' a v' s' = Some r \<Longrightarrow> qi_eval n G sk'' b v'' s'' = Some r' \<Longrightarrow>
      qi_step (qi_eval n G) G sk e v s = Some q"
  shows "yields G sk e v s q"
  using assms(1,2) by (rule yields_fuel2) (blast intro: yieldsI assms(3))

lemma yields_prims:
  "yields G sk (Lit c) v s (parse_lit sk c v s)"
  "yields G sk (Chr_Minus cs f) v s (parse_chr sk cs f v s)"
  "yields G sk (Str w g) v s (parse_str sk w g v s)"
  "yields G sk (Num h) v s (parse_num sk h v s)"
  "yields G sk (Prim p) v s (parse_prim p v s)"
  by (rule yieldsI, simp add: qi_step_def)+

lemma yields_Lexeme:
  "yields G False a v (pre_skip sk s) r \<Longrightarrow> yields G sk (Lexeme a) v s r"
  by (erule yields_step1) (simp add: qi_step_def)

lemma yields_Seq:
  "yields G sk a v s (Matched xs v1 s1) \<Longrightarrow> yields G sk b v1 s1 (Matched ys v2 s2) \<Longrightarrow>
   yields G sk (Seq a b) v s (Matched (xs @ ys) v2 s2)"
  by (erule (1) yields_step2) (simp add: qi_step_def)

lemma yields_Seq_fail1:
  "yields G sk a v s (Failed v1) \<Longrightarrow> yields G sk (Seq a b) v s (Failed v1)"
  by (erule yields_step1) (simp add: qi_step_def)

lemma yields_Seq_fail2:
  "yields G sk a v s (Matched xs v1 s1) \<Longrightarrow> yields G sk b v1 s1 (Failed v2) \<Longrightarrow>
   yields G sk (Seq a b) v s (Failed v2)"
  by (erule (1) yields_step2) (simp add: qi_step_def)

lemma yields_Opt:
  "yields G sk a v s (Matched xs v1 s1) \<Longrightarrow> yields G sk (Opt a) v s (Matched xs v1 s1)"
  by (erule yields_step1) (simp add: qi_step_def)

lemma yields_Opt_none:
  "yields G sk a v s (Failed v1) \<Longrightarrow> yields G sk (Opt a) v s (Matched [] v1 s)"
  by (erule yields_step1) (simp add: qi_step_def)

lemma yields_Alt1:
  "yields G sk a v s (Matched xs v1 s1) \<Longrightarrow> yields G sk (Alt a b) v s (Matched xs v1 s1)"
  by (erule yields_step1) (simp add: qi_step_def)

lemma yields_Alt2:
  "yields G sk a v s (Failed v1) \<Longrightarrow> yields G sk b v1 s r \<Longrightarrow> yields G sk (Alt a b) v s r"
  by (erule (1) yields_step2) (simp add: qi_step_def)

lemma yields_Star_stop:
  "yields G sk a v s (Failed v1) \<Longrightarrow> yields G sk (Star a) v s (Matched [] v1 s)"
  by (erule yields_step1) (simp add: qi_step_def)

lemma yields_Star_step:
  "yields G sk a v s (Matched xs v1 s1) \<Longrightarrow> yields G sk (Star a) v1 s1 (Matched ys v2 s2) \<Longrightarrow>
   yields G sk (Star a) v s (Matched (xs @ ys) v2 s2)"
  by (erule (1) yields_step2) (simp add: qi_step_def)

lemma yields_Rule:
  "yields G sk (snd (G r)) (fst (G r)) s p \<Longrightarrow> yields G sk (Rule r) v s (leave_rule v p)"
  by (erule yields_step1) (simp add: qi_step_def)

lemma yields_Act:
  "yields G sk a v s (Matched xs v1 s1) \<Longrightarrow> yields G sk (Act a f) v s (Matched xs (f xs v1) s1)"
  by (erule yields_step1) (simp add: qi_step_def)

lemma yields_Act_fail:
  "yields G sk a v s (Failed v1) \<Longrightarrow> yields G sk (Act a f) v s (Failed v1)"
  by (erule yields_step1) (simp add: qi_step_def)

lemma yields_faults:
  "yields G sk a v s (Matched xs v1 s1) \<Longrightarrow> yields G sk b v1 s1 (Faulted err) \<Longrightarrow>
   yields G sk (Seq a b) v s (Faulted err)"
  "yields G sk a v s (Faulted err) \<Longrightarrow> yields G sk (Act a f) v s (Faulted err)"
  "yields G sk a v s (Faulted err) \<Longrightarrow> yields G sk (Alt a b) v s (Faulted err)"
  by (erule (1) yields_step2, simp add: qi_step_def) (erule yields_step1, simp add: qi_step_def)+

section \<open>The interface\<close>

text \<open>
  \<^verbatim>\<open>phrase_parse(first, last, rule, ascii::space, attr)\<close>: whether the rule matched, the
  attribute, and what \<^verbatim>\<open>first .. last\<close> is afterwards (white space after a match is skipped).
\<close>

type_synonym ('r, 'u) phrase_parser =
  "('r, 'u) grammar \<Rightarrow> 'r \<Rightarrow> string \<Rightarrow> (bool \<times> 'u \<times> string) result"

locale spirit_spec =
  fixes phrase_parse :: "('r, 'u) phrase_parser"
  assumes phrase_matched: "yields G True (Rule r) v s (Matched [w] v s') \<Longrightarrow>
      phrase_parse G r s = Inr (True, w, pre_skip True s')"
    and phrase_failed: "yields G True (Rule r) v s (Failed v) \<Longrightarrow>
      \<exists>w s'. phrase_parse G r s = Inr (False, w, s')"
    and phrase_faulted: "yields G True (Rule r) v s (Faulted err) \<Longrightarrow> phrase_parse G r s = Inl err"

text \<open>An executable instance: evaluate with more and more fuel.\<close>

partial_function (option) qi_search ::
  "nat \<Rightarrow> ('r, 'u) grammar \<Rightarrow> 'r \<Rightarrow> string \<Rightarrow> 'u parsed option" where
  "qi_search n G r s =
     (case qi_eval n G True (snd (G r)) (fst (G r)) s of
        Some p \<Rightarrow> Some p
      | None \<Rightarrow> qi_search (Suc n) G r s)"

declare qi_search.simps [code]

definition phrase_parse_ref :: "('r, 'u) phrase_parser" where
  "phrase_parse_ref G r s =
     (case qi_search 0 G r s of
        None \<Rightarrow> Inl Terminate
      | Some p \<Rightarrow>
          (case p of
             Matched xs w s' \<Rightarrow> Inr (True, w, pre_skip True s')
           | Failed w \<Rightarrow> Inr (False, w, s)
           | Faulted err \<Rightarrow> Inl err))"

lemma qi_search_finds:
  assumes "qi_eval k G True (snd (G r)) (fst (G r)) s = Some p" and "n \<le> k"
  shows "qi_search n G r s = Some p"
  using assms(2)
proof (induction rule: inc_induct)
  case base
  with assms(1) show ?case by (subst qi_search.simps) simp
next
  case (step n)
  show ?case
  proof (cases "qi_eval n G True (snd (G r)) (fst (G r)) s")
    case None
    with step show ?thesis by (subst qi_search.simps) simp
  next
    case (Some p')
    with qi_eval_mono [OF Some, of k] step.hyps assms(1) show ?thesis
      by (subst qi_search.simps) simp
  qed
qed

lemma yields_RuleD:
  assumes "yields G sk (Rule r) v s q"
  shows "\<exists>p. yields G sk (snd (G r)) (fst (G r)) s p \<and> q = leave_rule v p"
proof -
  from assms obtain n where "qi_eval n G sk (Rule r) v s = Some q" by (auto simp: yields_def)
  then show ?thesis by (cases n) (auto simp: qi_step_def yields_def)
qed

lemma phrase_parse_ref_eq:
  assumes "yields G True (Rule r) v s q"
  shows "\<exists>p. q = leave_rule v p \<and> qi_search 0 G r s = Some p"
  using yields_RuleD [OF assms] qi_search_finds [of _ G r s _ 0] by (auto simp: yields_def)

interpretation spirit_ref: spirit_spec phrase_parse_ref
proof
  fix G :: "('r, 'u) grammar" and r v s w s'
  assume "yields G True (Rule r) v s (Matched [w] v s')"
  from phrase_parse_ref_eq [OF this] obtain p where
    "Matched [w] v s' = leave_rule v p" "qi_search 0 G r s = Some p" by blast
  then show "phrase_parse_ref G r s = Inr (True, w, pre_skip True s')"
    by (cases p) (auto simp: phrase_parse_ref_def)
next
  fix G :: "('r, 'u) grammar" and r v s
  assume "yields G True (Rule r) v s (Failed v)"
  from phrase_parse_ref_eq [OF this] obtain p where
    "Failed v = leave_rule v p" "qi_search 0 G r s = Some p" by blast
  then show "\<exists>w s'. phrase_parse_ref G r s = Inr (False, w, s')"
    by (cases p) (auto simp: phrase_parse_ref_def)
next
  fix G :: "('r, 'u) grammar" and r v s err
  assume "yields G True (Rule r) v s (Faulted err)"
  from phrase_parse_ref_eq [OF this] obtain p where
    "Faulted err = leave_rule v p" "qi_search 0 G r s = Some p" by blast
  then show "phrase_parse_ref G r s = Inl err"
    by (cases p) (auto simp: phrase_parse_ref_def)
qed

end
