(* ===== verification/Decimal.thy ===== *)
theory Decimal
  imports Prelude
begin

text \<open>
  Decimal numbers as text: digits, the notation of natural and signed numbers, the value of a
  string of digits, and that reading what is shown gives the number back. The path parser and
  the jsoncpp reader and writer share them.
\<close>

definition digit :: "char \<Rightarrow> bool" where
  "digit c \<longleftrightarrow> 48 \<le> (of_char c :: nat) \<and> (of_char c :: nat) < 58"

fun show_nat :: "nat \<Rightarrow> string" where
  "show_nat n =
     (if n < 10 then [char_of (48 + n)] else show_nat (n div 10) @ [char_of (48 + n mod 10)])"

definition show_int :: "int \<Rightarrow> string" where
  "show_int i = (if i < 0 then CHR ''-'' # show_nat (nat (- i)) else show_nat (nat i))"

definition int_range :: "int \<Rightarrow> bool" where
  "int_range i \<longleftrightarrow> - (2 ^ 31) \<le> i \<and> i < 2 ^ 31"

definition read_digits :: "string \<Rightarrow> nat" where
  "read_digits ds = foldl (\<lambda>n c. 10 * n + (of_char c - 48)) 0 ds"

declare show_nat.simps [simp del]

lemma of_char_digit: "n < 10 \<Longrightarrow> (of_char (char_of (48 + n :: nat)) :: nat) = 48 + n"
  by (simp add: of_char_of take_bit_eq_mod)

lemma show_nat_digits: "\<forall>c \<in> set (show_nat n). digit c"
proof (induction n rule: show_nat.induct)
  case (1 n)
  have "digit (char_of (48 + k))" if "k < 10" for k :: nat
    using of_char_digit [OF that] that by (simp add: digit_def)
  with 1 show ?case by (subst show_nat.simps) auto
qed

lemma show_nat_not_Nil: "show_nat n \<noteq> []"
  by (subst show_nat.simps) simp

lemma show_nat_length: "0 < k \<Longrightarrow> n < 10 ^ k \<Longrightarrow> length (show_nat n) \<le> k"
proof (induction n arbitrary: k rule: show_nat.induct)
  case (1 n)
  show ?case
  proof (cases "n < 10")
    case False
    with 1(3) obtain j where "k = Suc j" "0 < j" by (cases k; cases "k - 1") auto
    moreover then have "n div 10 < 10 ^ j" using 1(3) by (simp add: less_mult_imp_div_less mult.commute)
    ultimately show ?thesis using 1(1) [OF False, of j] False by (subst show_nat.simps) simp
  qed (use 1 in \<open>subst show_nat.simps, simp\<close>)
qed

lemma read_show_nat: "read_digits (show_nat n) = n"
proof (induction n rule: show_nat.induct)
  case (1 n)
  have "of_char (char_of (48 + n mod 10)) - 48 = n mod 10"
    using of_char_digit [of "n mod 10"] by simp
  moreover have "of_char (char_of (48 + n)) - 48 = n" if "n < 10"
    using of_char_digit [OF that] by simp
  ultimately show ?case
    using 1 by (subst show_nat.simps) (simp add: read_digits_def)
qed

lemma digit_span:
  assumes "\<forall>c \<in> set ds. digit c" and "\<And>c t. rest = c # t \<Longrightarrow> \<not> digit c"
  shows "takeWhile digit (ds @ rest) = ds" and "dropWhile digit (ds @ rest) = rest"
  using assms by (cases rest; simp)+

end
