(* ===== verification/Path_Parser.thy ===== *)
theory Path_Parser
  imports Json_Tree Spirit Decimal
begin

text \<open>
  The parser of path lists, \<^verbatim>\<open>json::path::parse\<close> in \<^verbatim>\<open>semi_index/path_parser.cpp\<close>: the grammar
  is the source's, as data for Spirit; \<^verbatim>\<open>phrase_parse\<close> and the integer parser
  \<^verbatim>\<open>qi::int_\<close> are arguments. The locale \<open>int_spec\<close> states what \<^verbatim>\<open>int_\<close> documents:
  it reads a decimal \<^verbatim>\<open>int\<close> up to the first character that is not a digit.

  \<open>show_paths\<close> prints a list of paths in the notation of the command line; parsing what it
  prints gives the paths back.
\<close>

section \<open>The grammar\<close>

datatype path_rule = Key_Rule | Path_Rule | Path_List_Rule

datatype path_attr =
    A_Char char
  | A_String string
  | A_Int int
  | A_Path "path_element list"
  | A_Paths "path_element list list"

text \<open>\<^verbatim>\<open>_val += _1\<close>, \<^verbatim>\<open>push_back(_val, _1)\<close>, and the collection of the paths of a list.\<close>

fun append_char :: "path_attr list \<Rightarrow> path_attr \<Rightarrow> path_attr" where
  "append_char [A_Char c] (A_String s) = A_String (s @ [c])"
| "append_char xs v = v"

fun push_back :: "path_attr list \<Rightarrow> path_attr \<Rightarrow> path_attr" where
  "push_back [A_String k] (A_Path p) = A_Path (p @ [Key k])"
| "push_back [A_Int i] (A_Path p) = A_Path (p @ [Index i])"
| "push_back xs v = v"

definition the_path :: "path_attr \<Rightarrow> path_element list" where
  "the_path a = (case a of A_Path p \<Rightarrow> p | _ \<Rightarrow> [])"

definition collect_paths :: "path_attr list \<Rightarrow> path_attr \<Rightarrow> path_attr" where
  "collect_paths xs v = A_Paths (map the_path xs)"

definition the_paths :: "path_attr \<Rightarrow> path_element list list" where
  "the_paths a = (case a of A_Paths ps \<Rightarrow> ps | _ \<Rightarrow> [])"

definition path_grammar ::
  "(string \<Rightarrow> (int \<times> string) option) \<Rightarrow> (path_rule, path_attr) grammar" where
  "path_grammar int_p r =
     (case r of
        Key_Rule \<Rightarrow> (A_String [], Lexeme (Plus (Act (Chr_Minus ''.[,'' A_Char) append_char)))
      | Path_Rule \<Rightarrow>
          (A_Path [],
           Opt (List_Of
             (Seq (Act (Rule Key_Rule) push_back)
                (Opt (Seq (Lit (CHR ''[''))
                   (Seq (Act (Num (\<lambda>s. map_option (\<lambda>(i, t). (A_Int i, t)) (int_p s))) push_back)
                      (Lit (CHR '']''))))))
             (Lit (CHR ''.''))))
      | Path_List_Rule \<Rightarrow>
          (A_Paths [], Act (Opt (List_Of (Rule Path_Rule) (Lit (CHR '','')))) collect_paths))"

definition path_parse ::
  "(path_rule, path_attr) phrase_parser \<Rightarrow> (string \<Rightarrow> (int \<times> string) option) \<Rightarrow> string \<Rightarrow>
   path_list result" where
  "path_parse phrase_parse int_p s =
     bind_result (phrase_parse (path_grammar int_p) Path_List_Rule s)
       (\<lambda>r. if \<not> fst r \<or> snd (snd r) \<noteq> [] then
              Inl (Invalid_Argument (''Parsing error: unexpected '' @ [quote] @ snd (snd r) @ [quote]))
            else Inr (the_paths (fst (snd r))))"

text \<open>Names for the parts of the grammar, for the lemmas.\<close>

abbreviation key_char_p :: "(path_rule, path_attr) qi" where
  "key_char_p \<equiv> Act (Chr_Minus ''.[,'' A_Char) append_char"

abbreviation index_p ::
  "(string \<Rightarrow> (int \<times> string) option) \<Rightarrow> (path_rule, path_attr) qi" where
  "index_p int_p \<equiv>
     Seq (Lit (CHR ''[''))
       (Seq (Act (Num (\<lambda>s. map_option (\<lambda>(i, t). (A_Int i, t)) (int_p s))) push_back)
          (Lit (CHR '']'')))"

abbreviation group_p ::
  "(string \<Rightarrow> (int \<times> string) option) \<Rightarrow> (path_rule, path_attr) qi" where
  "group_p int_p \<equiv> Seq (Act (Rule Key_Rule) push_back) (Opt (index_p int_p))"

lemma path_grammar_rules:
  "path_grammar int_p Key_Rule = (A_String [], Lexeme (Seq key_char_p (Star key_char_p)))"
  "path_grammar int_p Path_Rule =
     (A_Path [], Opt (Seq (group_p int_p) (Star (Seq (Lit (CHR ''.'')) (group_p int_p)))))"
  "path_grammar int_p Path_List_Rule =
     (A_Paths [],
      Act (Opt (Seq (Rule Path_Rule) (Star (Seq (Lit (CHR '','')) (Rule Path_Rule))))) collect_paths)"
  by (simp_all add: path_grammar_def Plus_def List_Of_def)

section \<open>Integers\<close>

locale int_spec =
  fixes int_p :: "string \<Rightarrow> (int \<times> string) option"
  assumes int_reads: "int_range i \<Longrightarrow> (\<And>c t. rest = c # t \<Longrightarrow> \<not> digit c) \<Longrightarrow>
      int_p (show_int i @ rest) = Some (i, rest)"

text \<open>An executable instance.\<close>

definition int_ref :: "string \<Rightarrow> (int \<times> string) option" where
  "int_ref s =
     (let neg = (case s of [] \<Rightarrow> False | c # t \<Rightarrow> c = CHR ''-'');
          t = (case s of [] \<Rightarrow> [] | c # t \<Rightarrow> if c = CHR ''-'' \<or> c = CHR ''+'' then t else s);
          ds = takeWhile digit t;
          i = (if neg then - int (read_digits ds) else int (read_digits ds))
      in if ds = [] \<or> \<not> int_range i then None else Some (i, dropWhile digit t))"

interpretation int_ref: int_spec int_ref
proof
  fix i :: int and rest :: string
  assume i: "int_range i" and rest: "\<And>c t. rest = c # t \<Longrightarrow> \<not> digit c"
  let ?ds = "show_nat (nat \<bar>i\<bar>)"
  note span = digit_span [OF show_nat_digits [of "nat \<bar>i\<bar>"] rest]
  obtain c t where ct: "?ds = c # t" using show_nat_not_Nil by (cases ?ds) auto
  then have "digit c" using show_nat_digits [of "nat \<bar>i\<bar>"] by simp
  then have "c \<noteq> CHR ''-''" "c \<noteq> CHR ''+''" by (auto simp: digit_def)
  then show "int_ref (show_int i @ rest) = Some (i, rest)"
    using span ct i read_show_nat [of "nat \<bar>i\<bar>"]
    by (cases "i < 0") (auto simp: int_ref_def show_int_def Let_def)
qed

section \<open>Printing paths\<close>

text \<open>The grammar's paths: a sequence of keys, each with at most one index.\<close>

type_synonym path_group = "string \<times> int option"

fun join :: "char \<Rightarrow> string list \<Rightarrow> string" where
  "join c [] = []"
| "join c (x # xs) = x @ concat (map (\<lambda>y. c # y) xs)"

definition show_group :: "path_group \<Rightarrow> string" where
  "show_group g =
     fst g @ (case snd g of None \<Rightarrow> [] | Some i \<Rightarrow> CHR ''['' # show_int i @ [CHR '']''])"

definition show_path :: "path_group list \<Rightarrow> string" where
  "show_path gs = join (CHR ''.'') (map show_group gs)"

definition show_paths :: "path_group list list \<Rightarrow> string" where
  "show_paths gss = join (CHR '','') (map show_path gss)"

definition group_path :: "path_group \<Rightarrow> path_element list" where
  "group_path g = Key (fst g) # (case snd g of None \<Rightarrow> [] | Some i \<Rightarrow> [Index i])"

definition groups_path :: "path_group list \<Rightarrow> path_element list" where
  "groups_path gs = concat (map group_path gs)"

definition key_char :: "char \<Rightarrow> bool" where
  "key_char c \<longleftrightarrow> (of_char c :: nat) < 128 \<and> c \<notin> set ''.[,''"

definition good_group :: "path_group \<Rightarrow> bool" where
  "good_group g \<longleftrightarrow>
     fst g \<noteq> [] \<and> list_all key_char (fst g) \<and> \<not> ascii_space (hd (fst g)) \<and>
     (case snd g of None \<Rightarrow> True | Some i \<Rightarrow> int_range i)"

section \<open>Parsing what is printed\<close>

text \<open>A text at which a key, a group or a path ends.\<close>

definition stops :: "char list \<Rightarrow> string \<Rightarrow> bool" where
  "stops cs s \<longleftrightarrow> s = [] \<or> hd s \<in> set cs"

lemma stops_Nil [simp]: "stops cs []"
  by (simp add: stops_def)

lemma stops_Cons [simp]: "stops cs (c # s) \<longleftrightarrow> c \<in> set cs"
  by (simp add: stops_def)

lemma separators_not_space [simp]:
  "\<not> ascii_space (CHR ''.'')" "\<not> ascii_space (CHR ''['')" "\<not> ascii_space (CHR '','')"
  "\<not> ascii_space (CHR '']'')"
  by (simp_all add: ascii_space_def)

lemma pre_skip_Cons [simp]: "\<not> ascii_space c \<Longrightarrow> pre_skip sk (c # s) = c # s"
  by (simp add: pre_skip_def)

lemma pre_skip_Nil [simp]: "pre_skip sk [] = []"
  by (simp add: pre_skip_def)

lemma stops_pre_skip:
  "stops cs s \<Longrightarrow> set cs \<subseteq> set ''.[,'' \<Longrightarrow> pre_skip sk s = s"
  by (cases s) (auto simp: stops_def)

lemma lit_matches: "\<not> ascii_space c \<Longrightarrow> yields G True (Lit c) v (c # s) (Matched [] v s)"
  using yields_prims(1) [of G True c v "c # s"] by (simp add: parse_lit_def)

lemma lit_fails:
  "stops cs s \<Longrightarrow> set cs \<subseteq> set ''.[,'' \<Longrightarrow> c \<notin> set cs \<Longrightarrow> yields G True (Lit c) v s (Failed v)"
  using yields_prims(1) [of G True c v s] stops_pre_skip [of cs s True]
  by (cases s) (auto simp: parse_lit_def split: if_splits)

lemma key_char_fails:
  "stops ''.[,'' s \<Longrightarrow>
   yields G False key_char_p v s (Failed v)"
  using yields_prims(2) [of G False "''.[,''" A_Char v s]
  by (intro yields_Act_fail) (cases s; auto simp: parse_chr_def pre_skip_def)

lemma key_char_matches:
  assumes "key_char c"
  shows "yields G False key_char_p (A_String acc) (c # s)
    (Matched [A_Char c] (A_String (acc @ [c])) s)"
proof -
  have "yields G False (Chr_Minus ''.[,'' A_Char) (A_String acc) (c # s)
      (Matched [A_Char c] (A_String acc) s)"
    using yields_prims(2) [of G False "''.[,''" A_Char "A_String acc" "c # s"] assms
    by (auto simp: parse_chr_def pre_skip_def key_char_def)
  from yields_Act [OF this, of append_char] show ?thesis by simp
qed

lemma key_star:
  "list_all key_char k \<Longrightarrow> stops ''.[,'' s \<Longrightarrow>
   yields G False (Star key_char_p) (A_String acc) (k @ s)
     (Matched (map A_Char k) (A_String (acc @ k)) s)"
proof (induction k arbitrary: acc)
  case Nil
  with yields_Star_stop [OF key_char_fails] show ?case by simp
next
  case (Cons c k)
  from Cons.IH [of "acc @ [c]"] Cons.prems
  have "yields G False (Star key_char_p) (A_String (acc @ [c])) (k @ s)
      (Matched (map A_Char k) (A_String (acc @ c # k)) s)"
    by simp
  from yields_Star_step [OF key_char_matches this] Cons.prems show ?case by simp
qed

lemma key_matches:
  assumes "good_group g" and "stops ''.[,'' s"
  shows "yields (path_grammar int_p) True (Rule Key_Rule) v (fst g @ s)
    (Matched [A_String (fst g)] v s)"
proof -
  from assms(1) obtain c k where k: "fst g = c # k" "key_char c" "list_all key_char k"
    "\<not> ascii_space c" by (cases "fst g") (auto simp: good_group_def)
  have "yields (path_grammar int_p) False (Seq key_char_p (Star key_char_p)) (A_String [])
      (c # k @ s) (Matched ([A_Char c] @ map A_Char k) (A_String (([] @ [c]) @ k)) s)"
    by (rule yields_Seq [OF key_char_matches [OF k(2)] key_star [OF k(3) assms(2)]])
  then have "yields (path_grammar int_p) True (snd (path_grammar int_p Key_Rule))
      (fst (path_grammar int_p Key_Rule)) (fst g @ s)
      (Matched (map A_Char (fst g)) (A_String (fst g)) s)"
    using k by (simp add: path_grammar_rules yields_Lexeme)
  from yields_Rule [of "path_grammar int_p", OF this] show ?thesis by simp
qed

lemma key_fails:
  assumes "stops ''.[,'' s"
  shows "yields (path_grammar int_p) True (Rule Key_Rule) v s (Failed v)"
proof -
  have "pre_skip True s = s" using stops_pre_skip [OF assms] by simp
  then have "yields (path_grammar int_p) True (snd (path_grammar int_p Key_Rule))
      (fst (path_grammar int_p Key_Rule)) s (Failed (A_String []))"
    unfolding path_grammar_rules snd_conv fst_conv
    by (intro yields_Lexeme yields_Seq_fail1) (simp only: key_char_fails [OF assms])
  from yields_Rule [of "path_grammar int_p", OF this] show ?thesis by simp
qed

text \<open>What a group adds to the path that is being built.\<close>

definition push_group :: "path_group \<Rightarrow> path_attr \<Rightarrow> path_attr" where
  "push_group g v = (case v of A_Path p \<Rightarrow> A_Path (p @ group_path g) | _ \<Rightarrow> v)"

definition group_attrs :: "path_group \<Rightarrow> path_attr list" where
  "group_attrs g = A_String (fst g) # (case snd g of None \<Rightarrow> [] | Some i \<Rightarrow> [A_Int i])"

lemma push_back_group:
  "push_group (k, None) v = push_back [A_String k] v"
  "push_group (k, Some i) v = push_back [A_Int i] (push_back [A_String k] v)"
  by (cases v; simp add: push_group_def group_path_def)+

lemma index_matches:
  assumes "int_spec int_p" and "int_range i"
  shows "yields G True (index_p int_p) v (CHR ''['' # show_int i @ CHR '']'' # s)
    (Matched [A_Int i] (push_back [A_Int i] v) s)"
proof -
  have bracket: "\<not> digit (CHR '']'')" by (simp add: digit_def)
  have first: "pre_skip True (show_int i @ CHR '']'' # s) = show_int i @ CHR '']'' # s"
  proof -
    obtain c t where ct: "show_nat (nat \<bar>i\<bar>) = c # t"
      using show_nat_not_Nil by (cases "show_nat (nat \<bar>i\<bar>)") auto
    then have "digit c" using show_nat_digits [of "nat \<bar>i\<bar>"] by simp
    then have "\<not> ascii_space c" by (auto simp: digit_def ascii_space_def)
    with ct show ?thesis by (auto simp: show_int_def ascii_space_def)
  qed
  have num: "int_p (show_int i @ CHR '']'' # s) = Some (i, CHR '']'' # s)"
    using int_spec.int_reads [OF assms, of "CHR '']'' # s"] bracket by simp
  have "yields G True (Num (\<lambda>s. map_option (\<lambda>(i, t). (A_Int i, t)) (int_p s))) v
      (show_int i @ CHR '']'' # s) (Matched [A_Int i] v (CHR '']'' # s))"
    using yields_prims(4) [of G True "\<lambda>s. map_option (\<lambda>(i, t). (A_Int i, t)) (int_p s)" v
        "show_int i @ CHR '']'' # s"]
    by (simp add: parse_num_def first num)
  from yields_Seq [OF lit_matches yields_Seq [OF yields_Act [OF this, of push_back] lit_matches]]
  show ?thesis by simp
qed

lemma group_matches:
  assumes "int_spec int_p" and "good_group g" and "stops ''.,'' s"
  shows "yields (path_grammar int_p) True (group_p int_p) v (show_group g @ s)
    (Matched (group_attrs g) (push_group g v) s)"
proof (cases "snd g")
  case None
  then have g: "g = (fst g, None)" by (cases g) simp
  have s: "stops ''.[,'' s" using assms(3) by (auto simp: stops_def)
  have no_index: "yields (path_grammar int_p) True (Opt (index_p int_p)) v' s (Matched [] v' s)" for v'
    using assms(3) by (intro yields_Opt_none yields_Seq_fail1 lit_fails [of "''.,''"]) auto
  from yields_Seq [OF yields_Act [OF key_matches [OF assms(2) s, of int_p v], of push_back] no_index]
  show ?thesis using None push_back_group(1) [of "fst g" v] g
    by (simp add: show_group_def group_attrs_def)
next
  case (Some i)
  then have g: "g = (fst g, Some i)" "int_range i" using assms(2) by (cases g; simp add: good_group_def)+
  have s: "stops ''.[,'' (CHR ''['' # show_int i @ CHR '']'' # s)" by simp
  from yields_Seq [OF yields_Act [OF key_matches [OF assms(2) s, of int_p v], of push_back]
      yields_Opt [OF index_matches [OF assms(1) g(2)]]]
  show ?thesis using Some push_back_group(2) [of "fst g" i v] g(1)
    by (simp add: show_group_def group_attrs_def)
qed

text \<open>The elements after the first of a list with separators.\<close>

lemma separated_rest:
  assumes elem: "\<And>x v t. x \<in> set xs \<Longrightarrow> stops (c # cs) t \<Longrightarrow>
      yields G True a v (shw x @ t) (Matched (att x) (upd x v) t)"
    and sep: "set (c # cs) \<subseteq> set ''.[,''" "c \<notin> set cs" and rest: "stops cs rest"
  shows "yields G True (Star (Seq (Lit c) a)) v (concat (map (\<lambda>x. c # shw x) xs) @ rest)
    (Matched (concat (map att xs)) (fold upd xs v) rest)"
  using elem
proof (induction xs arbitrary: v)
  case Nil
  have "yields G True (Seq (Lit c) a) v rest (Failed v)"
    using sep by (intro yields_Seq_fail1 lit_fails [OF rest]) auto
  from yields_Star_stop [OF this] show ?case by simp
next
  case (Cons x xs)
  let ?t = "concat (map (\<lambda>x. c # shw x) xs) @ rest"
  have ns: "\<not> ascii_space c" using sep by auto
  have "stops (c # cs) ?t" using rest by (cases xs) (auto simp: stops_def)
  then have "yields G True (Seq (Lit c) a) v (c # shw x @ ?t) (Matched ([] @ att x) (upd x v) ?t)"
    using Cons.prems by (intro yields_Seq [OF lit_matches [OF ns]]) simp_all
  moreover have "yields G True (Star (Seq (Lit c) a)) (upd x v) ?t
      (Matched (concat (map att xs)) (fold upd xs (upd x v)) rest)"
    using Cons.prems by (intro Cons.IH) simp_all
  ultimately show ?case using yields_Star_step by fastforce
qed

lemma push_groups: "fold push_group gs (A_Path p) = A_Path (p @ groups_path gs)"
  by (induction gs arbitrary: p) (simp_all add: push_group_def groups_path_def)

lemma empty_path_matches:
  assumes "stops ''.[,'' s"
  shows "yields (path_grammar int_p) True (Rule Path_Rule) v s (Matched [A_Path []] v s)"
proof -
  let ?G = "path_grammar int_p"
  have "yields ?G True (snd (?G Path_Rule)) (fst (?G Path_Rule)) s (Matched [] (A_Path []) s)"
    unfolding path_grammar_rules snd_conv fst_conv
    by (intro yields_Opt_none yields_Seq_fail1 yields_Act_fail key_fails [OF assms])
  from yields_Rule [of ?G, OF this] show ?thesis by simp
qed

lemma path_matches:
  assumes "int_spec int_p" and "list_all good_group gs" and "stops '','' s"
  shows "yields (path_grammar int_p) True (Rule Path_Rule) v (show_path gs @ s)
    (Matched [A_Path (groups_path gs)] v s)"
proof (cases gs)
  case Nil
  have "stops ''.[,'' s" using assms(3) by (auto simp: stops_def)
  from empty_path_matches [OF this] Nil show ?thesis by (simp add: show_path_def groups_path_def)
next
  case (Cons g hs)
  let ?G = "path_grammar int_p" and ?t = "concat (map (\<lambda>h. CHR ''.'' # show_group h) hs) @ s"
  have "stops ''.,'' ?t" using assms(3) by (cases hs) (auto simp: stops_def)
  moreover have "good_group g" using assms(2) Cons by simp
  ultimately have "yields ?G True (group_p int_p) (A_Path []) (show_group g @ ?t)
      (Matched (group_attrs g) (push_group g (A_Path [])) ?t)"
    by (intro group_matches [OF assms(1)])
  moreover have "yields ?G True (Star (Seq (Lit (CHR ''.'')) (group_p int_p)))
      (push_group g (A_Path [])) ?t
      (Matched (concat (map group_attrs hs)) (fold push_group hs (push_group g (A_Path []))) s)"
    using assms(2,3) Cons
    by (intro separated_rest [where cs = "'',''"]) (auto simp: list_all_iff intro: group_matches [OF assms(1)])
  ultimately have "yields ?G True (Opt (Seq (group_p int_p) (Star (Seq (Lit (CHR ''.'')) (group_p int_p)))))
      (A_Path []) (show_group g @ ?t)
      (Matched (group_attrs g @ concat (map group_attrs hs))
        (fold push_group hs (push_group g (A_Path []))) s)"
    by (intro yields_Opt yields_Seq)
  moreover have "fold push_group hs (push_group g (A_Path [])) = A_Path (groups_path gs)"
    using push_groups [of gs "[]"] Cons by simp
  ultimately have "yields ?G True (snd (?G Path_Rule)) (fst (?G Path_Rule)) (show_path gs @ s)
      (Matched (group_attrs g @ concat (map group_attrs hs)) (A_Path (groups_path gs)) s)"
    using Cons by (simp add: path_grammar_rules show_path_def comp_def)
  from yields_Rule [of ?G, OF this] show ?thesis by simp
qed

lemma paths_match:
  assumes "int_spec int_p" and "list_all (list_all good_group) gss" and "gss \<noteq> []"
  shows "yields (path_grammar int_p) True (Rule Path_List_Rule) v (show_paths gss)
    (Matched [A_Paths (map groups_path gss)] v [])"
proof -
  let ?G = "path_grammar int_p" and ?att = "\<lambda>gs. [A_Path (groups_path gs)]"
  obtain gs hss where gss: "gss = gs # hss" using assms(3) by (cases gss) auto
  let ?t = "concat (map (\<lambda>hs. CHR '','' # show_path hs) hss)"
  have "stops '','' ?t" by (cases hss) (auto simp: stops_def)
  then have "yields ?G True (Rule Path_Rule) (A_Paths []) (show_path gs @ ?t)
      (Matched (?att gs) (A_Paths []) ?t)"
    using assms(2) gss by (intro path_matches [OF assms(1)]) simp_all
  moreover have "yields ?G True (Star (Seq (Lit (CHR '','')) (Rule Path_Rule))) (A_Paths []) (?t @ [])
      (Matched (concat (map ?att hss)) (fold (\<lambda>hs v. v) hss (A_Paths [])) [])"
    using assms(2) gss
    by (intro separated_rest [where cs = "[]"]) (auto simp: list_all_iff intro: path_matches [OF assms(1)])
  ultimately have "yields ?G True
      (Act (Opt (Seq (Rule Path_Rule) (Star (Seq (Lit (CHR '','')) (Rule Path_Rule))))) collect_paths)
      (A_Paths []) (show_path gs @ ?t)
      (Matched (?att gs @ concat (map ?att hss))
        (collect_paths (?att gs @ concat (map ?att hss)) (fold (\<lambda>hs v. v) hss (A_Paths []))) [])"
    by (intro yields_Act yields_Opt yields_Seq) simp_all
  moreover have "concat (map ?att hss) = map (\<lambda>hs. A_Path (groups_path hs)) hss"
    by (induction hss) simp_all
  ultimately have "yields ?G True (snd (?G Path_List_Rule)) (fst (?G Path_List_Rule)) (show_paths gss)
      (Matched (map (\<lambda>hs. A_Path (groups_path hs)) gss) (A_Paths (map groups_path gss)) [])"
    using gss by (simp add: path_grammar_rules show_paths_def collect_paths_def the_path_def comp_def)
  from yields_Rule [of ?G, OF this] show ?thesis by simp
qed

lemma path_parse_groups:
  assumes "spirit_spec phrase_parse" and "int_spec int_p"
    and "list_all (list_all good_group) gss" and "gss \<noteq> []"
  shows "path_parse phrase_parse int_p (show_paths gss) = Inr (map groups_path gss)"
  using spirit_spec.phrase_matched [OF assms(1) paths_match [OF assms(2-4)]]
  by (simp add: path_parse_def the_paths_def)

section \<open>Properties\<close>

text \<open>
  C26. Round trip of path lists: for every non-empty list of paths, each a sequence of keys with
  at most one index after a key, parsing the printed list returns exactly the paths. The keys
  are non-empty, of ASCII characters other than dot, bracket and comma, and do not start with
  white space; an index fits an \<^verbatim>\<open>int\<close>.
\<close>

theorem path_parse_show:
  assumes "spirit_spec phrase_parse" and "int_spec int_p"
    and "list_all (list_all good_group) gss" and "gss \<noteq> []"
  shows "path_parse phrase_parse int_p (show_paths gss) = Inr (map groups_path gss)"
  by (rule path_parse_groups [OF assms])

text \<open>The example of the unit test \<^verbatim>\<open>test_path_parser.cpp\<close>.\<close>

definition test_groups :: "path_group list list" where
  "test_groups =
     [[(''foo'', None), (''bar'', Some 12), (''foobar'', None)], [],
      [(''abc'', None), (''def'', None)], [(''abc'', None)]]"

theorem path_parse_show_witness:
  "path_parse phrase_parse_ref int_ref ''foo.bar[12].foobar,,abc.def,abc'' =
     Inr [[Key ''foo'', Key ''bar'', Index 12, Key ''foobar''], [],
          [Key ''abc'', Key ''def''], [Key ''abc'']]"
proof -
  have "list_all (list_all good_group) test_groups" "test_groups \<noteq> []"
    "show_paths test_groups = ''foo.bar[12].foobar,,abc.def,abc''" by code_simp+
  with path_parse_show [OF spirit_ref.spirit_spec_axioms int_ref.int_spec_axioms, of test_groups]
  show ?thesis by (simp add: test_groups_def groups_path_def group_path_def)
qed

text \<open>
  A path cannot start with an index: a list that starts with a bracket is refused, and the
  exception quotes the whole text. The root of a document that is an array can therefore not
  be indexed from the command line.
\<close>

theorem path_parse_root_index:
  assumes "spirit_spec phrase_parse"
  shows "path_parse phrase_parse int_p (CHR ''['' # s) =
    Inl (Invalid_Argument (''Parsing error: unexpected '' @ [quote] @ (CHR ''['' # s) @ [quote]))"
proof -
  let ?G = "path_grammar int_p" and ?s = "CHR ''['' # s"
  have "yields ?G True (Lit (CHR '','')) (A_Paths []) ?s (Failed (A_Paths []))"
    by (rule lit_fails [of "''[''"]) simp_all
  then have "yields ?G True
      (Act (Opt (Seq (Rule Path_Rule) (Star (Seq (Lit (CHR '','')) (Rule Path_Rule))))) collect_paths)
      (A_Paths []) ?s (Matched ([A_Path []] @ []) (collect_paths ([A_Path []] @ []) (A_Paths [])) ?s)"
    by (intro yields_Act yields_Opt yields_Seq [OF empty_path_matches]
        yields_Star_stop [OF yields_Seq_fail1]) simp_all
  then have "yields ?G True (snd (?G Path_List_Rule)) (fst (?G Path_List_Rule)) ?s
      (Matched [A_Path []] (A_Paths [[]]) ?s)"
    by (simp add: path_grammar_rules collect_paths_def the_path_def)
  from yields_Rule [of ?G, OF this, of "A_Paths []"]
    spirit_spec.phrase_matched [OF assms, of ?G Path_List_Rule "A_Paths []" ?s]
  show ?thesis by (simp add: path_parse_def)
qed

theorem path_parse_root_index_witness:
  "path_parse phrase_parse_ref int_ref ''[0]'' =
    Inl (Invalid_Argument (''Parsing error: unexpected '' @ [quote] @ ''[0]'' @ [quote]))"
  using path_parse_root_index [OF spirit_ref.spirit_spec_axioms, of int_ref "''0]''"] by simp

end
