(* ===== verification/Jsoncpp_Value.thy ===== *)
theory Jsoncpp_Value
  imports Decimal "HOL-Library.Word" "HOL-Library.Char_ord" "HOL-Library.List_Lexorder"
begin

text \<open>
  The values of the jsoncpp library (\<^verbatim>\<open>3rd_party/jsoncpp/json_value.cpp\<close>), as compiled here:
  \<^verbatim>\<open>JSON_VALUE_USE_INTERNAL_MAP\<close> is not defined, so the children of arrays and objects alike are
  a \<^verbatim>\<open>std::map\<close> from \<^verbatim>\<open>CZString\<close> to \<^verbatim>\<open>Value\<close>, modelled by the list of its pairs in key order.
  An array is a sparse map from indices.

  \<^verbatim>\<open>Int\<close> and \<^verbatim>\<open>UInt\<close> are 32-bit words. A \<^verbatim>\<open>char*\<close> is the string up to its first NUL, or \<open>None\<close> for
  the null pointer; ownership of memory is left out. The operations on \<^verbatim>\<open>double\<close> (arithmetic
  comparison, conversion, and the C library's scanning and printing) are the record
  \<open>doubles\<close>, an argument of the definitions that use them. A failed \<^verbatim>\<open>JSON_ASSERT\<close> is the fault
  \<open>Assertion_Failed\<close>, an exception of \<^verbatim>\<open>JSON_ASSERT_MESSAGE\<close> is \<open>Runtime_Error\<close>.

  A non-const \<^verbatim>\<open>operator[]\<close> returns a reference into the container; here it returns the
  container in which the key is present. A const one returns a reference to an element or to
  the static null value, which is \<open>None\<close>. A pointer to a value inside a document is its
  access path from the root (\<open>at_path\<close>, \<open>update_path\<close>).
\<close>

unbundle bit_operations_syntax

section \<open>C strings and keys\<close>

definition c_string :: "string \<Rightarrow> string" where
  "c_string s = takeWhile (\<lambda>c. c \<noteq> CHR 0x00) s"

fun strcmp :: "string \<Rightarrow> string \<Rightarrow> int" where
  "strcmp [] [] = 0"
| "strcmp [] (d # ds) = - 1"
| "strcmp (c # cs) [] = 1"
| "strcmp (c # cs) (d # ds) = (if c = d then strcmp cs ds else of_char c - of_char d)"

lemma strcmp_eq: "strcmp a b = 0 \<longleftrightarrow> a = b"
  by (induction a b rule: strcmp.induct) auto

lemma strcmp_less: "strcmp a b < 0 \<longleftrightarrow> a < b"
proof (induction a b rule: strcmp.induct)
  case (4 c cs d ds)
  have "(of_char c :: int) < of_char d \<longleftrightarrow> c < d"
    by (metis less_char_def of_nat_less_iff of_nat_of_char)
  with 4 show ?case by (auto simp: Cons_less_Cons)
qed auto

datatype czstring = CZ_Index int | CZ_Name string

text \<open>
  \<^verbatim>\<open>CZString::operator<\<close>. The keys of one map are all indices or all names; comparing a name
  with an index would pass a null pointer to \<^verbatim>\<open>strcmp\<close> and does not happen, so the order
  between them is arbitrary.
\<close>

fun czless :: "czstring \<Rightarrow> czstring \<Rightarrow> bool" where
  "czless (CZ_Name a) (CZ_Name b) \<longleftrightarrow> strcmp a b < 0"
| "czless (CZ_Index i) (CZ_Index j) \<longleftrightarrow> i < j"
| "czless (CZ_Index i) (CZ_Name b) \<longleftrightarrow> True"
| "czless (CZ_Name a) (CZ_Index j) \<longleftrightarrow> False"

fun czequal :: "czstring \<Rightarrow> czstring \<Rightarrow> bool" where
  "czequal (CZ_Name a) (CZ_Name b) \<longleftrightarrow> strcmp a b = 0"
| "czequal (CZ_Index i) (CZ_Index j) \<longleftrightarrow> i = j"
| "czequal _ _ \<longleftrightarrow> False"

lemma czequal_eq [simp]: "czequal a b \<longleftrightarrow> a = b"
  by (cases "(a, b)" rule: czequal.cases) (auto simp: strcmp_eq)

instantiation czstring :: linorder
begin

definition less_czstring :: "czstring \<Rightarrow> czstring \<Rightarrow> bool" where
  "less_czstring a b \<longleftrightarrow> czless a b"

definition less_eq_czstring :: "czstring \<Rightarrow> czstring \<Rightarrow> bool" where
  "less_eq_czstring a b \<longleftrightarrow> a = b \<or> czless a b"

instance
proof
  fix x y z :: czstring
  show "(x < y) = (x \<le> y \<and> \<not> y \<le> x)"
    by (cases x; cases y) (auto simp: less_czstring_def less_eq_czstring_def strcmp_less)
  show "x \<le> x" by (simp add: less_eq_czstring_def)
  show "x \<le> z" if "x \<le> y" and "y \<le> z"
    using that by (cases x; cases y; cases z) (auto simp: less_eq_czstring_def strcmp_less)
  show "x = y" if "x \<le> y" and "y \<le> x"
    using that by (cases x; cases y) (auto simp: less_eq_czstring_def strcmp_less)
  show "x \<le> y \<or> y \<le> x"
    by (cases x; cases y) (auto simp: less_eq_czstring_def strcmp_less)
qed

end

lemma czstring_less_simps [simp]:
  "CZ_Index i < CZ_Index j \<longleftrightarrow> i < j"
  "CZ_Name a < CZ_Name b \<longleftrightarrow> a < b"
  by (simp_all add: less_czstring_def strcmp_less)

text \<open>\<^verbatim>\<open>CZString::index()\<close>: of a name it is the duplication policy, \<^verbatim>\<open>duplicate\<close>. \<^verbatim>\<open>c_str()\<close>.\<close>

fun cz_index :: "czstring \<Rightarrow> int" where
  "cz_index (CZ_Index i) = i"
| "cz_index (CZ_Name s) = 1"

fun cz_c_str :: "czstring \<Rightarrow> string option" where
  "cz_c_str (CZ_Index i) = None"
| "cz_c_str (CZ_Name s) = Some s"

section \<open>Values\<close>

datatype value_type =
  nullValue | intValue | uintValue | realValue | stringValue | booleanValue | arrayValue | objectValue

datatype comment_placement = commentBefore | commentAfterOnSameLine | commentAfter

record comment_info =
  comment_before :: "string option"
  comment_same_line :: "string option"
  comment_after :: "string option"

datatype 'd payload =
    V_null
  | V_int "32 word"
  | V_uint "32 word"
  | V_real 'd
  | V_string "string option"
  | V_bool bool
  | V_array "(czstring \<times> 'd cvalue) list"
  | V_object "(czstring \<times> 'd cvalue) list"
and 'd cvalue = Value (value_of: "'d payload") (comments_of: "comment_info option")

type_synonym 'd members = "(czstring \<times> 'd cvalue) list"

record 'd doubles =
  d_of_int :: "int \<Rightarrow> 'd"
  d_less :: "'d \<Rightarrow> 'd \<Rightarrow> bool"
  d_equal :: "'d \<Rightarrow> 'd \<Rightarrow> bool"
  d_trunc :: "'d \<Rightarrow> int"
  d_scan :: "string \<Rightarrow> 'd option"
  d_print :: "'d \<Rightarrow> string"

definition d_le :: "'d doubles \<Rightarrow> 'd \<Rightarrow> 'd \<Rightarrow> bool" where
  "d_le D a b \<longleftrightarrow> d_less D a b \<or> d_equal D a b"

text \<open>
  An executable instance, on whole numbers only: it scans an integer prefix and prints 16
  significant digits.
\<close>

definition whole_scan :: "string \<Rightarrow> int option" where
  "whole_scan s =
     (let neg = (s \<noteq> [] \<and> hd s = CHR ''-'');
          ds = takeWhile digit (if neg then tl s else s)
      in if ds = [] then None
         else Some (if neg then - int (read_digits ds) else int (read_digits ds)))"

definition whole_print :: "int \<Rightarrow> string" where
  "whole_print i =
     show_int i @ CHR ''.'' # replicate (16 - length (show_nat (nat \<bar>i\<bar>))) (CHR ''0'')"

definition whole_doubles :: "int doubles" where
  "whole_doubles =
     \<lparr>d_of_int = (\<lambda>i. i), d_less = (<), d_equal = (=), d_trunc = (\<lambda>i. i), d_scan = whole_scan,
      d_print = whole_print\<rparr>"

definition minInt :: "32 word" where
  "minInt = NOT (- 1 div 2)"

definition maxInt :: "32 word" where
  "maxInt = - 1 div 2"

definition maxUInt :: "32 word" where
  "maxUInt = - 1"

lemma int_limits: "sint minInt = - (2 ^ 31)" "sint maxInt = 2 ^ 31 - 1" "uint maxInt = 2 ^ 31 - 1"
  "uint maxUInt = 2 ^ 32 - 1"
  by (simp_all add: minInt_def maxInt_def maxUInt_def unsigned_minus_1_eq_mask mask_eq_exp_minus_1)

subsection \<open>Constructors\<close>

abbreviation plain :: "'d payload \<Rightarrow> 'd cvalue" where
  "plain p \<equiv> Value p None"

abbreviation null_value :: "'d cvalue" where
  "null_value \<equiv> plain V_null"

fun value_of_type :: "'d doubles \<Rightarrow> value_type \<Rightarrow> 'd cvalue" where
  "value_of_type D nullValue = plain V_null"
| "value_of_type D intValue = plain (V_int 0)"
| "value_of_type D uintValue = plain (V_uint 0)"
| "value_of_type D realValue = plain (V_real (d_of_int D 0))"
| "value_of_type D stringValue = plain (V_string None)"
| "value_of_type D arrayValue = plain (V_array [])"
| "value_of_type D objectValue = plain (V_object [])"
| "value_of_type D booleanValue = plain (V_bool False)"

definition value_int :: "32 word \<Rightarrow> 'd cvalue" where
  "value_int i = plain (V_int i)"

definition value_uint :: "32 word \<Rightarrow> 'd cvalue" where
  "value_uint u = plain (V_uint u)"

definition value_double :: "'d \<Rightarrow> 'd cvalue" where
  "value_double d = plain (V_real d)"

definition value_bool :: "bool \<Rightarrow> 'd cvalue" where
  "value_bool b = plain (V_bool b)"

text \<open>\<^verbatim>\<open>Value(const char*)\<close>, \<^verbatim>\<open>Value(begin, end)\<close>, \<^verbatim>\<open>Value(std::string)\<close>: the copy ends at the first NUL.\<close>

definition value_of_string :: "string \<Rightarrow> 'd cvalue" where
  "value_of_string s = plain (V_string (Some (c_string s)))"

subsection \<open>Comments\<close>

definition comment_set_text :: "string \<Rightarrow> string result" where
  "comment_set_text s =
     (let t = c_string s
      in if t = [] \<or> hd t = CHR ''/'' then Inr t
         else Inl (Runtime_Error ''Comments must start with /''))"

definition no_comments :: comment_info where
  "no_comments = \<lparr>comment_before = None, comment_same_line = None, comment_after = None\<rparr>"

fun comment_at :: "comment_placement \<Rightarrow> comment_info \<Rightarrow> string option" where
  "comment_at commentBefore ci = comment_before ci"
| "comment_at commentAfterOnSameLine ci = comment_same_line ci"
| "comment_at commentAfter ci = comment_after ci"

fun comment_put :: "comment_placement \<Rightarrow> string \<Rightarrow> comment_info \<Rightarrow> comment_info" where
  "comment_put commentBefore t ci = ci\<lparr>comment_before := Some t\<rparr>"
| "comment_put commentAfterOnSameLine t ci = ci\<lparr>comment_same_line := Some t\<rparr>"
| "comment_put commentAfter t ci = ci\<lparr>comment_after := Some t\<rparr>"

definition setComment :: "string \<Rightarrow> comment_placement \<Rightarrow> 'd cvalue \<Rightarrow> 'd cvalue result" where
  "setComment s placement v =
     bind_result (comment_set_text s)
       (\<lambda>t. Inr (Value (value_of v)
          (Some (comment_put placement t
             (case comments_of v of None \<Rightarrow> no_comments | Some ci \<Rightarrow> ci)))))"

definition hasComment :: "comment_placement \<Rightarrow> 'd cvalue \<Rightarrow> bool" where
  "hasComment placement v \<longleftrightarrow>
     (case comments_of v of None \<Rightarrow> False | Some ci \<Rightarrow> comment_at placement ci \<noteq> None)"

definition getComment :: "comment_placement \<Rightarrow> 'd cvalue \<Rightarrow> string" where
  "getComment placement v =
     (if hasComment placement v then the (comment_at placement (the (comments_of v))) else [])"

subsection \<open>Copying, swapping, assigning\<close>

definition copy_comment :: "string option \<Rightarrow> string option result" where
  "copy_comment c = (case c of None \<Rightarrow> Inr None | Some t \<Rightarrow> bind_result (comment_set_text t) (Inr \<circ> Some))"

definition copy_comments :: "comment_info option \<Rightarrow> comment_info option result" where
  "copy_comments c =
     (case c of
        None \<Rightarrow> Inr None
      | Some ci \<Rightarrow>
          bind_result (copy_comment (comment_before ci)) (\<lambda>b.
            bind_result (copy_comment (comment_same_line ci)) (\<lambda>s.
              bind_result (copy_comment (comment_after ci)) (\<lambda>a.
                Inr (Some \<lparr>comment_before = b, comment_same_line = s, comment_after = a\<rparr>)))))"

fun copy_value :: "'d cvalue \<Rightarrow> 'd cvalue result"
  and copy_payload :: "'d payload \<Rightarrow> 'd payload result"
  and copy_members :: "'d members \<Rightarrow> 'd members result" where
  "copy_value (Value p c) =
     bind_result (copy_payload p) (\<lambda>p'. bind_result (copy_comments c) (\<lambda>c'. Inr (Value p' c')))"
| "copy_payload V_null = Inr V_null"
| "copy_payload (V_int i) = Inr (V_int i)"
| "copy_payload (V_uint u) = Inr (V_uint u)"
| "copy_payload (V_real d) = Inr (V_real d)"
| "copy_payload (V_bool b) = Inr (V_bool b)"
| "copy_payload (V_string s) =
     (case s of None \<Rightarrow> Inr (V_string None) | Some t \<Rightarrow> Inr (V_string (Some (c_string t))))"
| "copy_payload (V_array m) = bind_result (copy_members m) (Inr \<circ> V_array)"
| "copy_payload (V_object m) = bind_result (copy_members m) (Inr \<circ> V_object)"
| "copy_members [] = Inr []"
| "copy_members ((k, v) # m) =
     bind_result (copy_value v) (\<lambda>v'. bind_result (copy_members m) (\<lambda>m'. Inr ((k, v') # m')))"

text \<open>\<^verbatim>\<open>swap\<close> exchanges the values and leaves the comments where they are.\<close>

definition swap_values :: "'d cvalue \<Rightarrow> 'd cvalue \<Rightarrow> 'd cvalue \<times> 'd cvalue" where
  "swap_values v w = (Value (value_of w) (comments_of v), Value (value_of v) (comments_of w))"

definition assign_value :: "'d cvalue \<Rightarrow> 'd cvalue \<Rightarrow> 'd cvalue result" where
  "assign_value v other = bind_result (copy_value other) (\<lambda>temp. Inr (fst (swap_values v temp)))"

section \<open>Comparison\<close>

fun type_of :: "'d cvalue \<Rightarrow> value_type" where
  "type_of (Value V_null c) = nullValue"
| "type_of (Value (V_int i) c) = intValue"
| "type_of (Value (V_uint u) c) = uintValue"
| "type_of (Value (V_real d) c) = realValue"
| "type_of (Value (V_string s) c) = stringValue"
| "type_of (Value (V_bool b) c) = booleanValue"
| "type_of (Value (V_array m) c) = arrayValue"
| "type_of (Value (V_object m) c) = objectValue"

text \<open>The numbers of the enumeration \<^verbatim>\<open>ValueType\<close>.\<close>

fun type_number :: "value_type \<Rightarrow> int" where
  "type_number nullValue = 0"
| "type_number intValue = 1"
| "type_number uintValue = 2"
| "type_number realValue = 3"
| "type_number stringValue = 4"
| "type_number booleanValue = 5"
| "type_number arrayValue = 6"
| "type_number objectValue = 7"

lemma type_number_inj [simp]: "type_number s = type_number t \<longleftrightarrow> s = t"
  by (cases s; cases t) auto

text \<open>\<^verbatim>\<open>int(a.size() - b.size())\<close>: the difference of two \<^verbatim>\<open>size_t\<close>, cut to 32 bits.\<close>

definition size_delta :: "'a list \<Rightarrow> 'b list \<Rightarrow> int" where
  "size_delta m n = sint (word_of_int (int (length m) - int (length n)) :: 32 word)"

function value_less :: "'d doubles \<Rightarrow> 'd cvalue \<Rightarrow> 'd cvalue \<Rightarrow> bool"
  and payload_less :: "'d doubles \<Rightarrow> 'd payload \<Rightarrow> 'd payload \<Rightarrow> bool"
  and members_less :: "'d doubles \<Rightarrow> 'd members \<Rightarrow> 'd members \<Rightarrow> bool" where
  "value_less D (Value p c) (Value q c') \<longleftrightarrow>
     (let typeDelta = type_number (type_of (Value p c)) - type_number (type_of (Value q c'))
      in if typeDelta \<noteq> 0 then typeDelta < 0 else payload_less D p q)"
| "payload_less D V_null q \<longleftrightarrow> False"
| "payload_less D (V_int i) q \<longleftrightarrow> (case q of V_int j \<Rightarrow> sint i < sint j | _ \<Rightarrow> False)"
| "payload_less D (V_uint i) q \<longleftrightarrow> (case q of V_uint j \<Rightarrow> i < j | _ \<Rightarrow> False)"
| "payload_less D (V_real a) q \<longleftrightarrow> (case q of V_real b \<Rightarrow> d_less D a b | _ \<Rightarrow> False)"
| "payload_less D (V_bool a) q \<longleftrightarrow> (case q of V_bool b \<Rightarrow> \<not> a \<and> b | _ \<Rightarrow> False)"
| "payload_less D (V_string a) q \<longleftrightarrow>
     (case q of
        V_string b \<Rightarrow>
          a = None \<and> b \<noteq> None \<or>
          (case b of None \<Rightarrow> False | Some t \<Rightarrow> (case a of None \<Rightarrow> False | Some s \<Rightarrow> strcmp s t < 0))
      | _ \<Rightarrow> False)"
| "payload_less D (V_array m) q \<longleftrightarrow>
     (case q of
        V_array n \<Rightarrow> if size_delta m n \<noteq> 0 then size_delta m n < 0 else members_less D m n
      | _ \<Rightarrow> False)"
| "payload_less D (V_object m) q \<longleftrightarrow>
     (case q of
        V_object n \<Rightarrow> if size_delta m n \<noteq> 0 then size_delta m n < 0 else members_less D m n
      | _ \<Rightarrow> False)"
| "members_less D [] n \<longleftrightarrow> n \<noteq> []"
| "members_less D (x # m) [] \<longleftrightarrow> False"
| "members_less D ((k, v) # m) ((l, w) # n) \<longleftrightarrow>
     (if k < l \<or> \<not> l < k \<and> value_less D v w then True
      else if l < k \<or> \<not> k < l \<and> value_less D w v then False
      else members_less D m n)"
  by pat_completeness auto
termination
  by (relation "measure (\<lambda>x. case x of
        Inl (D, v, w) \<Rightarrow> size v + size w
      | Inr (Inl (D, p, q)) \<Rightarrow> size p + size q
      | Inr (Inr (D, m, n)) \<Rightarrow>
          size_list (size_prod (\<lambda>_. 0) size) m + size_list (size_prod (\<lambda>_. 0) size) n)") auto

fun value_equal :: "'d doubles \<Rightarrow> 'd cvalue \<Rightarrow> 'd cvalue \<Rightarrow> bool"
  and payload_equal :: "'d doubles \<Rightarrow> 'd payload \<Rightarrow> 'd payload \<Rightarrow> bool"
  and members_equal :: "'d doubles \<Rightarrow> 'd members \<Rightarrow> 'd members \<Rightarrow> bool" where
  "value_equal D (Value p c) (Value q c') \<longleftrightarrow>
     type_of (Value p c) = type_of (Value q c') \<and> payload_equal D p q"
| "payload_equal D V_null q \<longleftrightarrow> (case q of V_null \<Rightarrow> True | _ \<Rightarrow> False)"
| "payload_equal D (V_int i) q \<longleftrightarrow> (case q of V_int j \<Rightarrow> i = j | _ \<Rightarrow> False)"
| "payload_equal D (V_uint i) q \<longleftrightarrow> (case q of V_uint j \<Rightarrow> i = j | _ \<Rightarrow> False)"
| "payload_equal D (V_real a) q \<longleftrightarrow> (case q of V_real b \<Rightarrow> d_equal D a b | _ \<Rightarrow> False)"
| "payload_equal D (V_bool a) q \<longleftrightarrow> (case q of V_bool b \<Rightarrow> a = b | _ \<Rightarrow> False)"
| "payload_equal D (V_string a) q \<longleftrightarrow>
     (case q of
        V_string b \<Rightarrow>
          a = None \<and> b = None \<or>
          (case b of None \<Rightarrow> False | Some t \<Rightarrow> (case a of None \<Rightarrow> False | Some s \<Rightarrow> strcmp s t = 0))
      | _ \<Rightarrow> False)"
| "payload_equal D (V_array m) q \<longleftrightarrow>
     (case q of V_array n \<Rightarrow> length m = length n \<and> members_equal D m n | _ \<Rightarrow> False)"
| "payload_equal D (V_object m) q \<longleftrightarrow>
     (case q of V_object n \<Rightarrow> length m = length n \<and> members_equal D m n | _ \<Rightarrow> False)"
| "members_equal D [] n \<longleftrightarrow> n = []"
| "members_equal D ((k, v) # m) n \<longleftrightarrow>
     (case n of
        [] \<Rightarrow> False
      | (l, w) # n' \<Rightarrow> czequal k l \<and> value_equal D v w \<and> members_equal D m n')"

definition value_greater :: "'d doubles \<Rightarrow> 'd cvalue \<Rightarrow> 'd cvalue \<Rightarrow> bool" where
  "value_greater D v other \<longleftrightarrow> value_less D other v"

definition value_less_equal :: "'d doubles \<Rightarrow> 'd cvalue \<Rightarrow> 'd cvalue \<Rightarrow> bool" where
  "value_less_equal D v other \<longleftrightarrow> \<not> value_greater D other v"

definition value_greater_equal :: "'d doubles \<Rightarrow> 'd cvalue \<Rightarrow> 'd cvalue \<Rightarrow> bool" where
  "value_greater_equal D v other \<longleftrightarrow> \<not> value_less D v other"

definition value_not_equal :: "'d doubles \<Rightarrow> 'd cvalue \<Rightarrow> 'd cvalue \<Rightarrow> bool" where
  "value_not_equal D v other \<longleftrightarrow> \<not> value_equal D v other"

section \<open>Conversions\<close>

definition asCString :: "'d cvalue \<Rightarrow> string option result" where
  "asCString v = (case value_of v of V_string s \<Rightarrow> Inr s | _ \<Rightarrow> Inl Assertion_Failed)"

definition asString :: "'d cvalue \<Rightarrow> string result" where
  "asString v =
     (case value_of v of
        V_null \<Rightarrow> Inr []
      | V_string s \<Rightarrow> Inr (case s of None \<Rightarrow> [] | Some t \<Rightarrow> t)
      | V_bool b \<Rightarrow> Inr (if b then ''true'' else ''false'')
      | _ \<Rightarrow> Inl (Runtime_Error ''Type is not convertible to string''))"

definition asInt :: "'d doubles \<Rightarrow> 'd cvalue \<Rightarrow> 32 word result" where
  "asInt D v =
     (case value_of v of
        V_null \<Rightarrow> Inr 0
      | V_int i \<Rightarrow> Inr i
      | V_uint u \<Rightarrow>
          if u < maxInt then Inr u else Inl (Runtime_Error ''integer out of signed integer range'')
      | V_real d \<Rightarrow>
          if d_le D (d_of_int D (sint minInt)) d \<and> d_le D d (d_of_int D (sint maxInt))
          then Inr (word_of_int (d_trunc D d))
          else Inl (Runtime_Error ''Real out of signed integer range'')
      | V_bool b \<Rightarrow> Inr (if b then 1 else 0)
      | _ \<Rightarrow> Inl (Runtime_Error ''Type is not convertible to int''))"

definition asUInt :: "'d doubles \<Rightarrow> 'd cvalue \<Rightarrow> 32 word result" where
  "asUInt D v =
     (case value_of v of
        V_null \<Rightarrow> Inr 0
      | V_int i \<Rightarrow>
          if 0 \<le> sint i then Inr i
          else Inl (Runtime_Error ''Negative integer can not be converted to unsigned integer'')
      | V_uint u \<Rightarrow> Inr u
      | V_real d \<Rightarrow>
          if d_le D (d_of_int D 0) d \<and> d_le D d (d_of_int D (uint maxUInt))
          then Inr (word_of_int (d_trunc D d))
          else Inl (Runtime_Error ''Real out of unsigned integer range'')
      | V_bool b \<Rightarrow> Inr (if b then 1 else 0)
      | _ \<Rightarrow> Inl (Runtime_Error ''Type is not convertible to uint''))"

definition asDouble :: "'d doubles \<Rightarrow> 'd cvalue \<Rightarrow> 'd result" where
  "asDouble D v =
     (case value_of v of
        V_null \<Rightarrow> Inr (d_of_int D 0)
      | V_int i \<Rightarrow> Inr (d_of_int D (sint i))
      | V_uint u \<Rightarrow> Inr (d_of_int D (uint u))
      | V_real d \<Rightarrow> Inr d
      | V_bool b \<Rightarrow> Inr (d_of_int D (if b then 1 else 0))
      | _ \<Rightarrow> Inl (Runtime_Error ''Type is not convertible to double''))"

definition asBool :: "'d doubles \<Rightarrow> 'd cvalue \<Rightarrow> bool" where
  "asBool D v =
     (case value_of v of
        V_null \<Rightarrow> False
      | V_int i \<Rightarrow> i \<noteq> 0
      | V_uint u \<Rightarrow> u \<noteq> 0
      | V_real d \<Rightarrow> \<not> d_equal D d (d_of_int D 0)
      | V_bool b \<Rightarrow> b
      | V_string s \<Rightarrow> s \<noteq> None \<and> s \<noteq> Some []
      | V_array m \<Rightarrow> m \<noteq> []
      | V_object m \<Rightarrow> m \<noteq> [])"

definition isConvertibleTo :: "'d doubles \<Rightarrow> 'd cvalue \<Rightarrow> value_type \<Rightarrow> bool" where
  "isConvertibleTo D v other =
     (case value_of v of
        V_null \<Rightarrow> True
      | V_int i \<Rightarrow>
          other = nullValue \<and> i = 0 \<or> other = intValue \<or> other = uintValue \<and> 0 \<le> sint i \<or>
          other = realValue \<or> other = stringValue \<or> other = booleanValue
      | V_uint u \<Rightarrow>
          other = nullValue \<and> u = 0 \<or> other = intValue \<and> u \<le> maxInt \<or> other = uintValue \<or>
          other = realValue \<or> other = stringValue \<or> other = booleanValue
      | V_real d \<Rightarrow>
          other = nullValue \<and> d_equal D d (d_of_int D 0) \<or>
          other = intValue \<and> d_le D (d_of_int D (sint minInt)) d \<and> d_le D d (d_of_int D (sint maxInt)) \<or>
          other = uintValue \<and> d_le D (d_of_int D 0) d \<and> d_le D d (d_of_int D (uint maxUInt)) \<or>
          other = realValue \<or> other = stringValue \<or> other = booleanValue
      | V_bool b \<Rightarrow>
          other = nullValue \<and> b = False \<or> other = intValue \<or> other = uintValue \<or>
          other = realValue \<or> other = stringValue \<or> other = booleanValue
      | V_string s \<Rightarrow> other = stringValue \<or> other = nullValue \<and> (s = None \<or> s = Some [])
      | V_array m \<Rightarrow> other = arrayValue \<or> other = nullValue \<and> m = []
      | V_object m \<Rightarrow> other = objectValue \<or> other = nullValue \<and> m = [])"

subsection \<open>Type tests\<close>

definition isNull :: "'d cvalue \<Rightarrow> bool" where "isNull v \<longleftrightarrow> type_of v = nullValue"

definition isBool :: "'d cvalue \<Rightarrow> bool" where "isBool v \<longleftrightarrow> type_of v = booleanValue"

definition isInt :: "'d cvalue \<Rightarrow> bool" where "isInt v \<longleftrightarrow> type_of v = intValue"

definition isUInt :: "'d cvalue \<Rightarrow> bool" where "isUInt v \<longleftrightarrow> type_of v = uintValue"

definition isIntegral :: "'d cvalue \<Rightarrow> bool" where
  "isIntegral v \<longleftrightarrow> type_of v = intValue \<or> type_of v = uintValue \<or> type_of v = booleanValue"

definition isDouble :: "'d cvalue \<Rightarrow> bool" where "isDouble v \<longleftrightarrow> type_of v = realValue"

definition isNumeric :: "'d cvalue \<Rightarrow> bool" where "isNumeric v \<longleftrightarrow> isIntegral v \<or> isDouble v"

definition isString :: "'d cvalue \<Rightarrow> bool" where "isString v \<longleftrightarrow> type_of v = stringValue"

definition isArray :: "'d cvalue \<Rightarrow> bool" where
  "isArray v \<longleftrightarrow> type_of v = nullValue \<or> type_of v = arrayValue"

definition isObject :: "'d cvalue \<Rightarrow> bool" where
  "isObject v \<longleftrightarrow> type_of v = nullValue \<or> type_of v = objectValue"

end
