(* ===== verification/Jsoncpp_Container.thy ===== *)
theory Jsoncpp_Container
  imports Jsoncpp_Value
begin

text \<open>
  Element access of jsoncpp values (\<^verbatim>\<open>json_value.cpp\<close>): sizes, \<^verbatim>\<open>operator[]\<close>, \<^verbatim>\<open>resize\<close>,
  \<^verbatim>\<open>append\<close>, \<^verbatim>\<open>removeMember\<close> and the member names, and the iterators of
  \<^verbatim>\<open>json_valueiterator.inl\<close>. \<open>wf_value\<close> is the invariant of values: children in strict key
  order, indices in arrays and names in objects, no NUL inside a string, comments that start
  with a slash. Every operation keeps it.
\<close>

section \<open>Maps\<close>

fun map_resolve :: "czstring \<Rightarrow> 'd members \<Rightarrow> 'd members" where
  "map_resolve k [] = [(k, null_value)]"
| "map_resolve k ((l, v) # m) =
     (if czless l k then (l, v) # map_resolve k m
      else if czequal l k then (l, v) # m
      else (k, null_value) # (l, v) # m)"

fun map_erase :: "czstring \<Rightarrow> 'd members \<Rightarrow> 'd members" where
  "map_erase k [] = []"
| "map_erase k ((l, v) # m) = (if czequal l k then m else (l, v) # map_erase k m)"

fun members_update :: "czstring \<Rightarrow> ('d cvalue \<Rightarrow> 'd cvalue result) \<Rightarrow> 'd members \<Rightarrow> 'd members result" where
  "members_update k f [] = Inl Null_Pointer"
| "members_update k f ((l, v) # m) =
     (if czequal l k then bind_result (f v) (\<lambda>v'. Inr ((l, v') # m))
      else bind_result (members_update k f m) (\<lambda>m'. Inr ((l, v) # m')))"

section \<open>Pointers into a document\<close>

definition children :: "'d cvalue \<Rightarrow> 'd members" where
  "children v = (case value_of v of V_array m \<Rightarrow> m | V_object m \<Rightarrow> m | _ \<Rightarrow> [])"

definition with_children :: "'d cvalue \<Rightarrow> 'd members \<Rightarrow> 'd cvalue" where
  "with_children v m =
     (case value_of v of
        V_array _ \<Rightarrow> Value (V_array m) (comments_of v)
      | V_object _ \<Rightarrow> Value (V_object m) (comments_of v)
      | _ \<Rightarrow> v)"

fun at_path :: "czstring list \<Rightarrow> 'd cvalue \<Rightarrow> 'd cvalue option" where
  "at_path [] v = Some v"
| "at_path (k # p) v =
     (case map_of (children v) k of None \<Rightarrow> None | Some w \<Rightarrow> at_path p w)"

fun update_path :: "czstring list \<Rightarrow> ('d cvalue \<Rightarrow> 'd cvalue result) \<Rightarrow> 'd cvalue \<Rightarrow> 'd cvalue result" where
  "update_path [] f v = f v"
| "update_path (k # p) f v =
     bind_result (members_update k (update_path p f) (children v)) (\<lambda>m. Inr (with_children v m))"

section \<open>Arrays and objects\<close>

definition size_of :: "'d cvalue \<Rightarrow> 32 word" where
  "size_of v =
     (case value_of v of
        V_array m \<Rightarrow> if m \<noteq> [] then word_of_int (cz_index (fst (last m)) + 1) else 0
      | V_object m \<Rightarrow> word_of_nat (length m)
      | _ \<Rightarrow> 0)"

definition is_empty :: "'d cvalue \<Rightarrow> bool" where
  "is_empty v \<longleftrightarrow> (if isNull v \<or> isArray v \<or> isObject v then size_of v = 0 else False)"

definition operator_not :: "'d cvalue \<Rightarrow> bool" where
  "operator_not v \<longleftrightarrow> isNull v"

definition clear :: "'d cvalue \<Rightarrow> 'd cvalue result" where
  "clear v =
     (case value_of v of
        V_null \<Rightarrow> Inr v
      | V_array m \<Rightarrow> Inr (Value (V_array []) (comments_of v))
      | V_object m \<Rightarrow> Inr (Value (V_object []) (comments_of v))
      | _ \<Rightarrow> Inl Assertion_Failed)"

text \<open>
  The guard of the array operations: the value is an array, or null and becomes an empty
  array; likewise for objects. The assignment keeps the comments.
\<close>

definition array_map :: "'d cvalue \<Rightarrow> 'd members result" where
  "array_map v =
     (case value_of v of V_null \<Rightarrow> Inr [] | V_array m \<Rightarrow> Inr m | _ \<Rightarrow> Inl Assertion_Failed)"

definition object_map :: "'d cvalue \<Rightarrow> 'd members result" where
  "object_map v =
     (case value_of v of V_null \<Rightarrow> Inr [] | V_object m \<Rightarrow> Inr m | _ \<Rightarrow> Inl Assertion_Failed)"

text \<open>\<^verbatim>\<open>CZString(int index)\<close> applied to a \<^verbatim>\<open>UInt\<close>\<close>

definition index_key :: "32 word \<Rightarrow> czstring" where
  "index_key i = CZ_Index (sint i)"

definition name_key :: "string \<Rightarrow> czstring" where
  "name_key s = CZ_Name (c_string s)"

definition index_ref :: "'d cvalue \<Rightarrow> 32 word \<Rightarrow> 'd cvalue result" where
  "index_ref v i =
     bind_result (array_map v)
       (\<lambda>m. Inr (Value (V_array (map_resolve (index_key i) m)) (comments_of v)))"

definition index_const :: "'d cvalue \<Rightarrow> 32 word \<Rightarrow> 'd cvalue option result" where
  "index_const v i = bind_result (array_map v) (\<lambda>m. Inr (map_of m (index_key i)))"

definition resolveReference :: "'d cvalue \<Rightarrow> string \<Rightarrow> 'd cvalue result" where
  "resolveReference v key =
     bind_result (object_map v)
       (\<lambda>m. Inr (Value (V_object (map_resolve (name_key key) m)) (comments_of v)))"

definition key_const :: "'d cvalue \<Rightarrow> string \<Rightarrow> 'd cvalue option result" where
  "key_const v key = bind_result (object_map v) (\<lambda>m. Inr (map_of m (name_key key)))"

text \<open>The value behind a const reference.\<close>

definition ref_value :: "'d cvalue option \<Rightarrow> 'd cvalue" where
  "ref_value r = (case r of None \<Rightarrow> null_value | Some v \<Rightarrow> v)"

definition get_index :: "'d cvalue \<Rightarrow> 32 word \<Rightarrow> 'd cvalue \<Rightarrow> 'd cvalue result" where
  "get_index v i defaultValue =
     bind_result (index_const v i)
       (\<lambda>r. case r of None \<Rightarrow> copy_value defaultValue | Some w \<Rightarrow> copy_value w)"

definition get_key :: "'d cvalue \<Rightarrow> string \<Rightarrow> 'd cvalue \<Rightarrow> 'd cvalue result" where
  "get_key v key defaultValue =
     bind_result (key_const v key)
       (\<lambda>r. case r of None \<Rightarrow> copy_value defaultValue | Some w \<Rightarrow> copy_value w)"

definition isValidIndex :: "'d cvalue \<Rightarrow> 32 word \<Rightarrow> bool" where
  "isValidIndex v i \<longleftrightarrow> i < size_of v"

definition isMember :: "'d cvalue \<Rightarrow> string \<Rightarrow> bool result" where
  "isMember v key = bind_result (key_const v key) (\<lambda>r. Inr (r \<noteq> None))"

definition resize :: "'d cvalue \<Rightarrow> 32 word \<Rightarrow> 'd cvalue result" where
  "resize v newSize =
     bind_result (array_map v) (\<lambda>m.
       let this = Value (V_array m) (comments_of v);
           oldSize = size_of this
       in if newSize = 0 then clear this
          else if newSize > oldSize then index_ref this (newSize - 1)
          else
            let m' = fold (\<lambda>i. map_erase (index_key (word_of_nat i))) [unat newSize ..< unat oldSize] m;
                this' = Value (V_array m') (comments_of v)
            in if size_of this' = newSize then Inr this' else Inl Assertion_Failed)"

definition append_value :: "'d cvalue \<Rightarrow> 'd cvalue \<Rightarrow> 'd cvalue result" where
  "append_value v w =
     bind_result (index_ref v (size_of v)) (\<lambda>this.
       bind_result (array_map this) (\<lambda>m.
         bind_result (members_update (index_key (size_of v)) (\<lambda>x. assign_value x w) m) (\<lambda>m'.
           Inr (Value (V_array m') (comments_of v)))))"

text \<open>\<^verbatim>\<open>removeMember\<close> returns the old value, and the object without it.\<close>

definition removeMember :: "'d cvalue \<Rightarrow> string \<Rightarrow> ('d cvalue \<times> 'd cvalue) result" where
  "removeMember v key =
     bind_result (object_map v) (\<lambda>m.
       case map_of m (name_key key) of
         None \<Rightarrow> Inr (null_value, v)
       | Some w \<Rightarrow>
           bind_result (copy_value w) (\<lambda>old.
             Inr (old, Value (V_object (map_erase (name_key key) m)) (comments_of v))))"

definition getMemberNames :: "'d cvalue \<Rightarrow> string list result" where
  "getMemberNames v =
     bind_result (object_map v)
       (\<lambda>m. Inr (map (\<lambda>kv. case cz_c_str (fst kv) of None \<Rightarrow> [] | Some s \<Rightarrow> s) m))"

section \<open>Iterators\<close>

text \<open>
  An iterator is a position in the children of its value; \<open>it_null\<close> is set by the default
  constructor, which \<^verbatim>\<open>begin\<close> and \<^verbatim>\<open>end\<close> use for values without children.
\<close>

record value_iterator =
  it_current :: nat
  it_null :: bool

definition iterator_default :: value_iterator where
  "iterator_default = \<lparr>it_current = 0, it_null = True\<rparr>"

definition iterator_at :: "nat \<Rightarrow> value_iterator" where
  "iterator_at n = \<lparr>it_current = n, it_null = False\<rparr>"

definition value_begin :: "'d cvalue \<Rightarrow> value_iterator" where
  "value_begin v =
     (if type_of v = arrayValue \<or> type_of v = objectValue then iterator_at 0 else iterator_default)"

definition value_end :: "'d cvalue \<Rightarrow> value_iterator" where
  "value_end v =
     (if type_of v = arrayValue \<or> type_of v = objectValue then iterator_at (length (children v))
      else iterator_default)"

definition iterator_deref :: "'d cvalue \<Rightarrow> value_iterator \<Rightarrow> 'd cvalue result" where
  "iterator_deref v it =
     (if it_null it then Inl Null_Pointer
      else bind_result (deref (children v) (it_current it)) (\<lambda>kv. Inr (snd kv)))"

definition iterator_increment :: "'d cvalue \<Rightarrow> value_iterator \<Rightarrow> value_iterator result" where
  "iterator_increment v it =
     (if it_current it < length (children v) then Inr (it\<lparr>it_current := it_current it + 1\<rparr>)
      else Inl Out_Of_Bounds)"

definition iterator_decrement :: "'d cvalue \<Rightarrow> value_iterator \<Rightarrow> value_iterator result" where
  "iterator_decrement v it =
     (if 0 < it_current it then Inr (it\<lparr>it_current := it_current it - 1\<rparr>) else Inl Out_Of_Bounds)"

definition iterator_equal :: "value_iterator \<Rightarrow> value_iterator \<Rightarrow> bool" where
  "iterator_equal it other \<longleftrightarrow>
     (if it_null it then it_null other else it_current it = it_current other)"

text \<open>
  \<^verbatim>\<open>computeDistance\<close> increments a copy of the iterator until it reaches the other one; when the
  other one is before it, the copy runs past the end.
\<close>

function distance_loop :: "'d cvalue \<Rightarrow> nat \<Rightarrow> nat \<Rightarrow> int \<Rightarrow> int result" where
  "distance_loop v current other myDistance =
     (if current = other then Inr myDistance
      else if current < length (children v) then distance_loop v (current + 1) other (myDistance + 1)
      else Inl Out_Of_Bounds)"
  by pat_completeness auto
termination
  by (relation "measure (\<lambda>(v, current, other, n). length (children v) - current)") auto

definition computeDistance :: "'d cvalue \<Rightarrow> value_iterator \<Rightarrow> value_iterator \<Rightarrow> int result" where
  "computeDistance v it other =
     (if it_null it \<and> it_null other then Inr 0
      else distance_loop v (it_current it) (it_current other) 0)"

text \<open>\<^verbatim>\<open>copy\<close>, the body of the assignment operators, leaves \<^verbatim>\<open>isNull_\<close> as it is.\<close>

definition iterator_assign :: "value_iterator \<Rightarrow> value_iterator \<Rightarrow> value_iterator" where
  "iterator_assign it other = it\<lparr>it_current := it_current other\<rparr>"

definition iterator_key :: "'d cvalue \<Rightarrow> value_iterator \<Rightarrow> 'd cvalue result" where
  "iterator_key v it =
     (if it_null it then Inl Null_Pointer
      else bind_result (deref (children v) (it_current it))
        (\<lambda>kv. Inr (case cz_c_str (fst kv) of
            Some s \<Rightarrow> value_of_string s
          | None \<Rightarrow> value_int (word_of_int (cz_index (fst kv))))))"

definition iterator_index :: "'d cvalue \<Rightarrow> value_iterator \<Rightarrow> 32 word result" where
  "iterator_index v it =
     (if it_null it then Inl Null_Pointer
      else bind_result (deref (children v) (it_current it))
        (\<lambda>kv. Inr (if cz_c_str (fst kv) = None then word_of_int (cz_index (fst kv)) else - 1)))"

definition iterator_memberName :: "'d cvalue \<Rightarrow> value_iterator \<Rightarrow> string result" where
  "iterator_memberName v it =
     (if it_null it then Inl Null_Pointer
      else bind_result (deref (children v) (it_current it))
        (\<lambda>kv. Inr (case cz_c_str (fst kv) of Some s \<Rightarrow> s | None \<Rightarrow> [])))"

declare distance_loop.simps [simp del]

section \<open>Well-formed values\<close>

definition sorted_keys :: "'d members \<Rightarrow> bool" where
  "sorted_keys m \<longleftrightarrow> sorted_wrt (<) (map fst m)"

definition index_keys :: "'d members \<Rightarrow> bool" where
  "index_keys m \<longleftrightarrow>
     list_all (\<lambda>kv. case fst kv of CZ_Index i \<Rightarrow> - (2 ^ 31) \<le> i \<and> i < 2 ^ 31 | CZ_Name _ \<Rightarrow> False) m"

definition name_keys :: "'d members \<Rightarrow> bool" where
  "name_keys m \<longleftrightarrow>
     list_all (\<lambda>kv. case fst kv of CZ_Index i \<Rightarrow> False | CZ_Name s \<Rightarrow> CHR 0x00 \<notin> set s) m"

definition wf_comment :: "string option \<Rightarrow> bool" where
  "wf_comment c \<longleftrightarrow>
     (case c of None \<Rightarrow> True | Some t \<Rightarrow> CHR 0x00 \<notin> set t \<and> (t = [] \<or> hd t = CHR ''/''))"

definition wf_comments :: "comment_info option \<Rightarrow> bool" where
  "wf_comments c \<longleftrightarrow>
     (case c of
        None \<Rightarrow> True
      | Some ci \<Rightarrow> wf_comment (comment_before ci) \<and> wf_comment (comment_same_line ci) \<and>
          wf_comment (comment_after ci))"

fun wf_value :: "'d cvalue \<Rightarrow> bool"
  and wf_payload :: "'d payload \<Rightarrow> bool"
  and wf_children :: "'d members \<Rightarrow> bool" where
  "wf_value (Value p c) \<longleftrightarrow> wf_payload p \<and> wf_comments c"
| "wf_payload V_null \<longleftrightarrow> True"
| "wf_payload (V_int i) \<longleftrightarrow> True"
| "wf_payload (V_uint u) \<longleftrightarrow> True"
| "wf_payload (V_real d) \<longleftrightarrow> True"
| "wf_payload (V_bool b) \<longleftrightarrow> True"
| "wf_payload (V_string s) \<longleftrightarrow> (case s of None \<Rightarrow> True | Some t \<Rightarrow> CHR 0x00 \<notin> set t)"
| "wf_payload (V_array m) \<longleftrightarrow> sorted_keys m \<and> index_keys m \<and> wf_children m"
| "wf_payload (V_object m) \<longleftrightarrow> sorted_keys m \<and> name_keys m \<and> wf_children m"
| "wf_children [] \<longleftrightarrow> True"
| "wf_children ((k, v) # m) \<longleftrightarrow> wf_value v \<and> wf_children m"

lemma sorted_keys_Cons [simp]:
  "sorted_keys ((k, v) # m) \<longleftrightarrow> (\<forall>l \<in> fst ` set m. k < l) \<and> sorted_keys m"
  by (auto simp: sorted_keys_def)

lemma sorted_keys_Nil [simp]: "sorted_keys []"
  by (simp add: sorted_keys_def)

lemma wf_children_all: "wf_children m \<longleftrightarrow> (\<forall>kv \<in> set m. wf_value (snd kv))"
  by (induction m) auto

lemma wf_value_parts: "wf_value v \<longleftrightarrow> wf_payload (value_of v) \<and> wf_comments (comments_of v)"
  by (cases v) simp

lemma c_string_no_nul [simp]: "CHR 0x00 \<notin> set s \<Longrightarrow> c_string s = s"
  by (auto simp: c_string_def takeWhile_eq_all_conv)

lemma nul_c_string [simp]: "CHR 0x00 \<notin> set (c_string s)"
  by (auto simp: c_string_def dest: set_takeWhileD)

lemma c_string_idem [simp]: "c_string (c_string s) = c_string s"
  by (rule c_string_no_nul) simp

lemma copy_comment_wf: "wf_comment c \<Longrightarrow> copy_comment c = Inr c"
  by (auto simp: copy_comment_def wf_comment_def comment_set_text_def Let_def split: option.splits)

lemma copy_comments_wf: "wf_comments c \<Longrightarrow> copy_comments c = Inr c"
  by (auto simp: copy_comments_def wf_comments_def copy_comment_wf split: option.splits)

lemma copy_wf:
  fixes v :: "'d cvalue" and p :: "'d payload" and m :: "'d members"
  shows "wf_value v \<Longrightarrow> copy_value v = Inr v"
    and "wf_payload p \<Longrightarrow> copy_payload p = Inr p"
    and "wf_children m \<Longrightarrow> copy_members m = Inr m"
  by (induction v and p and m rule: wf_value_wf_payload_wf_children.induct)
    (auto simp: copy_comments_wf split: option.splits)

lemma assign_wf:
  "wf_value w \<Longrightarrow> assign_value v w = Inr (Value (value_of w) (comments_of v))"
  by (simp add: assign_value_def copy_wf swap_values_def)

lemma comment_set_text_wf: "comment_set_text s = Inr t \<Longrightarrow> wf_comment (Some t)"
  by (auto simp: comment_set_text_def wf_comment_def Let_def split: if_splits)

lemma setComment_wf:
  assumes "wf_value v" and "setComment s pl v = Inr v'"
  shows "wf_value v'"
proof -
  from assms(2) obtain t where t: "comment_set_text s = Inr t"
    "v' = Value (value_of v) (Some (comment_put pl t
       (case comments_of v of None \<Rightarrow> no_comments | Some ci \<Rightarrow> ci)))"
    by (auto simp: setComment_def bind_result_Inr)
  with assms(1) comment_set_text_wf [OF t(1)] show ?thesis
    by (cases pl) (auto simp: wf_value_parts wf_comments_def no_comments_def wf_comment_def [of None]
        split: option.splits)
qed

subsection \<open>Maps\<close>

lemma sorted_keys_wrt: "sorted_keys m \<longleftrightarrow> sorted_wrt (<) (map fst m)"
  by (simp add: sorted_keys_def)

lemma czless_less [simp]: "czless a b \<longleftrightarrow> a < b"
  by (simp add: less_czstring_def)

lemma map_resolve_keys: "fst ` set (map_resolve k m) = insert k (fst ` set m)"
  by (induction m rule: map_resolve.induct) auto

lemma map_resolve_sorted: "sorted_keys m \<Longrightarrow> sorted_keys (map_resolve k m)"
proof (induction k m rule: map_resolve.induct)
  case (2 k l v m)
  then show ?case
    using map_resolve_keys [of k m] by (fastforce split: if_splits simp: not_less_iff_gr_or_eq)
qed simp

lemma map_of_sorted_Cons: "sorted_keys ((k, v) # m) \<Longrightarrow> l \<le> k \<Longrightarrow> map_of m l = None"
  by (force simp: map_of_eq_None_iff)

lemma map_of_map_resolve:
  assumes "sorted_keys m"
  shows "map_of (map_resolve k m) l =
    (if l = k then Some (ref_value (map_of m k)) else map_of m l)"
  using assms
proof (induction k m rule: map_resolve.induct)
  case (2 k k' v m)
  consider "k' < k" | "k' = k" | "k < k'" by fastforce
  then show ?case
  proof cases
    case 3
    then have "map_of ((k', v) # m) k = None"
      using 2(2) map_of_sorted_Cons [of k' v m k] by auto
    with 3 show ?thesis by (auto simp: ref_value_def)
  qed (use 2 in \<open>auto simp: ref_value_def\<close>)
qed (auto simp: ref_value_def)

lemma map_resolve_all:
  "list_all P m \<Longrightarrow> P (k, null_value) \<Longrightarrow> list_all P (map_resolve k m)"
  by (induction k m rule: map_resolve.induct) auto

lemma map_resolve_present: "sorted_keys m \<Longrightarrow> map_of m k = Some v \<Longrightarrow> map_resolve k m = m"
proof (induction k m rule: map_resolve.induct)
  case (2 k l w m)
  show ?case
  proof (cases "k < l")
    case True
    then show ?thesis using map_of_sorted_Cons [OF 2(2), of k] 2(3) by auto
  next
    case False
    with 2 show ?thesis by (auto split: if_splits)
  qed
qed simp

lemma map_erase_keys: "sorted_keys m \<Longrightarrow> fst ` set (map_erase k m) = fst ` set m - {k}"
  by (induction k m rule: map_erase.induct) auto

lemma map_erase_subset: "set (map_erase k m) \<subseteq> set m"
  by (induction k m rule: map_erase.induct) auto

lemma map_erase_filter: "sorted_keys m \<Longrightarrow> map_erase k m = filter (\<lambda>kv. fst kv \<noteq> k) m"
proof (induction k m rule: map_erase.induct)
  case (2 k l v m)
  then show ?case by (force intro!: filter_True [symmetric])
qed simp

lemma sorted_keys_filter: "sorted_keys m \<Longrightarrow> sorted_keys (filter P m)"
  by (simp add: sorted_keys_def sorted_wrt_map sorted_wrt_filter)

lemma map_erase_sorted: "sorted_keys m \<Longrightarrow> sorted_keys (map_erase k m)"
  by (simp add: map_erase_filter sorted_keys_filter)

lemma map_of_filter_key:
  "map_of (filter (\<lambda>kv. P (fst kv)) m) k = (if P k then map_of m k else None)"
  by (induction m) auto

subsection \<open>Pointers\<close>

lemma members_update_Some:
  "map_of m k = Some v \<Longrightarrow> f v = Inr v' \<Longrightarrow>
     \<exists>m'. members_update k f m = Inr m' \<and> map fst m' = map fst m \<and> map_of m' = (map_of m)(k \<mapsto> v')"
  by (induction k f m rule: members_update.induct) (auto simp: fun_upd_twist split: if_splits)

lemma members_update_inv:
  "members_update k f m = Inr m' \<Longrightarrow> map_of m k = Some v \<Longrightarrow> \<exists>v'. f v = Inr v'"
  by (induction k f m arbitrary: m' rule: members_update.induct)
    (auto simp: bind_result_Inr split: if_splits)

lemma children_with_children [simp]:
  "map_of (children v) k = Some w \<Longrightarrow> children (with_children v m) = m"
  by (auto simp: children_def with_children_def split: payload.splits)

lemma with_children_parts [simp]:
  "type_of (with_children v m) = type_of v" "comments_of (with_children v m) = comments_of v"
  by (cases v; cases "value_of v"; simp add: with_children_def)+

lemma update_path_returns:
  "at_path p v = Some w \<Longrightarrow> f w = Inr w' \<Longrightarrow> \<exists>v'. update_path p f v = Inr v'"
proof (induction p arbitrary: v)
  case (Cons k p)
  then obtain u where u: "map_of (children v) k = Some u" "at_path p u = Some w"
    by (auto split: option.splits)
  with Cons.IH Cons.prems(2) obtain u' where "update_path p f u = Inr u'" by blast
  with members_update_Some [OF u(1)] show ?case by (auto simp: bind_result_Inr)
qed simp

lemma update_path_step:
  assumes "update_path (k # p) f v = Inr v'" and "map_of (children v) k = Some u"
  obtains u' where "update_path p f u = Inr u'" "map_of (children v') = (map_of (children v))(k \<mapsto> u')"
    "type_of v' = type_of v" "comments_of v' = comments_of v"
    "map fst (children v') = map fst (children v)"
proof -
  obtain m where m: "members_update k (update_path p f) (children v) = Inr m" "v' = with_children v m"
    using assms(1) by (auto simp: bind_result_Inr)
  obtain u' where u': "update_path p f u = Inr u'" using members_update_inv [OF m(1) assms(2)] by blast
  with members_update_Some [where f = "update_path p f", OF assms(2) u'] m assms(2) that show ?thesis by auto
qed

lemma at_update_below:
  "update_path p f v = Inr v' \<Longrightarrow> at_path p v = Some w \<Longrightarrow> f w = Inr w' \<Longrightarrow>
     at_path (p @ q) v' = at_path q w'"
proof (induction p arbitrary: v v')
  case (Cons k p)
  then obtain u where u: "map_of (children v) k = Some u" "at_path p u = Some w"
    by (auto split: option.splits)
  from update_path_step [OF Cons.prems(1) u(1)] Cons.IH u(2) Cons.prems(3) show ?case
    by (metis append_Cons at_path.simps(2) fun_upd_same option.simps(5))
qed simp

lemma at_update_same:
  "update_path p f v = Inr v' \<Longrightarrow> at_path p v = Some w \<Longrightarrow> f w = Inr w' \<Longrightarrow> at_path p v' = Some w'"
  using at_update_below [of p f v v' w w' "[]"] by simp

definition kind_at :: "czstring list \<Rightarrow> 'd cvalue \<Rightarrow> value_type option" where
  "kind_at p v = map_option type_of (at_path p v)"

lemma kind_at_Cons: "kind_at (k # p) v = (case map_of (children v) k of None \<Rightarrow> None | Some w \<Rightarrow> kind_at p w)"
  by (simp add: kind_at_def split: option.splits)

lemma kind_at_Nil [simp]: "kind_at [] v = Some (type_of v)"
  by (simp add: kind_at_def)

lemma at_update_apart:
  "update_path p f v = Inr v' \<Longrightarrow> at_path p v = Some w \<Longrightarrow> \<not> prefix p q \<Longrightarrow> \<not> prefix q p \<Longrightarrow>
     at_path q v' = at_path q v"
proof (induction p arbitrary: v v' q)
  case (Cons k p)
  then obtain u where u: "map_of (children v) k = Some u" "at_path p u = Some w"
    by (auto split: option.splits)
  obtain l q' where q: "q = l # q'" using Cons.prems(4) by (cases q) auto
  obtain u' where u': "update_path p f u = Inr u'" "map_of (children v') = (map_of (children v))(k \<mapsto> u')"
    using update_path_step [OF Cons.prems(1) u(1)] by metis
  show ?case
  proof (cases "l = k")
    case True
    then have "\<not> prefix p q'" "\<not> prefix q' p" using Cons.prems(3,4) q by auto
    from Cons.IH [OF u'(1) u(2) this] True q u u'(2) show ?thesis by simp
  qed (use q u' in auto)
qed simp

lemma kind_update_outside:
  "update_path p f v = Inr v' \<Longrightarrow> at_path p v = Some w \<Longrightarrow> \<not> prefix p q \<Longrightarrow> kind_at q v' = kind_at q v"
proof (induction p arbitrary: v v' q)
  case (Cons k p)
  then obtain u where u: "map_of (children v) k = Some u" "at_path p u = Some w"
    by (auto split: option.splits)
  obtain u' where u': "update_path p f u = Inr u'" "map_of (children v') = (map_of (children v))(k \<mapsto> u')"
    "type_of v' = type_of v"
    using update_path_step [OF Cons.prems(1) u(1)] by metis
  show ?case
  proof (cases q)
    case (Cons l q')
    then show ?thesis
      using Cons.IH [OF u'(1) u(2), of q'] Cons.prems(3) u u'(2)
      by (cases "l = k") (auto simp: kind_at_Cons)
  qed (simp add: u')
qed simp

text \<open>An update that keeps the children and the type changes no kind anywhere.\<close>

lemma kind_update_inert:
  assumes "update_path p f v = Inr v'" and "at_path p v = Some w" and "f w = Inr w'"
    and "children w' = children w" and "type_of w' = type_of w"
  shows "kind_at q v' = kind_at q v"
proof (cases "prefix p q")
  case True
  then obtain r where q: "q = p @ r" by (auto elim: prefixE)
  have "at_path (p @ r) v = at_path r w" using assms(2) by (induction p arbitrary: v) (auto split: option.splits)
  moreover have "kind_at r w' = kind_at r w" using assms(4,5)
    by (cases r) (simp_all add: kind_at_Cons)
  ultimately show ?thesis using at_update_below [OF assms(1-3), of r] q by (simp add: kind_at_def)
next
  case False
  then show ?thesis by (rule kind_update_outside [OF assms(1,2)])
qed

lemma at_path_append: "at_path (p @ q) v = (case at_path p v of None \<Rightarrow> None | Some w \<Rightarrow> at_path q w)"
  by (induction p arbitrary: v) (auto split: option.splits)

section \<open>Access laws\<close>

lemma index_key_inj [simp]: "index_key i = index_key j \<longleftrightarrow> i = j"
  by (auto simp: index_key_def intro: signed_word_eqI)

lemma index_key_range: "- (2 ^ 31) \<le> sint (i :: 32 word) \<and> sint i < 2 ^ 31"
  using sint_range_size [of i] by (simp add: word_size)

fun ref_all :: "('d cvalue \<Rightarrow> 'k \<Rightarrow> 'd cvalue result) \<Rightarrow> 'd cvalue \<Rightarrow> 'k list \<Rightarrow> 'd cvalue result" where
  "ref_all ref v [] = Inr v"
| "ref_all ref v (k # ks) = bind_result (ref v k) (\<lambda>v'. ref_all ref v' ks)"

text \<open>
  The contract of element access, which arrays and objects share: resolving a key makes it
  present, with the old value or null, and changes no other key.
\<close>

locale element_access =
  fixes ref :: "'d cvalue \<Rightarrow> 'k \<Rightarrow> 'd cvalue result"
    and look :: "'d cvalue \<Rightarrow> 'k \<Rightarrow> 'd cvalue option result"
    and same :: "'k \<Rightarrow> 'k \<Rightarrow> bool"
  assumes ref_returns: "wf_value v \<Longrightarrow> look v k = Inr r \<Longrightarrow> \<exists>v'. ref v k = Inr v' \<and> wf_value v'"
    and look_ref: "wf_value v \<Longrightarrow> ref v k = Inr v' \<Longrightarrow> look v l = Inr r \<Longrightarrow>
      look v' l = Inr (if same l k then Some (ref_value r) else r)"
    and look_kind: "look v k = Inr r \<Longrightarrow> \<exists>r'. look v l = Inr r'"
begin

lemma refs_returns:
  assumes "wf_value v" and "look v k = Inr r"
  shows "\<exists>v'. ref_all ref v ks = Inr v' \<and> wf_value v' \<and>
    (\<forall>l r. look v l = Inr r \<longrightarrow>
       look v' l = Inr (if \<exists>k \<in> set ks. same l k then Some (ref_value r) else r))"
  using assms
proof (induction ks arbitrary: v r)
  case (Cons k' ks)
  obtain r' where "look v k' = Inr r'" using look_kind [OF Cons.prems(2)] by blast
  then obtain v1 where v1: "ref v k' = Inr v1" "wf_value v1" using ref_returns Cons.prems(1) by blast
  from look_ref [OF Cons.prems(1) v1(1) Cons.prems(2)] Cons.IH [OF v1(2)] obtain v' where
    v': "ref_all ref v1 ks = Inr v'" "wf_value v'"
    "\<And>l r. look v1 l = Inr r \<Longrightarrow>
       look v' l = Inr (if \<exists>k \<in> set ks. same l k then Some (ref_value r) else r)" by blast
  have "look v' l = Inr (if \<exists>k \<in> set (k' # ks). same l k then Some (ref_value r) else r)"
    if "look v l = Inr r" for l r
    using v'(3) [OF look_ref [OF Cons.prems(1) v1(1) that]] by (auto simp: ref_value_def)
  with v1 v'(1,2) show ?case by auto
qed simp

end

lemma array_map_wf: "wf_value v \<Longrightarrow> array_map v = Inr m \<Longrightarrow> sorted_keys m \<and> index_keys m \<and> wf_children m"
  by (cases v) (auto simp: array_map_def index_keys_def split: payload.splits)

lemma object_map_wf: "wf_value v \<Longrightarrow> object_map v = Inr m \<Longrightarrow> sorted_keys m \<and> name_keys m \<and> wf_children m"
  by (cases v) (auto simp: object_map_def name_keys_def split: payload.splits)

lemma wf_children_resolve: "wf_children m \<Longrightarrow> wf_children (map_resolve k m)"
  using map_resolve_all [of "\<lambda>kv. wf_value (snd kv)" m k]
  by (simp add: wf_children_all list_all_iff wf_comments_def)

interpretation arr: element_access index_ref index_const "(=)"
proof
  fix v v' :: "'d cvalue" and k l :: "32 word" and r
  show "\<exists>v'. index_ref v k = Inr v' \<and> wf_value v'" if wf: "wf_value v" and "index_const v k = Inr r"
  proof -
    from that obtain m where m: "array_map v = Inr m" by (auto simp: index_const_def bind_result_Inr)
    have "index_keys (map_resolve (index_key k) m)"
      using array_map_wf [OF wf m] index_key_range [of k]
      unfolding index_keys_def by (intro map_resolve_all) (auto simp: index_key_def)
    with array_map_wf [OF wf m] wf m show ?thesis
      by (auto simp: index_ref_def map_resolve_sorted wf_children_resolve wf_value_parts)
  qed
  show "index_const v' l = Inr (if l = k then Some (ref_value r) else r)"
    if "wf_value v" "index_ref v k = Inr v'" "index_const v l = Inr r"
    using that array_map_wf [of v]
    by (auto simp: index_ref_def index_const_def bind_result_Inr array_map_def map_of_map_resolve)
  show "\<exists>r'. index_const v l = Inr r'" if "index_const v k = Inr r"
    using that by (auto simp: index_const_def bind_result_Inr)
qed

interpretation obj: element_access resolveReference key_const "\<lambda>a b. c_string a = c_string b"
proof
  fix v v' :: "'d cvalue" and k l :: string and r
  show "\<exists>v'. resolveReference v k = Inr v' \<and> wf_value v'" if wf: "wf_value v" and "key_const v k = Inr r"
  proof -
    from that obtain m where m: "object_map v = Inr m" by (auto simp: key_const_def bind_result_Inr)
    have "name_keys (map_resolve (name_key k) m)"
      using object_map_wf [OF wf m]
      unfolding name_keys_def by (intro map_resolve_all) (auto simp: name_key_def)
    with object_map_wf [OF wf m] wf m show ?thesis
      by (auto simp: resolveReference_def map_resolve_sorted wf_children_resolve wf_value_parts)
  qed
  show "key_const v' l = Inr (if c_string l = c_string k then Some (ref_value r) else r)"
    if "wf_value v" "resolveReference v k = Inr v'" "key_const v l = Inr r"
    using that object_map_wf [of v]
    by (auto simp: resolveReference_def key_const_def bind_result_Inr object_map_def map_of_map_resolve
        name_key_def)
  show "\<exists>r'. key_const v l = Inr r'" if "key_const v k = Inr r"
    using that by (auto simp: key_const_def bind_result_Inr)
qed

section \<open>Updates and well-formedness\<close>

lemma wf_value_children:
  "wf_value v \<longleftrightarrow> wf_comments (comments_of v) \<and>
     (case value_of v of
        V_array m \<Rightarrow> sorted_keys m \<and> index_keys m \<and> wf_children m
      | V_object m \<Rightarrow> sorted_keys m \<and> name_keys m \<and> wf_children m
      | p \<Rightarrow> wf_payload p)"
  by (cases v) (auto split: payload.splits)

lemma list_all_map_fst: "list_all (\<lambda>kv. P (fst kv)) m \<longleftrightarrow> list_all P (map fst m)"
  by (induction m) auto

lemma keys_same:
  assumes "map fst m' = map fst m"
  shows "sorted_keys m' \<longleftrightarrow> sorted_keys m" "index_keys m' \<longleftrightarrow> index_keys m" "name_keys m' \<longleftrightarrow> name_keys m"
proof -
  have all: "list_all (\<lambda>kv. P (fst kv)) m' \<longleftrightarrow> list_all (\<lambda>kv. P (fst kv)) m" for P
    using assms list_all_map_fst [of P] by metis
  show "sorted_keys m' \<longleftrightarrow> sorted_keys m" using assms by (simp add: sorted_keys_def)
  show "index_keys m' \<longleftrightarrow> index_keys m" "name_keys m' \<longleftrightarrow> name_keys m"
    unfolding index_keys_def name_keys_def by (rule all)+
qed

lemma members_update_wf:
  "members_update k f m = Inr m' \<Longrightarrow> wf_children m \<Longrightarrow>
     (\<And>v v'. wf_value v \<Longrightarrow> f v = Inr v' \<Longrightarrow> wf_value v') \<Longrightarrow> wf_children m'"
  by (induction k f m arbitrary: m' rule: members_update.induct) (auto simp: bind_result_Inr split: if_splits)

lemma members_update_keys: "members_update k f m = Inr m' \<Longrightarrow> map fst m' = map fst m"
  by (induction k f m arbitrary: m' rule: members_update.induct) (auto simp: bind_result_Inr split: if_splits)

lemma update_path_wf:
  "update_path p f v = Inr v' \<Longrightarrow> wf_value v \<Longrightarrow>
     (\<And>w w'. wf_value w \<Longrightarrow> f w = Inr w' \<Longrightarrow> wf_value w') \<Longrightarrow> wf_value v'"
proof (induction p arbitrary: v v')
  case (Cons k p)
  then obtain m where m: "members_update k (update_path p f) (children v) = Inr m" "v' = with_children v m"
    by (auto simp: bind_result_Inr)
  have "wf_children (children v)" using Cons.prems(2)
    by (cases v) (auto simp: children_def split: payload.splits)
  with members_update_wf [OF m(1)] Cons.IH Cons.prems(3) have "wf_children m" by blast
  with keys_same [OF members_update_keys [OF m(1)]] Cons.prems(2) m(2) show ?case
    by (auto simp: wf_value_children with_children_def children_def split: payload.splits)
qed simp

lemma index_ref_child:
  assumes "index_ref v i = Inr v'" and "wf_value v"
  shows "type_of v' = arrayValue" and "\<exists>w. map_of (children v') (index_key i) = Some w \<and> wf_value w"
proof -
  obtain m where m: "array_map v = Inr m" "v' = Value (V_array (map_resolve (index_key i) m)) (comments_of v)"
    using assms(1) by (auto simp: index_ref_def bind_result_Inr)
  note wf = array_map_wf [OF assms(2) m(1)]
  show "type_of v' = arrayValue" by (simp add: m)
  have "wf_children (map_resolve (index_key i) m)" using wf wf_children_resolve by blast
  then show "\<exists>w. map_of (children v') (index_key i) = Some w \<and> wf_value w"
    using map_of_map_resolve [of m "index_key i" "index_key i"] wf
    by (force simp: m children_def wf_children_all dest: map_of_SomeD)
qed

lemma resolveReference_child:
  assumes "resolveReference v k = Inr v'" and "wf_value v"
  shows "type_of v' = objectValue" and "\<exists>w. map_of (children v') (name_key k) = Some w \<and> wf_value w"
proof -
  obtain m where m: "object_map v = Inr m" "v' = Value (V_object (map_resolve (name_key k) m)) (comments_of v)"
    using assms(1) by (auto simp: resolveReference_def bind_result_Inr)
  note wf = object_map_wf [OF assms(2) m(1)]
  show "type_of v' = objectValue" by (simp add: m)
  have "wf_children (map_resolve (name_key k) m)" using wf wf_children_resolve by blast
  then show "\<exists>w. map_of (children v') (name_key k) = Some w \<and> wf_value w"
    using map_of_map_resolve [of m "name_key k" "name_key k"] wf
    by (force simp: m children_def wf_children_all dest: map_of_SomeD)
qed

lemma const_of_type:
  "type_of v = arrayValue \<Longrightarrow> index_const v i = Inr (map_of (children v) (index_key i))"
  "type_of v = objectValue \<Longrightarrow> key_const v k = Inr (map_of (children v) (name_key k))"
  by (cases v rule: type_of.cases;
      simp add: index_const_def key_const_def array_map_def object_map_def children_def)+

lemma wf_ref: "wf_value v \<Longrightarrow> index_ref v i = Inr v' \<Longrightarrow> wf_value v'"
  "wf_value v \<Longrightarrow> resolveReference v k = Inr v' \<Longrightarrow> wf_value v'"
  using arr.ref_returns [of v i] obj.ref_returns [of v k]
  by (auto simp: index_ref_def index_const_def resolveReference_def key_const_def bind_result_Inr)

lemma child_replaced:
  assumes "update_path [k] (\<lambda>_. Inr child) v = Inr v'" and "map_of (children v) k = Some w"
    and "wf_value v" and "wf_value child"
  shows "wf_value v'" "type_of v' = type_of v" "map_of (children v') k = Some child"
proof -
  show "wf_value v'" by (rule update_path_wf [OF assms(1,3)]) (auto simp: assms(4))
  obtain u' where "update_path [] (\<lambda>_. Inr child) w = Inr u'"
      "map_of (children v') = (map_of (children v))(k \<mapsto> u')" "type_of v' = type_of v"
    using update_path_step [OF assms(1,2)] by metis
  then show "type_of v' = type_of v" "map_of (children v') k = Some child" by simp_all
qed

end
