(* ===== verification/Jsoncpp_Reader.thy ===== *)
theory Jsoncpp_Reader
  imports Jsoncpp_Container Escape_Table
begin

text \<open>
  The parser of jsoncpp, \<^verbatim>\<open>json_reader.cpp\<close>. The state of a \<^verbatim>\<open>Reader\<close> is the record \<open>json_reader\<close>; a
  \<^verbatim>\<open>Location\<close> is a position in the document, and the character at the end is the NUL of
  \<^verbatim>\<open>c_str()\<close>. The stack \<^verbatim>\<open>nodes_\<close> and \<^verbatim>\<open>lastValue_\<close> hold pointers into the root value, which are
  access paths. \<^verbatim>\<open>readToken\<close> returns true on every path, so the tests of its result are left out.

  The recursion of \<^verbatim>\<open>readValue\<close>, \<^verbatim>\<open>readObject\<close> and \<^verbatim>\<open>readArray\<close> has fuel; \<open>None\<close> means that it ran
  out. The loops over tokens terminate because a token other than the end of the stream
  consumes text.
\<close>

section \<open>State\<close>

record features =
  allowComments :: bool
  strictRoot :: bool

definition features_all :: features where
  "features_all = \<lparr>allowComments = True, strictRoot = False\<rparr>"

definition features_strict :: features where
  "features_strict = \<lparr>allowComments = False, strictRoot = True\<rparr>"

datatype token_type =
    tokenEndOfStream | tokenObjectBegin | tokenObjectEnd | tokenArrayBegin | tokenArrayEnd
  | tokenString | tokenNumber | tokenTrue | tokenFalse | tokenNull | tokenArraySeparator
  | tokenMemberSeparator | tokenComment | tokenError

record token =
  tok_type :: token_type
  tok_start :: nat
  tok_end :: nat

record error_info =
  err_token :: token
  err_message :: string
  err_extra :: "nat option"

record 'd json_reader =
  r_document :: string
  r_current :: nat
  r_last_end :: "nat option"
  r_last :: "czstring list option"
  r_before :: string
  r_errors :: "error_info list"
  r_nodes :: "czstring list list"
  r_root :: "'d cvalue"
  r_collect :: bool
  r_features :: features

definition rest_text :: "'d json_reader \<Rightarrow> string" where
  "rest_text r = drop (r_current r) (r_document r)"

definition doc_slice :: "nat \<Rightarrow> nat \<Rightarrow> 'd json_reader \<Rightarrow> string" where
  "doc_slice a b r = take (b - a) (drop a (r_document r))"

definition advance :: "nat \<Rightarrow> 'd json_reader \<Rightarrow> 'd json_reader" where
  "advance n r = r\<lparr>r_current := r_current r + n\<rparr>"

text \<open>\<^verbatim>\<open>*p\<close> where the text from \<^verbatim>\<open>p\<close> on is given\<close>

fun peek :: "string \<Rightarrow> char" where
  "peek [] = nul"
| "peek (c # cs) = c"

definition currentValue_update ::
  "('d cvalue \<Rightarrow> 'd cvalue result) \<Rightarrow> 'd json_reader \<Rightarrow> 'd json_reader result" where
  "currentValue_update f r =
     (case r_nodes r of
        [] \<Rightarrow> Inl Null_Pointer
      | p # ps \<Rightarrow> bind_result (update_path p f (r_root r)) (\<lambda>root. Inr (r\<lparr>r_root := root\<rparr>)))"

definition currentValue_assign :: "'d cvalue \<Rightarrow> 'd json_reader \<Rightarrow> 'd json_reader result" where
  "currentValue_assign v r = currentValue_update (\<lambda>x. assign_value x v) r"

definition push_key :: "czstring \<Rightarrow> 'd json_reader \<Rightarrow> 'd json_reader" where
  "push_key k r = r\<lparr>r_nodes := (hd (r_nodes r) @ [k]) # r_nodes r\<rparr>"

definition pop_node :: "'d json_reader \<Rightarrow> 'd json_reader" where
  "pop_node r = r\<lparr>r_nodes := tl (r_nodes r)\<rparr>"

definition addError :: "string \<Rightarrow> token \<Rightarrow> nat option \<Rightarrow> 'd json_reader \<Rightarrow> bool \<times> 'd json_reader" where
  "addError message token extra r =
     (False, r\<lparr>r_errors := r_errors r @
        [\<lparr>err_token = token, err_message = message, err_extra = extra\<rparr>]\<rparr>)"

section \<open>Tokens\<close>

definition getNextChar :: "'d json_reader \<Rightarrow> char \<times> 'd json_reader" where
  "getNextChar r = (case rest_text r of [] \<Rightarrow> (nul, r) | c # cs \<Rightarrow> (c, advance 1 r))"

definition is_space :: "char \<Rightarrow> bool" where
  "is_space c \<longleftrightarrow> c = CHR '' '' \<or> c = CHR 0x09 \<or> c = CHR 0x0D \<or> c = CHR 0x0A"

fun skip_spaces :: "string \<Rightarrow> nat" where
  "skip_spaces [] = 0"
| "skip_spaces (c # cs) = (if is_space c then Suc (skip_spaces cs) else 0)"

definition skipSpaces :: "'d json_reader \<Rightarrow> 'd json_reader" where
  "skipSpaces r = advance (skip_spaces (rest_text r)) r"

fun match_from :: "nat \<Rightarrow> string \<Rightarrow> string \<Rightarrow> bool" where
  "match_from 0 pat s \<longleftrightarrow> True"
| "match_from (Suc index) pat s \<longleftrightarrow> (if s ! index \<noteq> pat ! index then False else match_from index pat s)"

definition match_pattern :: "string \<Rightarrow> 'd json_reader \<Rightarrow> bool \<times> 'd json_reader" where
  "match_pattern pat r =
     (if length (rest_text r) < length pat then (False, r)
      else if \<not> match_from (length pat) pat (rest_text r) then (False, r)
      else (True, advance (length pat) r))"

definition number_char :: "char \<Rightarrow> bool" where
  "number_char c \<longleftrightarrow> digit c \<or> c \<in> set ''.eE+-''"

fun read_number :: "string \<Rightarrow> nat" where
  "read_number [] = 0"
| "read_number (c # cs) = (if number_char c then Suc (read_number cs) else 0)"

definition readNumber :: "'d json_reader \<Rightarrow> 'd json_reader" where
  "readNumber r = advance (read_number (rest_text r)) r"

text \<open>The loop of \<^verbatim>\<open>readString\<close>: the last character read, and how many characters were read.\<close>

fun read_string :: "char \<Rightarrow> string \<Rightarrow> char \<times> nat" where
  "read_string c [] = (c, 0)"
| "read_string c (d # ds) =
     (if d = backslash then
        (case ds of
           [] \<Rightarrow> (d, 1)
         | e # es \<Rightarrow> (let (c', n) = read_string d es in (c', n + 2)))
      else if d = quote then (d, 1)
      else (let (c', n) = read_string d ds in (c', n + 1)))"

definition readString :: "'d json_reader \<Rightarrow> bool \<times> 'd json_reader" where
  "readString r = (let (c, n) = read_string nul (rest_text r) in (c = quote, advance n r))"

fun read_c_comment :: "string \<Rightarrow> bool \<times> nat" where
  "read_c_comment [] = (False, 0)"
| "read_c_comment (c # cs) =
     (if c = CHR ''*'' \<and> peek cs = CHR ''/'' then (True, 2)
      else (let (ok, n) = read_c_comment cs in (ok, n + 1)))"

fun read_cpp_comment :: "string \<Rightarrow> nat" where
  "read_cpp_comment [] = 0"
| "read_cpp_comment (c # cs) = (if c = CHR 0x0D \<or> c = CHR 0x0A then 1 else Suc (read_cpp_comment cs))"

definition readCStyleComment :: "'d json_reader \<Rightarrow> bool \<times> 'd json_reader" where
  "readCStyleComment r = (let (ok, n) = read_c_comment (rest_text r) in (ok, advance n r))"

definition readCppStyleComment :: "'d json_reader \<Rightarrow> bool \<times> 'd json_reader" where
  "readCppStyleComment r = (True, advance (read_cpp_comment (rest_text r)) r)"

definition containsNewLine :: "string \<Rightarrow> bool" where
  "containsNewLine s \<longleftrightarrow> list_ex (\<lambda>c. c = CHR 0x0A \<or> c = CHR 0x0D) s"

definition addComment :: "nat \<Rightarrow> nat \<Rightarrow> comment_placement \<Rightarrow> 'd json_reader \<Rightarrow> 'd json_reader result" where
  "addComment b e placement r =
     (if \<not> r_collect r then Inl Assertion_Failed
      else if placement = commentAfterOnSameLine then
        (case r_last r of
           None \<Rightarrow> Inl Assertion_Failed
         | Some p \<Rightarrow>
             bind_result (update_path p (setComment (doc_slice b e r) placement) (r_root r))
               (\<lambda>root. Inr (r\<lparr>r_root := root\<rparr>)))
      else Inr (r\<lparr>r_before :=
        (if r_before r \<noteq> [] then r_before r @ [CHR 0x0A] else []) @ doc_slice b e r\<rparr>))"

definition readComment :: "'d json_reader \<Rightarrow> (bool \<times> 'd json_reader) result" where
  "readComment r =
     (let commentBegin = r_current r - 1;
          (c, r1) = getNextChar r;
          (successful, r2) =
            (if c = CHR ''*'' then readCStyleComment r1
             else if c = CHR ''/'' then readCppStyleComment r1
             else (False, r1))
      in if \<not> successful then Inr (False, r2)
         else if r_collect r2 then
           (let placement =
              (case r_last_end r2 of
                 None \<Rightarrow> commentBefore
               | Some e \<Rightarrow>
                   if \<not> containsNewLine (doc_slice e commentBegin r2) \<and>
                      (c \<noteq> CHR ''*'' \<or> \<not> containsNewLine (doc_slice commentBegin (r_current r2) r2))
                   then commentAfterOnSameLine else commentBefore)
            in bind_result (addComment commentBegin (r_current r2) placement r2)
                 (\<lambda>r3. Inr (True, r3)))
         else Inr (True, r2))"

text \<open>The \<^verbatim>\<open>switch\<close> of \<^verbatim>\<open>readToken\<close>: the type, the flag \<^verbatim>\<open>ok\<close>, and the state after the token.\<close>

definition token_body :: "char \<Rightarrow> 'd json_reader \<Rightarrow> (token_type \<times> bool \<times> 'd json_reader) result" where
  "token_body c r =
     (if c = CHR ''{'' then Inr (tokenObjectBegin, True, r)
      else if c = CHR ''}'' then Inr (tokenObjectEnd, True, r)
      else if c = CHR ''['' then Inr (tokenArrayBegin, True, r)
      else if c = CHR '']'' then Inr (tokenArrayEnd, True, r)
      else if c = quote then Inr (tokenString, readString r)
      else if c = CHR ''/'' then bind_result (readComment r) (\<lambda>x. Inr (tokenComment, x))
      else if digit c \<or> c = CHR ''-'' then Inr (tokenNumber, True, readNumber r)
      else if c = CHR ''t'' then Inr (tokenTrue, match_pattern ''rue'' r)
      else if c = CHR ''f'' then Inr (tokenFalse, match_pattern ''alse'' r)
      else if c = CHR ''n'' then Inr (tokenNull, match_pattern ''ull'' r)
      else if c = CHR '','' then Inr (tokenArraySeparator, True, r)
      else if c = CHR '':'' then Inr (tokenMemberSeparator, True, r)
      else if c = nul then Inr (tokenEndOfStream, True, r)
      else Inr (tokenError, False, r))"

definition readToken :: "'d json_reader \<Rightarrow> (token \<times> 'd json_reader) result" where
  "readToken r =
     (let r1 = skipSpaces r;
          (c, r2) = getNextChar r1
      in bind_result (token_body c r2) (\<lambda>(ty, ok, r3).
           Inr (\<lparr>tok_type = (if ok then ty else tokenError), tok_start = r_current r1,
             tok_end = r_current r3\<rparr>, r3)))"

text \<open>What reading a token leaves unchanged, and that it consumes text.\<close>

definition same_frame :: "'d json_reader \<Rightarrow> 'd json_reader \<Rightarrow> bool" where
  "same_frame r r' \<longleftrightarrow>
     r_document r' = r_document r \<and> r_last_end r' = r_last_end r \<and> r_last r' = r_last r \<and>
     r_errors r' = r_errors r \<and> r_nodes r' = r_nodes r \<and> r_collect r' = r_collect r \<and>
     r_features r' = r_features r"

lemma same_frame_refl [simp]: "same_frame r r"
  by (simp add: same_frame_def)

lemma same_frame_trans [trans]: "same_frame r r' \<Longrightarrow> same_frame r' r'' \<Longrightarrow> same_frame r r''"
  by (simp add: same_frame_def)

lemma advance_simps [simp]:
  "r_document (advance n r) = r_document r" "r_current (advance n r) = r_current r + n"
  "r_root (advance n r) = r_root r" "r_last (advance n r) = r_last r" "r_before (advance n r) = r_before r"
  "r_last_end (advance n r) = r_last_end r" "r_collect (advance n r) = r_collect r"
  "r_nodes (advance n r) = r_nodes r" "r_errors (advance n r) = r_errors r"
  "same_frame r (advance n r)" "rest_text (advance n r) = drop n (rest_text r)"
  by (simp_all add: advance_def same_frame_def rest_text_def add.commute)

lemma addComment_frame: "addComment b e pl r = Inr r' \<Longrightarrow> same_frame r r' \<and> r_current r' = r_current r"
  by (auto simp: addComment_def same_frame_def bind_result_Inr split: if_splits option.splits)

lemma readComment_frame:
  assumes "readComment r = Inr (ok, r')"
  shows "same_frame r r' \<and> r_current r \<le> r_current r'"
proof -
  obtain c r1 where c: "getNextChar r = (c, r1)" by fastforce
  have r1: "same_frame r r1 \<and> r_current r \<le> r_current r1"
    using c by (auto simp: getNextChar_def split: list.splits)
  obtain succ r2 where r2: "(if c = CHR ''*'' then readCStyleComment r1
      else if c = CHR ''/'' then readCppStyleComment r1 else (False, r1)) = (succ, r2)" by fastforce
  then have "same_frame r1 r2 \<and> r_current r1 \<le> r_current r2"
    by (auto simp: readCStyleComment_def readCppStyleComment_def split: if_splits prod.splits)
  moreover have "same_frame r2 r' \<and> r_current r' = r_current r2"
    using assms c r2
    by (auto simp: readComment_def Let_def bind_result_Inr dest: addComment_frame split: if_splits)
  ultimately show ?thesis using r1 same_frame_trans by (metis order_trans)
qed

lemma read_frames [simp]:
  "same_frame r (readNumber r)" "r_current r \<le> r_current (readNumber r)"
  "same_frame r (snd (readString r))" "r_current r \<le> r_current (snd (readString r))"
  "same_frame r (snd (match_pattern p r))" "r_current r \<le> r_current (snd (match_pattern p r))"
  by (simp_all add: readNumber_def readString_def match_pattern_def split: prod.splits)

definition framed :: "'d json_reader \<Rightarrow> (token_type \<times> bool \<times> 'd json_reader) result \<Rightarrow> bool" where
  "framed r res \<longleftrightarrow>
     (\<forall>ty x. res = Inr (ty, x) \<longrightarrow> same_frame r (snd x) \<and> r_current r \<le> r_current (snd x))"

lemma framed_if: "framed r x \<Longrightarrow> framed r y \<Longrightarrow> framed r (if b then x else y)"
  by simp

lemma framed_Inr: "same_frame r (snd x) \<Longrightarrow> r_current r \<le> r_current (snd x) \<Longrightarrow> framed r (Inr (ty, x))"
  by (auto simp: framed_def)

lemma token_body_framed: "framed r (token_body c r)"
proof -
  have "framed r (bind_result (readComment r) (\<lambda>x. Inr (tokenComment, x)))"
    by (auto simp: framed_def bind_result_Inr dest: readComment_frame)
  then show ?thesis unfolding token_body_def by (intro framed_if) (auto intro!: framed_Inr)
qed

lemma token_body_nul: "token_body nul r = Inr (tokenEndOfStream, True, r)"
  by (simp add: token_body_def digit_def)

lemma token_body_frame:
  assumes "token_body c r = Inr (ty, ok, r')"
  shows "same_frame r r' \<and> r_current r \<le> r_current r' \<and> (c = nul \<longrightarrow> ty = tokenEndOfStream \<and> ok)"
  using token_body_framed [of r c] assms token_body_nul [of r] by (auto simp: framed_def)

lemma readToken_frame:
  assumes "readToken r = Inr (t, r')"
  shows "same_frame r r' \<and> r_current r \<le> r_current r' \<and> tok_end t = r_current r' \<and>
    (tok_type t \<noteq> tokenEndOfStream \<longrightarrow> r_current r < r_current r' \<and> r_current r < length (r_document r))"
proof -
  let ?r1 = "skipSpaces r"
  obtain c r2 where c: "getNextChar ?r1 = (c, r2)" by fastforce
  obtain ty ok where b: "token_body c r2 = Inr (ty, ok, r')"
    "t = \<lparr>tok_type = (if ok then ty else tokenError), tok_start = r_current ?r1, tok_end = r_current r'\<rparr>"
    using assms c by (auto simp: readToken_def bind_result_Inr)
  have r1: "same_frame r ?r1" "r_current r \<le> r_current ?r1" by (simp_all add: skipSpaces_def)
  have r2: "same_frame ?r1 r2" using c by (auto simp: getNextChar_def split: list.splits)
  note tb = token_body_frame [OF b(1)]
  have "same_frame r r'" using r1 r2 tb same_frame_trans by blast
  moreover have "r_current ?r1 \<le> r_current r2 \<and> (c \<noteq> nul \<longrightarrow> r_current ?r1 < r_current r2 \<and> rest_text ?r1 \<noteq> [])"
    using c by (auto simp: getNextChar_def split: list.splits)
  moreover have "r_current ?r1 < length (r_document r)" if "rest_text ?r1 \<noteq> []"
    using that r1(1) by (auto simp: rest_text_def skipSpaces_def)
  ultimately show ?thesis using tb r1(2) b(2) by (cases "c = nul") auto
qed

function skip_comments :: "'d json_reader \<Rightarrow> (token \<times> 'd json_reader) result" where
  "skip_comments r =
     bind_result (readToken r) (\<lambda>(token, r').
       if tok_type token = tokenComment then skip_comments r' else Inr (token, r'))"
  by pat_completeness auto
termination
  by (relation "measure (\<lambda>r. length (r_document r) - r_current r)")
    (auto dest!: readToken_frame simp: same_frame_def)

declare skip_comments.simps [simp del]

definition skipCommentTokens :: "'d json_reader \<Rightarrow> (token \<times> 'd json_reader) result" where
  "skipCommentTokens r = (if allowComments (r_features r) then skip_comments r else readToken r)"

function recover :: "token_type \<Rightarrow> 'd json_reader \<Rightarrow> 'd json_reader result" where
  "recover skipUntilToken r =
     bind_result (readToken r) (\<lambda>(skip, r').
       if tok_type skip = skipUntilToken \<or> tok_type skip = tokenEndOfStream then Inr r'
       else recover skipUntilToken r')"
  by pat_completeness auto
termination
  by (relation "measure (\<lambda>(ty, r). length (r_document r) - r_current r)")
    (auto dest!: readToken_frame simp: same_frame_def)

declare recover.simps [simp del]

definition recoverFromError :: "token_type \<Rightarrow> 'd json_reader \<Rightarrow> (bool \<times> 'd json_reader) result" where
  "recoverFromError skipUntilToken r =
     bind_result (recover skipUntilToken r)
       (\<lambda>r'. Inr (False, r'\<lparr>r_errors := take (length (r_errors r)) (r_errors r')\<rparr>))"

definition addErrorAndRecover ::
  "string \<Rightarrow> token \<Rightarrow> token_type \<Rightarrow> 'd json_reader \<Rightarrow> (bool \<times> 'd json_reader) result" where
  "addErrorAndRecover message token skipUntilToken r =
     recoverFromError skipUntilToken (snd (addError message token None r))"

definition expectToken :: "token_type \<Rightarrow> string \<Rightarrow> 'd json_reader \<Rightarrow> (bool \<times> token \<times> 'd json_reader) result" where
  "expectToken ty message r =
     bind_result (readToken r) (\<lambda>(token, r').
       if tok_type token \<noteq> ty then
         (let (ok, r'') = addError message token None r' in Inr (ok, token, r''))
       else Inr (True, token, r'))"

section \<open>Decoding\<close>

definition codePointToUTF8 :: "nat \<Rightarrow> string" where
  "codePointToUTF8 cp =
     (if cp \<le> 0x7F then [char_of cp]
      else if cp \<le> 0x7FF then
        [char_of (0xC0 OR (0x1F AND drop_bit 6 cp)), char_of (0x80 OR (0x3F AND cp))]
      else if cp \<le> 0xFFFF then
        [char_of (0xE0 OR (0xF AND drop_bit 12 cp)), char_of (0x80 OR (0x3F AND drop_bit 6 cp)),
         char_of (0x80 OR (0x3F AND cp))]
      else if cp \<le> 0x10FFFF then
        [char_of (0xF0 OR (0x7 AND drop_bit 18 cp)), char_of (0x80 OR (0x3F AND drop_bit 12 cp)),
         char_of (0x80 OR (0x3F AND drop_bit 6 cp)), char_of (0x80 OR (0x3F AND cp))]
      else [])"

text \<open>
  Decoding a string token works on the text between its quotes. An error is the message and
  the location that \<^verbatim>\<open>addError\<close> is given.
\<close>

type_synonym 'a decoded = "(string \<times> nat) + 'a"

definition hex_value :: "char \<Rightarrow> nat option" where
  "hex_value c =
     (let n = of_char c
      in if 48 \<le> n \<and> n \<le> 57 then Some (n - 48)
         else if 97 \<le> n \<and> n \<le> 102 then Some (n - 97 + 10)
         else if 65 \<le> n \<and> n \<le> 70 then Some (n - 65 + 10)
         else None)"

fun hex_loop :: "nat \<Rightarrow> nat \<Rightarrow> string \<Rightarrow> nat \<Rightarrow> (nat \<times> string \<times> nat) decoded" where
  "hex_loop 0 unicode s pos = Inr (unicode, s, pos)"
| "hex_loop (Suc n) unicode [] pos =
     Inl (''Bad unicode escape sequence in string: hexadecimal digit expected.'', pos)"
| "hex_loop (Suc n) unicode (c # s) pos =
     (case hex_value c of
        None \<Rightarrow> Inl (''Bad unicode escape sequence in string: hexadecimal digit expected.'', pos + 1)
      | Some h \<Rightarrow> hex_loop n (unicode * 16 + h) s (pos + 1))"

definition decodeUnicodeEscapeSequence :: "string \<Rightarrow> nat \<Rightarrow> (nat \<times> string \<times> nat) decoded" where
  "decodeUnicodeEscapeSequence s pos =
     (if length s < 4 then Inl (''Bad unicode escape sequence in string: four digits expected.'', pos)
      else hex_loop 4 0 s pos)"

definition decodeUnicodeCodePoint :: "string \<Rightarrow> nat \<Rightarrow> (nat \<times> string \<times> nat) decoded" where
  "decodeUnicodeCodePoint s pos =
     (case decodeUnicodeEscapeSequence s pos of
        Inl e \<Rightarrow> Inl e
      | Inr (unicode, s1, pos1) \<Rightarrow>
          if 0xD800 \<le> unicode \<and> unicode \<le> 0xDBFF then
            if length s1 < 6 then
              Inl (''additional six characters expected to parse unicode surrogate pair.'', pos1)
            else if s1 ! 0 = backslash then
              if s1 ! 1 = CHR ''u'' then
                (case decodeUnicodeEscapeSequence (drop 2 s1) (pos1 + 2) of
                   Inl e \<Rightarrow> Inl e
                 | Inr (surrogatePair, s2, pos2) \<Rightarrow>
                     Inr (0x10000 + push_bit 10 (unicode AND 0x3FF) + (surrogatePair AND 0x3FF), s2, pos2))
              else Inl (''expecting another '' @ [backslash] @
                ''u token to begin the second half of a unicode surrogate pair'', pos1 + 2)
            else Inl (''expecting another '' @ [backslash] @
              ''u token to begin the second half of a unicode surrogate pair'', pos1 + 1)
          else Inr (unicode, s1, pos1))"

lemma hex_loop_length: "hex_loop n u s pos = Inr (u', s', pos') \<Longrightarrow> length s = length s' + n \<and> pos' = pos + n"
  by (induction n u s pos rule: hex_loop.induct) (auto split: option.splits)

lemma escape_sequence_length:
  "decodeUnicodeEscapeSequence s pos = Inr (u, s', pos') \<Longrightarrow> length s = length s' + 4 \<and> pos' = pos + 4"
  by (auto simp: decodeUnicodeEscapeSequence_def split: if_splits dest!: hex_loop_length)

lemma code_point_length:
  "decodeUnicodeCodePoint s pos = Inr (u, s', pos') \<Longrightarrow> length s' < length s"
  by (auto simp: decodeUnicodeCodePoint_def split: sum.splits if_splits dest!: escape_sequence_length)

text \<open>The character of a one-letter escape.\<close>

definition simple_escape :: "char \<Rightarrow> char option" where
  "simple_escape c =
     (if c = quote then Some quote
      else if c = CHR ''/'' then Some (CHR ''/'')
      else if c = backslash then Some backslash
      else if c = CHR ''b'' then Some (CHR 0x08)
      else if c = CHR ''f'' then Some (CHR 0x0C)
      else if c = CHR ''n'' then Some (CHR 0x0A)
      else if c = CHR ''r'' then Some (CHR 0x0D)
      else if c = CHR ''t'' then Some (CHR 0x09)
      else None)"

function decode_loop :: "string \<Rightarrow> nat \<Rightarrow> string \<Rightarrow> string decoded" where
  "decode_loop [] pos decoded = Inr decoded"
| "decode_loop (c # s) pos decoded =
     (if c = quote then Inr decoded
      else if c = backslash then
        (case s of
           [] \<Rightarrow> Inl (''Empty escape sequence in string'', pos + 1)
         | e # s' \<Rightarrow>
             (case simple_escape e of
                Some d \<Rightarrow> decode_loop s' (pos + 2) (decoded @ [d])
              | None \<Rightarrow>
                  if e = CHR ''u'' then
                    (case decodeUnicodeCodePoint s' (pos + 2) of
                       Inl err \<Rightarrow> Inl err
                     | Inr (unicode, s'', pos') \<Rightarrow>
                         decode_loop s'' pos' (decoded @ codePointToUTF8 unicode))
                  else Inl (''Bad escape sequence in string'', pos + 2)))
      else decode_loop s (pos + 1) (decoded @ [c]))"
  by pat_completeness auto
termination
  by (relation "measure (\<lambda>(s, pos, d). length s)") (auto dest: code_point_length)

declare decode_loop.simps(2) [simp del]

definition decodeString_text :: "token \<Rightarrow> 'd json_reader \<Rightarrow> string decoded" where
  "decodeString_text token r =
     decode_loop (doc_slice (tok_start token + 1) (tok_end token - 1) r) (tok_start token + 1) []"

definition decodeString :: "token \<Rightarrow> 'd json_reader \<Rightarrow> (bool \<times> 'd json_reader) result" where
  "decodeString token r =
     (case decodeString_text token r of
        Inl (message, extra) \<Rightarrow> Inr (addError message token (Some extra) r)
      | Inr decoded \<Rightarrow>
          bind_result (currentValue_assign (value_of_string decoded) r) (\<lambda>r'. Inr (True, r')))"

definition not_a_number :: "token \<Rightarrow> 'd json_reader \<Rightarrow> bool \<times> 'd json_reader" where
  "not_a_number token r =
     addError (CHR 0x27 # doc_slice (tok_start token) (tok_end token) r @ CHR 0x27 # '' is not a number.'')
       token None r"

text \<open>The buffer of \<^verbatim>\<open>decodeDouble\<close> has 32 bytes, and \<^verbatim>\<open>buffer[length]\<close> is written for lengths up to 32.\<close>

definition decodeDouble :: "'d doubles \<Rightarrow> token \<Rightarrow> 'd json_reader \<Rightarrow> (bool \<times> 'd json_reader) result" where
  "decodeDouble D token r =
     (let text = doc_slice (tok_start token) (tok_end token) r
      in if length text = 32 then Inl Out_Of_Bounds
         else case d_scan D (c_string text) of
             None \<Rightarrow> Inr (not_a_number token r)
           | Some d \<Rightarrow> bind_result (currentValue_assign (value_double d) r) (\<lambda>r'. Inr (True, r')))"

datatype digits_result = Not_A_Number | Too_Big | Digits "32 word"

fun decode_digits :: "32 word \<Rightarrow> 32 word \<Rightarrow> string \<Rightarrow> digits_result" where
  "decode_digits threshold v [] = Digits v"
| "decode_digits threshold v (c # cs) =
     (if \<not> digit c then Not_A_Number
      else if v \<ge> threshold then Too_Big
      else decode_digits threshold (v * 10 + word_of_nat (of_char c - 48)) cs)"

definition number_is_double :: "string \<Rightarrow> bool" where
  "number_is_double s \<longleftrightarrow>
     list_ex (\<lambda>c. c \<in> set ''.eE+'') s \<or> list_ex (\<lambda>c. c = CHR ''-'') (tl s)"

definition decodeNumber :: "'d doubles \<Rightarrow> token \<Rightarrow> 'd json_reader \<Rightarrow> (bool \<times> 'd json_reader) result" where
  "decodeNumber D token r =
     (let text = doc_slice (tok_start token) (tok_end token) r
      in if number_is_double text then decodeDouble D token r
         else
           let isNegative = (peek text = CHR ''-'');
               threshold = (if isNegative then - minInt else maxUInt) div 10
           in case decode_digits threshold 0 (if isNegative then tl text else text) of
                Not_A_Number \<Rightarrow> Inr (not_a_number token r)
              | Too_Big \<Rightarrow> decodeDouble D token r
              | Digits v \<Rightarrow>
                  bind_result
                    (currentValue_assign
                      (if isNegative then value_int (- v)
                       else if v \<le> maxInt then value_int v
                       else value_uint v) r)
                    (\<lambda>r'. Inr (True, r')))"

section \<open>Values\<close>

text \<open>\<^verbatim>\<open>currentValue()[key]\<close> followed by \<^verbatim>\<open>nodes_.push\<close>\<close>

definition push_member :: "string \<Rightarrow> 'd json_reader \<Rightarrow> 'd json_reader result" where
  "push_member name r =
     bind_result (currentValue_update (\<lambda>v. resolveReference v name) r) (\<lambda>r'. Inr (push_key (name_key name) r'))"

definition push_element :: "nat \<Rightarrow> 'd json_reader \<Rightarrow> 'd json_reader result" where
  "push_element index r =
     bind_result (currentValue_update (\<lambda>v. index_ref v (word_of_nat index)) r)
       (\<lambda>r'. Inr (push_key (index_key (word_of_nat index)) r'))"

text \<open>The two blocks of \<^verbatim>\<open>readValue\<close> that handle comments.\<close>

definition flush_comments :: "'d json_reader \<Rightarrow> 'd json_reader result" where
  "flush_comments r =
     (if r_collect r \<and> r_before r \<noteq> [] then
        bind_result (currentValue_update (setComment (r_before r) commentBefore) r)
          (\<lambda>r'. Inr (r'\<lparr>r_before := []\<rparr>))
      else Inr r)"

definition note_last :: "'d json_reader \<Rightarrow> 'd json_reader" where
  "note_last r =
     (if r_collect r then r\<lparr>r_last_end := Some (r_current r), r_last := Some (hd (r_nodes r))\<rparr> else r)"

definition finish_value :: "(bool \<times> 'd json_reader) outcome \<Rightarrow> (bool \<times> 'd json_reader) outcome" where
  "finish_value x = bind_outcome x (\<lambda>(successful, r). Some (Inr (successful, note_last r)))"

text \<open>The messages with a quoted character.\<close>

definition quoted_char :: "char \<Rightarrow> string" where
  "quoted_char c = [CHR 0x27, c, CHR 0x27]"

fun readValue :: "'d doubles \<Rightarrow> nat \<Rightarrow> 'd json_reader \<Rightarrow> (bool \<times> 'd json_reader) outcome"
  and readObject_loop :: "'d doubles \<Rightarrow> nat \<Rightarrow> string \<Rightarrow> 'd json_reader \<Rightarrow> (bool \<times> 'd json_reader) outcome"
  and readArray_loop :: "'d doubles \<Rightarrow> nat \<Rightarrow> nat \<Rightarrow> 'd json_reader \<Rightarrow> (bool \<times> 'd json_reader) outcome" where
  "readValue D 0 r = None"
| "readValue D (Suc n) r =
     bind_outcome (Some (skipCommentTokens r)) (\<lambda>(token, r1).
       bind_outcome (Some (flush_comments r1)) (\<lambda>r2.
         let assign = (\<lambda>v. finish_value (Some (bind_result (currentValue_assign v r2) (\<lambda>r3. Inr (True, r3)))))
         in case tok_type token of
              tokenObjectBegin \<Rightarrow>
                finish_value (bind_outcome (Some (currentValue_assign (value_of_type D objectValue) r2))
                  (\<lambda>r3. readObject_loop D n [] r3))
            | tokenArrayBegin \<Rightarrow>
                finish_value (bind_outcome (Some (currentValue_assign (value_of_type D arrayValue) r2))
                  (\<lambda>r3.
                     let r4 = skipSpaces r3
                     in if peek (rest_text r4) = CHR '']'' then
                          bind_outcome (Some (readToken r4)) (\<lambda>(endArray, r5). Some (Inr (True, r5)))
                        else readArray_loop D n 0 r4))
            | tokenNumber \<Rightarrow> finish_value (Some (decodeNumber D token r2))
            | tokenString \<Rightarrow> finish_value (Some (decodeString token r2))
            | tokenTrue \<Rightarrow> assign (value_bool True)
            | tokenFalse \<Rightarrow> assign (value_bool False)
            | tokenNull \<Rightarrow> assign (value_of_type D nullValue)
            | _ \<Rightarrow> Some (Inr (addError ''Syntax error: value, object or array expected.'' token None r2))))"
| "readObject_loop D 0 name r = None"
| "readObject_loop D (Suc n) name r =
     bind_outcome (Some (skip_comments r)) (\<lambda>(tokenName, r1).
       if tok_type tokenName = tokenObjectEnd \<and> name = [] then Some (Inr (True, r1))
       else if tok_type tokenName \<noteq> tokenString then
         Some (addErrorAndRecover (''Missing '' @ quoted_char (CHR ''}'') @ '' or object member name'')
           tokenName tokenObjectEnd r1)
       else
         (case decodeString_text tokenName r1 of
            Inl (message, extra) \<Rightarrow>
              Some (recoverFromError tokenObjectEnd (snd (addError message tokenName (Some extra) r1)))
          | Inr name' \<Rightarrow>
              bind_outcome (Some (readToken r1)) (\<lambda>(colon, r2).
                if tok_type colon \<noteq> tokenMemberSeparator then
                  Some (addErrorAndRecover (''Missing '' @ quoted_char (CHR '':'') @ '' after object member name'')
                    colon tokenObjectEnd r2)
                else
                  bind_outcome (Some (push_member name' r2)) (\<lambda>r3.
                    bind_outcome (readValue D n r3) (\<lambda>(ok, r4).
                      let r5 = pop_node r4
                      in if \<not> ok then Some (recoverFromError tokenObjectEnd r5)
                         else
                           bind_outcome (Some (readToken r5)) (\<lambda>(comma, r6).
                             if tok_type comma \<noteq> tokenObjectEnd \<and> tok_type comma \<noteq> tokenArraySeparator \<and>
                                tok_type comma \<noteq> tokenComment then
                               Some (addErrorAndRecover
                                 (''Missing '' @ quoted_char (CHR '','') @ '' or '' @ quoted_char (CHR ''}'') @
                                  '' in object declaration'') comma tokenObjectEnd r6)
                             else
                               bind_outcome
                                 (Some (if tok_type comma = tokenComment then skip_comments r6
                                        else Inr (comma, r6)))
                                 (\<lambda>(comma', r7).
                                    if tok_type comma' = tokenObjectEnd then Some (Inr (True, r7))
                                    else readObject_loop D n name' r7)))))))"
| "readArray_loop D 0 index r = None"
| "readArray_loop D (Suc n) index r =
     bind_outcome (Some (push_element index r)) (\<lambda>r1.
       bind_outcome (readValue D n r1) (\<lambda>(ok, r2).
         let r3 = pop_node r2
         in if \<not> ok then Some (recoverFromError tokenArrayEnd r3)
            else
              bind_outcome (Some (skip_comments r3)) (\<lambda>(token, r4).
                let badTokenType = (tok_type token = tokenArraySeparator \<and> tok_type token = tokenArrayEnd)
                in if badTokenType then
                     Some (addErrorAndRecover
                       (''Missing '' @ quoted_char (CHR '','') @ '' or '' @ quoted_char (CHR '']'') @
                        '' in array declaration'') token tokenArrayEnd r4)
                   else if tok_type token = tokenArrayEnd then Some (Inr (True, r4))
                   else readArray_loop D n (index + 1) r4)))"

section \<open>Documents\<close>

definition json_reader_new :: "features \<Rightarrow> 'd json_reader" where
  "json_reader_new fs =
     \<lparr>r_document = [], r_current = 0, r_last_end = None, r_last = None, r_before = [], r_errors = [],
      r_nodes = [], r_root = null_value, r_collect = False, r_features = fs\<rparr>"

text \<open>\<^verbatim>\<open>parse(begin, end, root, collectComments)\<close> up to \<^verbatim>\<open>readValue\<close>: the state is reset.\<close>

definition parse_start :: "string \<Rightarrow> 'd cvalue \<Rightarrow> bool \<Rightarrow> 'd json_reader \<Rightarrow> 'd json_reader" where
  "parse_start doc root collectComments r =
     r\<lparr>r_document := doc, r_current := 0, r_last_end := None, r_last := None, r_before := [],
       r_errors := [], r_nodes := [[]], r_root := root,
       r_collect := (if \<not> allowComments (r_features r) then False else collectComments)\<rparr>"

definition parse_fuel :: "string \<Rightarrow> nat" where
  "parse_fuel doc = 2 * length doc + 3"

definition parse :: "'d doubles \<Rightarrow> string \<Rightarrow> 'd cvalue \<Rightarrow> bool \<Rightarrow> 'd json_reader \<Rightarrow> (bool \<times> 'd json_reader) outcome" where
  "parse D doc root collectComments r =
     bind_outcome (readValue D (parse_fuel doc) (parse_start doc root collectComments r)) (\<lambda>(successful, r1).
       bind_outcome (Some (skipCommentTokens r1)) (\<lambda>(token, r2).
         bind_outcome
           (Some (if r_collect r2 \<and> r_before r2 \<noteq> [] then
                    bind_result (setComment (r_before r2) commentAfter (r_root r2))
                      (\<lambda>root'. Inr (r2\<lparr>r_root := root'\<rparr>))
                  else Inr r2))
           (\<lambda>r3.
              if strictRoot (r_features r3) \<and> \<not> isArray (r_root r3) \<and> \<not> isObject (r_root r3) then
                Some (Inr (addError ''A valid JSON document must be either an array or an object value.''
                  \<lparr>tok_type = tokenError, tok_start = 0, tok_end = length doc\<rparr> None r3))
              else Some (Inr (successful, r3)))))"

text \<open>\<^verbatim>\<open>parse(std::istream&)\<close> reads up to the character \<^verbatim>\<open>(char)EOF\<close>.\<close>

definition parse_stream ::
  "'d doubles \<Rightarrow> string \<Rightarrow> 'd cvalue \<Rightarrow> bool \<Rightarrow> 'd json_reader \<Rightarrow> (bool \<times> 'd json_reader) outcome" where
  "parse_stream D sin root collectComments r =
     parse D (takeWhile (\<lambda>c. c \<noteq> CHR 0xFF) sin) root collectComments r"

section \<open>Error messages\<close>

fun location_loop :: "string \<Rightarrow> nat \<Rightarrow> nat \<Rightarrow> nat \<Rightarrow> nat \<Rightarrow> nat \<times> nat" where
  "location_loop [] current location lastLineStart line = (line, lastLineStart)"
| "location_loop (c # cs) current location lastLineStart line =
     (if current < location then
        if c = CHR 0x0D then
          (case cs of
             [] \<Rightarrow> location_loop cs (current + 1) location (current + 1) (line + 1)
           | d # ds \<Rightarrow>
               if d = CHR 0x0A then location_loop ds (current + 2) location (current + 2) (line + 1)
               else location_loop cs (current + 1) location (current + 1) (line + 1))
        else if c = CHR 0x0A then location_loop cs (current + 1) location (current + 1) (line + 1)
        else location_loop cs (current + 1) location lastLineStart line
      else (line, lastLineStart))"

definition getLocationLineAndColumn :: "nat \<Rightarrow> 'd json_reader \<Rightarrow> int \<times> int" where
  "getLocationLineAndColumn location r =
     (let (line, lastLineStart) = location_loop (r_document r) 0 location 0 0
      in (int line + 1, int location - int lastLineStart + 1))"

definition location_text :: "nat \<Rightarrow> 'd json_reader \<Rightarrow> string" where
  "location_text location r =
     (let (line, column) = getLocationLineAndColumn location r
      in ''Line '' @ show_int line @ '', Column '' @ show_int column)"

definition error_text :: "'d json_reader \<Rightarrow> error_info \<Rightarrow> string" where
  "error_text r err =
     ''* '' @ location_text (tok_start (err_token err)) r @ [CHR 0x0A] @
     ''  '' @ err_message err @ [CHR 0x0A] @
     (case err_extra err of
        None \<Rightarrow> []
      | Some location \<Rightarrow> ''See '' @ location_text location r @ '' for detail.'' @ [CHR 0x0A])"

definition getFormatedErrorMessages :: "'d json_reader \<Rightarrow> string" where
  "getFormatedErrorMessages r = concat (map (error_text r) (r_errors r))"

text \<open>\<^verbatim>\<open>operator>>\<close>: a new reader, comments collected, an exception with the messages on failure.\<close>

definition read_stream_value :: "'d doubles \<Rightarrow> string \<Rightarrow> 'd cvalue \<Rightarrow> 'd cvalue outcome" where
  "read_stream_value D sin root =
     bind_outcome (parse_stream D sin root True (json_reader_new features_all)) (\<lambda>(ok, r).
       if \<not> ok then Some (Inl (Runtime_Error (getFormatedErrorMessages r)))
       else Some (Inr (r_root r)))"

declare readValue.simps [simp del] readObject_loop.simps [simp del] readArray_loop.simps [simp del]

end
