(* ===== verification/Jsoncpp_Reader_Steps.thy ===== *)
theory Jsoncpp_Reader_Steps
  imports Jsoncpp_Reader
begin

text \<open>
  The invariant of the reader's state, \<open>reader_ok\<close>: the root is well-formed, the nodes on the
  stack and the last value are valid access paths, the nodes are prefixes of the top, and
  collected comments start with a slash. Reading a token changes comments only (\<open>token_step\<close>);
  assigning the current value, pushing a child and popping it change the subtree at the top of the
  stack only (\<open>value_step\<close>).
\<close>

section \<open>Outcomes\<close>

text \<open>The call returns, with a fault in \<open>E\<close> or a value in \<open>P\<close>.\<close>

definition returns :: "(fault \<Rightarrow> bool) \<Rightarrow> ('a \<Rightarrow> bool) \<Rightarrow> 'a outcome \<Rightarrow> bool" where
  "returns E P m \<longleftrightarrow>
     (case m of None \<Rightarrow> False | Some r \<Rightarrow> (case r of Inl f \<Rightarrow> E f | Inr x \<Rightarrow> P x))"

lemma returns_simps [simp]:
  "\<not> returns E P None" "returns E P (Some (Inl f)) \<longleftrightarrow> E f" "returns E P (Some (Inr x)) \<longleftrightarrow> P x"
  by (simp_all add: returns_def)

lemma returns_bind:
  assumes "returns E P m" and "\<And>x. P x \<Longrightarrow> returns E Q (f x)"
  shows "returns E Q (bind_outcome m f)"
proof (cases m)
  case (Some r)
  with assms show ?thesis by (cases r) auto
qed (use assms(1) in simp)

lemma returns_mono: "returns E P m \<Longrightarrow> (\<And>x. P x \<Longrightarrow> Q x) \<Longrightarrow> returns E Q m"
  by (auto simp: returns_def split: option.splits sum.splits)

lemma returns_Some_bind: "returns E Q (Some (bind_result m f)) \<longleftrightarrow> returns E Q (bind_outcome (Some m) (\<lambda>x. Some (f x)))"
  by (cases m) auto

section \<open>The invariant\<close>

definition slash_text :: "string \<Rightarrow> bool" where
  "slash_text s \<longleftrightarrow> s = [] \<or> hd s = CHR ''/''"

definition reader_ok :: "'d json_reader \<Rightarrow> bool" where
  "reader_ok r \<longleftrightarrow>
     wf_value (r_root r) \<and> r_nodes r \<noteq> [] \<and>
     (\<forall>p \<in> set (r_nodes r). prefix p (hd (r_nodes r))) \<and> kind_at (hd (r_nodes r)) (r_root r) \<noteq> None \<and>
     (r_last r = None \<longrightarrow> r_last_end r = None) \<and>
     (\<forall>p. r_last r = Some p \<longrightarrow> kind_at p (r_root r) \<noteq> None) \<and>
     (\<not> r_collect r \<longrightarrow> r_last r = None) \<and> slash_text (r_before r)"

lemma setComment_slash: "slash_text s \<Longrightarrow> \<exists>v'. setComment s pl v = Inr v'"
  by (cases s) (auto simp: setComment_def comment_set_text_def slash_text_def c_string_def Let_def)

lemma setComment_inert:
  "setComment s pl v = Inr v' \<Longrightarrow> children v' = children v \<and> type_of v' = type_of v"
  by (cases v; cases "value_of v") (auto simp: setComment_def bind_result_Inr children_def)

lemma kind_at_Some: "kind_at p v \<noteq> None \<longleftrightarrow> (\<exists>w. at_path p v = Some w)"
  by (auto simp: kind_at_def)

lemma comment_path:
  assumes "wf_value root" and "kind_at p root \<noteq> None" and "slash_text s"
  shows "\<exists>root'. update_path p (setComment s pl) root = Inr root' \<and> wf_value root' \<and>
    (\<forall>q. kind_at q root' = kind_at q root)"
proof -
  obtain w where w: "at_path p root = Some w" using assms(2) kind_at_Some by blast
  obtain w' where w': "setComment s pl w = Inr w'" using setComment_slash [OF assms(3)] by blast
  obtain root' where root': "update_path p (setComment s pl) root = Inr root'"
    using update_path_returns [OF w, of "setComment s pl"] w' by blast
  have "wf_value root'" by (rule update_path_wf [OF root' assms(1)]) (rule setComment_wf)
  moreover have "kind_at q root' = kind_at q root" for q
    using kind_update_inert [OF root' w w'] setComment_inert [OF w'] by blast
  ultimately show ?thesis using root' by blast
qed

section \<open>Tokens\<close>

text \<open>Everything a token may change.\<close>

definition token_step :: "'d json_reader \<Rightarrow> 'd json_reader \<Rightarrow> bool" where
  "token_step r r' \<longleftrightarrow>
     same_frame r r' \<and> r_current r \<le> r_current r' \<and> reader_ok r' \<and>
     (\<forall>q. kind_at q (r_root r') = kind_at q (r_root r))"

lemma token_step_refl: "reader_ok r \<Longrightarrow> token_step r r"
  by (simp add: token_step_def)

lemma token_step_trans [trans]: "token_step r r' \<Longrightarrow> token_step r' r'' \<Longrightarrow> token_step r r''"
  by (auto simp: token_step_def intro: same_frame_trans)

lemma reader_ok_advance [simp]: "reader_ok (advance n r) \<longleftrightarrow> reader_ok r"
  by (simp add: reader_ok_def)

lemma token_step_advance: "reader_ok r \<Longrightarrow> token_step r (advance n r)"
  by (simp add: token_step_def)

lemma addComment_step:
  assumes "reader_ok r" and "r_collect r" and "slash_text (doc_slice b e r)"
    and "pl = commentAfterOnSameLine \<longrightarrow> r_last r \<noteq> None"
  shows "\<exists>r'. addComment b e pl r = Inr r' \<and> token_step r r'"
proof (cases "pl = commentAfterOnSameLine")
  case True
  with assms(4) obtain p where p: "r_last r = Some p" by blast
  with assms(1) have "wf_value (r_root r)" "kind_at p (r_root r) \<noteq> None" by (auto simp: reader_ok_def)
  from comment_path [OF this assms(3), of pl] obtain root' where
    "update_path p (setComment (doc_slice b e r) pl) (r_root r) = Inr root'" "wf_value root'"
    "\<And>q. kind_at q root' = kind_at q (r_root r)" by blast
  with True p assms(1,2) show ?thesis
    by (auto simp: addComment_def token_step_def same_frame_def reader_ok_def)
next
  case False
  then show ?thesis
    using assms by (auto simp: addComment_def token_step_def same_frame_def reader_ok_def slash_text_def)
qed

lemma readComment_step:
  assumes "reader_ok r" and "0 < r_current r" and "r_current r \<le> length (r_document r)"
    and "r_document r ! (r_current r - 1) = CHR ''/''"
  shows "\<exists>ok r'. readComment r = Inr (ok, r') \<and> token_step r r'"
proof -
  obtain c r1 where c: "getNextChar r = (c, r1)" by fastforce
  have r1: "token_step r r1" using c assms(1) by (auto simp: getNextChar_def token_step_advance token_step_refl split: list.splits)
  obtain succ r2 where r2: "(if c = CHR ''*'' then readCStyleComment r1
      else if c = CHR ''/'' then readCppStyleComment r1 else (False, r1)) = (succ, r2)" by fastforce
  have "token_step r1 r2" using r2 r1
    by (auto simp: readCStyleComment_def readCppStyleComment_def token_step_refl token_step_advance token_step_def [of r]
        split: if_splits prod.splits)
  with r1 have step: "token_step r r2" by (rule token_step_trans)
  show ?thesis
  proof (cases "succ \<and> r_collect r2")
    case True
    let ?b = "r_current r - 1"
    have doc: "r_document r2 = r_document r" "r_current r \<le> r_current r2" "reader_ok r2"
      using step by (auto simp: token_step_def same_frame_def)
    have "slash_text (doc_slice ?b (r_current r2) r2)"
      using assms(2-4) doc by (auto simp: doc_slice_def slash_text_def hd_drop_conv_nth)
    moreover have "r_last_end r2 \<noteq> None \<Longrightarrow> r_last r2 \<noteq> None" using doc(3)
      by (auto simp: reader_ok_def split: option.splits)
    ultimately obtain r3 where "addComment ?b (r_current r2)
        (case r_last_end r2 of None \<Rightarrow> commentBefore
         | Some e \<Rightarrow> if \<not> containsNewLine (doc_slice e ?b r2) \<and>
             (c \<noteq> CHR ''*'' \<or> \<not> containsNewLine (doc_slice ?b (r_current r2) r2))
           then commentAfterOnSameLine else commentBefore) r2 = Inr r3" "token_step r2 r3"
      using addComment_step [OF doc(3), of ?b "r_current r2"] True by (fastforce split: option.splits)
    moreover from this True have "readComment r = Inr (True, r3)"
      by (simp add: readComment_def c r2 Let_def del: One_nat_def)
    ultimately show ?thesis using token_step_trans [OF step] by blast
  next
    case False
    then show ?thesis using c r2 step by (auto simp: readComment_def Let_def)
  qed
qed

lemma rest_Cons:
  assumes "rest_text r = c # cs"
  shows "r_current r < length (r_document r)" and "r_document r ! r_current r = c"
proof -
  show "r_current r < length (r_document r)" using assms by (cases "r_current r < length (r_document r)") (auto simp: rest_text_def)
  then show "r_document r ! r_current r = c" using assms hd_drop_conv_nth [of "r_current r" "r_document r"]
    by (simp add: rest_text_def)
qed

lemma skip_spaces_step: "reader_ok r \<Longrightarrow> token_step r (skipSpaces r)"
  by (simp add: skipSpaces_def token_step_advance)

lemma read_steps:
  assumes "reader_ok r"
  shows "token_step r (readNumber r)" "token_step r (snd (readString r))" "token_step r (snd (match_pattern p r))"
  using assms
  by (simp_all add: readNumber_def readString_def match_pattern_def token_step_advance token_step_refl
      split: prod.splits)

definition stepped :: "'d json_reader \<Rightarrow> (token_type \<times> bool \<times> 'd json_reader) result \<Rightarrow> bool" where
  "stepped r res \<longleftrightarrow> (\<exists>ty x. res = Inr (ty, x) \<and> token_step r (snd x))"

lemma stepped_if: "(b \<Longrightarrow> stepped r x) \<Longrightarrow> stepped r y \<Longrightarrow> stepped r (if b then x else y)"
  by simp

lemma stepped_Inr: "token_step r (snd x) \<Longrightarrow> stepped r (Inr (ty, x))"
  by (auto simp: stepped_def)

lemma token_body_step:
  assumes "reader_ok r"
    and "c = CHR ''/'' \<Longrightarrow> 0 < r_current r \<and> r_current r \<le> length (r_document r) \<and>
      r_document r ! (r_current r - 1) = CHR ''/''"
  shows "stepped r (token_body c r)"
proof -
  have "stepped r (bind_result (readComment r) (\<lambda>x. Inr (tokenComment, x)))" if "c = CHR ''/''"
    using readComment_step [OF assms(1)] assms(2) [OF that] by (auto simp: stepped_def)
  then show ?thesis
    unfolding token_body_def
    by (intro stepped_if) (auto intro!: stepped_Inr simp: token_step_refl read_steps assms(1))
qed

lemma readToken_step:
  assumes "reader_ok r"
  shows "\<exists>t r'. readToken r = Inr (t, r') \<and> token_step r r'"
proof -
  let ?r1 = "skipSpaces r"
  have r1: "token_step r ?r1" using assms by (rule skip_spaces_step)
  obtain c r2 where c: "getNextChar ?r1 = (c, r2)" by fastforce
  have r2: "token_step ?r1 r2" using c r1
    by (auto simp: getNextChar_def token_step_advance token_step_refl token_step_def [of r] split: list.splits)
  have "0 < r_current r2 \<and> r_current r2 \<le> length (r_document r2) \<and> r_document r2 ! (r_current r2 - 1) = CHR ''/''"
    if "c = CHR ''/''"
    using c that rest_Cons [of ?r1] by (auto simp: getNextChar_def split: list.splits)
  with token_body_step [of r2 c] r2 obtain ty x where "token_body c r2 = Inr (ty, x)" "token_step r2 (snd x)"
    by (auto simp: stepped_def token_step_def)
  then show ?thesis using c token_step_trans [OF token_step_trans [OF r1 r2]]
    by (cases x) (auto simp: readToken_def Let_def)
qed

lemma token_body_number:
  "token_body c r = Inr (tokenNumber, x) \<Longrightarrow> number_char c \<and> x = (True, readNumber r)"
  by (simp add: token_body_def bind_result_Inr number_char_def split: if_split_asm) auto

lemma take_read_number: "list_all number_char (take (read_number s) s)"
  by (induction s) auto

lemma doc_slice_rest: "doc_slice (r_current r) (r_current r + n) r = take n (rest_text r)"
  by (simp add: doc_slice_def rest_text_def)

lemma readToken_number:
  assumes "readToken r = Inr (t, r')" and "tok_type t = tokenNumber"
  shows "list_all number_char (doc_slice (tok_start t) (tok_end t) r')"
proof -
  let ?r1 = "skipSpaces r"
  obtain c r2 where c: "getNextChar ?r1 = (c, r2)" by fastforce
  obtain ty ok where b: "token_body c r2 = Inr (ty, ok, r')"
    "t = \<lparr>tok_type = (if ok then ty else tokenError), tok_start = r_current ?r1, tok_end = r_current r'\<rparr>"
    using assms c by (auto simp: readToken_def bind_result_Inr)
  then have n: "token_body c r2 = Inr (tokenNumber, True, r')" using assms(2) by (auto split: if_splits)
  then have r': "number_char c" "r' = readNumber r2" using token_body_number by blast+
  then have "c \<noteq> nul" by (auto simp: number_char_def digit_def)
  then obtain cs where cs: "rest_text ?r1 = c # cs" "r2 = advance 1 ?r1"
    using c by (auto simp: getNextChar_def split: list.splits)
  have "doc_slice (tok_start t) (tok_end t) r' = c # take (read_number cs) cs"
    using b(2) r'(2) cs doc_slice_rest [of ?r1 "Suc (read_number cs)"]
    by (simp add: readNumber_def doc_slice_def)
  with r'(1) take_read_number [of cs] show ?thesis by simp
qed

definition got :: "'d json_reader \<Rightarrow> token \<Rightarrow> 'd json_reader \<Rightarrow> bool" where
  "got r t r' \<longleftrightarrow>
     token_step r r' \<and>
     (tok_type t \<noteq> tokenEndOfStream \<longrightarrow> r_current r < r_current r' \<and> r_current r < length (r_document r)) \<and>
     (tok_type t = tokenNumber \<longrightarrow> list_all number_char (doc_slice (tok_start t) (tok_end t) r'))"

lemma readToken_got: "reader_ok r \<Longrightarrow> \<exists>t r'. readToken r = Inr (t, r') \<and> got r t r'"
  using readToken_step [of r] readToken_frame [of r] readToken_number [of r] unfolding got_def by blast

lemma skip_comments_got: "reader_ok r \<Longrightarrow> \<exists>t r'. skip_comments r = Inr (t, r') \<and> got r t r'"
proof (induction r rule: skip_comments.induct)
  case (1 r)
  from readToken_got [OF 1(2)] obtain t r' where t: "readToken r = Inr (t, r')" "got r t r'" by blast
  show ?case
  proof (cases "tok_type t = tokenComment")
    case True
    have "reader_ok r'" using t(2) by (simp add: got_def token_step_def)
    from 1(1) [OF t(1) refl True this] obtain t' r'' where
      "skip_comments r' = Inr (t', r'')" "got r' t' r''" by blast
    moreover from this t(2) True have "got r t' r''"
      by (auto simp: got_def token_step_def same_frame_def)
    ultimately show ?thesis using t True by (subst skip_comments.simps) simp
  next
    case False
    then show ?thesis using t by (subst skip_comments.simps) simp
  qed
qed

lemma skipCommentTokens_got: "reader_ok r \<Longrightarrow> \<exists>t r'. skipCommentTokens r = Inr (t, r') \<and> got r t r'"
  by (simp add: skipCommentTokens_def skip_comments_got readToken_got)

lemma recover_step: "reader_ok r \<Longrightarrow> \<exists>r'. recover ty r = Inr r' \<and> token_step r r'"
proof (induction ty r rule: recover.induct)
  case (1 ty r)
  from readToken_got [OF 1(2)] obtain t r' where t: "readToken r = Inr (t, r')" "got r t r'" by blast
  then have r': "token_step r r'" "reader_ok r'" by (auto simp: got_def token_step_def)
  show ?case
  proof (cases "tok_type t = ty \<or> tok_type t = tokenEndOfStream")
    case True
    then show ?thesis using t r' by (subst recover.simps) simp
  next
    case False
    from 1(1) [OF t(1) refl False r'(2)] obtain r'' where "recover ty r' = Inr r''" "token_step r' r''" by blast
    then show ?thesis using t r' False token_step_trans by (subst recover.simps) fastforce
  qed
qed

section \<open>Values\<close>

text \<open>Reading a value at the access path \<open>p\<close> changes the kinds of nodes at and below \<open>p\<close> only.\<close>

definition value_step :: "czstring list \<Rightarrow> 'd json_reader \<Rightarrow> 'd json_reader \<Rightarrow> bool" where
  "value_step p r r' \<longleftrightarrow>
     r_document r' = r_document r \<and> r_nodes r' = r_nodes r \<and> r_collect r' = r_collect r \<and>
     r_features r' = r_features r \<and> r_current r \<le> r_current r' \<and> reader_ok r' \<and>
     (\<forall>q. \<not> prefix p q \<longrightarrow> kind_at q (r_root r') = kind_at q (r_root r))"

lemma value_step_trans [trans]: "value_step p r r' \<Longrightarrow> value_step p r' r'' \<Longrightarrow> value_step p r r''"
  by (auto simp: value_step_def)

lemma token_value_step: "token_step r r' \<Longrightarrow> value_step p r r'"
  by (auto simp: value_step_def token_step_def same_frame_def)

lemma reader_ok_errors [simp]: "reader_ok (r\<lparr>r_errors := es\<rparr>) \<longleftrightarrow> reader_ok r"
  by (simp add: reader_ok_def)

lemma value_step_errors [simp]: "value_step p r (r'\<lparr>r_errors := es\<rparr>) \<longleftrightarrow> value_step p r r'"
  by (simp add: value_step_def)

text \<open>
  Assigning to the node at \<open>p\<close> destroys what is below it; the last value must not be there.
\<close>

definition far :: "czstring list \<Rightarrow> 'd json_reader \<Rightarrow> bool" where
  "far p r \<longleftrightarrow> (\<forall>l. r_last r = Some l \<longrightarrow> \<not> strict_prefix p l)"

definition near :: "czstring list \<Rightarrow> 'd json_reader \<Rightarrow> bool" where
  "near p r \<longleftrightarrow> (\<forall>l. r_last r = Some l \<longrightarrow> \<not> strict_prefix p l \<or> (\<exists>k. l = p @ [k]))"

lemma far_near: "far p r \<Longrightarrow> near p r"
  by (simp add: far_def near_def)

lemma near_far:
  assumes "near p r" shows "far (p @ [k]) r"
  unfolding far_def
proof (intro allI impI notI)
  fix l assume l: "r_last r = Some l" "strict_prefix (p @ [k]) l"
  then obtain s where s: "l = (p @ [k]) @ s" "s \<noteq> []" by (auto simp: strict_prefix_def prefix_def)
  with assms l(1) show False by (auto simp: near_def strict_prefix_def)
qed

lemma top_node:
  assumes "reader_ok r" and "hd (r_nodes r) = p"
  obtains ps w where "r_nodes r = p # ps" "at_path p (r_root r) = Some w" "kind_at p (r_root r) = Some (type_of w)"
  using assms by (cases "r_nodes r") (auto simp: reader_ok_def kind_at_def)

lemma type_of_payload: "type_of (Value (value_of v) c) = type_of v"
  by (cases v rule: type_of.cases) simp_all

lemma update_nodes:
  assumes ok: "reader_ok r" and top: "hd (r_nodes r) = p"
    and root: "update_path p f (r_root r) = Inr root'" "at_path p (r_root r) = Some w" "f w = Inr w'"
    and wf: "wf_value root'" and last: "\<And>l. r_last r = Some l \<Longrightarrow> kind_at l root' \<noteq> None"
  shows "value_step p r (r\<lparr>r_root := root'\<rparr>) \<and> kind_at p root' = Some (type_of w') \<and>
    currentValue_update f r = Inr (r\<lparr>r_root := root'\<rparr>)"
proof -
  obtain ps where nodes: "r_nodes r = p # ps" using ok top by (rule top_node)
  have "kind_at p root' = Some (type_of w')" using at_update_same [OF root] by (simp add: kind_at_def)
  moreover have "reader_ok (r\<lparr>r_root := root'\<rparr>)"
    using ok top wf last calculation by (auto simp: reader_ok_def)
  ultimately show ?thesis
    using kind_update_outside [OF root(1,2)] root(1) nodes by (auto simp: value_step_def currentValue_update_def)
qed

lemma currentValue_assign_step:
  assumes ok: "reader_ok r" and top: "hd (r_nodes r) = p" and far: "far p r" and v: "wf_value v"
  shows "\<exists>root'. currentValue_assign v r = Inr (r\<lparr>r_root := root'\<rparr>) \<and>
    value_step p r (r\<lparr>r_root := root'\<rparr>) \<and> kind_at p root' = Some (type_of v)"
proof -
  let ?f = "\<lambda>x. assign_value x v"
  obtain ps w where nodes: "r_nodes r = p # ps" and w: "at_path p (r_root r) = Some w"
    using ok top by (rule top_node)
  let ?w' = "Value (value_of v) (comments_of w)"
  have w': "?f w = Inr ?w'" using v by (simp add: assign_wf)
  obtain root' where root': "update_path p ?f (r_root r) = Inr root'"
    using update_path_returns [OF w, of ?f] w' by blast
  have wf: "wf_value root'"
    by (rule update_path_wf [OF root']) (use ok v in \<open>auto simp: reader_ok_def assign_wf wf_value_parts\<close>)
  have "kind_at l root' \<noteq> None" if "r_last r = Some l" for l
  proof (cases "prefix p l")
    case True
    then have "l = p" using far that by (auto simp: far_def strict_prefix_def)
    then show ?thesis using at_update_same [OF root' w w'] by (simp add: kind_at_def)
  next
    case False
    then show ?thesis using kind_update_outside [OF root' w] ok that by (auto simp: reader_ok_def)
  qed
  from update_nodes [OF ok top root' w w' wf this] show ?thesis
    by (auto simp: currentValue_assign_def type_of_payload)
qed

lemma wf_at_path: "wf_value v \<Longrightarrow> at_path p v = Some w \<Longrightarrow> wf_value w"
proof (induction p arbitrary: v)
  case (Cons k p)
  then obtain u where u: "map_of (children v) k = Some u" "at_path p u = Some w"
    by (auto split: option.splits)
  have "wf_children (children v)" using Cons.prems(1)
    by (cases v) (auto simp: children_def split: payload.splits)
  then have "wf_value u" using map_of_SomeD [OF u(1)] by (auto simp: wf_children_all)
  then show ?case using Cons.IH u(2) by blast
qed simp

text \<open>Resolving a key of the current value, and pushing the child.\<close>

lemma push_step:
  assumes ok: "reader_ok r" and top: "hd (r_nodes r) = p"
    and w: "at_path p (r_root r) = Some w" and f: "f w = Inr w'" "type_of w' = type_of w"
    and m: "map_of (children w') = (map_of (children w))(k \<mapsto> ref_value (map_of (children w) k))"
    and wf: "\<And>x x'. wf_value x \<Longrightarrow> f x = Inr x' \<Longrightarrow> wf_value x'"
  shows "\<exists>root'. currentValue_update f r = Inr (r\<lparr>r_root := root'\<rparr>) \<and>
    value_step p r (r\<lparr>r_root := root'\<rparr>) \<and> kind_at p root' = Some (type_of w) \<and>
    reader_ok (push_key k (r\<lparr>r_root := root'\<rparr>))"
proof -
  obtain ps where nodes: "r_nodes r = p # ps" using ok top by (rule top_node)
  obtain root' where root': "update_path p f (r_root r) = Inr root'"
    using update_path_returns [OF w, of f] f(1) by blast
  have wfr: "wf_value root'" by (rule update_path_wf [OF root']) (use ok wf in \<open>auto simp: reader_ok_def\<close>)
  have mono: "kind_at q root' \<noteq> None" if "kind_at q (r_root r) \<noteq> None" for q
  proof (cases "prefix p q")
    case True
    then obtain s where q: "q = p @ s" by (auto elim: prefixE)
    have "kind_at s w \<noteq> None" using that w q by (auto simp: kind_at_def at_path_append)
    then have "kind_at s w' \<noteq> None"
      using m by (cases s) (auto simp: kind_at_Cons ref_value_def split: option.splits if_splits)
    then show ?thesis using at_update_below [OF root' w f(1), of s] q by (simp add: kind_at_def)
  next
    case False
    then show ?thesis using kind_update_outside [OF root' w] that by simp
  qed
  from ok have "kind_at l root' \<noteq> None" if "r_last r = Some l" for l
    using that mono by (auto simp: reader_ok_def)
  note up = update_nodes [OF ok top root' w f(1) wfr this]
  have "kind_at (p @ [k]) root' \<noteq> None"
    using at_update_below [OF root' w f(1), of "[k]"] m by (simp add: kind_at_def)
  then have "reader_ok (push_key k (r\<lparr>r_root := root'\<rparr>))"
    using up nodes by (auto simp: reader_ok_def push_key_def value_step_def)
  with up f(2) show ?thesis by auto
qed

lemma push_member_step:
  assumes ok: "reader_ok r" and top: "hd (r_nodes r) = p" and obj: "kind_at p (r_root r) = Some objectValue"
  shows "\<exists>root'. push_member name r = Inr (push_key (name_key name) (r\<lparr>r_root := root'\<rparr>)) \<and>
    value_step p r (r\<lparr>r_root := root'\<rparr>) \<and> kind_at p root' = Some objectValue \<and>
    reader_ok (push_key (name_key name) (r\<lparr>r_root := root'\<rparr>))"
proof -
  obtain w where w: "at_path p (r_root r) = Some w" "type_of w = objectValue"
    using obj by (auto simp: kind_at_def)
  then have wf: "wf_value w" using ok wf_at_path by (auto simp: reader_ok_def)
  obtain m c where m: "w = Value (V_object m) c" using w(2) by (cases w rule: type_of.cases) auto
  have s: "sorted_keys m" using wf m by simp
  let ?w' = "Value (V_object (map_resolve (name_key name) m)) c"
  have "resolveReference w name = Inr ?w'" by (simp add: m resolveReference_def object_map_def)
  from push_step [OF ok top w(1), where f = "\<lambda>v. resolveReference v name" and k = "name_key name", OF this]
  show ?thesis using wf_ref w(2) map_of_map_resolve [OF s]
    by (fastforce simp: push_member_def m children_def)
qed

lemma push_element_step:
  assumes ok: "reader_ok r" and top: "hd (r_nodes r) = p" and arr: "kind_at p (r_root r) = Some arrayValue"
  shows "\<exists>root'. push_element i r = Inr (push_key (index_key (word_of_nat i)) (r\<lparr>r_root := root'\<rparr>)) \<and>
    value_step p r (r\<lparr>r_root := root'\<rparr>) \<and> kind_at p root' = Some arrayValue \<and>
    reader_ok (push_key (index_key (word_of_nat i)) (r\<lparr>r_root := root'\<rparr>))"
proof -
  obtain w where w: "at_path p (r_root r) = Some w" "type_of w = arrayValue"
    using arr by (auto simp: kind_at_def)
  then have wf: "wf_value w" using ok wf_at_path by (auto simp: reader_ok_def)
  obtain m c where m: "w = Value (V_array m) c" using w(2) by (cases w rule: type_of.cases) auto
  have s: "sorted_keys m" using wf m by simp
  let ?k = "index_key (word_of_nat i)" and ?w' = "Value (V_array (map_resolve (index_key (word_of_nat i)) m)) c"
  have "index_ref w (word_of_nat i) = Inr ?w'" by (simp add: m index_ref_def array_map_def)
  from push_step [OF ok top w(1), where f = "\<lambda>v. index_ref v (word_of_nat i)" and k = ?k, OF this]
  show ?thesis using wf_ref w(2) map_of_map_resolve [OF s]
    by (fastforce simp: push_element_def m children_def)
qed

definition remaining :: "'d json_reader \<Rightarrow> nat" where
  "remaining r = length (r_document r) - r_current r"

text \<open>The one fault: a document with a run of 32 characters that numbers consist of.\<close>

definition long_number :: "string \<Rightarrow> bool" where
  "long_number doc \<longleftrightarrow>
     list_ex (\<lambda>i. let s = take 32 (drop i doc) in length s = 32 \<and> list_all number_char s) [0..<length doc]"

definition number_fault :: "string \<Rightarrow> fault \<Rightarrow> bool" where
  "number_fault doc f \<longleftrightarrow> f = Out_Of_Bounds \<and> long_number doc"

text \<open>The states a call may leave behind: \<open>p\<close> is the top of the stack, and text was consumed.\<close>

definition value_post :: "czstring list \<Rightarrow> 'd json_reader \<Rightarrow> bool \<times> 'd json_reader \<Rightarrow> bool" where
  "value_post p r x \<longleftrightarrow>
     value_step p r (snd x) \<and> (r_last (snd x) = r_last r \<or> r_last (snd x) = Some p) \<and>
     (fst x \<longrightarrow> remaining (snd x) < remaining r)"

lemma returns_token:
  assumes "\<exists>t r'. m = Inr (t, r') \<and> got r t r'" and "\<And>t r'. got r t r' \<Longrightarrow> returns E Q (f (t, r'))"
  shows "returns E Q (bind_outcome (Some m) f)"
  using assms by auto

lemma got_facts:
  assumes "got r t r'" 
  shows "token_step r r'" "r_last r' = r_last r" "reader_ok r'" "r_nodes r' = r_nodes r"
    "kind_at q (r_root r') = kind_at q (r_root r)" "r_document r' = r_document r"
    "remaining r' \<le> remaining r" "tok_type t \<noteq> tokenEndOfStream \<Longrightarrow> remaining r' < remaining r"
    "far p r' \<longleftrightarrow> far p r" "near p r' \<longleftrightarrow> near p r"
  using assms by (auto simp: got_def token_step_def same_frame_def remaining_def far_def near_def)

lemma flush_comments_step:
  assumes "reader_ok r"
  shows "\<exists>r'. flush_comments r = Inr r' \<and> token_step r r'"
proof (cases "r_collect r \<and> r_before r \<noteq> []")
  case True
  obtain p where p: "hd (r_nodes r) = p" by blast
  obtain ps w where nodes: "r_nodes r = p # ps" and "at_path p (r_root r) = Some w"
    and w: "kind_at p (r_root r) = Some (type_of w)"
    using assms p by (rule top_node)
  have "wf_value (r_root r)" "slash_text (r_before r)" using assms by (simp_all add: reader_ok_def)
  with comment_path [of "r_root r" p "r_before r" commentBefore] w obtain root' where
    "update_path p (setComment (r_before r) commentBefore) (r_root r) = Inr root'" "wf_value root'"
    "\<And>q. kind_at q root' = kind_at q (r_root r)" by auto
  with True nodes assms show ?thesis
    by (auto simp: flush_comments_def currentValue_update_def token_step_def same_frame_def reader_ok_def slash_text_def)
qed (use assms in \<open>auto simp: flush_comments_def token_step_refl\<close>)

lemma not_collecting: "reader_ok r \<Longrightarrow> \<not> r_collect r \<Longrightarrow> r_last r = None"
  by (simp add: reader_ok_def)

lemma note_last_step:
  assumes "value_step p r r'" and "hd (r_nodes r) = p"
  shows "value_step p r (note_last r')" "r_last (note_last r') = Some p \<or> \<not> r_collect (note_last r')"
    "remaining (note_last r') = remaining r'"
proof -
  have r': "reader_ok r'" "hd (r_nodes r') = p" using assms by (simp_all add: value_step_def)
  then have "reader_ok (note_last r')" by (auto simp: note_last_def reader_ok_def)
  with assms(1) show "value_step p r (note_last r')" by (simp add: value_step_def note_last_def)
  show "r_last (note_last r') = Some p \<or> \<not> r_collect (note_last r')" "remaining (note_last r') = remaining r'"
    using r'(2) by (simp_all add: note_last_def remaining_def)
qed

lemma finish_step:
  assumes "returns E (\<lambda>x. value_step p r (snd x) \<and> (fst x \<longrightarrow> remaining (snd x) < n)) m"
    and "hd (r_nodes r) = p" and "reader_ok r"
  shows "returns E (\<lambda>x. value_step p r (snd x) \<and> (r_last (snd x) = r_last r \<or> r_last (snd x) = Some p) \<and>
     (fst x \<longrightarrow> remaining (snd x) < n)) (finish_value m)"
  unfolding finish_value_def
proof (rule returns_bind [OF assms(1)])
  fix x assume x: "value_step p r (snd x) \<and> (fst x \<longrightarrow> remaining (snd x) < n)"
  then have s: "value_step p r (snd x)" by blast
  note n = note_last_step [OF s assms(2)]
  have "r_last (note_last (snd x)) = r_last r \<or> r_last (note_last (snd x)) = Some p"
    using n(1,2) assms(3) not_collecting [of r] not_collecting [of "note_last (snd x)"]
    by (auto simp: value_step_def)
  with n x show "returns E (\<lambda>x. value_step p r (snd x) \<and>
      (r_last (snd x) = r_last r \<or> r_last (snd x) = Some p) \<and> (fst x \<longrightarrow> remaining (snd x) < n))
      (case x of (successful, r) \<Rightarrow> Some (Inr (successful, note_last r)))"
    by (cases x) simp
qed

lemma child_step:
  assumes r: "reader_ok r" "hd (r_nodes r) = p" "near p r"
    and push: "value_step p r (r\<lparr>r_root := root'\<rparr>)" "kind_at p root' = Some ty"
    and child: "value_post (p @ [k]) (push_key k (r\<lparr>r_root := root'\<rparr>)) (ok, r')"
  shows "value_step p r (pop_node r')" "near p (pop_node r')" "kind_at p (r_root (pop_node r')) = Some ty"
    "ok \<Longrightarrow> remaining (pop_node r') < remaining r"
proof -
  obtain ps where nodes: "r_nodes r = p # ps" using r(1,2) by (rule top_node)
  have vs: "value_step (p @ [k]) (push_key k (r\<lparr>r_root := root'\<rparr>)) r'" using child by (simp add: value_post_def)
  then have rn: "r_nodes r' = (p @ [k]) # p # ps" by (simp add: value_step_def push_key_def nodes)
  have out: "kind_at q (r_root r') = kind_at q root'" if "\<not> prefix (p @ [k]) q" for q
    using vs that by (simp add: value_step_def push_key_def)
  then show kind: "kind_at p (r_root (pop_node r')) = Some ty" using push(2) by (simp add: pop_node_def)
  have ok': "reader_ok r'" using vs by (simp add: value_step_def)
  have "\<forall>q \<in> set ps. prefix q p" using r(1) nodes by (simp add: reader_ok_def)
  with ok' rn kind have "reader_ok (pop_node r')" by (simp add: reader_ok_def pop_node_def)
  moreover have "kind_at q (r_root r') = kind_at q (r_root r)" if "\<not> prefix p q" for q
    using out [of q] that push(1) by (auto simp: value_step_def dest: append_prefixD)
  ultimately show "value_step p r (pop_node r')" using vs rn nodes
    by (auto simp: value_step_def pop_node_def push_key_def)
  show "near p (pop_node r')" using child r(3) by (auto simp: value_post_def near_def pop_node_def push_key_def)
  show "remaining (pop_node r') < remaining r" if ok using child that
    by (simp add: value_post_def pop_node_def push_key_def remaining_def)
qed

lemma recoverFromError_step:
  "reader_ok r \<Longrightarrow> \<exists>r'. recoverFromError ty r = Inr (False, r') \<and> value_step p r r'"
  using recover_step [of r ty] token_value_step [of r _ p] by (auto simp: recoverFromError_def)

lemma addErrorAndRecover_step:
  "reader_ok r \<Longrightarrow> \<exists>r'. addErrorAndRecover msg t ty r = Inr (False, r') \<and> value_step p r r'"
  using recoverFromError_step [of "snd (addError msg t None r)" ty p]
  by (auto simp: addErrorAndRecover_def addError_def value_step_def)

lemma assign_returns:
  assumes "reader_ok r" and "hd (r_nodes r) = p" and "far p r" and "wf_value v"
  shows "\<exists>r'. currentValue_assign v r = Inr r' \<and> value_step p r r' \<and> remaining r' = remaining r \<and>
    kind_at p (r_root r') = Some (type_of v) \<and> r_last r' = r_last r"
  using currentValue_assign_step [OF assms] by (auto simp: remaining_def)

lemma assign_value_step:
  assumes "reader_ok r" and "hd (r_nodes r) = p" and "far p r" and "wf_value v"
  shows "returns E (\<lambda>x. value_step p r (snd x) \<and> remaining (snd x) = remaining r)
     (Some (bind_result (currentValue_assign v r) (\<lambda>r'. Inr (True, r'))))"
  using assign_returns [OF assms] by auto

lemma scalar_wf [simp]: "wf_value (value_int i)" "wf_value (value_uint i)" "wf_value (value_double d)"
  "wf_value (value_of_string s)" "wf_value (value_bool b)" "wf_value (value_of_type D ty)"
  by (cases ty; simp add: value_int_def value_uint_def value_double_def value_of_string_def value_bool_def
      wf_comments_def index_keys_def name_keys_def)+

lemma decodeString_step:
  assumes "reader_ok r" and "hd (r_nodes r) = p" and "far p r"
  shows "returns E (\<lambda>x. value_step p r (snd x) \<and> remaining (snd x) = remaining r) (Some (decodeString t r))"
proof (cases "decodeString_text t r")
  case (Inl e)
  then show ?thesis using assms
    by (cases e) (auto simp: decodeString_def addError_def value_step_def remaining_def)
next
  case (Inr s)
  with assign_value_step [OF assms, of "value_of_string s"] show ?thesis by (simp add: decodeString_def)
qed

lemma not_a_number_step:
  "reader_ok r \<Longrightarrow> \<exists>ok r'. not_a_number t r = (ok, r') \<and> value_step p r r' \<and> remaining r' = remaining r"
  by (auto simp: not_a_number_def addError_def value_step_def remaining_def)

lemma decodeDouble_step:
  assumes "reader_ok r" and "hd (r_nodes r) = p" and "far p r"
    and "list_all number_char (doc_slice (tok_start t) (tok_end t) r)"
  shows "returns (number_fault (r_document r)) (\<lambda>x. value_step p r (snd x) \<and> remaining (snd x) = remaining r)
    (Some (decodeDouble D t r))"
proof (cases "length (doc_slice (tok_start t) (tok_end t) r) = 32")
  case True
  then have "tok_start t < length (r_document r)" "take 32 (drop (tok_start t) (r_document r)) =
      doc_slice (tok_start t) (tok_end t) r"
    by (auto simp: doc_slice_def min_def split: if_splits)
  moreover from this True have "length (take 32 (drop (tok_start t) (r_document r))) = 32" by metis
  ultimately have "long_number (r_document r)" using assms(4)
    by (auto simp: long_number_def list_ex_iff Let_def simp del: length_take intro!: bexI [of _ "tok_start t"])
  with True show ?thesis by (simp add: decodeDouble_def number_fault_def)
next
  case False
  with assign_value_step [OF assms(1-3)] not_a_number_step [OF assms(1), of t p] show ?thesis
    by (auto simp: decodeDouble_def Let_def split: option.splits)
qed

lemma decodeNumber_step:
  assumes "reader_ok r" and "hd (r_nodes r) = p" and "far p r"
    and "list_all number_char (doc_slice (tok_start t) (tok_end t) r)"
  shows "returns (number_fault (r_document r)) (\<lambda>x. value_step p r (snd x) \<and> remaining (snd x) = remaining r)
    (Some (decodeNumber D t r))"
  using not_a_number_step [OF assms(1), of t p] decodeDouble_step [OF assms] assign_value_step [OF assms(1-3)]
  by (auto simp: decodeNumber_def Let_def split: digits_result.splits)

end
