(* ===== verification/Jsoncpp_Reader_Safety.thy ===== *)
theory Jsoncpp_Reader_Safety
  imports Jsoncpp_Reader_Steps
begin

text \<open>
  The parser always returns, and no pointer of it dangles: an induction on the fuel of
  \<^verbatim>\<open>readValue\<close>, \<^verbatim>\<open>readObject\<close> and \<^verbatim>\<open>readArray\<close>, which twice the rest of the document is enough for. The
  one fault left is the write past the 32-byte buffer of \<^verbatim>\<open>decodeDouble\<close>. A second induction
  follows the list of errors.
\<close>

section \<open>The recursion\<close>

definition value_safe :: "'d doubles \<Rightarrow> nat \<Rightarrow> bool" where
  "value_safe D n \<longleftrightarrow>
     (\<forall>p r. reader_ok r \<and> hd (r_nodes r) = p \<and> far p r \<and> 2 * remaining r + 2 \<le> n \<longrightarrow>
        returns (number_fault (r_document r)) (value_post p r) (readValue D n r))"

definition object_safe :: "'d doubles \<Rightarrow> nat \<Rightarrow> bool" where
  "object_safe D n \<longleftrightarrow>
     (\<forall>p name r. reader_ok r \<and> hd (r_nodes r) = p \<and> near p r \<and> kind_at p (r_root r) = Some objectValue \<and>
        2 * remaining r + 3 \<le> n \<longrightarrow>
        returns (number_fault (r_document r)) (\<lambda>x. value_step p r (snd x)) (readObject_loop D n name r))"

definition array_safe :: "'d doubles \<Rightarrow> nat \<Rightarrow> bool" where
  "array_safe D n \<longleftrightarrow>
     (\<forall>p i r. reader_ok r \<and> hd (r_nodes r) = p \<and> near p r \<and> kind_at p (r_root r) = Some arrayValue \<and>
        2 * remaining r + 3 \<le> n \<longrightarrow>
        returns (number_fault (r_document r)) (\<lambda>x. value_step p r (snd x)) (readArray_loop D n i r))"

lemma value_safeD:
  "value_safe D n \<Longrightarrow> reader_ok r \<Longrightarrow> hd (r_nodes r) = p \<Longrightarrow> far p r \<Longrightarrow> 2 * remaining r + 2 \<le> n \<Longrightarrow>
     r_document r = doc \<Longrightarrow> returns (number_fault doc) (value_post p r) (readValue D n r)"
  by (auto simp: value_safe_def)

lemma object_safeD:
  "object_safe D n \<Longrightarrow> reader_ok r \<Longrightarrow> hd (r_nodes r) = p \<Longrightarrow> near p r \<Longrightarrow>
     kind_at p (r_root r) = Some objectValue \<Longrightarrow> 2 * remaining r + 3 \<le> n \<Longrightarrow> r_document r = doc \<Longrightarrow>
     returns (number_fault doc) (\<lambda>x. value_step p r (snd x)) (readObject_loop D n name r)"
  by (auto simp: object_safe_def)

lemma array_safeD:
  "array_safe D n \<Longrightarrow> reader_ok r \<Longrightarrow> hd (r_nodes r) = p \<Longrightarrow> near p r \<Longrightarrow>
     kind_at p (r_root r) = Some arrayValue \<Longrightarrow> 2 * remaining r + 3 \<le> n \<Longrightarrow> r_document r = doc \<Longrightarrow>
     returns (number_fault doc) (\<lambda>x. value_step p r (snd x)) (readArray_loop D n i r)"
  by (auto simp: array_safe_def)

lemma value_stepD:
  assumes "value_step p r r'"
  shows "reader_ok r'" "r_nodes r' = r_nodes r" "r_document r' = r_document r" "remaining r' \<le> remaining r"
  using assms by (auto simp: value_step_def remaining_def)

lemma got_value_step: "value_step p r r1 \<Longrightarrow> got r1 t r2 \<Longrightarrow> value_step p r r2"
  using value_step_trans [OF _ token_value_step] by (auto simp: got_def)

lemma returns_recover:
  assumes "value_step p r r'"
  shows "returns E (\<lambda>x. value_step p r (snd x)) (Some (recoverFromError ty r'))"
    "returns E (\<lambda>x. value_step p r (snd x)) (Some (addErrorAndRecover msg t ty r'))"
  using recoverFromError_step [OF value_stepD(1) [OF assms], of ty p]
    addErrorAndRecover_step [OF value_stepD(1) [OF assms], of msg t ty p] value_step_trans [OF assms] by auto

text \<open>\<^verbatim>\<open>badTokenType\<close> is never true.\<close>

lemma readArray_loop_Suc:
  "readArray_loop D (Suc n) i r =
     bind_outcome (Some (push_element i r)) (\<lambda>r1. bind_outcome (readValue D n r1) (\<lambda>(ok, r2).
       if \<not> ok then Some (recoverFromError tokenArrayEnd (pop_node r2))
       else bind_outcome (Some (skip_comments (pop_node r2))) (\<lambda>(t, r4).
         if tok_type t = tokenArrayEnd then Some (Inr (True, r4)) else readArray_loop D n (i + 1) r4)))"
proof -
  have "(ty = tokenArraySeparator \<and> ty = tokenArrayEnd) = False" for ty by auto
  then show ?thesis by (simp only: readArray_loop.simps Let_def if_False)
qed

lemma array_step:
  assumes V: "value_safe D n" and A: "array_safe D n"
  shows "array_safe D (Suc n)"
  unfolding array_safe_def
proof (intro allI impI, elim conjE)
  fix p :: "czstring list" and i and r :: "'a json_reader"
  assume r: "reader_ok r" "hd (r_nodes r) = p" "near p r" "kind_at p (r_root r) = Some arrayValue"
    and n: "2 * remaining r + 3 \<le> Suc n"
  let ?k = "index_key (word_of_nat i)"
  obtain root' where push: "push_element i r = Inr (push_key ?k (r\<lparr>r_root := root'\<rparr>))"
    "value_step p r (r\<lparr>r_root := root'\<rparr>)" "kind_at p root' = Some arrayValue"
    "reader_ok (push_key ?k (r\<lparr>r_root := root'\<rparr>))"
    using push_element_step [OF r(1,2,4)] by blast
  let ?r1 = "push_key ?k (r\<lparr>r_root := root'\<rparr>)"
  have r1: "hd (r_nodes ?r1) = p @ [?k]" "far (p @ [?k]) ?r1" "2 * remaining ?r1 + 2 \<le> n"
      "r_document ?r1 = r_document r"
    using r(2) near_far [OF r(3)] n by (simp_all add: push_key_def far_def remaining_def)
  let ?returns = "returns (number_fault (r_document r)) (\<lambda>x. value_step p r (snd x))"
  have "?returns (if tok_type t = tokenArrayEnd then Some (Inr (True, r4)) else readArray_loop D n (i + 1) r4)"
    if post: "value_post (p @ [?k]) ?r1 (True, r2)" and got: "got (pop_node r2) t r4" for r2 t r4
  proof -
    note c = child_step [OF r(1-3) push(2,3) post]
    note g = got_facts [OF got] and s = got_value_step [OF c(1) got]
    have "returns (number_fault (r_document r)) (\<lambda>x. value_step p r4 (snd x)) (readArray_loop D n (i + 1) r4)"
      using value_stepD [OF s] c g(5,7,10) r(2) n by (intro array_safeD [OF A]) auto
    then have "?returns (readArray_loop D n (i + 1) r4)" by (rule returns_mono) (rule value_step_trans [OF s])
    with s show ?thesis by simp
  qed
  note again = this
  show "?returns (readArray_loop D (Suc n) i r)"
    unfolding readArray_loop_Suc push(1) bind_outcome_simps
  proof (rule returns_bind [OF value_safeD [OF V push(4) r1]], clarify)
    fix ok r2 assume post: "value_post (p @ [?k]) ?r1 (ok, r2)"
    note c = child_step [OF r(1-3) push(2,3) post]
    show "?returns (if \<not> ok then Some (recoverFromError tokenArrayEnd (pop_node r2))
      else bind_outcome (Some (skip_comments (pop_node r2)))
        (\<lambda>(t, r4). if tok_type t = tokenArrayEnd then Some (Inr (True, r4)) else readArray_loop D n (i + 1) r4))"
      using post
      by (cases ok) (simp_all add: returns_recover(1) [OF c(1)] del: bind_outcome_simps,
          auto intro!: returns_token [OF skip_comments_got [OF value_stepD(1) [OF c(1)]]] again)
  qed
qed

lemma returns_step:
  assumes "value_step p r r'" and "returns E (\<lambda>x. value_step p r' (snd x)) m"
  shows "returns E (\<lambda>x. value_step p r (snd x)) m"
  by (rule returns_mono [OF assms(2)]) (rule value_step_trans [OF assms(1)])

text \<open>The parts of an iteration of \<^verbatim>\<open>readObject\<close>: after a member, from its value on, from its colon on.\<close>

abbreviation object_comma :: "'d doubles \<Rightarrow> nat \<Rightarrow> string \<Rightarrow> 'd json_reader \<Rightarrow> (bool \<times> 'd json_reader) outcome" where
  "object_comma D n name r \<equiv> bind_outcome (Some (readToken r)) (\<lambda>(comma, r6).
      if tok_type comma \<noteq> tokenObjectEnd \<and> tok_type comma \<noteq> tokenArraySeparator \<and> tok_type comma \<noteq> tokenComment
      then Some (addErrorAndRecover (''Missing '' @ quoted_char (CHR '','') @ '' or '' @ quoted_char (CHR ''}'') @
        '' in object declaration'') comma tokenObjectEnd r6)
      else bind_outcome (Some (if tok_type comma = tokenComment then skip_comments r6 else Inr (comma, r6)))
        (\<lambda>(comma', r7). if tok_type comma' = tokenObjectEnd then Some (Inr (True, r7))
           else readObject_loop D n name r7))"

abbreviation object_member :: "'d doubles \<Rightarrow> nat \<Rightarrow> string \<Rightarrow> 'd json_reader \<Rightarrow> (bool \<times> 'd json_reader) outcome" where
  "object_member D n name r \<equiv>
     bind_outcome (Some (push_member name r)) (\<lambda>r3. bind_outcome (readValue D n r3)
       (\<lambda>(ok, r4). let r5 = pop_node r4 in if \<not> ok then Some (recoverFromError tokenObjectEnd r5)
          else object_comma D n name r5))"

abbreviation object_colon :: "'d doubles \<Rightarrow> nat \<Rightarrow> string \<Rightarrow> 'd json_reader \<Rightarrow> (bool \<times> 'd json_reader) outcome" where
  "object_colon D n name r \<equiv> bind_outcome (Some (readToken r)) (\<lambda>(colon, r2).
     if tok_type colon \<noteq> tokenMemberSeparator then Some (addErrorAndRecover (''Missing '' @
       quoted_char (CHR '':'') @ '' after object member name'') colon tokenObjectEnd r2)
     else object_member D n name r2)"

definition in_object :: "czstring list \<Rightarrow> 'd json_reader \<Rightarrow> 'd json_reader \<Rightarrow> bool" where
  "in_object p r r' \<longleftrightarrow> value_step p r r' \<and> hd (r_nodes r) = p \<and> near p r' \<and>
     kind_at p (r_root r') = Some objectValue \<and> remaining r' < remaining r"

abbreviation object_returns ::
  "czstring list \<Rightarrow> 'd json_reader \<Rightarrow> (bool \<times> 'd json_reader) outcome \<Rightarrow> bool" where
  "object_returns p r m \<equiv> returns (number_fault (r_document r)) (\<lambda>x. value_step p r (snd x)) m"

lemma in_object_got: "in_object p r r1 \<Longrightarrow> got r1 t r2 \<Longrightarrow> in_object p r r2"
  using got_value_step [of p r r1 t r2] got_facts [of r1 t r2] by (simp add: in_object_def)

lemma in_objectD:
  assumes "in_object p r r'"
  shows "value_step p r r'" "reader_ok r'" "hd (r_nodes r') = p" "near p r'"
    "kind_at p (r_root r') = Some objectValue" "remaining r' < remaining r" "r_document r' = r_document r"
  using assms by (auto simp: in_object_def value_step_def)

lemma object_comma_step:
  assumes O: "object_safe D n" and n: "2 * remaining r + 3 \<le> Suc n" and r5: "in_object p r r5"
  shows "object_returns p r (object_comma D n name r5)"
proof (rule returns_token [OF readToken_got [OF in_objectD(2) [OF r5]]])
  fix t r6 assume "got r5 t r6"
  then have r6: "in_object p r r6" using in_object_got [OF r5] by blast
  note s = in_objectD [OF r6]
  have "object_returns p r (readObject_loop D n name r7)" if "in_object p r r7" for r7
    using in_objectD [OF that] n by (intro returns_step [of p r r7] object_safeD [OF O]) auto
  then show "object_returns p r (case (t, r6) of (comma, r6) \<Rightarrow>
      if tok_type comma \<noteq> tokenObjectEnd \<and> tok_type comma \<noteq> tokenArraySeparator \<and> tok_type comma \<noteq> tokenComment
      then Some (addErrorAndRecover (''Missing '' @ quoted_char (CHR '','') @ '' or '' @ quoted_char (CHR ''}'') @
        '' in object declaration'') comma tokenObjectEnd r6)
      else bind_outcome (Some (if tok_type comma = tokenComment then skip_comments r6 else Inr (comma, r6)))
        (\<lambda>(comma', r7). if tok_type comma' = tokenObjectEnd then Some (Inr (True, r7))
           else readObject_loop D n name r7))"
    using r6 s returns_recover(2) [OF s(1)] skip_comments_got [OF s(2)] in_object_got [OF r6] in_objectD(1)
    by fastforce
qed

lemma object_member_step:
  assumes V: "value_safe D n" and O: "object_safe D n" and n: "2 * remaining r + 3 \<le> Suc n"
    and r2: "in_object p r r2"
  shows "object_returns p r (object_member D n name r2)"
proof -
  let ?k = "name_key name"
  note s = in_objectD [OF r2]
  obtain root' where push: "push_member name r2 = Inr (push_key ?k (r2\<lparr>r_root := root'\<rparr>))"
      "value_step p r2 (r2\<lparr>r_root := root'\<rparr>)" "kind_at p root' = Some objectValue"
      "reader_ok (push_key ?k (r2\<lparr>r_root := root'\<rparr>))"
    using push_member_step [OF s(2,3,5)] by blast
  let ?r3 = "push_key ?k (r2\<lparr>r_root := root'\<rparr>)"
  have r3: "hd (r_nodes ?r3) = p @ [?k]" "far (p @ [?k]) ?r3" "2 * remaining ?r3 + 2 \<le> n"
      "r_document ?r3 = r_document r"
    using s near_far [OF s(4)] n by (simp_all add: push_key_def far_def remaining_def)
  show ?thesis unfolding push(1) bind_outcome_simps Let_def
  proof (rule returns_bind [OF value_safeD [OF V push(4) r3]], clarify)
    fix ok r4 assume post: "value_post (p @ [?k]) ?r3 (ok, r4)"
    note c = child_step [OF s(2-4) push(2,3) post]
    have "in_object p r (pop_node r4)" if ok
      using c(1-3) c(4) [OF that] value_step_trans [OF s(1)] r2 by (simp add: in_object_def)
    then show "object_returns p r (if \<not> ok then Some (recoverFromError tokenObjectEnd (pop_node r4))
        else object_comma D n name (pop_node r4))"
      using object_comma_step [OF O n, of p "pop_node r4"] returns_recover(1) [OF value_step_trans [OF s(1) c(1)]]
      by (cases ok) (simp_all del: bind_outcome_simps)
  qed
qed

lemma object_colon_step:
  assumes "value_safe D n" "object_safe D n" "2 * remaining r + 3 \<le> Suc n" "in_object p r r1"
  shows "object_returns p r (object_colon D n name r1)"
proof (rule returns_token [OF readToken_got [OF in_objectD(2) [OF assms(4)]]])
  fix t r2 assume "got r1 t r2"
  then have r2: "in_object p r r2" using in_object_got [OF assms(4)] by blast
  show "object_returns p r (case (t, r2) of (colon, r2) \<Rightarrow>
      if tok_type colon \<noteq> tokenMemberSeparator then Some (addErrorAndRecover (''Missing '' @
        quoted_char (CHR '':'') @ '' after object member name'') colon tokenObjectEnd r2)
      else object_member D n name r2)"
    using object_member_step [OF assms(1-3) r2] returns_recover(2) [OF in_objectD(1) [OF r2]]
    by (simp del: bind_outcome_simps)
qed

lemma object_step:
  assumes V: "value_safe D n" and O: "object_safe D n"
  shows "object_safe D (Suc n)"
  unfolding object_safe_def
proof (intro allI impI, elim conjE)
  fix p :: "czstring list" and name and r :: "'a json_reader"
  assume r: "reader_ok r" "hd (r_nodes r) = p" "near p r" "kind_at p (r_root r) = Some objectValue"
    and n: "2 * remaining r + 3 \<le> Suc n"
  show "object_returns p r (readObject_loop D (Suc n) name r)"
    unfolding readObject_loop.simps
  proof (rule returns_token [OF skip_comments_got [OF r(1)]], unfold prod.case)
    fix t r1 assume got: "got r t r1"
    note g = got_facts [OF got]
    have s: "value_step p r r1" by (rule token_value_step) (rule g(1))
    have err: "value_step p r (snd (addError m t e r1))" for m e using s by (simp add: addError_def)
    have "in_object p r r1" if "tok_type t = tokenString"
      using s g r that by (simp add: in_object_def)
    then show "object_returns p r (if tok_type t = tokenObjectEnd \<and> name = [] then Some (Inr (True, r1))
      else if tok_type t \<noteq> tokenString then Some (addErrorAndRecover (''Missing '' @ quoted_char (CHR ''}'') @
        '' or object member name'') t tokenObjectEnd r1)
      else case decodeString_text t r1 of
          Inl (message, extra) \<Rightarrow> Some (recoverFromError tokenObjectEnd (snd (addError message t (Some extra) r1)))
        | Inr name' \<Rightarrow> object_colon D n name' r1)"
      using s object_colon_step [OF V O n] returns_recover(2) [OF s] returns_recover(1) [OF err]
      by (auto split: sum.splits simp del: bind_outcome_simps)
  qed
qed

lemma empty_wf [simp]: "wf_comments None" "index_keys []" "name_keys []"
  by (simp_all add: wf_comments_def index_keys_def name_keys_def)

text \<open>After the token and the pending comments: the value proper, and what remains to be shown of it.\<close>

definition body_post :: "czstring list \<Rightarrow> nat \<Rightarrow> 'd json_reader \<Rightarrow> bool \<times> 'd json_reader \<Rightarrow> bool" where
  "body_post p m r x \<longleftrightarrow> value_step p r (snd x) \<and> (fst x \<longrightarrow> remaining (snd x) < m)"

lemma finish_body:
  assumes r: "value_step p r0 r" "reader_ok r0" "hd (r_nodes r) = p" "reader_ok r" "r_last r = r_last r0"
    and "returns E (body_post p (remaining r0) r) m"
  shows "returns E (value_post p r0) (finish_value m)"
  using finish_step [OF _ r(3,4), of E "remaining r0" m] assms(6) value_step_trans [OF r(1)] r(5)
  unfolding body_post_def by (auto simp: value_post_def elim!: returns_mono)

lemma returns_body:
  assumes "returns E (\<lambda>x. value_step p r (snd x) \<and> remaining (snd x) = remaining r) m" and "remaining r < m0"
  shows "returns E (body_post p m0 r) m"
  by (rule returns_mono [OF assms(1)]) (use assms(2) in \<open>auto simp: body_post_def\<close>)

lemma returns_loop_body:
  assumes "returns E (\<lambda>x. value_step p r' (snd x)) m" and "value_step p r r'" and "remaining r' < m0"
  shows "returns E (body_post p m0 r) m"
  by (rule returns_mono [OF assms(1)])
    (use assms(2,3) value_step_trans value_stepD(4) in \<open>fastforce simp: body_post_def\<close>)

lemma object_body:
  assumes O: "object_safe D n" and r: "reader_ok r" "hd (r_nodes r) = p" "far p r"
    and n: "2 * remaining r + 3 \<le> n" "remaining r < m0"
  shows "returns (number_fault (r_document r)) (body_post p m0 r)
    (bind_outcome (Some (currentValue_assign (value_of_type D objectValue) r)) (\<lambda>r3. readObject_loop D n [] r3))"
proof -
  obtain r3 where r3: "currentValue_assign (value_of_type D objectValue) r = Inr r3" "value_step p r r3"
      "remaining r3 = remaining r" "kind_at p (r_root r3) = Some objectValue" "r_last r3 = r_last r"
    using assign_returns [OF r, of "value_of_type D objectValue"] by auto
  note s = value_stepD [OF r3(2)]
  have "returns (number_fault (r_document r)) (\<lambda>x. value_step p r3 (snd x)) (readObject_loop D n [] r3)"
    by (rule object_safeD [OF O s(1)]) (use s r r3 n in \<open>auto simp: near_def far_def\<close>)
  from returns_loop_body [OF this r3(2)] r3 n(2) show ?thesis by simp
qed

lemma array_body:
  assumes A: "array_safe D n" and r: "reader_ok r" "hd (r_nodes r) = p" "far p r"
    and n: "2 * remaining r + 3 \<le> n" "remaining r < m0"
  shows "returns (number_fault (r_document r)) (body_post p m0 r)
    (bind_outcome (Some (currentValue_assign (value_of_type D arrayValue) r))
      (\<lambda>r3. let r4 = skipSpaces r3
         in if peek (rest_text r4) = CHR '']'' then
              bind_outcome (Some (readToken r4)) (\<lambda>(endArray, r5). Some (Inr (True, r5)))
            else readArray_loop D n 0 r4))"
proof -
  obtain r3 where r3: "currentValue_assign (value_of_type D arrayValue) r = Inr r3" "value_step p r r3"
      "remaining r3 = remaining r" "kind_at p (r_root r3) = Some arrayValue" "r_last r3 = r_last r"
    using assign_returns [OF r, of "value_of_type D arrayValue"] by auto
  let ?r4 = "skipSpaces r3"
  have t: "token_step r3 ?r4" using value_stepD(1) [OF r3(2)] by (rule skip_spaces_step)
  note s4 = value_step_trans [OF r3(2) token_value_step [OF t]]
  note s = value_stepD [OF s4]
  have r4: "remaining ?r4 \<le> remaining r" "kind_at p (r_root ?r4) = Some arrayValue" "r_last ?r4 = r_last r"
    using t r3 by (auto simp: token_step_def same_frame_def remaining_def)
  have "returns (number_fault (r_document r)) (\<lambda>x. value_step p ?r4 (snd x)) (readArray_loop D n 0 ?r4)"
    by (rule array_safeD [OF A s(1)]) (use s r r4 n in \<open>auto simp: near_def far_def\<close>)
  from returns_loop_body [OF this s4] r4 n(2)
  have loop: "returns (number_fault (r_document r)) (body_post p m0 r) (readArray_loop D n 0 ?r4)" by simp
  obtain t' r5 where r5: "readToken ?r4 = Inr (t', r5)" "got ?r4 t' r5" using readToken_got [OF s(1)] by blast
  then have "body_post p m0 r (True, r5)"
    using got_value_step [OF s4 r5(2)] got_facts(7) [OF r5(2)] r4(1) n(2) by (simp add: body_post_def)
  with loop r5 r3(1) show ?thesis by (simp add: Let_def)
qed

lemma value_safe_step:
  assumes O: "object_safe D n" and A: "array_safe D n"
  shows "value_safe D (Suc n)"
  unfolding value_safe_def
proof (intro allI impI, elim conjE)
  fix p :: "czstring list" and r0 :: "'a json_reader"
  assume r: "reader_ok r0" "hd (r_nodes r0) = p" "far p r0" and n: "2 * remaining r0 + 2 \<le> Suc n"
  let ?E = "number_fault (r_document r0)"
  obtain t r1 where t: "skipCommentTokens r0 = Inr (t, r1)" "got r0 t r1" using skipCommentTokens_got [OF r(1)] by blast
  note g = got_facts [OF t(2)]
  obtain r2 where r2: "flush_comments r1 = Inr r2" "token_step r1 r2" using flush_comments_step [OF g(3)] by blast
  have vs: "value_step p r0 r2" by (rule token_value_step) (rule token_step_trans [OF g(1) r2(2)])
  note s = value_stepD [OF vs]
  have doc: "r_document r1 = r_document r2" "r_last r2 = r_last r0" "remaining r2 \<le> remaining r1"
    using r2(2) g by (auto simp: token_step_def same_frame_def remaining_def)
  have in2: "reader_ok r2" "hd (r_nodes r2) = p" "far p r2" using s r doc(2) by (simp_all add: far_def)
  note fin = finish_body [OF vs r(1) in2(2,1) doc(2)]
  have lt: "tok_type t \<noteq> tokenEndOfStream \<Longrightarrow> remaining r2 < remaining r0" using g(8) doc(3) by simp
  have num: "tok_type t = tokenNumber \<Longrightarrow> list_all number_char (doc_slice (tok_start t) (tok_end t) r2)"
    using t(2) doc(1) by (simp add: got_def doc_slice_def)
  have plain: "value_post p r0 (addError msg t None r2)" for msg
    using vs doc(2) by (simp add: value_post_def addError_def)
  have assign: "returns ?E (value_post p r0) (finish_value (Some (bind_result (currentValue_assign v r2) (\<lambda>r3. Inr (True, r3)))))"
    if "tok_type t \<noteq> tokenEndOfStream" "wf_value v" for v
    by (rule fin [OF returns_body [OF assign_value_step [OF in2 that(2)] lt [OF that(1)]]])
  show "returns ?E (value_post p r0) (readValue D (Suc n) r0)"
    unfolding readValue.simps t(1) r2(1) bind_outcome_simps prod.case Let_def
    by (cases "tok_type t"; simp only: token_type.case returns_simps)
      (use plain assign fin [OF object_body [OF O in2]] fin [OF array_body [OF A in2]] lt n s(3)
        fin [OF returns_body [OF decodeNumber_step [OF in2 num]]]
        fin [OF returns_body [OF decodeString_step [OF in2]]] in \<open>simp_all add: Let_def\<close>)
qed

lemma reader_safe: "value_safe D n \<and> object_safe D n \<and> array_safe D n"
proof (induction n)
  case 0
  then show ?case by (simp add: value_safe_def object_safe_def array_safe_def)
next
  case (Suc n)
  then show ?case using value_safe_step object_step array_step by blast
qed

section \<open>Parsing a document\<close>

lemma parse_start_ok:
  assumes "wf_value root"
  shows "reader_ok (parse_start doc root cc r)" "hd (r_nodes (parse_start doc root cc r)) = []"
    "far [] (parse_start doc root cc r)" "r_document (parse_start doc root cc r) = doc"
    "2 * remaining (parse_start doc root cc r) + 2 \<le> parse_fuel doc"
  using assms by (auto simp: parse_start_def reader_ok_def far_def remaining_def parse_fuel_def slash_text_def)

lemma final_comment_step:
  assumes "reader_ok r"
  shows "\<exists>r'. (if r_collect r \<and> r_before r \<noteq> [] then
      bind_result (setComment (r_before r) commentAfter (r_root r)) (\<lambda>root'. Inr (r\<lparr>r_root := root'\<rparr>))
    else Inr r) = Inr r' \<and> wf_value (r_root r')"
proof -
  have "slash_text (r_before r)" using assms by (simp add: reader_ok_def)
  then obtain v where "setComment (r_before r) commentAfter (r_root r) = Inr v"
    using setComment_slash by blast
  with setComment_wf [of "r_root r"] assms show ?thesis by (auto simp: reader_ok_def)
qed

lemma parse_safe:
  assumes "wf_value root"
  shows "returns (number_fault doc) (\<lambda>x. wf_value (r_root (snd x))) (parse D doc root cc r)"
proof -
  note start = parse_start_ok [OF assms, of doc cc r]
  have "value_safe D (parse_fuel doc)" using reader_safe by blast
  from value_safeD [OF this start(1,2,3,5,4)]
  show ?thesis unfolding parse_def
  proof (rule returns_bind, clarify)
    fix ok r1 assume "value_post [] (parse_start doc root cc r) (ok, r1)"
    then have "reader_ok r1" by (simp add: value_post_def value_step_def)
    from skipCommentTokens_got [OF this] obtain t r2 where t: "skipCommentTokens r1 = Inr (t, r2)" "got r1 t r2" by blast
    obtain r3 where "(if r_collect r2 \<and> r_before r2 \<noteq> [] then
        bind_result (setComment (r_before r2) commentAfter (r_root r2)) (\<lambda>root'. Inr (r2\<lparr>r_root := root'\<rparr>))
      else Inr r2) = Inr r3" "wf_value (r_root r3)"
      using final_comment_step [OF got_facts(3) [OF t(2)]] by blast
    with t show "returns (number_fault doc) (\<lambda>x. wf_value (r_root (snd x)))
      (bind_outcome (Some (skipCommentTokens r1)) (\<lambda>(token, r2).
         bind_outcome
           (Some (if r_collect r2 \<and> r_before r2 \<noteq> [] then
                    bind_result (setComment (r_before r2) commentAfter (r_root r2))
                      (\<lambda>root'. Inr (r2\<lparr>r_root := root'\<rparr>))
                  else Inr r2))
           (\<lambda>r3.
              if strictRoot (r_features r3) \<and> \<not> isArray (r_root r3) \<and> \<not> isObject (r_root r3) then
                Some (Inr (addError ''A valid JSON document must be either an array or an object value.''
                  \<lparr>tok_type = tokenError, tok_start = 0, tok_end = length doc\<rparr> None r3))
              else Some (Inr (ok, r3)))))"
      by (simp add: addError_def)
  qed
qed

section \<open>Errors\<close>

text \<open>A call adds errors exactly when it fails.\<close>

definition errors_grow :: "'d json_reader \<Rightarrow> bool \<times> 'd json_reader \<Rightarrow> bool" where
  "errors_grow r x \<longleftrightarrow> (\<exists>es. r_errors (snd x) = r_errors r @ es \<and> (fst x \<longleftrightarrow> es = []))"

definition errors_kept :: "(bool \<times> 'd json_reader) outcome \<Rightarrow> 'd json_reader \<Rightarrow> bool" where
  "errors_kept m r \<longleftrightarrow> (\<forall>x. m = Some (Inr x) \<longrightarrow> errors_grow r x)"

lemma errors_kept_simps [simp]:
  "errors_kept None r" "errors_kept (Some (Inl f)) r" "errors_kept (Some (Inr x)) r \<longleftrightarrow> errors_grow r x"
  by (simp_all add: errors_kept_def)

lemma errors_kept_bind:
  assumes "\<And>x. m = Some (Inr x) \<Longrightarrow> errors_kept (f x) r"
  shows "errors_kept (bind_outcome m f) r"
proof (cases m)
  case (Some x)
  with assms show ?thesis by (cases x) auto
qed simp

lemma errors_kept_cong: "r_errors r = r_errors r' \<Longrightarrow> errors_kept m r \<longleftrightarrow> errors_kept m r'"
  by (simp add: errors_kept_def errors_grow_def)

lemma skip_comments_errors: "skip_comments r = Inr (t, r') \<Longrightarrow> r_errors r' = r_errors r"
proof (induction r rule: skip_comments.induct)
  case (1 r)
  from 1(2) obtain u r1 where u: "readToken r = Inr (u, r1)"
    "(if tok_type u = tokenComment then skip_comments r1 else Inr (u, r1)) = Inr (t, r')"
    by (subst (asm) skip_comments.simps) (auto simp: bind_result_Inr)
  have "r_errors r1 = r_errors r" using readToken_frame [OF u(1)] by (simp add: same_frame_def)
  with u 1(1) [OF u(1) refl] show ?case by (auto split: if_splits)
qed

lemma recover_errors: "recover ty r = Inr r' \<Longrightarrow> r_errors r' = r_errors r"
proof (induction ty r rule: recover.induct)
  case (1 ty r)
  from 1(2) obtain u r1 where u: "readToken r = Inr (u, r1)"
    "(if tok_type u = ty \<or> tok_type u = tokenEndOfStream then Inr r1 else recover ty r1) = Inr r'"
    by (subst (asm) recover.simps) (auto simp: bind_result_Inr)
  have "r_errors r1 = r_errors r" using readToken_frame [OF u(1)] by (simp add: same_frame_def)
  with u 1(1) [OF u(1) refl] show ?case by (auto split: if_splits)
qed

lemma token_errors:
  "readToken r = Inr (t, r') \<Longrightarrow> r_errors r' = r_errors r"
  "skipCommentTokens r = Inr (t, r') \<Longrightarrow> r_errors r' = r_errors r"
  by (auto simp: skipCommentTokens_def same_frame_def split: if_splits dest: readToken_frame skip_comments_errors)

lemma recovered_errors:
  "errors_grow r (b, r') \<Longrightarrow> \<not> b \<Longrightarrow> errors_kept (Some (recoverFromError ty r')) r"
  "r_errors r' = r_errors r \<Longrightarrow> errors_kept (Some (addErrorAndRecover msg t ty r')) r"
  "r_errors r' = r_errors r \<Longrightarrow> errors_kept (Some (recoverFromError ty (snd (addError msg t e r')))) r"
  by (auto simp: errors_kept_def errors_grow_def recoverFromError_def addErrorAndRecover_def addError_def
      bind_result_Inr dest!: recover_errors)

lemma update_errors:
  "currentValue_update f r = Inr r' \<Longrightarrow> r_errors r' = r_errors r"
  "currentValue_assign v r = Inr r' \<Longrightarrow> r_errors r' = r_errors r"
  "push_member name r = Inr r' \<Longrightarrow> r_errors r' = r_errors r"
  "push_element i r = Inr r' \<Longrightarrow> r_errors r' = r_errors r"
  "flush_comments r = Inr r' \<Longrightarrow> r_errors r' = r_errors r"
  by (auto simp: currentValue_update_def currentValue_assign_def push_member_def push_element_def push_key_def
      flush_comments_def bind_result_Inr split: list.splits if_splits)

lemma decode_errors:
  "errors_kept (Some (decodeString t r)) r" "errors_kept (Some (decodeDouble D t r)) r"
  "errors_kept (Some (decodeNumber D t r)) r"
proof -
  have assign: "errors_kept (Some (bind_result (currentValue_assign v r) (\<lambda>r'. Inr (True, r')))) r" for v
    by (auto simp: errors_kept_def errors_grow_def bind_result_Inr dest: update_errors)
  show d: "errors_kept (Some (decodeDouble D t r)) r"
    using assign by (auto simp: decodeDouble_def Let_def not_a_number_def addError_def errors_grow_def split: option.splits)
  show "errors_kept (Some (decodeString t r)) r"
    using assign by (auto simp: decodeString_def addError_def errors_grow_def split: sum.splits)
  show "errors_kept (Some (decodeNumber D t r)) r"
    using assign d by (auto simp: decodeNumber_def Let_def not_a_number_def addError_def errors_grow_def
        split: digits_result.splits)
qed

lemma errors_grow_True [simp]: "errors_grow r (True, r') \<longleftrightarrow> r_errors r' = r_errors r"
  by (auto simp: errors_grow_def)

lemma finish_errors: "errors_kept m r \<Longrightarrow> errors_kept (finish_value m) r"
  unfolding finish_value_def by (rule errors_kept_bind) (auto simp: errors_grow_def note_last_def)

lemma errors_kept_trans:
  "errors_kept m r' \<Longrightarrow> r_errors r' = r_errors r \<Longrightarrow> errors_kept m r"
  using errors_kept_cong by metis

lemma errors_keptD:
  "errors_kept m r' \<Longrightarrow> m = Some (Inr x) \<Longrightarrow> r_errors r' = r_errors r \<Longrightarrow> errors_grow r x"
  by (simp add: errors_kept_def errors_grow_def)

lemma errors_token:
  assumes "\<And>t r'. m = Inr (t, r') \<Longrightarrow> errors_kept (f (t, r')) r"
  shows "errors_kept (bind_outcome (Some m) f) r"
  by (rule errors_kept_bind) (use assms in auto)

definition reader_errors :: "'d doubles \<Rightarrow> nat \<Rightarrow> bool" where
  "reader_errors D n \<longleftrightarrow>
     (\<forall>r. errors_kept (readValue D n r) r) \<and> (\<forall>name r. errors_kept (readObject_loop D n name r) r) \<and>
     (\<forall>i r. errors_kept (readArray_loop D n i r) r)"

lemma reader_errorsD:
  assumes "reader_errors D n" and "r_errors r' = r_errors r"
  shows "errors_kept (readValue D n r') r" "errors_kept (readObject_loop D n name r') r"
    "errors_kept (readArray_loop D n i r') r"
  using assms errors_kept_trans [OF _ assms(2)] by (auto simp: reader_errors_def)

lemma array_errors:
  assumes "reader_errors D n"
  shows "errors_kept (readArray_loop D (Suc n) i r) r"
  unfolding readArray_loop_Suc
proof (rule errors_kept_bind, rule errors_kept_bind, clarify)
  fix r1 ok r2 assume a: "push_element i r = Inr r1" "readValue D n r1 = Some (Inr (ok, r2))"
  have g: "errors_grow r (ok, r2)"
    by (rule errors_keptD [OF reader_errorsD(1) [OF assms refl] a(2) update_errors(4) [OF a(1)]])
  then have bad: "errors_kept (Some (recoverFromError tokenArrayEnd (pop_node r2))) r" if "\<not> ok"
    using that by (intro recovered_errors(1) [of _ ok]) (auto simp: errors_grow_def pop_node_def)
  have "errors_kept (bind_outcome (Some (skip_comments (pop_node r2))) (\<lambda>(t, r4).
      if tok_type t = tokenArrayEnd then Some (Inr (True, r4)) else readArray_loop D n (i + 1) r4)) r" if "ok"
  proof (rule errors_token, unfold prod.case)
    fix t r4 assume s: "skip_comments (pop_node r2) = Inr (t, r4)"
    have e: "r_errors r4 = r_errors r" using g \<open>ok\<close> skip_comments_errors [OF s] by (simp add: pop_node_def)
    with reader_errorsD(3) [OF assms e]
    show "errors_kept (if tok_type t = tokenArrayEnd then Some (Inr (True, r4)) else readArray_loop D n (i + 1) r4) r"
      by simp
  qed
  with bad show "errors_kept (if \<not> ok then Some (recoverFromError tokenArrayEnd (pop_node r2))
     else bind_outcome (Some (skip_comments (pop_node r2))) (\<lambda>(t, r4).
       if tok_type t = tokenArrayEnd then Some (Inr (True, r4)) else readArray_loop D n (i + 1) r4)) r"
    by (cases ok) simp_all
qed

lemma comma_errors:
  assumes "reader_errors D n" and "r_errors r5 = r_errors r"
  shows "errors_kept (object_comma D n name r5) r"
proof (rule errors_kept_bind, clarsimp split del: if_split)
  fix t r6 assume "readToken r5 = Inr (t, r6)"
  then have e: "r_errors r6 = r_errors r" using token_errors assms(2) by metis
  have "errors_kept (if tok_type u = tokenObjectEnd then Some (Inr (True, r7)) else readObject_loop D n name r7) r"
    if "(if tok_type t = tokenComment then skip_comments r6 else Inr (t, r6)) = Inr (u, r7)" for u r7
    using that e assms(1) skip_comments_errors [of r6 u r7] errors_kept_trans [of _ r7 r]
    by (auto simp: reader_errors_def split: if_splits)
  then show "errors_kept (if tok_type t \<noteq> tokenObjectEnd \<and> tok_type t \<noteq> tokenArraySeparator \<and> tok_type t \<noteq> tokenComment
      then Some (addErrorAndRecover (''Missing '' @ quoted_char (CHR '','') @ '' or '' @ quoted_char (CHR ''}'') @
        '' in object declaration'') t tokenObjectEnd r6)
      else bind_outcome (Some (if tok_type t = tokenComment then skip_comments r6 else Inr (t, r6)))
        (\<lambda>(comma', r7). if tok_type comma' = tokenObjectEnd then Some (Inr (True, r7))
           else readObject_loop D n name r7)) r"
    using recovered_errors(2) [OF e] by (auto intro!: errors_kept_bind)
qed

lemma member_errors:
  assumes "reader_errors D n" and "r_errors r2 = r_errors r"
  shows "errors_kept (object_member D n name r2) r"
proof (intro errors_kept_bind, clarsimp simp: Let_def split del: if_split)
  fix r3 ok r4 assume a: "push_member name r2 = Inr r3" "readValue D n r3 = Some (Inr (ok, r4))"
  have "errors_kept (readValue D n r3) r3" using assms(1) by (simp add: reader_errors_def)
  from errors_keptD [OF this a(2)] update_errors(3) [OF a(1)] assms(2) have g: "errors_grow r (ok, r4)" by simp
  then have "errors_kept (Some (recoverFromError tokenObjectEnd (pop_node r4))) r" if "\<not> ok"
    using that by (intro recovered_errors(1) [of _ ok]) (auto simp: errors_grow_def pop_node_def)
  moreover have "errors_kept (object_comma D n name (pop_node r4)) r" if "ok"
    by (rule comma_errors [OF assms(1)]) (use g that in \<open>simp add: pop_node_def\<close>)
  ultimately show "errors_kept (if \<not> ok then Some (recoverFromError tokenObjectEnd (pop_node r4))
      else object_comma D n name (pop_node r4)) r"
    by (cases ok) simp_all
qed

lemma object_errors:
  assumes "reader_errors D n"
  shows "errors_kept (readObject_loop D (Suc n) name r) r"
  unfolding readObject_loop.simps
proof (rule errors_token, unfold prod.case)
  fix t r1 assume "skip_comments r = Inr (t, r1)"
  then have e: "r_errors r1 = r_errors r" using skip_comments_errors by blast
  have "errors_kept (object_colon D n name' r1) r" for name'
  proof (rule errors_token, unfold prod.case)
    fix c r2 assume "readToken r1 = Inr (c, r2)"
    then have "r_errors r2 = r_errors r" using e token_errors(1) by metis
    then show "errors_kept (if tok_type c \<noteq> tokenMemberSeparator then Some (addErrorAndRecover (''Missing '' @
       quoted_char (CHR '':'') @ '' after object member name'') c tokenObjectEnd r2)
     else object_member D n name' r2) r"
      using member_errors [OF assms] recovered_errors(2) [of r2 r] by simp
  qed
  then show "errors_kept (if tok_type t = tokenObjectEnd \<and> name = [] then Some (Inr (True, r1))
      else if tok_type t \<noteq> tokenString then Some (addErrorAndRecover (''Missing '' @ quoted_char (CHR ''}'') @
        '' or object member name'') t tokenObjectEnd r1)
      else case decodeString_text t r1 of
          Inl (message, extra) \<Rightarrow> Some (recoverFromError tokenObjectEnd (snd (addError message t (Some extra) r1)))
        | Inr name' \<Rightarrow> object_colon D n name' r1) r"
    using e recovered_errors(2,3) [OF e] by (auto split: sum.splits)
qed

lemma assign_errors:
  assumes "\<And>r3. r_errors r3 = r_errors r \<Longrightarrow> errors_kept (f r3) r"
  shows "errors_kept (bind_outcome (Some (currentValue_assign v r)) f) r"
  using assms update_errors(2) by (blast intro: errors_kept_bind)

lemma container_errors:
  assumes "reader_errors D n"
  shows "errors_kept (bind_outcome (Some (currentValue_assign v r)) (\<lambda>r3. readObject_loop D n [] r3)) r"
    "errors_kept (bind_outcome (Some (currentValue_assign v r)) (\<lambda>r3.
         if peek (rest_text (skipSpaces r3)) = CHR '']'' then
           bind_outcome (Some (readToken (skipSpaces r3))) (\<lambda>(endArray, r5). Some (Inr (True, r5)))
         else readArray_loop D n 0 (skipSpaces r3))) r"
proof -
  have loop: "errors_kept (readObject_loop D n [] r3) r" "errors_kept (readArray_loop D n 0 r3) r"
    if "r_errors r3 = r_errors r" for r3
    by (rule reader_errorsD [OF assms that])+
  then show "errors_kept (bind_outcome (Some (currentValue_assign v r)) (\<lambda>r3. readObject_loop D n [] r3)) r"
    by (intro assign_errors) simp
  show "errors_kept (bind_outcome (Some (currentValue_assign v r)) (\<lambda>r3.
         if peek (rest_text (skipSpaces r3)) = CHR '']'' then
           bind_outcome (Some (readToken (skipSpaces r3))) (\<lambda>(endArray, r5). Some (Inr (True, r5)))
         else readArray_loop D n 0 (skipSpaces r3))) r"
  proof (rule assign_errors)
    fix r3 :: "'a json_reader" assume "r_errors r3 = r_errors r"
    then have e: "r_errors (skipSpaces r3) = r_errors r" by (simp add: skipSpaces_def)
    have "errors_kept (bind_outcome (Some (readToken (skipSpaces r3))) (\<lambda>(endArray, r5). Some (Inr (True, r5)))) r"
      by (rule errors_token) (use e token_errors(1) in fastforce)
    with loop(2) [OF e] show "errors_kept (if peek (rest_text (skipSpaces r3)) = CHR '']'' then
           bind_outcome (Some (readToken (skipSpaces r3))) (\<lambda>(endArray, r5). Some (Inr (True, r5)))
         else readArray_loop D n 0 (skipSpaces r3)) r" by simp
  qed
qed

lemma value_errors:
  assumes "reader_errors D n"
  shows "errors_kept (readValue D (Suc n) r) r"
  unfolding readValue.simps Let_def
proof (rule errors_token, unfold prod.case, rule errors_kept_bind, goal_cases)
  case (1 t r1 r2)
  then have e: "r_errors r2 = r_errors r" using token_errors(2) update_errors(5) by (metis option.inject)
  have plain: "errors_grow r2 (addError msg t None r2)" for msg by (simp add: addError_def errors_grow_def)
  have assign: "errors_kept (Some (bind_result (currentValue_assign v r2) (\<lambda>r3. Inr (True, r3)))) r2" for v
    by (auto simp: errors_kept_def bind_result_Inr dest: update_errors)
  show ?case
    by (rule errors_kept_trans [OF _ e]; cases "tok_type t"; simp only: token_type.case errors_kept_simps)
      (simp_all only: plain finish_errors assign container_errors [OF assms] decode_errors)
qed

lemma reader_errors_all: "reader_errors D n"
proof (induction n)
  case 0
  then show ?case by (simp add: reader_errors_def readValue.simps readObject_loop.simps readArray_loop.simps)
next
  case (Suc n)
  show ?case unfolding reader_errors_def
    by (intro conjI allI value_errors object_errors array_errors Suc)
qed

lemma parse_errors_grow: "errors_kept (parse D doc root cc r) (parse_start doc root cc r)"
proof -
  let ?r0 = "parse_start doc root cc r"
  have start: "errors_kept (readValue D (parse_fuel doc) ?r0) ?r0"
    using reader_errors_all by (rule reader_errorsD) simp
  show ?thesis unfolding parse_def
  proof (rule errors_kept_bind, clarify)
    fix ok r1 assume "readValue D (parse_fuel doc) ?r0 = Some (Inr (ok, r1))"
    from errors_keptD [OF start this refl] have g: "errors_grow ?r0 (ok, r1)" .
    show "errors_kept (bind_outcome (Some (skipCommentTokens r1)) (\<lambda>(token, r2).
         bind_outcome
           (Some (if r_collect r2 \<and> r_before r2 \<noteq> [] then
                    bind_result (setComment (r_before r2) commentAfter (r_root r2))
                      (\<lambda>root'. Inr (r2\<lparr>r_root := root'\<rparr>))
                  else Inr r2))
           (\<lambda>r3.
              if strictRoot (r_features r3) \<and> \<not> isArray (r_root r3) \<and> \<not> isObject (r_root r3) then
                Some (Inr (addError ''A valid JSON document must be either an array or an object value.''
                  \<lparr>tok_type = tokenError, tok_start = 0, tok_end = length doc\<rparr> None r3))
              else Some (Inr (ok, r3))))) ?r0"
      using g
      by (intro errors_token, unfold prod.case, intro errors_kept_bind)
        (auto simp: errors_grow_def addError_def bind_result_Inr dest!: token_errors(2) split: if_splits)
  qed
qed

lemma parse_start_errors [simp]: "r_errors (parse_start doc root cc r) = []"
  by (simp add: parse_start_def)

text \<open>
  C10. \<^verbatim>\<open>Reader::parse\<close> returns on every document: the recursion ends, no assertion fails, every
  pointer on the node stack and the pointer to the last value still point into the root, and the
  root is well-formed afterwards. The one fault is \<^verbatim>\<open>decodeDouble\<close> writing past its buffer, which
  takes 32 consecutive characters of a number in the document.
\<close>
theorem parse_returns:
  assumes "wf_value root"
  shows "\<exists>res. parse D doc root collectComments r = Some res \<and>
    (case res of
       Inl f \<Rightarrow> f = Out_Of_Bounds \<and> long_number doc
     | Inr (ok, r') \<Rightarrow> wf_value (r_root r'))"
  using parse_safe [OF assms, of doc D collectComments r]
  by (auto simp: returns_def number_fault_def split: option.splits sum.splits prod.splits)

lemma parse_returns_witness:
  "wf_value (null_value :: int cvalue) \<and>
   \<not> long_number ''{} // end'' \<and>
   (\<exists>ok r'. parse whole_doubles ''{} // end'' null_value True (json_reader_new features_all) = Some (Inr (ok, r')) \<and>
      wf_value (r_root r'))"
proof -
  have "wf_value (null_value :: int cvalue)" by simp
  moreover have "\<not> long_number ''{} // end''" by code_simp
  moreover obtain res where
    "parse whole_doubles ''{} // end'' null_value True (json_reader_new features_all) = Some res"
    "case res of Inl f \<Rightarrow> f = Out_Of_Bounds \<and> long_number ''{} // end'' | Inr (ok, r') \<Rightarrow> wf_value (r_root r')"
    using parse_returns [OF calculation(1), of whole_doubles "''{} // end''" True "json_reader_new features_all"] by blast
  ultimately show ?thesis by (cases res) auto
qed

text \<open>
  C29. A parse succeeds exactly when the list of errors is empty afterwards: each failure
  leaves at least one message, and recovering from an error drops no earlier one.
\<close>
theorem parse_ok_iff_no_errors:
  assumes "parse D doc root collectComments r = Some (Inr (ok, r'))"
  shows "ok \<longleftrightarrow> r_errors r' = []"
  using errors_keptD [OF parse_errors_grow assms refl] by (auto simp: errors_grow_def)

text \<open>The result of a parse that returned, for evaluation.\<close>

definition parse_result :: "(bool \<times> 'd json_reader) outcome \<Rightarrow> (bool \<times> 'd cvalue) option" where
  "parse_result m = (case m of Some (Inr (ok, r)) \<Rightarrow> Some (ok, r_root r) | _ \<Rightarrow> None)"

lemma parsed_Some: "parse_result m = Some (ok, v) \<longleftrightarrow> (\<exists>r. m = Some (Inr (ok, r)) \<and> r_root r = v)"
  by (auto simp: parse_result_def split: option.splits sum.splits)

lemma parse_unclosed:
  "parse_result (parse whole_doubles ''{'' null_value True (json_reader_new features_all)) = Some (False, plain (V_object []))"
  by code_simp

lemma parse_ok_iff_no_errors_witness:
  "\<exists>r'. parse whole_doubles ''{'' null_value True (json_reader_new features_all) = Some (Inr (False, r')) \<and>
     r_errors r' \<noteq> []"
  using parse_unclosed parse_ok_iff_no_errors [of whole_doubles "''{''" null_value True "json_reader_new features_all" False]
  unfolding parsed_Some by blast

text \<open>A number of 32 characters overflows the buffer; a missing comma drops an element.\<close>

lemma long_number_fault:
  "parse whole_doubles (replicate 32 (CHR ''1'')) null_value True (json_reader_new features_all) = Some (Inl Out_Of_Bounds)"
proof -
  have "(case parse whole_doubles (replicate 32 (CHR ''1'')) null_value True (json_reader_new features_all) of
      Some (Inl f) \<Rightarrow> Some f | _ \<Rightarrow> None) = Some Out_Of_Bounds" by code_simp
  then show ?thesis by (auto split: option.splits sum.splits)
qed

lemma array_without_commas:
  "parse_result (parse whole_doubles ''[1 2 3]'' null_value False (json_reader_new features_all)) =
     Some (True, plain (V_array [(CZ_Index 0, value_int 1), (CZ_Index 1, value_int 3)]))"
  by code_simp

lemma trailing_comma_after_empty_name:
  "parse_result (parse whole_doubles (CHR ''{'' # quote # quote # '':1,}'') null_value False (json_reader_new features_all)) =
     Some (True, plain (V_object [(CZ_Name [], value_int 1)]))"
  by code_simp

lemma lone_minus_is_zero:
  "parse_result (parse whole_doubles ''[-]'' null_value False (json_reader_new features_all)) =
     Some (True, plain (V_array [(CZ_Index 0, value_int 0)]))"
  by code_simp

lemma comment_in_strict_mode:
  "parse_result (parse whole_doubles ''[1 /**/, 2]'' null_value False (json_reader_new features_strict)) =
     Some (True, plain (V_array [(CZ_Index 0, value_int 1), (CZ_Index 1, value_int 2)]))"
  by code_simp

end
