(* ===== verification/Jsoncpp_Writer.thy ===== *)
theory Jsoncpp_Writer
  imports Jsoncpp_Container Escape_Table
begin

text \<open>
  The writers of jsoncpp, \<^verbatim>\<open>json_writer.cpp\<close>: scalars as text, \<^verbatim>\<open>FastWriter\<close>, \<^verbatim>\<open>StyledWriter\<close> and
  \<^verbatim>\<open>StyledStreamWriter\<close>. The last two are copies of each other but for the indentation; the record
  \<open>layout\<close> holds what differs, and the operations are written once over it.

  The text of a double is \<open>d_print\<close>, the result of \<^verbatim>\<open>sprintf\<close> with the format \<^verbatim>\<open>%#.16g\<close>. Signed
  arithmetic wraps.
\<close>

section \<open>Scalars\<close>

definition isControlCharacter :: "char \<Rightarrow> bool" where
  "isControlCharacter ch \<longleftrightarrow> 0 < (of_char ch :: nat) \<and> (of_char ch :: nat) \<le> 0x1F"

fun containsControlCharacter :: "string \<Rightarrow> bool" where
  "containsControlCharacter [] \<longleftrightarrow> False"
| "containsControlCharacter (c # cs) \<longleftrightarrow> isControlCharacter c \<or> containsControlCharacter cs"

text \<open>
  \<^verbatim>\<open>uintToString\<close> writes the digits backwards into a buffer: the text already written follows the
  new digit.
\<close>

function uintToString :: "nat \<Rightarrow> string \<Rightarrow> string" where
  "uintToString n current =
     (let current' = char_of (48 + n mod 10) # current
      in if n div 10 \<noteq> 0 then uintToString (n div 10) current' else current')"
  by pat_completeness auto
termination
  by (relation "measure fst") auto

declare uintToString.simps [simp del]

definition valueToString_int :: "32 word \<Rightarrow> string" where
  "valueToString_int v =
     (let isNegative = sint v < 0;
          v' = (if isNegative then - v else v);
          current = uintToString (unat v') []
      in if isNegative then CHR ''-'' # current else current)"

definition valueToString_uint :: "32 word \<Rightarrow> string" where
  "valueToString_uint v = uintToString (unat v) []"

text \<open>
  The loops over \<^verbatim>\<open>ch\<close> in \<^verbatim>\<open>valueToString(double)\<close>: \<open>last_nonzero\<close> steps back over zeros,
  \<open>find_point\<close> steps back over digits and tells whether it stopped at a point.
\<close>

fun last_nonzero :: "string \<Rightarrow> nat \<Rightarrow> nat" where
  "last_nonzero buffer 0 = 0"
| "last_nonzero buffer (Suc ch) = (if buffer ! Suc ch = CHR ''0'' then last_nonzero buffer ch else Suc ch)"

fun find_point :: "string \<Rightarrow> nat \<Rightarrow> bool" where
  "find_point buffer 0 \<longleftrightarrow> buffer ! 0 = CHR ''.''"
| "find_point buffer (Suc ch) \<longleftrightarrow>
     (if digit (buffer ! Suc ch) then find_point buffer ch else buffer ! Suc ch = CHR ''.'')"

definition truncate_zeros :: "string \<Rightarrow> string" where
  "truncate_zeros buffer =
     (if buffer = [] \<or> last buffer \<noteq> CHR ''0'' then buffer
      else
        let nonzero = last_nonzero buffer (length buffer - 1)
        in if find_point buffer nonzero then take (nonzero + 2) buffer else buffer)"

definition valueToString_double :: "'d doubles \<Rightarrow> 'd \<Rightarrow> string" where
  "valueToString_double D v = truncate_zeros (d_print D v)"

definition valueToString_bool :: "bool \<Rightarrow> string" where
  "valueToString_bool v = (if v then ''true'' else ''false'')"

definition hex_digit :: "nat \<Rightarrow> char" where
  "hex_digit n = (if n < 10 then char_of (48 + n) else char_of (55 + n))"

definition escape_char :: "char \<Rightarrow> string" where
  "escape_char c =
     (if c = quote then [backslash, quote]
      else if c = backslash then [backslash, backslash]
      else if c = CHR 0x08 then [backslash, CHR ''b'']
      else if c = CHR 0x0C then [backslash, CHR ''f'']
      else if c = CHR 0x0A then [backslash, CHR ''n'']
      else if c = CHR 0x0D then [backslash, CHR ''r'']
      else if c = CHR 0x09 then [backslash, CHR ''t'']
      else if isControlCharacter c then
        [backslash, CHR ''u'', CHR ''0'', CHR ''0'', hex_digit (of_char c div 16), hex_digit (of_char c mod 16)]
      else [c])"

definition needs_escape :: "string \<Rightarrow> bool" where
  "needs_escape s \<longleftrightarrow>
     list_ex (\<lambda>c. c \<in> {quote, backslash, CHR 0x08, CHR 0x0C, CHR 0x0A, CHR 0x0D, CHR 0x09}) s \<or>
     containsControlCharacter s"

definition valueToQuotedString :: "string \<Rightarrow> string" where
  "valueToQuotedString s =
     (if \<not> needs_escape (c_string s) then quote # c_string s @ [quote]
      else quote # concat (map escape_char (c_string s)) @ [quote])"

section \<open>Children\<close>

text \<open>\<^verbatim>\<open>value[index]\<close> and \<^verbatim>\<open>value[name]\<close> on a const array and object; an absent child is null.\<close>

definition element_of :: "'d cvalue \<Rightarrow> nat \<Rightarrow> 'd cvalue" where
  "element_of v i = ref_value (map_of (children v) (index_key (word_of_nat i)))"

definition member_of :: "'d cvalue \<Rightarrow> string \<Rightarrow> 'd cvalue" where
  "member_of v name = ref_value (map_of (children v) (name_key name))"

text \<open>\<^verbatim>\<open>valueToQuotedString(value.asCString())\<close>: a string value without text has a null pointer.\<close>

definition quoted_c_string :: "string option \<Rightarrow> string result" where
  "quoted_c_string s = (case s of None \<Rightarrow> Inl Null_Pointer | Some t \<Rightarrow> Inr (valueToQuotedString t))"

text \<open>The measures of the recursion: of a value, and of the loops over its children.\<close>

definition value_mass :: "'d cvalue \<Rightarrow> nat" where
  "value_mass v = 2 * size v + (if type_of v = arrayValue \<or> type_of v = objectValue then 1 else 0)"

definition children_mass :: "'d cvalue \<Rightarrow> nat" where
  "children_mass v = 2 * (size_list (size_prod (\<lambda>_. 0) size) (children v) + 2) + 1"

lemma child_mass: "value_mass (ref_value (map_of (children v) k)) < children_mass v"
proof (cases "map_of (children v) k")
  case (Some w)
  then have "(k, w) \<in> set (children v)" by (rule map_of_SomeD)
  then have "size_prod (\<lambda>_. 0) size (k, w) \<le> size_list (size_prod (\<lambda>_. 0) size) (children v)"
    by (rule size_list_estimation') simp
  then show ?thesis using Some by (simp add: children_mass_def value_mass_def ref_value_def)
qed (simp add: children_mass_def value_mass_def ref_value_def)

lemma container_mass [simp]:
  "children_mass (Value (V_array m) c) = value_mass (Value (V_array m) c)"
  "children_mass (Value (V_object m) c) = value_mass (Value (V_object m) c)"
  by (simp_all add: children_mass_def value_mass_def children_def)

lemma element_mass [simp]: "value_mass (element_of v i) < children_mass v" "value_mass (member_of v n) < children_mass v"
  by (simp_all add: element_of_def member_of_def child_mass)

section \<open>FastWriter\<close>

record fast_writer =
  fw_yaml :: bool

definition fast_writer_new :: fast_writer where
  "fast_writer_new = \<lparr>fw_yaml = False\<rparr>"

definition enableYAMLCompatibility :: "fast_writer \<Rightarrow> fast_writer" where
  "enableYAMLCompatibility w = w\<lparr>fw_yaml := True\<rparr>"

text \<open>
  \<^verbatim>\<open>writeValue\<close> appends to \<^verbatim>\<open>document_\<close>, which is passed through. The loops run over the indices, and
  over the member names with the number of names already written.
\<close>

function (sequential) fast_writeValue :: "'d doubles \<Rightarrow> bool \<Rightarrow> 'd cvalue \<Rightarrow> string \<Rightarrow> string result"
  and fast_elements :: "'d doubles \<Rightarrow> bool \<Rightarrow> 'd cvalue \<Rightarrow> nat list \<Rightarrow> string \<Rightarrow> string result"
  and fast_members :: "'d doubles \<Rightarrow> bool \<Rightarrow> 'd cvalue \<Rightarrow> nat \<Rightarrow> string list \<Rightarrow> string \<Rightarrow> string result" where
  "fast_writeValue D yaml (Value V_null c) document = Inr (document @ ''null'')"
| "fast_writeValue D yaml (Value (V_int i) c) document = Inr (document @ valueToString_int i)"
| "fast_writeValue D yaml (Value (V_uint u) c) document = Inr (document @ valueToString_uint u)"
| "fast_writeValue D yaml (Value (V_real d) c) document = Inr (document @ valueToString_double D d)"
| "fast_writeValue D yaml (Value (V_string s) c) document =
     bind_result (quoted_c_string s) (\<lambda>t. Inr (document @ t))"
| "fast_writeValue D yaml (Value (V_bool b) c) document = Inr (document @ valueToString_bool b)"
| "fast_writeValue D yaml (Value (V_array m) c) document =
     bind_result
       (fast_elements D yaml (Value (V_array m) c) [0..<nat (sint (size_of (Value (V_array m) c)))]
         (document @ ''[''))
       (\<lambda>doc. Inr (doc @ '']''))"
| "fast_writeValue D yaml (Value (V_object m) c) document =
     bind_result (getMemberNames (Value (V_object m) c)) (\<lambda>members.
       bind_result (fast_members D yaml (Value (V_object m) c) 0 members (document @ ''{''))
         (\<lambda>doc. Inr (doc @ ''}'')))"
| "fast_elements D yaml v [] document = Inr document"
| "fast_elements D yaml v (index # indices) document =
     bind_result
       (fast_writeValue D yaml (element_of v index) (if 0 < index then document @ '','' else document))
       (\<lambda>doc. fast_elements D yaml v indices doc)"
| "fast_members D yaml v it [] document = Inr document"
| "fast_members D yaml v it (name # names) document =
     bind_result
       (fast_writeValue D yaml (member_of v name)
         ((if it \<noteq> 0 then document @ '','' else document) @ valueToQuotedString name @
          (if yaml then '': '' else '':'')))
       (\<lambda>doc. fast_members D yaml v (it + 1) names doc)"
  by pat_completeness auto
termination
  by (relation "measures
      [\<lambda>x. case x of Inl (D, y, v, d) \<Rightarrow> value_mass v | Inr (Inl (D, y, v, is, d)) \<Rightarrow> children_mass v
         | Inr (Inr (D, y, v, it, ns, d)) \<Rightarrow> children_mass v,
       \<lambda>x. case x of Inl (D, y, v, d) \<Rightarrow> 1 | Inr _ \<Rightarrow> 0,
       \<lambda>x. case x of Inl (D, y, v, d) \<Rightarrow> 0 | Inr (Inl (D, y, v, is, d)) \<Rightarrow> length is
         | Inr (Inr (D, y, v, it, ns, d)) \<Rightarrow> length ns]") auto

definition fast_write :: "'d doubles \<Rightarrow> fast_writer \<Rightarrow> 'd cvalue \<Rightarrow> string result" where
  "fast_write D w root =
     bind_result (fast_writeValue D (fw_yaml w) root []) (\<lambda>doc. Inr (doc @ [CHR 0x0A]))"

section \<open>StyledWriter and StyledStreamWriter\<close>

record writer =
  w_childValues :: "string list"
  w_document :: string
  w_indentString :: string
  w_addChildValues :: bool

text \<open>What the two classes do differently: \<^verbatim>\<open>writeIndent\<close>, and the text of one level of indentation.\<close>

record layout =
  ly_writeIndent :: "writer \<Rightarrow> writer"
  ly_indentation :: string

definition rightMargin :: int where
  "rightMargin = 74"

definition append_text :: "string \<Rightarrow> writer \<Rightarrow> writer" where
  "append_text s w = w\<lparr>w_document := w_document w @ s\<rparr>"

definition styled_writeIndent :: "writer \<Rightarrow> writer" where
  "styled_writeIndent w =
     (if w_document w \<noteq> [] then
        if last (w_document w) = CHR '' '' then w
        else if last (w_document w) \<noteq> CHR 0x0A then append_text (CHR 0x0A # w_indentString w) w
        else append_text (w_indentString w) w
      else append_text (w_indentString w) w)"

definition stream_writeIndent :: "writer \<Rightarrow> writer" where
  "stream_writeIndent w = append_text (CHR 0x0A # w_indentString w) w"

definition styled_layout :: layout where
  "styled_layout = \<lparr>ly_writeIndent = styled_writeIndent, ly_indentation = replicate 3 (CHR '' '')\<rparr>"

definition stream_layout :: "string \<Rightarrow> layout" where
  "stream_layout indentation = \<lparr>ly_writeIndent = stream_writeIndent, ly_indentation = indentation\<rparr>"

definition pushValue :: "string \<Rightarrow> writer \<Rightarrow> writer" where
  "pushValue s w =
     (if w_addChildValues w then w\<lparr>w_childValues := w_childValues w @ [s]\<rparr> else append_text s w)"

definition writeWithIndent :: "layout \<Rightarrow> string \<Rightarrow> writer \<Rightarrow> writer" where
  "writeWithIndent L s w = append_text s (ly_writeIndent L w)"

definition indent :: "layout \<Rightarrow> writer \<Rightarrow> writer" where
  "indent L w = w\<lparr>w_indentString := w_indentString w @ ly_indentation L\<rparr>"

definition unindent :: "layout \<Rightarrow> writer \<Rightarrow> writer result" where
  "unindent L w =
     (if length (ly_indentation L) \<le> length (w_indentString w) then
        Inr (w\<lparr>w_indentString := take (length (w_indentString w) - length (ly_indentation L)) (w_indentString w)\<rparr>)
      else Inl Assertion_Failed)"

function normalizeEOL :: "string \<Rightarrow> string" where
  "normalizeEOL [] = []"
| "normalizeEOL (c # cs) =
     (if c = CHR 0x0D then
        CHR 0x0A # normalizeEOL (case cs of [] \<Rightarrow> [] | d # ds \<Rightarrow> if d = CHR 0x0A then ds else cs)
      else c # normalizeEOL cs)"
  by pat_completeness auto
termination
  by (relation "measure length") (auto split: list.splits)

definition writeCommentBeforeValue :: "'d cvalue \<Rightarrow> writer \<Rightarrow> writer" where
  "writeCommentBeforeValue root w =
     (if \<not> hasComment commentBefore root then w
      else append_text [CHR 0x0A] (append_text (normalizeEOL (getComment commentBefore root)) w))"

definition writeCommentAfterValueOnSameLine :: "'d cvalue \<Rightarrow> writer \<Rightarrow> writer" where
  "writeCommentAfterValueOnSameLine root w =
     (let w1 = (if hasComment commentAfterOnSameLine root
                then append_text (CHR '' '' # normalizeEOL (getComment commentAfterOnSameLine root)) w
                else w)
      in if hasComment commentAfter root
         then append_text [CHR 0x0A] (append_text (normalizeEOL (getComment commentAfter root))
                (append_text [CHR 0x0A] w1))
         else w1)"

definition hasCommentForValue :: "'d cvalue \<Rightarrow> bool" where
  "hasCommentForValue v \<longleftrightarrow>
     hasComment commentBefore v \<or> hasComment commentAfterOnSameLine v \<or> hasComment commentAfter v"

text \<open>\<^verbatim>\<open>childValue.isArray() || childValue.isObject()\<close>, with children\<close>

definition nonempty_container :: "'d cvalue \<Rightarrow> bool" where
  "nonempty_container v \<longleftrightarrow> (isArray v \<or> isObject v) \<and> 0 < size_of v"

function (sequential) write_value :: "layout \<Rightarrow> 'd doubles \<Rightarrow> 'd cvalue \<Rightarrow> writer \<Rightarrow> writer result"
  and write_members :: "layout \<Rightarrow> 'd doubles \<Rightarrow> 'd cvalue \<Rightarrow> string list \<Rightarrow> writer \<Rightarrow> writer result"
  and write_array :: "layout \<Rightarrow> 'd doubles \<Rightarrow> 'd cvalue \<Rightarrow> writer \<Rightarrow> writer result"
  and write_elements :: "layout \<Rightarrow> 'd doubles \<Rightarrow> 'd cvalue \<Rightarrow> bool \<Rightarrow> nat list \<Rightarrow> writer \<Rightarrow> writer result"
  and isMultineArray :: "layout \<Rightarrow> 'd doubles \<Rightarrow> 'd cvalue \<Rightarrow> writer \<Rightarrow> (bool \<times> writer) result"
  and child_texts :: "layout \<Rightarrow> 'd doubles \<Rightarrow> 'd cvalue \<Rightarrow> nat list \<Rightarrow> bool \<Rightarrow> int \<Rightarrow> writer \<Rightarrow>
    (bool \<times> int \<times> writer) result" where
  "write_value L D (Value V_null c) w = Inr (pushValue ''null'' w)"
| "write_value L D (Value (V_int i) c) w = Inr (pushValue (valueToString_int i) w)"
| "write_value L D (Value (V_uint u) c) w = Inr (pushValue (valueToString_uint u) w)"
| "write_value L D (Value (V_real d) c) w = Inr (pushValue (valueToString_double D d) w)"
| "write_value L D (Value (V_string s) c) w =
     bind_result (quoted_c_string s) (\<lambda>t. Inr (pushValue t w))"
| "write_value L D (Value (V_bool b) c) w = Inr (pushValue (valueToString_bool b) w)"
| "write_value L D (Value (V_array m) c) w = write_array L D (Value (V_array m) c) w"
| "write_value L D (Value (V_object m) c) w =
     bind_result (getMemberNames (Value (V_object m) c)) (\<lambda>members.
       if members = [] then Inr (pushValue ''{}'' w)
       else
         bind_result
           (write_members L D (Value (V_object m) c) members (indent L (writeWithIndent L ''{'' w)))
           (\<lambda>w1. bind_result (unindent L w1) (\<lambda>w2. Inr (writeWithIndent L ''}'' w2))))"
| "write_members L D v [] w = Inr w"
| "write_members L D v (name # names) w =
     (let childValue = member_of v name;
          w1 = append_text '' : '' (writeWithIndent L (valueToQuotedString name) (writeCommentBeforeValue childValue w))
      in bind_result (write_value L D childValue w1) (\<lambda>w2.
           if names = [] then Inr (writeCommentAfterValueOnSameLine childValue w2)
           else write_members L D v names
             (writeCommentAfterValueOnSameLine childValue (append_text '','' w2))))"
| "write_array L D v w =
     (if size_of v = 0 then Inr (pushValue ''[]'' w)
      else
        bind_result (isMultineArray L D v w) (\<lambda>(isArrayMultiLine, w1).
          if isArrayMultiLine then
            let w2 = indent L (writeWithIndent L ''['' w1)
            in bind_result (write_elements L D v (w_childValues w2 \<noteq> []) [0..<unat (size_of v)] w2) (\<lambda>w3.
                 bind_result (unindent L w3) (\<lambda>w4. Inr (writeWithIndent L '']'' w4)))
          else if length (w_childValues w1) \<noteq> unat (size_of v) then Inl Assertion_Failed
          else Inr (append_text '' ]''
            (fold (\<lambda>index x. append_text
                (if 0 < index then '', '' @ w_childValues w1 ! index else w_childValues w1 ! index) x)
              [0..<unat (size_of v)] (append_text ''[ '' w1)))))"
| "write_elements L D v hasChildValue [] w = Inr w"
| "write_elements L D v hasChildValue (index # indices) w =
     (let childValue = element_of v index;
          w1 = writeCommentBeforeValue childValue w
      in bind_result
           (if hasChildValue then
              bind_result (deref (w_childValues w1) index) (\<lambda>s. Inr (writeWithIndent L s w1))
            else write_value L D childValue (ly_writeIndent L w1))
           (\<lambda>w2.
              if indices = [] then Inr (writeCommentAfterValueOnSameLine childValue w2)
              else write_elements L D v hasChildValue indices
                (writeCommentAfterValueOnSameLine childValue (append_text '','' w2))))"
| "isMultineArray L D v w =
     (let size = size_of v;
          wide = (sint (size * 3) \<ge> rightMargin);
          w1 = w\<lparr>w_childValues := []\<rparr>;
          isMultiLine = (wide \<or> list_ex (\<lambda>i. nonempty_container (element_of v i)) [0..<nat (sint size)])
      in if isMultiLine then Inr (True, w1)
         else
           bind_result
             (child_texts L D v [0..<nat (sint size)] False (sint (4 + (size - 1) * 2))
               (w1\<lparr>w_addChildValues := True\<rparr>))
             (\<lambda>(multi, lineLength, w2).
                Inr (multi \<or> rightMargin \<le> lineLength, w2\<lparr>w_addChildValues := False\<rparr>)))"
| "child_texts L D v [] isMultiLine lineLength w = Inr (isMultiLine, lineLength, w)"
| "child_texts L D v (index # indices) isMultiLine lineLength w =
     (if isMultiLine then Inr (isMultiLine, lineLength, w)
      else
        bind_result (write_value L D (element_of v index) w) (\<lambda>w1.
          bind_result (deref (w_childValues w1) index) (\<lambda>s.
            child_texts L D v indices (isMultiLine \<and> hasCommentForValue (element_of v index))
              (lineLength + int (length s)) w1)))"
  by pat_completeness auto
termination
  by (relation "measures
      [\<lambda>x. case x of Inl (Inl (L, D, v, w)) \<Rightarrow> value_mass v
         | Inl (Inr (Inl (L, D, v, ns, w))) \<Rightarrow> children_mass v
         | Inl (Inr (Inr (L, D, v, w))) \<Rightarrow> children_mass v
         | Inr (Inl (L, D, v, h, is, w)) \<Rightarrow> children_mass v
         | Inr (Inr (Inl (L, D, v, w))) \<Rightarrow> children_mass v
         | Inr (Inr (Inr (L, D, v, is, b, n, w))) \<Rightarrow> children_mass v,
       \<lambda>x. case x of Inl (Inl _) \<Rightarrow> 3 | Inl (Inr (Inl _)) \<Rightarrow> 0 | Inl (Inr (Inr _)) \<Rightarrow> 2 | Inr (Inl _) \<Rightarrow> 0
         | Inr (Inr (Inl _)) \<Rightarrow> 1 | Inr (Inr (Inr _)) \<Rightarrow> 0,
       \<lambda>x. case x of Inl (Inl _) \<Rightarrow> 0
         | Inl (Inr (Inl (L, D, v, ns, w))) \<Rightarrow> length ns
         | Inl (Inr (Inr _)) \<Rightarrow> 0
         | Inr (Inl (L, D, v, h, is, w)) \<Rightarrow> length is
         | Inr (Inr (Inl _)) \<Rightarrow> 0
         | Inr (Inr (Inr (L, D, v, is, b, n, w))) \<Rightarrow> length is]") auto

definition writer_new :: writer where
  "writer_new = \<lparr>w_childValues = [], w_document = [], w_indentString = [], w_addChildValues = False\<rparr>"

text \<open>\<^verbatim>\<open>write\<close>: the fields \<^verbatim>\<open>document_\<close>, \<^verbatim>\<open>addChildValues_\<close> and \<^verbatim>\<open>indentString_\<close> are reset.\<close>

definition write_root :: "layout \<Rightarrow> 'd doubles \<Rightarrow> writer \<Rightarrow> 'd cvalue \<Rightarrow> writer result" where
  "write_root L D w root =
     bind_result
       (write_value L D root
         (writeCommentBeforeValue root (w\<lparr>w_document := [], w_addChildValues := False, w_indentString := []\<rparr>)))
       (\<lambda>w1. Inr (append_text [CHR 0x0A] (writeCommentAfterValueOnSameLine root w1)))"

definition styled_write :: "'d doubles \<Rightarrow> 'd cvalue \<Rightarrow> string result" where
  "styled_write D root = bind_result (write_root styled_layout D writer_new root) (\<lambda>w. Inr (w_document w))"

definition stream_write :: "string \<Rightarrow> 'd doubles \<Rightarrow> 'd cvalue \<Rightarrow> string result" where
  "stream_write indentation D root =
     bind_result (write_root (stream_layout indentation) D writer_new root) (\<lambda>w. Inr (w_document w))"

text \<open>\<^verbatim>\<open>operator<<\<close>: a stream writer with the default indentation, appended to the stream.\<close>

definition stream_value :: "'d doubles \<Rightarrow> string \<Rightarrow> 'd cvalue \<Rightarrow> string result" where
  "stream_value D sout root =
     bind_result (stream_write [CHR 0x09] D root) (\<lambda>text. Inr (sout @ text))"

end
