(* ===== verification/Jsoncpp_Writer_Laws.thy ===== *)
theory Jsoncpp_Writer_Laws
  imports Jsoncpp_Writer
begin

text \<open>
  The styled writers return on every value they can write: the contract of their layouts is the
  locale \<open>indenting\<close>, which \<^verbatim>\<open>StyledWriter\<close> and \<^verbatim>\<open>StyledStreamWriter\<close> both satisfy. The text of a
  double is cut after a decimal point only, and only zeros are cut.
\<close>

section \<open>The styled writers return\<close>

text \<open>
  Values that can be written: no string value without text, arrays whose size keeps the signed
  arithmetic of \<^verbatim>\<open>isMultineArray\<close> in range, objects that \<^verbatim>\<open>size\<close> can count.
\<close>

fun writable :: "'d cvalue \<Rightarrow> bool"
  and writable_payload :: "'d payload \<Rightarrow> bool"
  and writable_members :: "'d members \<Rightarrow> bool" where
  "writable (Value p c) \<longleftrightarrow> writable_payload p"
| "writable_payload (V_string s) \<longleftrightarrow> s \<noteq> None"
| "writable_payload (V_array m) \<longleftrightarrow> size_of (Value (V_array m) None) < 2 ^ 28 \<and> writable_members m"
| "writable_payload (V_object m) \<longleftrightarrow> length m < 2 ^ 32 \<and> writable_members m"
| "writable_payload p \<longleftrightarrow> True"
| "writable_members [] \<longleftrightarrow> True"
| "writable_members ((k, v) # m) \<longleftrightarrow> writable v \<and> writable_members m"

definition same_indent :: "writer \<Rightarrow> writer \<Rightarrow> bool" where
  "same_indent w w' \<longleftrightarrow>
     w_indentString w' = w_indentString w \<and> w_addChildValues w' = w_addChildValues w"

text \<open>Writing a value returns; the text of a scalar may be collected instead of written.\<close>

definition written :: "layout \<Rightarrow> 'd doubles \<Rightarrow> 'd cvalue \<Rightarrow> bool" where
  "written L D v \<longleftrightarrow>
     (\<forall>w. (w_addChildValues w \<longrightarrow> \<not> nonempty_container v) \<longrightarrow>
        (\<exists>w'. write_value L D v w = Inr w' \<and> same_indent w w' \<and>
           (w_addChildValues w \<longrightarrow> (\<exists>s. w_childValues w' = w_childValues w @ [s]))))"

lemma writtenD:
  "written L D v \<Longrightarrow> \<not> w_addChildValues w \<Longrightarrow> \<exists>w'. write_value L D v w = Inr w' \<and> same_indent w w'"
  by (auto simp: written_def)

lemma same_indent_trans: "same_indent w w' \<Longrightarrow> same_indent w' w'' \<Longrightarrow> same_indent w w''"
  by (simp add: same_indent_def)

declare isMultineArray.simps [simp del] write_array.simps [simp del]

text \<open>The contract of the layouts: indenting appends text only.\<close>

lemma sint_small_size:
  fixes x :: "32 word"
  assumes "x < 2 ^ 28" shows "nat (sint x) = unat x"
proof -
  have "uint x < 2 ^ 28" using assms by (simp add: word_less_def)
  then have "sint x = uint x" using signed_take_bit_int_eq_self [of 31 "uint x"] uint_ge_0 [of x] by (simp add: sint_uint)
  then show ?thesis by simp
qed

locale indenting =
  fixes L :: layout
  assumes indent_only: "\<exists>s. ly_writeIndent L w = append_text s w"
begin

lemma indent_same: "w_childValues (ly_writeIndent L w) = w_childValues w"
  "w_indentString (ly_writeIndent L w) = w_indentString w"
  "w_addChildValues (ly_writeIndent L w) = w_addChildValues w"
  using indent_only [of w] by (auto simp: append_text_def)

lemmas write_simps = indent_same append_text_def writeWithIndent_def indent_def unindent_def same_indent_def
  writeCommentBeforeValue_def writeCommentAfterValueOnSameLine_def Let_def

lemma members_written:
  assumes "\<And>n. written L D (member_of v n)"
  shows "\<not> w_addChildValues w \<Longrightarrow> \<exists>w'. write_members L D v names w = Inr w' \<and> same_indent w w'"
proof (induction names arbitrary: w)
  case (Cons name names)
  let ?w1 = "append_text '' : '' (writeWithIndent L (valueToQuotedString name) (writeCommentBeforeValue (member_of v name) w))"
  have w1: "same_indent w ?w1" by (simp add: write_simps)
  with assms [of name] Cons.prems obtain w2 where w2: "write_value L D (member_of v name) ?w1 = Inr w2" "same_indent ?w1 w2"
    by (auto simp: written_def same_indent_def)
  let ?w3 = "writeCommentAfterValueOnSameLine (member_of v name) (append_text '','' w2)"
  have "same_indent w ?w3" "same_indent w (writeCommentAfterValueOnSameLine (member_of v name) w2)"
    using w1 w2(2) by (simp_all add: write_simps)
  with Cons.IH [of ?w3] Cons.prems w2(1) show ?case by (auto simp: Let_def same_indent_def)
qed (simp add: same_indent_def)

lemma elements_written:
  assumes "\<And>i. written L D (element_of v i)"
  shows "\<not> w_addChildValues w \<Longrightarrow> (h \<longrightarrow> (\<forall>i \<in> set is. i < length (w_childValues w))) \<Longrightarrow>
    \<exists>w'. write_elements L D v h is w = Inr w' \<and> same_indent w w'"
proof (induction "is" arbitrary: w)
  case (Cons i "is")
  let ?w1 = "writeCommentBeforeValue (element_of v i) w"
  have w1: "same_indent w ?w1" "w_childValues ?w1 = w_childValues w" by (simp_all add: write_simps)
  obtain w2 where w2: "(if h then bind_result (deref (w_childValues ?w1) i) (\<lambda>s. Inr (writeWithIndent L s ?w1))
      else write_value L D (element_of v i) (ly_writeIndent L ?w1)) = Inr w2" "same_indent w w2"
    "h \<Longrightarrow> w_childValues w2 = w_childValues w"
  proof (cases h)
    case True
    then show ?thesis using Cons.prems(2) w1
      by (intro that [of "writeWithIndent L (w_childValues w ! i) ?w1"]) (auto simp: deref_def write_simps)
  next
    case False
    obtain w2 where
      "write_value L D (element_of v i) (ly_writeIndent L ?w1) = Inr w2" "same_indent (ly_writeIndent L ?w1) w2"
      using writtenD [OF assms, of "ly_writeIndent L ?w1"] Cons.prems(1) w1(1)
      by (auto simp: same_indent_def indent_same)
    with False w1(1) show ?thesis by (intro that [of w2]) (auto simp: same_indent_def indent_same)
  qed
  let ?w3 = "writeCommentAfterValueOnSameLine (element_of v i) (append_text '','' w2)"
  have "same_indent w ?w3" "same_indent w (writeCommentAfterValueOnSameLine (element_of v i) w2)"
      "h \<Longrightarrow> w_childValues ?w3 = w_childValues w"
    using w2(2,3) by (simp_all add: write_simps)
  with Cons.IH [of ?w3] Cons.prems w2(1) show ?case by (auto simp: Let_def same_indent_def)
qed (simp add: same_indent_def)

lemma child_texts_collected:
  assumes "\<And>i. written L D (element_of v i)"
  shows "w_addChildValues w \<Longrightarrow> \<forall>i \<in> {length (w_childValues w)..<n}. \<not> nonempty_container (element_of v i) \<Longrightarrow>
    length (w_childValues w) \<le> n \<Longrightarrow>
    \<exists>ll w'. child_texts L D v [length (w_childValues w)..<n] False l w = Inr (False, ll, w') \<and>
      same_indent w w' \<and> length (w_childValues w') = n"
proof (induction "n - length (w_childValues w)" arbitrary: w l)
  case (Suc k)
  let ?i = "length (w_childValues w)"
  have i: "[?i..<n] = ?i # [Suc ?i..<n]" using Suc(2) by (simp add: upt_conv_Cons)
  from assms [of ?i] Suc.prems Suc(2) obtain w1 s where w1: "write_value L D (element_of v ?i) w = Inr w1" "same_indent w w1"
    "w_childValues w1 = w_childValues w @ [s]" by (auto simp: written_def)
  then have len: "length (w_childValues w1) = Suc ?i" by simp
  have "k = n - Suc ?i" "Suc ?i \<le> n" using Suc(2) by linarith+
  with Suc(1) [of w1 "l + int (length s)"] Suc.prems w1 len obtain ll w' where
    "child_texts L D v [Suc ?i..<n] False (l + int (length s)) w1 = Inr (False, ll, w')" "same_indent w1 w'"
    "length (w_childValues w') = n" by (auto simp: same_indent_def)
  with w1 i show ?case by (auto simp: same_indent_def deref_def)
qed (auto simp: same_indent_def)

lemma multiline_decided:
  assumes "\<And>i. written L D (element_of v i)" and "size_of v < 2 ^ 28" and "\<not> w_addChildValues w"
  shows "\<exists>b w'. isMultineArray L D v w = Inr (b, w') \<and> same_indent w w' \<and>
    (w_childValues w' = [] \<or> length (w_childValues w') = unat (size_of v)) \<and>
    (\<not> b \<longrightarrow> length (w_childValues w') = unat (size_of v))"
proof -
  have size: "nat (sint (size_of v)) = unat (size_of v)"
    using assms(2) sint_small_size [of "size_of v"] by simp
  let ?multi = "rightMargin \<le> sint (size_of v * 3) \<or>
    list_ex (\<lambda>i. nonempty_container (element_of v i)) [0..<unat (size_of v)]"
  let ?w1 = "w\<lparr>w_childValues := [], w_addChildValues := True\<rparr>"
  show ?thesis
  proof (cases ?multi)
    case True
    then show ?thesis by (intro exI [of _ True]) (simp add: size Let_def same_indent_def isMultineArray.simps)
  next
    case False
    then have "\<forall>i \<in> {length (w_childValues ?w1)..<unat (size_of v)}. \<not> nonempty_container (element_of v i)"
      by (auto simp: list_ex_iff)
    from child_texts_collected [OF assms(1) _ this, of "sint (4 + (size_of v - 1) * 2)"] obtain ll w' where
      "child_texts L D v [0..<unat (size_of v)] False (sint (4 + (size_of v - 1) * 2)) ?w1 = Inr (False, ll, w')"
      "same_indent ?w1 w'" "length (w_childValues w') = unat (size_of v)" by auto
    with False assms(3) show ?thesis by (auto simp: size Let_def same_indent_def isMultineArray.simps)
  qed
qed

lemma array_written:
  assumes "\<And>i. written L D (element_of v i)" and "size_of v < 2 ^ 28"
    and "w_addChildValues w \<longrightarrow> size_of v = 0"
  shows "\<exists>w'. write_array L D v w = Inr w' \<and> same_indent w w' \<and>
    (w_addChildValues w \<longrightarrow> (\<exists>s. w_childValues w' = w_childValues w @ [s]))"
proof (cases "size_of v = 0")
  case True
  then show ?thesis by (auto simp: same_indent_def pushValue_def append_text_def write_array.simps)
next
  case False
  with assms(3) have add: "\<not> w_addChildValues w" by blast
  from multiline_decided [OF assms(1,2) add] obtain b w1 where w1: "isMultineArray L D v w = Inr (b, w1)"
    "same_indent w w1" "w_childValues w1 = [] \<or> length (w_childValues w1) = unat (size_of v)"
    "\<not> b \<longrightarrow> length (w_childValues w1) = unat (size_of v)" by blast
  show ?thesis
  proof (cases b)
    case True
    let ?w2 = "indent L (writeWithIndent L ''['' w1)"
    have w2: "w_childValues ?w2 = w_childValues w1" "\<not> w_addChildValues ?w2"
        "w_indentString ?w2 = w_indentString w @ ly_indentation L"
      using w1(2) add by (simp_all add: write_simps)
    obtain w3 where "write_elements L D v (w_childValues ?w2 \<noteq> []) [0..<unat (size_of v)] ?w2 = Inr w3" "same_indent ?w2 w3"
      using elements_written [OF assms(1) w2(2), of "w_childValues ?w2 \<noteq> []" "[0..<unat (size_of v)]"] w1(3) w2(1)
      by auto
    with w1(1) True False w2 add show ?thesis
      by (simp add: write_array.simps write_simps)
  next
    case b: False
    have fold: "same_indent x (fold (\<lambda>i. append_text (f i)) is x)" for f "is" x
      by (induction "is" arbitrary: x) (auto simp: same_indent_def append_text_def)
    let ?texts = "fold (\<lambda>i. append_text (if 0 < i then '', '' @ w_childValues w1 ! i else w_childValues w1 ! i))
      [0..<unat (size_of v)] (append_text ''[ '' w1)"
    have "same_indent w (append_text ''[ '' w1)" using w1(2) by (simp add: same_indent_def append_text_def)
    then have "same_indent w ?texts" using fold by (rule same_indent_trans)
    then have "same_indent w (append_text '' ]'' ?texts)" by (simp add: same_indent_def append_text_def)
    with w1 b False add show ?thesis by (simp add: write_array.simps)
  qed
qed

lemma object_written:
  assumes "\<And>n. written L D (member_of (Value (V_object m) c) n)" and "length m < 2 ^ 32"
  shows "written L D (Value (V_object m) c)"
  unfolding written_def
proof (intro allI impI)
  fix w :: writer assume add: "w_addChildValues w \<longrightarrow> \<not> nonempty_container (Value (V_object m) c)"
  obtain ns where ns: "getMemberNames (Value (V_object m) c) = Inr ns" "length ns = length m"
    by (simp add: getMemberNames_def object_map_def)
  show "\<exists>w'. write_value L D (Value (V_object m) c) w = Inr w' \<and> same_indent w w' \<and>
     (w_addChildValues w \<longrightarrow> (\<exists>s. w_childValues w' = w_childValues w @ [s]))"
  proof (cases "m = []")
    case True
    then show ?thesis using ns by (auto simp: same_indent_def pushValue_def append_text_def)
  next
    case False
    have "unat (word_of_nat (length m) :: 32 word) = length m" using assms(2) by (simp add: unat_of_nat)
    then have "nonempty_container (Value (V_object m) c)" using False
      by (auto simp: nonempty_container_def isObject_def size_of_def word_greater_zero_iff)
    with add have add: "\<not> w_addChildValues w" by blast
    let ?w1 = "indent L (writeWithIndent L ''{'' w)"
    have w1: "\<not> w_addChildValues ?w1" "w_indentString ?w1 = w_indentString w @ ly_indentation L"
      using add by (simp_all add: write_simps)
    obtain w2 where "write_members L D (Value (V_object m) c) ns ?w1 = Inr w2" "same_indent ?w1 w2"
      using members_written [OF assms(1) w1(1)] by blast
    moreover have "ns \<noteq> []" using ns(2) False by auto
    ultimately show ?thesis using ns(1) w1 add by (simp add: write_simps)
  qed
qed

lemma writable_child: "writable_members m \<Longrightarrow> writable (ref_value (map_of m k))"
  by (induction m) (auto simp: ref_value_def)

lemma writable_written:
  fixes v :: "'d cvalue"
  shows "writable v \<Longrightarrow> written L D v"
proof (induction v rule: measure_induct_rule [of value_mass])
  case (less v)
  show ?case
  proof (cases v)
    case (Value p c)
    have scalar: ?thesis if ex: "\<And>w. \<exists>s. write_value L D v w = Inr (pushValue s w)"
      unfolding written_def
    proof (intro allI impI)
      fix w :: writer
      obtain s where "write_value L D v w = Inr (pushValue s w)" using ex [of w] by blast
      then show "\<exists>w'. write_value L D v w = Inr w' \<and> same_indent w w' \<and>
         (w_addChildValues w \<longrightarrow> (\<exists>s. w_childValues w' = w_childValues w @ [s]))"
        by (simp add: pushValue_def same_indent_def append_text_def)
    qed
    have child: "written L D (ref_value (map_of (children v) k))" if "writable_members (children v)" "children_mass v = value_mass v" for k
      using child_mass [of v k] that writable_child by (intro less.IH) auto
    show ?thesis
    proof (cases p)
      case (V_array m)
      have "size_of v = size_of (Value (V_array m) None)" using Value V_array by (simp add: size_of_def)
      then show ?thesis
        using array_written [of D v] child less.prems Value V_array
        by (auto simp: written_def element_of_def children_def nonempty_container_def isArray_def word_greater_zero_iff)
    next
      case (V_object m)
      then show ?thesis
        using object_written [of D m c] child less.prems Value by (auto simp: member_of_def children_def)
    next
      case (V_string s)
      then obtain t where "s = Some t" using less.prems Value by auto
      then have "write_value L D v w = Inr (pushValue (valueToQuotedString t) w)" for w
        using Value V_string by (simp add: quoted_c_string_def)
      then show ?thesis by (intro scalar exI)
    qed (use scalar Value in auto)
  qed
qed

lemma root_written:
  assumes "writable v"
  shows "\<exists>w'. write_root L D w v = Inr w' \<and> w_indentString w' = []"
proof -
  let ?w = "writeCommentBeforeValue v (w\<lparr>w_document := [], w_addChildValues := False, w_indentString := []\<rparr>)"
  have "\<not> w_addChildValues ?w" "w_indentString ?w = []" by (simp_all add: write_simps)
  with writtenD [OF writable_written [OF assms], of ?w D] obtain w1 where
    "write_value L D v ?w = Inr w1" "w_indentString w1 = []" by (auto simp: same_indent_def)
  then show ?thesis by (simp add: write_root_def) (simp add: write_simps)
qed

end

interpretation styled: indenting styled_layout
proof
  fix w :: writer
  have "append_text [] w = w" by (simp add: append_text_def)
  then show "\<exists>s. ly_writeIndent styled_layout w = append_text s w"
    by (simp add: styled_layout_def styled_writeIndent_def) metis
qed

interpretation stream: indenting "stream_layout s"
  by unfold_locales (auto simp: stream_layout_def stream_writeIndent_def append_text_def)

section \<open>Truncated zeros\<close>

lemma last_nonzero_le: "last_nonzero s n \<le> n"
  by (induction s n rule: last_nonzero.induct) auto

lemma last_nonzero_zeros: "last_nonzero s n < i \<Longrightarrow> i \<le> n \<Longrightarrow> s ! i = CHR ''0''"
  by (induction s n rule: last_nonzero.induct) (auto simp: le_Suc_eq split: if_splits)

lemma last_nonzero_less: "0 < n \<Longrightarrow> s ! n = CHR ''0'' \<Longrightarrow> last_nonzero s n < n"
  using last_nonzero_le [of s "n - 1"] by (cases n) auto

lemma find_point_digits:
  "find_point s n \<Longrightarrow> \<exists>j \<le> n. s ! j = CHR ''.'' \<and> (\<forall>i. j < i \<and> i \<le> n \<longrightarrow> digit (s ! i))"
proof (induction s n rule: find_point.induct)
  case (2 s n)
  show ?case
  proof (cases "digit (s ! Suc n)")
    case True
    with 2 obtain j where "j \<le> n" "s ! j = CHR ''.''" "\<forall>i. j < i \<and> i \<le> n \<longrightarrow> digit (s ! i)" by auto
    with True show ?thesis by (intro exI [of _ j]) (auto simp: le_Suc_eq)
  qed (use 2 in \<open>auto intro: exI [of _ "Suc n"]\<close>)
qed auto

lemma truncate_zeros_cases:
  obtains "truncate_zeros s = s"
  | k j where "truncate_zeros s = take k s" "k \<le> length s" "set (drop k s) \<subseteq> {CHR ''0''}" "j + 1 < k" "s ! j = CHR ''.''"
    "\<forall>i. j < i \<and> i < k \<longrightarrow> digit (s ! i)"
proof (cases "s = [] \<or> last s \<noteq> CHR ''0'' \<or> \<not> find_point s (last_nonzero s (length s - 1))")
  case True
  then show ?thesis using that(1) by (auto simp: truncate_zeros_def Let_def)
next
  case False
  let ?n = "last_nonzero s (length s - 1)"
  from False obtain j where j: "j \<le> ?n" "s ! j = CHR ''.''" "\<forall>i. j < i \<and> i \<le> ?n \<longrightarrow> digit (s ! i)"
    using find_point_digits by blast
  have zero: "s ! i = CHR ''0''" if "?n < i" "i < length s" for i using last_nonzero_zeros [OF that(1)] that(2) by simp
  have last: "s ! (length s - 1) = CHR ''0''" "s \<noteq> []" using False last_conv_nth [of s] by auto
  have "length s - 1 \<noteq> 0" using last j by (cases "length s - 1") auto
  then have n: "?n + 1 < length s" using last_nonzero_less [of "length s - 1" s] last(1) by simp
  show ?thesis
  proof (rule that(2))
    show "truncate_zeros s = take (?n + 2) s" using False by (simp add: truncate_zeros_def Let_def)
    show "set (drop (?n + 2) s) \<subseteq> {CHR ''0''}" using zero by (auto simp: set_conv_nth)
    show "\<forall>i. j < i \<and> i < ?n + 2 \<longrightarrow> digit (s ! i)"
    proof (intro allI impI)
      fix i assume i: "j < i \<and> i < ?n + 2"
      show "digit (s ! i)"
      proof (cases "i \<le> ?n")
        case False
        then have "s ! i = CHR ''0''" using zero i n by auto
        then show ?thesis by (simp add: digit_def)
      qed (use j i in auto)
    qed
  qed (use j n in auto)
qed

text \<open>
  \<^verbatim>\<open>valueToString(double)\<close> cuts off trailing zeros only, and only digits after a decimal
  point: what remains is the text of \<^verbatim>\<open>sprintf\<close>, or a prefix of it whose rest is all zeros and
  which ends in a point and at least one digit.
\<close>
theorem double_text_truncated:
  "\<exists>k. valueToString_double D d = take k (d_print D d) \<and>
     (drop k (d_print D d) = [] \<or>
      set (drop k (d_print D d)) \<subseteq> {CHR ''0''} \<and>
      (\<exists>a b. take k (d_print D d) = a @ CHR ''.'' # b \<and> b \<noteq> [] \<and> list_all digit b))"
proof -
  let ?s = "d_print D d"
  show ?thesis
  proof (cases ?s rule: truncate_zeros_cases)
    case 1
    then show ?thesis by (intro exI [of _ "length ?s"]) (simp add: valueToString_double_def)
  next
    case (2 k j)
    have "take k ?s = take j ?s @ ?s ! j # drop (Suc j) (take k ?s)"
      using 2(2,4) id_take_nth_drop [of j "take k ?s"] by (simp add: min_def)
    moreover have "drop (Suc j) (take k ?s) \<noteq> []" using 2(2,4) by simp
    moreover have "list_all digit (drop (Suc j) (take k ?s))" using 2(2,6) by (auto simp: list_all_length nth_append)
    ultimately have "\<exists>a b. take k ?s = a @ CHR ''.'' # b \<and> b \<noteq> [] \<and> list_all digit b"
      unfolding 2(5) by blast
    with 2(1,3) show ?thesis unfolding valueToString_double_def by blast
  qed
qed

text \<open>
  C27. The styled writers return on every writable value: indentation and unindentation are
  balanced, so the assertion of \<^verbatim>\<open>unindent\<close> holds; the texts of the children collected for an
  array are as many as its elements, so the assertion of \<^verbatim>\<open>writeArrayValue\<close> holds and
  \<^verbatim>\<open>childValues_[index]\<close> is in range.
\<close>
theorem styled_writers_return:
  assumes "writable v"
  shows "(\<exists>text. styled_write D v = Inr text) \<and> (\<exists>text. stream_write indentation D v = Inr text)"
proof -
  obtain w where "write_root styled_layout D writer_new v = Inr w" using styled.root_written [OF assms] by blast
  moreover obtain w' where "write_root (stream_layout indentation) D writer_new v = Inr w'"
    using stream.root_written [OF assms] by blast
  ultimately show ?thesis by (simp add: styled_write_def stream_write_def)
qed

lemma styled_writers_return_witness:
  "let v = plain (V_array [(CZ_Index 0, value_bool True), (CZ_Index 1, plain (V_object []))]) :: int cvalue
   in writable v \<and> (\<exists>text. styled_write whole_doubles v = Inr text) \<and> (\<exists>text. stream_write [] whole_doubles v = Inr text)"
proof -
  let ?v = "plain (V_array [(CZ_Index 0, value_bool True), (CZ_Index 1, plain (V_object []))]) :: int cvalue"
  have "writable ?v" by (simp add: size_of_def value_bool_def)
  then show ?thesis using styled_writers_return [of ?v] by (simp add: Let_def)
qed

text \<open>A string value without text, as \<^verbatim>\<open>Value(stringValue)\<close> makes it, cannot be written.\<close>

lemma empty_string_value_not_written:
  "fast_write D w (value_of_type D stringValue) = Inl Null_Pointer"
  "styled_write D (value_of_type D stringValue) = Inl Null_Pointer"
  by (simp_all add: fast_write_def styled_write_def write_root_def quoted_c_string_def)

text \<open>A single-line array is written without the comments of its elements.\<close>

lemma single_line_array_loses_comments:
  "bind_result (setComment ''// one'' commentAfterOnSameLine (value_bool True :: int cvalue)) (\<lambda>v.
     styled_write whole_doubles (plain (V_array [(CZ_Index 0, v)]))) = Inr (''[ true ]'' @ [CHR 0x0A])"
  by code_simp

end
