(* ===== verification/Jsoncpp_Roundtrip.thy ===== *)
theory Jsoncpp_Roundtrip
  imports Jsoncpp_Reader_Safety Jsoncpp_Writer_Laws
begin

text \<open>
  What \<^verbatim>\<open>FastWriter\<close> writes, \<^verbatim>\<open>Reader\<close> reads back. \<open>exact\<close> says which values survive; \<open>text_of\<close> is the
  text the writer makes of them. The proof follows the text through the tokens (\<open>readToken_text\<close>)
  and the parser through the updates of the root (\<open>put\<close>, \<open>child_reads\<close>).
\<close>

section \<open>Strings\<close>

definition escaped :: "string \<Rightarrow> string" where
  "escaped s = concat (map escape_char s)"

lemma escaped_simps [simp]: "escaped [] = []" "escaped (c # s) = escape_char c @ escaped s"
  by (simp_all add: escaped_def)

lemma plain_char:
  "\<not> needs_escape (c # s) \<Longrightarrow> escape_char c = [c] \<and> \<not> needs_escape s"
  by (auto simp: needs_escape_def escape_char_def)

lemma escaped_plain: "\<not> needs_escape s \<Longrightarrow> escaped s = s"
  by (induction s) (auto dest: plain_char)

lemma quoted_text: "valueToQuotedString s = quote # escaped (c_string s) @ [quote]"
  by (simp add: valueToQuotedString_def escaped_plain flip: escaped_def)

text \<open>The three forms of an escaped character.\<close>

lemma escape_char_cases:
  assumes "c \<noteq> nul"
  obtains e where "escape_char c = [backslash, e]" "simple_escape e = Some c"
  | "escape_char c = [c]" "c \<noteq> quote" "c \<noteq> backslash"
  | "escape_char c = [backslash, CHR ''u'', CHR ''0'', CHR ''0'', hex_digit (of_char c div 16), hex_digit (of_char c mod 16)]"
    "isControlCharacter c"
proof (cases "c \<in> {quote, backslash, CHR 0x08, CHR 0x0C, CHR 0x0A, CHR 0x0D, CHR 0x09}")
  case True
  then show ?thesis using that(1) [of quote] that(1) [of backslash] that(1) [of "CHR ''b''"] that(1) [of "CHR ''f''"]
      that(1) [of "CHR ''n''"] that(1) [of "CHR ''r''"] that(1) [of "CHR ''t''"]
    by (auto simp: escape_char_def simple_escape_def)
next
  case False
  then show ?thesis using that(2,3) by (cases "isControlCharacter c") (auto simp: escape_char_def)
qed

lemma hex_value_digit: "n < 16 \<Longrightarrow> hex_value (hex_digit n) = Some n"
  by (auto simp: hex_value_def hex_digit_def of_char_of take_bit_eq_mod Let_def)

lemma hex_value_zero: "hex_value (CHR ''0'') = Some 0"
  by code_simp

lemma hex_loop_4: "hex_loop 4 = hex_loop (Suc (Suc (Suc (Suc 0))))"
  by (simp add: eval_nat_numeral)

lemma decode_control:
  assumes "isControlCharacter c"
  shows "decodeUnicodeCodePoint (CHR ''0'' # CHR ''0'' # hex_digit (of_char c div 16) # hex_digit (of_char c mod 16) # s) pos =
      Inr (of_char c, s, pos + 4)"
    and "codePointToUTF8 (of_char c) = [c]"
proof -
  have c: "(of_char c :: nat) \<le> 31" using assms by (simp add: isControlCharacter_def)
  then have "hex_value (hex_digit (of_char c div 16)) = Some (of_char c div 16)"
    "hex_value (hex_digit (of_char c mod 16)) = Some (of_char c mod 16)"
    by (auto intro!: hex_value_digit)
  with c show "decodeUnicodeCodePoint (CHR ''0'' # CHR ''0'' # hex_digit (of_char c div 16) #
      hex_digit (of_char c mod 16) # s) pos = Inr (of_char c, s, pos + 4)"
    by (simp add: decodeUnicodeCodePoint_def decodeUnicodeEscapeSequence_def hex_loop_4 hex_value_zero)
  show "codePointToUTF8 (of_char c) = [c]" using c by (simp add: codePointToUTF8_def)
qed

lemma decode_escaped: "nul \<notin> set s \<Longrightarrow> decode_loop (escaped s) pos d = Inr (d @ s)"
proof (induction s arbitrary: pos d)
  case (Cons c s)
  then have "c \<noteq> nul" by auto
  then show ?case
  proof (cases rule: escape_char_cases)
    case (1 e)
    then show ?thesis using Cons by (simp add: decode_loop.simps(2))
  next
    case 2
    then show ?thesis using Cons by (simp add: decode_loop.simps(2))
  next
    case 3
    have "simple_escape (CHR ''u'') = None" by code_simp
    then show ?thesis using Cons 3 by (simp add: decode_loop.simps(2) decode_control)
  qed
qed simp

lemma hex_digit_plain: "n < 16 \<Longrightarrow> hex_digit n \<noteq> quote \<and> hex_digit n \<noteq> backslash"
  using hex_value_digit [of n] by (auto simp: hex_value_def Let_def)

lemma read_string_escaped:
  "nul \<notin> set s \<Longrightarrow> read_string c0 (escaped s @ quote # t) = (quote, length (escaped s) + 1)"
proof (induction s arbitrary: c0)
  case (Cons c s)
  then have "c \<noteq> nul" by auto
  then show ?case
  proof (cases rule: escape_char_cases)
    case 3
    then have "(of_char c :: nat) \<le> 31" by (simp add: isControlCharacter_def)
    then have "hex_digit (of_char c div 16) \<noteq> quote \<and> hex_digit (of_char c div 16) \<noteq> backslash"
      "hex_digit (of_char c mod 16) \<noteq> quote \<and> hex_digit (of_char c mod 16) \<noteq> backslash"
      by (auto intro!: hex_digit_plain)
    then show ?thesis using Cons 3 by simp
  qed (use Cons in simp_all)
qed simp

section \<open>Tokens\<close>

lemma skip_spaces_append:
  "list_all is_space sp \<Longrightarrow> \<not> is_space c \<Longrightarrow> skip_spaces (sp @ c # t) = length sp"
  by (induction sp) auto

text \<open>A token whose first character is \<open>c\<close> and that goes on with \<open>cs\<close>.\<close>

definition token_at :: "token_type \<Rightarrow> string \<Rightarrow> string \<Rightarrow> 'd json_reader \<Rightarrow> token" where
  "token_at ty sp text r =
     \<lparr>tok_type = ty, tok_start = r_current r + length sp, tok_end = r_current r + length sp + length text\<rparr>"

lemma readToken_text:
  fixes r :: "'d json_reader"
  assumes "rest_text r = sp @ (c # cs) @ tail" and "list_all is_space sp" and "\<not> is_space c"
    and body: "\<And>r1 :: 'd json_reader. rest_text r1 = cs @ tail \<Longrightarrow> token_body c r1 = Inr (ty, True, advance (length cs) r1)"
  shows "readToken r = Inr (token_at ty sp (c # cs) r, advance (length sp + length (c # cs)) r)"
proof -
  have s: "skipSpaces r = advance (length sp) r"
    using assms(1-3) by (simp add: skipSpaces_def skip_spaces_append)
  have "getNextChar (advance (length sp) r) = (c, advance 1 (advance (length sp) r))"
    using assms(1) by (simp add: getNextChar_def)
  moreover have "token_body c (advance 1 (advance (length sp) r)) =
      Inr (ty, True, advance (length cs) (advance 1 (advance (length sp) r)))"
    by (rule body) (use assms(1) in simp)
  ultimately show ?thesis by (simp add: readToken_def s token_at_def) (simp add: advance_def ac_simps)
qed

lemma token_body_simple:
  "token_body (CHR ''{'') r = Inr (tokenObjectBegin, True, r)"
  "token_body (CHR ''}'') r = Inr (tokenObjectEnd, True, r)"
  "token_body (CHR ''['') r = Inr (tokenArrayBegin, True, r)"
  "token_body (CHR '']'') r = Inr (tokenArrayEnd, True, r)"
  "token_body (CHR '','') r = Inr (tokenArraySeparator, True, r)"
  "token_body (CHR '':'') r = Inr (tokenMemberSeparator, True, r)"
  by (simp_all add: token_body_def digit_def)

lemma advance_0 [simp]: "advance 0 r = r"
  by (simp add: advance_def)

text \<open>The texts the writer makes, and the tokens they are read as.\<close>

definition delimited :: "string \<Rightarrow> bool" where
  "delimited tail \<longleftrightarrow> tail = [] \<or> \<not> number_char (hd tail)"

lemma match_pattern_text: "rest_text r = p @ tail \<Longrightarrow> match_pattern p r = (True, advance (length p) r)"
proof -
  have "match_from n p (p @ tail)" if "n \<le> length p" for n
    using that by (induction n) (auto simp: nth_append)
  then show "rest_text r = p @ tail \<Longrightarrow> match_pattern p r = (True, advance (length p) r)"
    by (simp add: match_pattern_def)
qed

lemma token_body_keyword:
  "rest_text r = ''rue'' @ tail \<Longrightarrow> token_body (CHR ''t'') r = Inr (tokenTrue, True, advance (Suc (Suc (Suc 0))) r)"
  "rest_text r = ''alse'' @ tail \<Longrightarrow> token_body (CHR ''f'') r = Inr (tokenFalse, True, advance (Suc (Suc (Suc (Suc 0)))) r)"
  "rest_text r = ''ull'' @ tail \<Longrightarrow> token_body (CHR ''n'') r = Inr (tokenNull, True, advance (Suc (Suc (Suc 0))) r)"
  using match_pattern_text [of r "''rue''"] match_pattern_text [of r "''alse''"] match_pattern_text [of r "''ull''"]
  by (simp_all add: token_body_def digit_def)

lemma token_body_string:
  assumes "rest_text r = (escaped s @ [quote]) @ tail" and "nul \<notin> set s"
  shows "token_body quote r = Inr (tokenString, True, advance (length (escaped s @ [quote])) r)"
  using assms read_string_escaped [OF assms(2), of nul tail] by (simp add: token_body_def readString_def)

lemma read_number_all: "list_all number_char s \<Longrightarrow> delimited tail \<Longrightarrow> read_number (s @ tail) = length s"
proof (induction s)
  case Nil
  then show ?case by (cases tail) (auto simp: delimited_def)
qed simp

lemma token_body_number_text:
  assumes "rest_text r = cs @ tail" and "list_all number_char cs" and "delimited tail" and "digit c \<or> c = CHR ''-''"
  shows "token_body c r = Inr (tokenNumber, True, advance (length cs) r)"
proof -
  have "c \<notin> {CHR ''{'', CHR ''}'', CHR ''['', CHR '']'', quote, CHR ''/''}" using assms(4) by (auto simp: digit_def)
  then show ?thesis using assms read_number_all [OF assms(2,3)] by (simp add: token_body_def readNumber_def)
qed

lemma digit_not_space: "digit c \<or> c = CHR ''-'' \<Longrightarrow> \<not> is_space c"
  by (auto simp: digit_def is_space_def)

lemma readToken_number_text:
  assumes "rest_text r = sp @ (c # cs) @ tail" "list_all is_space sp" "digit c \<or> c = CHR ''-''" "list_all number_char cs" "delimited tail"
  shows "readToken r = Inr (token_at tokenNumber sp (c # cs) r, advance (length sp + length (c # cs)) r)"
  by (rule readToken_text [OF assms(1,2) digit_not_space [OF assms(3)]])
    (rule token_body_number_text [OF _ assms(4,5,3)])

lemma readToken_string_text:
  assumes "rest_text r = sp @ valueToQuotedString s @ tail" "list_all is_space sp" "nul \<notin> set s"
  shows "readToken r = Inr (token_at tokenString sp (valueToQuotedString s) r,
    advance (length sp + length (valueToQuotedString s)) r)"
proof -
  have q: "valueToQuotedString s = quote # (escaped s @ [quote])" using assms(3) by (simp add: quoted_text)
  show ?thesis unfolding q
    by (rule readToken_text [where tail = tail, OF _ assms(2)])
      (use assms(1) q token_body_string [OF _ assms(3)] in \<open>auto simp: is_space_def\<close>)
qed

lemma readToken_punctuation:
  assumes "rest_text r = sp @ c # tail" "list_all is_space sp" "(c, ty) \<in> {(CHR ''{'', tokenObjectBegin),
    (CHR ''}'', tokenObjectEnd), (CHR ''['', tokenArrayBegin), (CHR '']'', tokenArrayEnd),
    (CHR '','', tokenArraySeparator), (CHR '':'', tokenMemberSeparator)}"
  shows "readToken r = Inr (token_at ty sp [c] r, advance (length sp + 1) r)"
  using readToken_text [of r sp c "[]" tail ty] assms by (auto simp: token_body_simple is_space_def)

lemma readToken_keyword:
  assumes "rest_text r = sp @ text @ tail" "list_all is_space sp"
    "(text, ty) \<in> {(''true'', tokenTrue), (''false'', tokenFalse), (''null'', tokenNull)}"
  shows "readToken r = Inr (token_at ty sp text r, advance (length sp + length text) r)"
  using assms(3)
proof (elim insertE emptyE)
  assume "(text, ty) = (''true'', tokenTrue)"
  then show ?thesis using readToken_text [of r sp "CHR ''t''" "''rue''" tail tokenTrue] assms(1,2)
    by (simp add: is_space_def token_body_keyword)
next
  assume "(text, ty) = (''false'', tokenFalse)"
  then show ?thesis using readToken_text [of r sp "CHR ''f''" "''alse''" tail tokenFalse] assms(1,2)
    by (simp add: is_space_def token_body_keyword)
next
  assume "(text, ty) = (''null'', tokenNull)"
  then show ?thesis using readToken_text [of r sp "CHR ''n''" "''ull''" tail tokenNull] assms(1,2)
    by (simp add: is_space_def token_body_keyword)
qed

lemma token_at_slice:
  assumes "rest_text r = sp @ text @ tail"
  shows "doc_slice (tok_start (token_at ty sp text r)) (tok_end (token_at ty sp text r)) (advance n r) = text"
    and "decodeString_text (token_at ty sp (quote # s @ [quote]) r) (advance n r) =
      decode_loop (take (length s) (drop (length sp + 1) (rest_text r))) (r_current r + length sp + 1) []"
proof -
  have d: "drop (r_current r + k) (r_document r) = drop k (rest_text r)" for k by (simp add: rest_text_def add.commute)
  show "doc_slice (tok_start (token_at ty sp text r)) (tok_end (token_at ty sp text r)) (advance n r) = text"
    using assms by (simp add: token_at_def doc_slice_def d)
  show "decodeString_text (token_at ty sp (quote # s @ [quote]) r) (advance n r) =
      decode_loop (take (length s) (drop (length sp + 1) (rest_text r))) (r_current r + length sp + 1) []"
    using d [of "length sp + 1"] by (simp add: token_at_def doc_slice_def decodeString_text_def add.assoc)
qed

lemma decode_quoted:
  assumes "rest_text r = sp @ valueToQuotedString s @ tail" and "nul \<notin> set s"
  shows "decodeString_text (token_at ty sp (valueToQuotedString s) r) (advance n r) = Inr s"
  using assms token_at_slice(2) [OF assms(1), of ty "escaped s" n] decode_escaped [OF assms(2)]
  by (simp add: quoted_text)

section \<open>Numbers\<close>

lemma uintToString_show: "uintToString n s = show_nat n @ s"
proof (induction n s rule: uintToString.induct)
  case (1 n s)
  show ?case
    using 1 by (subst uintToString.simps, subst show_nat.simps) (auto simp: Let_def div_eq_0_iff)
qed

lemma decode_digits_append:
  "decode_digits th v (xs @ [c]) =
     (case decode_digits th v xs of
        Digits w \<Rightarrow> if \<not> digit c then Not_A_Number else if w \<ge> th then Too_Big
          else Digits (w * 10 + word_of_nat (of_char c - 48))
      | e \<Rightarrow> e)"
  by (induction xs arbitrary: v) auto

lemma decode_show:
  "n div 10 < unat th \<Longrightarrow> n < 2 ^ 32 \<Longrightarrow> decode_digits th 0 (show_nat n) = Digits (word_of_nat n)"
proof (induction n rule: show_nat.induct)
  case (1 n)
  have d: "digit (char_of (48 + k))" "of_char (char_of (48 + k)) - 48 = k" if "k < 10" for k :: nat
    using of_char_digit [OF that] that by (simp_all add: digit_def)
  show ?case
  proof (cases "n < 10")
    case True
    then have "\<not> th \<le> 0" using 1(2) by (simp add: word_le_nat_alt)
    with True d [of n] show ?thesis by (subst show_nat.simps) simp
  next
    case False
    have "unat (word_of_nat (n div 10) :: 32 word) = n div 10" using 1(3) by (simp add: unat_of_nat)
    then have le: "\<not> th \<le> word_of_nat (n div 10)" using 1(2) by (simp add: word_le_nat_alt)
    have "decode_digits th 0 (show_nat (n div 10)) = Digits (word_of_nat (n div 10))"
      by (rule 1(1) [OF False]) (use 1(2,3) in auto)
    moreover have "(word_of_nat (n div 10) :: 32 word) * 10 + word_of_nat (n mod 10) = word_of_nat n"
      using of_nat_add [of "n div 10 * 10" "n mod 10", where ?'a = "32 word"] by simp
    ultimately show ?thesis using False d [of "n mod 10"] le
      by (subst show_nat.simps) (simp add: decode_digits_append)
  qed
qed

lemma digits_not_double: "list_all digit s \<Longrightarrow> \<not> number_is_double s \<and> \<not> number_is_double (CHR ''-'' # s)"
proof -
  have "digit c \<Longrightarrow> c \<notin> set ''.eE+-''" for c by (auto simp: digit_def)
  then have "list_all digit s \<Longrightarrow> list_all (\<lambda>c. c \<notin> set ''.eE+-'') s" by (auto simp: list_all_iff)
  then show "list_all digit s \<Longrightarrow> ?thesis"
    by (cases s) (auto simp: number_is_double_def list_all_iff list_ex_iff)
qed

lemma show_nat_all: "list_all digit (show_nat n)" "list_all number_char (show_nat n)"
  using show_nat_digits [of n] by (auto simp: list_all_iff number_char_def)

lemma show_nat_head: "\<exists>c cs. show_nat n = c # cs \<and> digit c \<and> list_all number_char cs"
  using show_nat_all [of n] show_nat_not_Nil [of n] by (cases "show_nat n") auto

text \<open>Which numbers are read back as they were: the reader turns the others into doubles.\<close>

definition exact_int :: "32 word \<Rightarrow> bool" where
  "exact_int i \<longleftrightarrow> - 2147483640 < sint i"

definition exact_uint :: "32 word \<Rightarrow> bool" where
  "exact_uint u \<longleftrightarrow> maxInt < u \<and> u \<le> 4294967289"

definition exact_double :: "'d doubles \<Rightarrow> 'd \<Rightarrow> bool" where
  "exact_double D d \<longleftrightarrow>
     (let t = valueToString_double D d
      in t \<noteq> [] \<and> (digit (hd t) \<or> hd t = CHR ''-'') \<and> list_all number_char t \<and> number_is_double t \<and>
         length t \<noteq> 32 \<and> d_scan D t = Some d)"

text \<open>The value a number token decodes to.\<close>

lemma decodeNumber_nat:
  assumes "doc_slice (tok_start t) (tok_end t) r = show_nat n" "n \<le> 4294967289"
  shows "decodeNumber D t r = bind_result (currentValue_assign
    (if word_of_nat n \<le> maxInt then value_int (word_of_nat n) else value_uint (word_of_nat n)) r) (\<lambda>r'. Inr (True, r'))"
proof -
  obtain c cs where c: "show_nat n = c # cs" "digit c" using show_nat_head by blast
  then have "c \<noteq> CHR ''-''" by (auto simp: digit_def)
  moreover have "decode_digits (maxUInt div 10) 0 (show_nat n) = Digits (word_of_nat n)"
    by (rule decode_show) (use assms(2) in \<open>simp_all add: maxUInt_def unat_div unsigned_minus_1_eq_mask mask_eq_exp_minus_1\<close>)
  ultimately show ?thesis
    using assms(1) c digits_not_double [OF show_nat_all(1) [of n]] by (simp add: decodeNumber_def Let_def)
qed

lemma decodeNumber_negative:
  assumes "doc_slice (tok_start t) (tok_end t) r = CHR ''-'' # show_nat n" "n < 2147483640"
  shows "decodeNumber D t r = bind_result (currentValue_assign (value_int (- word_of_nat n)) r) (\<lambda>r'. Inr (True, r'))"
proof -
  have "unat (- minInt div 10 :: 32 word) = 214748364" by (simp add: minInt_def)
  then have "decode_digits (- minInt div 10) 0 (show_nat n) = Digits (word_of_nat n)"
    by (intro decode_show) (use assms(2) in simp_all)
  then show ?thesis
    using assms(1) digits_not_double [OF show_nat_all(1) [of n]] by (simp add: decodeNumber_def Let_def)
qed

lemma unat_of_small_int: "0 \<le> k \<Longrightarrow> k < 2 ^ 32 \<Longrightarrow> unat (word_of_int k :: 32 word) = nat k"
  by (simp add: unat_eq_nat_uint unsigned_of_int take_bit_int_eq_self)

lemma unat_signed:
  fixes i :: "32 word"
  shows "sint i < 0 \<Longrightarrow> unat (- i) = nat (- sint i)" "0 \<le> sint i \<Longrightarrow> unat i = nat (sint i)"
proof -
  have i: "i = word_of_int (sint i)" "- i = word_of_int (- sint i)" by simp_all
  note range = index_key_range [of i]
  show "unat (- i) = nat (- sint i)" if "sint i < 0"
    unfolding i(2) by (rule unat_of_small_int) (use that range in auto)
  show "unat i = nat (sint i)" if "0 \<le> sint i"
    by (subst i(1), rule unat_of_small_int) (use that range in auto)
qed

lemma value_int_text:
  assumes "doc_slice (tok_start t) (tok_end t) r = valueToString_int i" "exact_int i"
  shows "decodeNumber D t r = bind_result (currentValue_assign (value_int i) r) (\<lambda>r'. Inr (True, r'))"
proof (cases "sint i < 0")
  case True
  have "unat (- i) = nat (- sint i)" using True by (rule unat_signed)
  with decodeNumber_negative [of t r "unat (- i)" D] assms True show ?thesis
    by (simp add: valueToString_int_def uintToString_show exact_int_def)
next
  case False
  have "unat i \<le> 2147483647" using False unat_signed(2) [of i] index_key_range [of i] by auto
  with decodeNumber_nat [of t r "unat i" D] assms False show ?thesis
    by (simp add: valueToString_int_def uintToString_show word_le_nat_alt maxInt_def)
qed

lemma value_uint_text:
  assumes "doc_slice (tok_start t) (tok_end t) r = valueToString_uint u" "exact_uint u"
  shows "decodeNumber D t r = bind_result (currentValue_assign (value_uint u) r) (\<lambda>r'. Inr (True, r'))"
  using decodeNumber_nat [of t r "unat u" D] assms
  by (simp add: valueToString_uint_def uintToString_show exact_uint_def word_le_nat_alt word_less_nat_alt)

section \<open>Texts\<close>

text \<open>
  Exact values: no comments, numbers and doubles that are read back, arrays without gaps,
  strings and names without NUL.
\<close>

definition dense :: "'d members \<Rightarrow> bool" where
  "dense m \<longleftrightarrow> map fst m = map (\<lambda>i. CZ_Index (int i)) [0..<length m] \<and> length m < 2 ^ 31"

fun exact :: "'d doubles \<Rightarrow> 'd cvalue \<Rightarrow> bool"
  and exact_payload :: "'d doubles \<Rightarrow> 'd payload \<Rightarrow> bool"
  and exact_members :: "'d doubles \<Rightarrow> 'd members \<Rightarrow> bool" where
  "exact D (Value p c) \<longleftrightarrow> exact_payload D p \<and> c = None"
| "exact_payload D V_null \<longleftrightarrow> True"
| "exact_payload D (V_int i) \<longleftrightarrow> exact_int i"
| "exact_payload D (V_uint u) \<longleftrightarrow> exact_uint u"
| "exact_payload D (V_real d) \<longleftrightarrow> exact_double D d"
| "exact_payload D (V_bool b) \<longleftrightarrow> True"
| "exact_payload D (V_string s) \<longleftrightarrow> (case s of None \<Rightarrow> False | Some t \<Rightarrow> nul \<notin> set t)"
| "exact_payload D (V_array m) \<longleftrightarrow> dense m \<and> exact_members D m"
| "exact_payload D (V_object m) \<longleftrightarrow> sorted_keys m \<and> name_keys m \<and> exact_members D m"
| "exact_members D [] \<longleftrightarrow> True"
| "exact_members D ((k, v) # m) \<longleftrightarrow> exact D v \<and> exact_members D m"

text \<open>The text of a value; the flag says that nothing precedes an element or a member.\<close>

definition name_text :: "bool \<Rightarrow> czstring \<Rightarrow> string" where
  "name_text yaml k =
     valueToQuotedString (case cz_c_str k of None \<Rightarrow> [] | Some s \<Rightarrow> s) @ (if yaml then '': '' else '':'')"

fun text_of :: "'d doubles \<Rightarrow> bool \<Rightarrow> 'd cvalue \<Rightarrow> string"
  and text_of_payload :: "'d doubles \<Rightarrow> bool \<Rightarrow> 'd payload \<Rightarrow> string"
  and text_of_elements :: "'d doubles \<Rightarrow> bool \<Rightarrow> bool \<Rightarrow> 'd members \<Rightarrow> string"
  and text_of_members :: "'d doubles \<Rightarrow> bool \<Rightarrow> bool \<Rightarrow> 'd members \<Rightarrow> string" where
  "text_of D y (Value p c) = text_of_payload D y p"
| "text_of_payload D y V_null = ''null''"
| "text_of_payload D y (V_int i) = valueToString_int i"
| "text_of_payload D y (V_uint u) = valueToString_uint u"
| "text_of_payload D y (V_real d) = valueToString_double D d"
| "text_of_payload D y (V_bool b) = valueToString_bool b"
| "text_of_payload D y (V_string s) = (case s of None \<Rightarrow> [] | Some t \<Rightarrow> valueToQuotedString t)"
| "text_of_payload D y (V_array m) = ''['' @ text_of_elements D y True m @ '']''"
| "text_of_payload D y (V_object m) = ''{'' @ text_of_members D y True m @ ''}''"
| "text_of_elements D y first [] = []"
| "text_of_elements D y first ((k, v) # m) =
     (if first then [] else '','') @ text_of D y v @ text_of_elements D y False m"
| "text_of_members D y first [] = []"
| "text_of_members D y first ((k, v) # m) =
     (if first then [] else '','') @ name_text y k @ text_of D y v @ text_of_members D y False m"

lemma exact_members_all: "exact_members D m \<longleftrightarrow> (\<forall>kv \<in> set m. exact D (snd kv))"
  by (induction m) auto

lemma dense_nth: "dense m \<Longrightarrow> i < length m \<Longrightarrow> fst (m ! i) = CZ_Index (int i)"
  unfolding dense_def by (metis (no_types, lifting) add_0 length_map length_upt nth_map nth_upt diff_zero)

lemma dense_distinct: "dense m \<Longrightarrow> distinct (map fst m)"
  by (auto simp: dense_def distinct_map inj_on_def)

lemma index_key_small: "i < 2 ^ 31 \<Longrightarrow> index_key (word_of_nat i) = CZ_Index (int i)"
proof -
  assume i: "i < 2 ^ 31"
  have "sint (word_of_nat i :: 32 word) = signed_take_bit 31 (int i)"
    by (simp add: sint_uint unsigned_of_nat take_bit_of_nat [symmetric] signed_take_bit_take_bit)
  also have "\<dots> = int i" by (rule signed_take_bit_int_eq_self) (use i in auto)
  finally show ?thesis by (simp add: index_key_def)
qed

lemma dense_element:
  assumes "dense m" and "i < length m"
  shows "element_of (Value (V_array m) c) i = snd (m ! i)"
proof -
  have "(CZ_Index (int i), snd (m ! i)) \<in> set m"
    using dense_nth [OF assms] nth_mem [OF assms(2)] by (metis prod.collapse)
  then have "map_of m (CZ_Index (int i)) = Some (snd (m ! i))" using dense_distinct [OF assms(1)] by simp
  moreover have "index_key (word_of_nat i) = CZ_Index (int i)" by (rule index_key_small) (use assms in \<open>simp add: dense_def\<close>)
  ultimately show ?thesis by (simp add: element_of_def children_def ref_value_def)
qed

lemma dense_size_word: "dense m \<Longrightarrow> size_of (Value (V_array m) c) = word_of_nat (length m)"
proof (cases m rule: rev_cases)
  case (snoc ms kv)
  assume d: "dense m"
  have "fst (last m) = CZ_Index (int (length m - 1))"
    using dense_nth [OF d, of "length m - 1"] snoc by (simp add: nth_append)
  then show ?thesis using snoc by (simp add: size_of_def)
qed (simp add: size_of_def)

lemma dense_size: "dense m \<Longrightarrow> nat (sint (size_of (Value (V_array m) c))) = length m"
  using index_key_small [of "length m"] by (simp add: dense_size_word dense_def index_key_def)

lemma member_names:
  assumes "sorted_keys m" and "name_keys m"
  shows "getMemberNames (Value (V_object m) c) = Inr (map (\<lambda>kv. case fst kv of CZ_Name s \<Rightarrow> s | CZ_Index i \<Rightarrow> []) m)"
  by (auto simp: getMemberNames_def object_map_def split: czstring.splits)

lemma name_keys_nth:
  assumes "name_keys m" and "(k, v) \<in> set m"
  obtains s where "k = CZ_Name s" "nul \<notin> set s"
  using assms by (cases k) (auto simp: name_keys_def list_all_iff)

lemma named_member:
  assumes "sorted_keys m" and "name_keys m" and "(CZ_Name s, v) \<in> set m"
  shows "member_of (Value (V_object m) c) s = v"
proof -
  have "nul \<notin> set s" using assms(2,3) by (auto simp: name_keys_def list_all_iff)
  moreover have "distinct (map fst m)" using assms(1) strict_sorted_iff by (auto simp: sorted_keys_def)
  ultimately show ?thesis using assms(3) by (simp add: member_of_def children_def name_key_def ref_value_def)
qed

text \<open>\<^verbatim>\<open>FastWriter\<close> writes the text of a value.\<close>

definition writes :: "'d doubles \<Rightarrow> bool \<Rightarrow> 'd cvalue \<Rightarrow> bool" where
  "writes D y v \<longleftrightarrow> (\<forall>doc. fast_writeValue D y v doc = Inr (doc @ text_of D y v))"

lemma elements_writes:
  assumes "dense m" and "\<forall>kv \<in> set m. writes D y (snd kv)"
  shows "k \<le> length m \<Longrightarrow> fast_elements D y (Value (V_array m) c) [k..<length m] doc =
    Inr (doc @ text_of_elements D y (k = 0) (drop k m))"
proof (induction "length m - k" arbitrary: k doc)
  case (Suc n)
  then have k: "k < length m" by simp
  obtain l v where kv: "m ! k = (l, v)" by fastforce
  then have "writes D y v" using assms(2) nth_mem [OF k] by force
  moreover have "drop k m = (l, v) # drop (Suc k) m" using k kv Cons_nth_drop_Suc by metis
  ultimately show ?case
    using Suc(1) [of "Suc k"] Suc(2) k kv dense_element [OF assms(1) k] by (simp add: upt_conv_Cons writes_def)
qed simp

lemma members_writes:
  assumes "sorted_keys m" and "name_keys m" and "\<forall>kv \<in> set m. writes D y (snd kv)"
  shows "set ms \<subseteq> set m \<Longrightarrow>
    fast_members D y (Value (V_object m) c) n (map (\<lambda>kv. case fst kv of CZ_Name s \<Rightarrow> s | CZ_Index i \<Rightarrow> []) ms) doc =
    Inr (doc @ text_of_members D y (n = 0) ms)"
proof (induction ms arbitrary: n doc)
  case (Cons kv ms)
  obtain k v where kv: "kv = (k, v)" by fastforce
  then obtain s where s: "k = CZ_Name s" using name_keys_nth [OF assms(2), of k v] Cons.prems by auto
  have "member_of (Value (V_object m) c) s = v" using named_member [OF assms(1,2)] Cons.prems kv s by simp
  moreover have "writes D y v" using assms(3) Cons.prems kv by force
  ultimately show ?case using Cons kv s by (simp add: writes_def name_text_def)
qed simp

lemma exact_writes:
  fixes v :: "'d cvalue" and p :: "'d payload" and m :: "'d members"
  shows "exact D v \<Longrightarrow> writes D y v"
    and "exact_payload D p \<Longrightarrow> writes D y (Value p None)"
    and "exact_members D m \<Longrightarrow> \<forall>kv \<in> set m. writes D y (snd kv)"
proof (induction D v and D p and D m rule: exact_exact_payload_exact_members.induct)
  case (8 D m)
  then show ?case using elements_writes [of m D y 0] by (simp add: writes_def dense_size)
next
  case (9 D m)
  then show ?case using members_writes [of m D y m] by (simp add: writes_def member_names)
qed (auto simp: writes_def quoted_c_string_def split: option.splits)

section \<open>Building the value\<close>

lemma members_update_compose:
  "members_update k f m = Inr m' \<Longrightarrow> members_update k g m' = members_update k (\<lambda>x. bind_result (f x) g) m"
  by (induction k f m arbitrary: m' rule: members_update.induct) (auto simp: bind_result_Inr split: if_splits)

lemma members_update_Nil: "members_update k f m = Inr m' \<Longrightarrow> m \<noteq> []"
  by auto

lemma with_children_container:
  "children v \<noteq> [] \<Longrightarrow> children (with_children v m) = m \<and> with_children (with_children v m) m' = with_children v m'"
  by (cases v) (auto simp: children_def with_children_def split: payload.splits)

lemma update_path_compose:
  "update_path p f v = Inr v' \<Longrightarrow> update_path p g v' = update_path p (\<lambda>x. bind_result (f x) g) v"
proof (induction p arbitrary: v v' f g)
  case (Cons k p)
  then obtain m where m: "members_update k (update_path p f) (children v) = Inr m" "v' = with_children v m"
    by (auto simp: bind_result_Inr)
  note c = with_children_container [OF members_update_Nil [OF m(1)]]
  have "bind_result (update_path p f x) (update_path p g) = update_path p (\<lambda>x. bind_result (f x) g) x"
    if "update_path p f x = Inr x'" for x x'
    using Cons.IH [OF that, of g] that by simp
  then have "members_update k (\<lambda>x. bind_result (update_path p f x) (update_path p g)) ms =
      members_update k (update_path p (\<lambda>x. bind_result (f x) g)) ms"
    if "members_update k (update_path p f) ms = Inr ms'" for ms ms'
    using that by (induction ms arbitrary: ms') (auto simp: bind_result_Inr split: if_splits)
  from this [OF m(1)] show ?case using members_update_compose [OF m(1), of "update_path p g"] m(2) c by simp
qed simp

lemma update_path_append: "update_path (p @ q) f = update_path p (update_path q f)"
proof (induction p)
  case (Cons k p)
  show ?case by (rule ext) (simp add: Cons.IH)
qed (simp add: fun_eq_iff)

text \<open>Assigning a payload; the comments stay.\<close>

definition put :: "czstring list \<Rightarrow> 'd payload \<Rightarrow> 'd cvalue \<Rightarrow> 'd cvalue result" where
  "put p a root = update_path p (\<lambda>x. Inr (Value a (comments_of x))) root"

lemma put_put: "put p a root = Inr root' \<Longrightarrow> put p b root' = put p b root"
  unfolding put_def by (drule update_path_compose [where g = "\<lambda>x. Inr (Value b (comments_of x))"]) simp

lemma put_returns: "at_path p root = Some w \<Longrightarrow> \<exists>root'. put p a root = Inr root'"
  unfolding put_def by (erule update_path_returns) simp

lemma put_at: "at_path p root = Some w \<Longrightarrow> put p a root = Inr root' \<Longrightarrow> at_path p root' = Some (Value a (comments_of w))"
  unfolding put_def using at_update_same [where f = "\<lambda>x. Inr (Value a (comments_of x))"] by simp

lemma put_update:
  "put p a root = Inr root' \<Longrightarrow> (\<And>c. f (Value a c) = Inr (Value b c)) \<Longrightarrow> update_path p f root' = put p b root"
  unfolding put_def by (drule update_path_compose [where g = f]) simp

lemma map_resolve_last:
  "\<forall>l \<in> fst ` set m. l < k \<Longrightarrow> map_resolve k m = m @ [(k, null_value)]"
  by (induction m) auto

lemma members_update_last:
  "k \<notin> fst ` set m \<Longrightarrow> members_update k f (m @ [(k, v)]) = bind_result (f v) (\<lambda>v'. Inr (m @ [(k, v')]))"
proof (induction m)
  case (Cons lv m)
  then show ?case by (cases lv; cases "f v") auto
qed simp

lemma put_child:
  assumes "put p (con (m @ [(k, null_value)])) root = Inr root'" and "k \<notin> fst ` set m" and "con \<in> {V_array, V_object}"
  shows "put (p @ [k]) a root' = put p (con (m @ [(k, Value a None)])) root"
  unfolding put_def update_path_append
  by (subst put_update [where a = "con (m @ [(k, null_value)])" and b = "con (m @ [(k, Value a None)])" and root = root,
        unfolded put_def])
    (use assms members_update_last [OF assms(2)] in \<open>auto simp: put_def children_def with_children_def\<close>)

section \<open>Reading\<close>

definition kept :: "'d json_reader \<Rightarrow> 'd json_reader \<Rightarrow> bool" where
  "kept r r' \<longleftrightarrow> r_nodes r' = r_nodes r \<and> r_before r' = r_before r \<and> r_features r' = r_features r"

definition reads_back :: "'d doubles \<Rightarrow> bool \<Rightarrow> 'd cvalue \<Rightarrow> bool" where
  "reads_back D y v \<longleftrightarrow>
     (\<forall>n r sp tail p ps w. length (text_of D y v) \<le> n \<and> r_nodes r = p # ps \<and> rest_text r = sp @ text_of D y v @ tail \<and>
        list_all is_space sp \<and> delimited tail \<and> r_before r = [] \<and> at_path p (r_root r) = Some w \<longrightarrow>
        (\<exists>r'. readValue D n r = Some (Inr (True, r')) \<and> kept r r' \<and> rest_text r' = tail \<and>
           put p (value_of v) (r_root r) = Inr (r_root r')))"

lemma readsD:
  assumes "reads_back D y v" "length (text_of D y v) \<le> n" "r_nodes r = p # ps" "rest_text r = sp @ text_of D y v @ tail"
    "list_all is_space sp" "delimited tail" "r_before r = []" "at_path p (r_root r) = Some w"
  obtains r' where "readValue D n r = Some (Inr (True, r'))" "kept r r'" "rest_text r' = tail"
    "put p (value_of v) (r_root r) = Inr (r_root r')"
  using assms unfolding reads_back_def by blast

lemma skip_first:
  assumes "readToken r = Inr (t, r')" and "tok_type t \<noteq> tokenComment"
  shows "skip_comments r = Inr (t, r')" "skipCommentTokens r = Inr (t, r')"
  using assms by (simp_all add: skip_comments.simps skipCommentTokens_def)

lemma flush_nothing: "r_before r = [] \<Longrightarrow> flush_comments r = Inr r"
  by (simp add: flush_comments_def)

lemma kept_simps [simp]:
  "kept r r" "kept r (advance n r')  \<longleftrightarrow> kept r r'" "kept r (note_last r') \<longleftrightarrow> kept r r'"
  "kept r (r'\<lparr>r_root := root\<rparr>) \<longleftrightarrow> kept r r'" "rest_text (note_last r') = rest_text r'" "r_root (note_last r') = r_root r'"
  "r_features (advance n r') = r_features r'" "rest_text (r'\<lparr>r_root := root\<rparr>) = rest_text r'"
  by (simp_all add: kept_def advance_def note_last_def rest_text_def)

lemma kept_trans: "kept r r' \<Longrightarrow> kept r' r'' \<Longrightarrow> kept r r''"
  by (simp add: kept_def)

lemma assign_put:
  assumes "r_nodes r = p # ps" and "put p (value_of v) (r_root r) = Inr root'" and "wf_value v"
  shows "currentValue_assign v r = Inr (r\<lparr>r_root := root'\<rparr>)"
  using assms by (simp add: currentValue_assign_def currentValue_update_def assign_wf put_def)

text \<open>The branches of \<^verbatim>\<open>readValue\<close> for scalar tokens.\<close>

definition decode_token :: "'d doubles \<Rightarrow> token \<Rightarrow> 'd json_reader \<Rightarrow> (bool \<times> 'd json_reader) result" where
  "decode_token D t r =
     (let assign = (\<lambda>v. bind_result (currentValue_assign v r) (\<lambda>r3. Inr (True, r3)))
      in case tok_type t of
           tokenNumber \<Rightarrow> decodeNumber D t r
         | tokenString \<Rightarrow> decodeString t r
         | tokenTrue \<Rightarrow> assign (value_bool True)
         | tokenFalse \<Rightarrow> assign (value_bool False)
         | _ \<Rightarrow> assign (value_of_type D nullValue))"

abbreviation scalar_token :: "token_type \<Rightarrow> bool" where
  "scalar_token ty \<equiv> ty \<in> {tokenNumber, tokenString, tokenTrue, tokenFalse, tokenNull}"

lemma readValue_scalar:
  assumes "skipCommentTokens r = Inr (t, r1)" "r_before r1 = []" "scalar_token (tok_type t)"
  shows "readValue D (Suc n) r = finish_value (Some (decode_token D t r1))"
  using assms(3) unfolding readValue.simps assms(1) bind_outcome_simps prod.case Let_def
  by (auto simp: flush_nothing [OF assms(2)] decode_token_def)

lemma scalar_reads:
  fixes v :: "'d cvalue"
  assumes v: "wf_value v" and "text_of D y v \<noteq> []" and "scalar_token ty"
    and token: "\<And>(r :: 'd json_reader) sp tail. rest_text r = sp @ text_of D y v @ tail \<Longrightarrow> list_all is_space sp \<Longrightarrow> delimited tail \<Longrightarrow>
      readToken r = Inr (token_at ty sp (text_of D y v) r, advance (length sp + length (text_of D y v)) r)"
    and decode: "\<And>(r :: 'd json_reader) sp tail n. rest_text r = sp @ text_of D y v @ tail \<Longrightarrow>
      decode_token D (token_at ty sp (text_of D y v) r) (advance n r) =
      bind_result (currentValue_assign v (advance n r)) (\<lambda>r3. Inr (True, r3))"
  shows "reads_back D y v"
  unfolding reads_back_def
proof (intro allI impI, elim conjE)
  fix n and r :: "'d json_reader" and sp tail p ps w
  assume n: "length (text_of D y v) \<le> n" and r: "r_nodes r = p # ps" "rest_text r = sp @ text_of D y v @ tail"
    "list_all is_space sp" "delimited tail" "r_before r = []" "at_path p (r_root r) = Some w"
  let ?t = "token_at ty sp (text_of D y v) r" and ?r1 = "advance (length sp + length (text_of D y v)) r"
  obtain n' where n': "n = Suc n'" using n assms(2) by (cases n) auto
  have ty: "tok_type ?t = ty" by (simp add: token_at_def)
  have t: "skipCommentTokens r = Inr (?t, ?r1)" by (rule skip_first(2) [OF token [OF r(2-4)]]) (use assms(3) ty in auto)
  obtain root' where root': "put p (value_of v) (r_root r) = Inr root'" using put_returns [OF r(6)] by blast
  let ?r2 = "?r1\<lparr>r_root := root'\<rparr>"
  have "currentValue_assign v ?r1 = Inr ?r2" using assign_put [OF _ _ v, of ?r1 p ps root'] r(1) root' by simp
  then have "readValue D n r = Some (Inr (True, note_last ?r2))"
    using readValue_scalar [OF t, of D n'] assms(3) ty r(5) decode [OF r(2)]
    by (simp add: n' finish_value_def)
  moreover have "rest_text (note_last ?r2) = tail" using r(2) by simp
  ultimately show "\<exists>r'. readValue D n r = Some (Inr (True, r')) \<and> kept r r' \<and> rest_text r' = tail \<and>
       put p (value_of v) (r_root r) = Inr (r_root r')"
    using root' by simp
qed

lemma token_at_type [simp]: "tok_type (token_at ty sp s r) = ty"
  by (simp add: token_at_def)

lemma number_reads:
  fixes v :: "'d cvalue"
  assumes v: "wf_value v" and tx: "text_of D y v = c # cs" "digit c \<or> c = CHR ''-''" "list_all number_char cs"
    and decode: "\<And>t (r :: 'd json_reader). doc_slice (tok_start t) (tok_end t) r = c # cs \<Longrightarrow>
      decodeNumber D t r = bind_result (currentValue_assign v r) (\<lambda>r'. Inr (True, r'))"
  shows "reads_back D y v"
proof (rule scalar_reads [where ty = tokenNumber, OF v])
  fix r :: "'d json_reader" and sp tail n assume r: "rest_text r = sp @ text_of D y v @ tail"
  then show "readToken r = Inr (token_at tokenNumber sp (text_of D y v) r, advance (length sp + length (text_of D y v)) r)"
    if "list_all is_space sp" "delimited tail"
    using readToken_number_text [of r sp c cs tail] tx that by simp
  show "decode_token D (token_at tokenNumber sp (text_of D y v) r) (advance n r) =
      bind_result (currentValue_assign v (advance n r)) (\<lambda>r3. Inr (True, r3))"
    using decode token_at_slice(1) [OF r] tx(1) by (simp add: decode_token_def)
qed (use tx in auto)

lemma int_text_shape: "\<exists>c cs. valueToString_int i = c # cs \<and> (digit c \<or> c = CHR ''-'') \<and> list_all number_char cs"
  using show_nat_head [of "unat i"] show_nat_all(2) [of "unat (- i)"]
  by (auto simp: valueToString_int_def uintToString_show Let_def)

lemma scalar_values_read:
  "exact_int i \<Longrightarrow> reads_back D y (plain (V_int i))" "exact_uint u \<Longrightarrow> reads_back D y (plain (V_uint u))"
  "exact_double D d \<Longrightarrow> reads_back D y (plain (V_real d))"
proof -
  show "reads_back D y (plain (V_int i))" if "exact_int i"
  proof -
    obtain c cs where s: "valueToString_int i = c # cs" "digit c \<or> c = CHR ''-''" "list_all number_char cs"
      using int_text_shape by blast
    show ?thesis by (rule number_reads [OF _ _ s(2,3)])
        (use s value_int_text [OF _ that] in \<open>simp_all add: value_int_def\<close>)
  qed
  show "reads_back D y (plain (V_uint u))" if "exact_uint u"
  proof -
    obtain c cs where s: "valueToString_uint u = c # cs" "digit c" "list_all number_char cs"
      using show_nat_head [of "unat u"] by (auto simp: valueToString_uint_def uintToString_show)
    show ?thesis by (rule number_reads [OF _ _ disjI1 [OF s(2)] s(3)])
        (use s value_uint_text [OF _ that] in \<open>simp_all add: value_uint_def\<close>)
  qed
  show "reads_back D y (plain (V_real d))" if d: "exact_double D d"
  proof -
    obtain c cs where s: "valueToString_double D d = c # cs" "digit c \<or> c = CHR ''-''" "list_all number_char (c # cs)"
      using d by (cases "valueToString_double D d") (auto simp: exact_double_def Let_def)
    have "nul \<notin> set (c # cs)" using s(3) by (auto simp: list_all_iff number_char_def digit_def)
    then have "c_string (c # cs) = c # cs" by simp
    then show ?thesis
      using d s by (intro number_reads [OF _ _ s(2)])
        (auto simp: exact_double_def Let_def decodeNumber_def decodeDouble_def value_double_def)
  qed
qed

lemma keyword_reads:
  fixes v :: "'d cvalue"
  assumes "wf_value v" and tx: "(text_of D y v, ty) \<in> {(''true'', tokenTrue), (''false'', tokenFalse), (''null'', tokenNull)}"
    and decode: "\<And>t (r :: 'd json_reader). tok_type t = ty \<Longrightarrow> decode_token D t r = bind_result (currentValue_assign v r) (\<lambda>r3. Inr (True, r3))"
  shows "reads_back D y v"
proof (rule scalar_reads [where ty = ty, OF assms(1)])
  fix r :: "'d json_reader" and sp tail assume "rest_text r = sp @ text_of D y v @ tail" "list_all is_space sp"
  then show "readToken r = Inr (token_at ty sp (text_of D y v) r, advance (length sp + length (text_of D y v)) r)"
    using tx by (rule readToken_keyword)
qed (use tx decode in auto)

lemma keyword_values_read: "reads_back D y null_value" "reads_back D y (plain (V_bool b))"
  by (rule keyword_reads [where ty = tokenNull],
      simp_all add: decode_token_def)
    (rule keyword_reads [where ty = "if b then tokenTrue else tokenFalse"],
      auto simp: decode_token_def valueToString_bool_def value_bool_def)

lemma string_values_read: "nul \<notin> set s \<Longrightarrow> reads_back D y (plain (V_string (Some s)))"
proof (rule scalar_reads [where ty = tokenString], goal_cases)
  case (4 r sp tail)
  then show ?case using readToken_string_text [of r sp s tail] by simp
next
  case (5 r sp tail n)
  then show ?case using decode_quoted [of r sp s tail] by (simp add: decode_token_def decodeString_def value_of_string_def)
qed (simp_all add: quoted_text)

lemma dense_sorted: "dense m \<Longrightarrow> sorted_keys m"
  by (auto simp: dense_def sorted_keys_def sorted_wrt_map sorted_wrt_upt intro: sorted_wrt_mono_rel [OF _ sorted_wrt_upt])

lemma take_keys_less:
  assumes "sorted_keys m" and "i < length m"
  shows "\<forall>l \<in> fst ` set (take i m). l < fst (m ! i)"
proof -
  have "map fst m ! j < map fst m ! i" if "j < i" for j
    using assms that sorted_wrt_nth_less [of "(<)" "map fst m" j i] by (simp add: sorted_keys_def)
  then show ?thesis using assms(2) by (auto simp: in_set_conv_nth) (metis length_map nth_map order.strict_trans fst_conv)
qed

lemma exact_comments: "exact D v \<Longrightarrow> Value (value_of v) None = v"
  by (cases v) simp

text \<open>Pushing the next child, reading it and popping it, in an array or an object.\<close>

lemma child_reads:
  assumes m: "sorted_keys m" "i < length m" "m ! i = (k, v)" "exact D v" "reads_back D y v" and con: "con \<in> {V_array, V_object}"
    and r: "r_nodes r = p # ps" "r_before r = []" "put p (con (take i m)) root0 = Inr (r_root r)" "at_path p root0 = Some w"
    and ref: "\<And>ms c. ref (Value (con ms) c) = Inr (Value (con (map_resolve k ms)) c)"
    and rest_text: "rest_text r = sp @ text_of D y v @ tail" "list_all is_space sp" "delimited tail" and n: "length (text_of D y v) \<le> n"
  shows "\<exists>root1 r2. currentValue_update ref r = Inr (r\<lparr>r_root := root1\<rparr>) \<and>
    readValue D n (push_key k (r\<lparr>r_root := root1\<rparr>)) = Some (Inr (True, r2)) \<and> kept r (pop_node r2) \<and>
    rest_text (pop_node r2) = tail \<and> put p (con (take (Suc i) m)) root0 = Inr (r_root (pop_node r2))"
proof -
  let ?m1 = "take i m @ [(k, null_value)]"
  have less: "\<forall>l \<in> fst ` set (take i m). l < k" using take_keys_less [OF m(1,2)] m(3) by simp
  have fresh: "map_of (take i m) k = None" using less by (auto simp: map_of_eq_None_iff)
  have up: "update_path p ref (r_root r) = put p (con ?m1) root0"
    by (rule put_update [OF r(3)]) (simp add: ref map_resolve_last [OF less])
  obtain root1 where root1: "put p (con ?m1) root0 = Inr root1" using put_returns [OF r(4)] by blast
  let ?r1 = "push_key k (r\<lparr>r_root := root1\<rparr>)"
  have "at_path (p @ [k]) root1 = Some null_value"
    using put_at [OF r(4) root1] con fresh by (auto simp: at_path_append children_def map_add_def)
  then obtain r2 where r2: "readValue D n ?r1 = Some (Inr (True, r2))" "kept ?r1 r2" "rest_text r2 = tail"
      "put (p @ [k]) (value_of v) root1 = Inr (r_root r2)"
    using readsD [OF m(5) n, of ?r1 "p @ [k]" "p # ps" sp tail] r(1,2) rest_text by (auto simp: push_key_def rest_text_def)
  have "k \<notin> fst ` set (take i m)" using less by auto
  from put_child [OF root1 this con, of "value_of v"] r2(4) exact_comments [OF m(4)]
  have "put p (con (take (Suc i) m)) root0 = Inr (r_root r2)" using m(2,3) by (simp add: take_Suc_conv_app_nth)
  with r2 r(1) up root1 show ?thesis
    by (auto simp: currentValue_update_def kept_def push_key_def pop_node_def rest_text_def)
qed

lemma elements_first: "m \<noteq> [] \<Longrightarrow> text_of_elements D y False m = CHR '','' # text_of_elements D y True m"
  by (cases m) auto

lemma members_first: "m \<noteq> [] \<Longrightarrow> text_of_members D y False m = CHR '','' # text_of_members D y True m"
  by (cases m) auto

lemma delimited_elements: "delimited (text_of_elements D y False m @ CHR '']'' # tail)"
  "delimited (text_of_members D y False m @ CHR ''}'' # tail)"
  by (cases m; auto simp: delimited_def number_char_def digit_def)+

lemma resolve_refs:
  "index_ref (Value (V_array ms) c) i = Inr (Value (V_array (map_resolve (index_key i) ms)) c)"
  "resolveReference (Value (V_object ms) c) s = Inr (Value (V_object (map_resolve (name_key s) ms)) c)"
  by (simp_all add: index_ref_def resolveReference_def array_map_def object_map_def)

lemma array_loop_reads:
  assumes m: "dense m" "exact_members D m" "\<forall>kv \<in> set m. reads_back D y (snd kv)"
  shows "i < length m \<Longrightarrow> length (text_of_elements D y True (drop i m)) < n \<Longrightarrow> r_nodes r = p # ps \<Longrightarrow> r_before r = [] \<Longrightarrow>
    rest_text r = text_of_elements D y True (drop i m) @ CHR '']'' # tail \<Longrightarrow>
    put p (V_array (take i m)) root0 = Inr (r_root r) \<Longrightarrow> at_path p root0 = Some w \<Longrightarrow>
    \<exists>r'. readArray_loop D n i r = Some (Inr (True, r')) \<and> kept r r' \<and> rest_text r' = tail \<and>
      put p (V_array m) root0 = Inr (r_root r')"
proof (induction "length m - i" arbitrary: i n r)
  case (Suc d)
  obtain k v where kv: "m ! i = (k, v)" by fastforce
  have drop: "drop i m = (k, v) # drop (Suc i) m" using Suc.prems(1) kv Cons_nth_drop_Suc by metis
  have v: "exact D v" "reads_back D y v" using m nth_mem [OF Suc.prems(1)] kv by (force simp: exact_members_all)+
  have key: "k = index_key (word_of_nat i)"
    using dense_nth [OF m(1) Suc.prems(1)] kv index_key_small [of i] Suc.prems(1) m(1) by (simp add: dense_def)
  obtain n' where n': "n = Suc n'" "length (text_of D y v) \<le> n'" using Suc.prems(2) drop by (cases n) auto
  let ?more = "text_of_elements D y False (drop (Suc i) m) @ CHR '']'' # tail"
  obtain root1 r2 where step: "push_element i r = Inr (push_key k (r\<lparr>r_root := root1\<rparr>))"
      "readValue D n' (push_key k (r\<lparr>r_root := root1\<rparr>)) = Some (Inr (True, r2))" "kept r (pop_node r2)"
      "rest_text (pop_node r2) = ?more" "put p (V_array (take (Suc i) m)) root0 = Inr (r_root (pop_node r2))"
    using child_reads [OF dense_sorted [OF m(1)] Suc.prems(1) kv v, of V_array r p ps root0 w
        "\<lambda>v. index_ref v (word_of_nat i)" "[]" ?more n'] Suc.prems n'(2) drop key
    by (auto simp: push_element_def resolve_refs delimited_elements)
  show ?case
  proof (cases "Suc i < length m")
    case False
    then have last: "drop (Suc i) m = []" "take (Suc i) m = m" by simp_all
    then have "readToken (pop_node r2) = Inr (token_at tokenArrayEnd [] ('']'') (pop_node r2), advance 1 (pop_node r2))"
      using readToken_punctuation [of "pop_node r2" "[]"] step(4) by simp
    from skip_first(1) [OF this] have "readArray_loop D n i r = Some (Inr (True, advance 1 (pop_node r2)))"
      by (simp add: n' readArray_loop_Suc step(1,2))
    then show ?thesis using step last by simp
  next
    case True
    then have more: "?more = CHR '','' # text_of_elements D y True (drop (Suc i) m) @ CHR '']'' # tail"
      by (simp add: elements_first)
    let ?r3 = "advance 1 (pop_node r2)"
    have "readToken (pop_node r2) = Inr (token_at tokenArraySeparator [] '','' (pop_node r2), ?r3)"
      using readToken_punctuation [of "pop_node r2" "[]"] step(4) more by simp
    from skip_first(1) [OF this] have loop: "readArray_loop D n i r = readArray_loop D n' (Suc i) ?r3"
      by (simp add: n' readArray_loop_Suc step(1,2))
    have "text_of_elements D y True (drop i m) = text_of D y v @ CHR '','' # text_of_elements D y True (drop (Suc i) m)"
      using True by (simp add: drop elements_first)
    then have "\<exists>r'. readArray_loop D n' (Suc i) ?r3 = Some (Inr (True, r')) \<and> kept ?r3 r' \<and> rest_text r' = tail \<and>
        put p (V_array m) root0 = Inr (r_root r')"
      using step(3-5) more Suc.prems n' True Suc(2) by (intro Suc(1)) (auto simp: kept_def)
    then show ?thesis using loop step(3) kept_trans [of r ?r3] by auto
  qed
qed simp

text \<open>The name of a member and its colon.\<close>

lemma member_head:
  assumes "rest_text r = name_text y (CZ_Name s) @ t" and "nul \<notin> set s"
  obtains tok1 r1 r2 where "skip_comments r = Inr (tok1, r1)" "tok_type tok1 = tokenString"
    "decodeString_text tok1 r1 = Inr s" "readToken r1 = Inr (token_at tokenMemberSeparator [] '':'' r1, r2)"
    "kept r r2" "rest_text r2 = (if y then '' '' else []) @ t" "r_root r2 = r_root r"
proof -
  let ?q = "valueToQuotedString s"
  let ?tok = "token_at tokenString [] ?q r" and ?r1 = "advance (length ?q) r"
  have rest_text: "rest_text r = [] @ ?q @ CHR '':'' # (if y then '' '' else []) @ t" using assms(1) by (simp add: name_text_def)
  have "readToken r = Inr (?tok, ?r1)" using readToken_string_text [OF rest_text _ assms(2)] by simp
  then have "skip_comments r = Inr (?tok, ?r1)" by (rule skip_first(1)) simp
  moreover have "decodeString_text ?tok ?r1 = Inr s" by (rule decode_quoted [OF rest_text assms(2)])
  moreover have "readToken ?r1 = Inr (token_at tokenMemberSeparator [] '':'' ?r1, advance 1 ?r1)"
    using readToken_punctuation [of ?r1 "[]" "CHR '':''"] rest_text by simp
  ultimately show ?thesis using that [of ?tok ?r1 "advance 1 ?r1"] rest_text by simp
qed

lemma object_loop_reads:
  assumes m: "sorted_keys m" "name_keys m" "exact_members D m" "\<forall>kv \<in> set m. reads_back D y (snd kv)"
  shows "i < length m \<Longrightarrow> length (text_of_members D y True (drop i m)) < n \<Longrightarrow> r_nodes r = p # ps \<Longrightarrow> r_before r = [] \<Longrightarrow>
    rest_text r = text_of_members D y True (drop i m) @ CHR ''}'' # tail \<Longrightarrow>
    put p (V_object (take i m)) root0 = Inr (r_root r) \<Longrightarrow> at_path p root0 = Some w \<Longrightarrow>
    \<exists>r'. readObject_loop D n name r = Some (Inr (True, r')) \<and> kept r r' \<and> rest_text r' = tail \<and>
      put p (V_object m) root0 = Inr (r_root r')"
proof (induction "length m - i" arbitrary: i n r name)
  case (Suc d)
  obtain k v where kv: "m ! i = (k, v)" by fastforce
  have kv_in: "(k, v) \<in> set m" using nth_mem [OF Suc.prems(1)] kv by simp
  then obtain s where s: "k = CZ_Name s" "nul \<notin> set s" using name_keys_nth [OF m(2)] by blast
  then have key: "k = name_key s" by (simp add: name_key_def)
  have drop: "drop i m = (k, v) # drop (Suc i) m" using Suc.prems(1) kv Cons_nth_drop_Suc by metis
  have v: "exact D v" "reads_back D y v" using m kv_in by (force simp: exact_members_all)+
  obtain n' where n': "n = Suc n'" "length (text_of D y v) \<le> n'" using Suc.prems(2) drop by (cases n) auto
  let ?more = "text_of_members D y False (drop (Suc i) m) @ CHR ''}'' # tail" and ?sp = "if y then '' '' else []"
  have "rest_text r = name_text y (CZ_Name s) @ text_of D y v @ ?more" using Suc.prems(5) drop s(1) by simp
  from member_head [OF this s(2)] obtain tok1 r1 r2 where head: "skip_comments r = Inr (tok1, r1)"
      "tok_type tok1 = tokenString" "decodeString_text tok1 r1 = Inr s"
      "readToken r1 = Inr (token_at tokenMemberSeparator [] '':'' r1, r2)" "kept r r2"
      "rest_text r2 = ?sp @ text_of D y v @ ?more" "r_root r2 = r_root r" by metis
  have sp: "list_all is_space ?sp" by (simp add: is_space_def)
  obtain root1 r4 where step: "push_member s r2 = Inr (push_key k (r2\<lparr>r_root := root1\<rparr>))"
      "readValue D n' (push_key k (r2\<lparr>r_root := root1\<rparr>)) = Some (Inr (True, r4))" "kept r2 (pop_node r4)"
      "rest_text (pop_node r4) = ?more" "put p (V_object (take (Suc i) m)) root0 = Inr (r_root (pop_node r4))"
    using child_reads [OF m(1) Suc.prems(1) kv v, of V_object r2 p ps root0 w
        "\<lambda>v. resolveReference v s" ?sp ?more n'] Suc.prems n'(2) key head sp
    by (auto simp: push_member_def resolve_refs delimited_elements kept_def)
  have kept: "kept r (pop_node r4)" using head(5) step(3) by (rule kept_trans)
  have body: "readObject_loop D n name r = object_comma D n' s (pop_node r4)"
    using head step(1,2) by (simp add: n'(1) readObject_loop.simps Let_def)
  show ?case
  proof (cases "Suc i < length m")
    case False
    then have last: "drop (Suc i) m = []" "take (Suc i) m = m" by simp_all
    then have "readToken (pop_node r4) = Inr (token_at tokenObjectEnd [] ''}'' (pop_node r4), advance 1 (pop_node r4))"
      using readToken_punctuation [of "pop_node r4" "[]"] step(4) by simp
    then have "readObject_loop D n name r = Some (Inr (True, advance 1 (pop_node r4)))" by (simp add: body)
    then show ?thesis using step(4,5) kept last by simp
  next
    case True
    then have more: "?more = CHR '','' # text_of_members D y True (drop (Suc i) m) @ CHR ''}'' # tail"
      by (simp add: members_first)
    let ?r5 = "advance 1 (pop_node r4)"
    have "readToken (pop_node r4) = Inr (token_at tokenArraySeparator [] '','' (pop_node r4), ?r5)"
      using readToken_punctuation [of "pop_node r4" "[]"] step(4) more by simp
    then have loop: "readObject_loop D n name r = readObject_loop D n' s ?r5" by (simp add: body)
    have "text_of_members D y True (drop i m) =
        name_text y k @ text_of D y v @ CHR '','' # text_of_members D y True (drop (Suc i) m)"
      using True by (simp add: drop members_first)
    then have "\<exists>r'. readObject_loop D n' s ?r5 = Some (Inr (True, r')) \<and> kept ?r5 r' \<and> rest_text r' = tail \<and>
        put p (V_object m) root0 = Inr (r_root r')"
      using step(4,5) kept more Suc.prems n' True Suc(2) by (intro Suc(1)) (auto simp: kept_def)
    then show ?thesis using loop kept kept_trans [of r ?r5] by auto
  qed
qed simp

lemma container_head:
  assumes "rest_text r = sp @ c # t" "list_all is_space sp" "(c, ty) \<in> {(CHR ''{'', tokenObjectBegin), (CHR ''['', tokenArrayBegin)}"
    "r_nodes r = p # ps" "r_before r = []" "at_path p (r_root r) = Some w" "wf_value v"
  obtains tok r1 root1 where "skipCommentTokens r = Inr (tok, r1)" "tok_type tok = ty" "r_before r1 = []"
    "currentValue_assign v r1 = Inr (r1\<lparr>r_root := root1\<rparr>)" "put p (value_of v) (r_root r) = Inr root1" "kept r r1" "rest_text r1 = t"
proof -
  let ?tok = "token_at ty sp [c] r" and ?r1 = "advance (length sp + 1) r"
  have "readToken r = Inr (?tok, ?r1)" using readToken_punctuation [OF assms(1,2)] assms(3) by auto
  then have "skipCommentTokens r = Inr (?tok, ?r1)" by (rule skip_first(2)) (use assms(3) in auto)
  moreover obtain root1 where root1: "put p (value_of v) (r_root r) = Inr root1" using put_returns [OF assms(6)] by blast
  then have "currentValue_assign v ?r1 = Inr (?r1\<lparr>r_root := root1\<rparr>)"
    by (intro assign_put [OF _ _ assms(7)]) (use assms(4) in simp_all)
  ultimately show ?thesis using that [of ?tok ?r1 root1] root1 assms(1,5) by simp
qed

lemma number_head: "digit c \<or> c = CHR ''-'' \<Longrightarrow> \<not> is_space c \<and> c \<noteq> CHR '']''"
  using digit_not_space [of c] by (auto simp: digit_def)

lemma text_head:
  assumes "exact D v" shows "\<exists>c cs. text_of D y v = c # cs \<and> \<not> is_space c \<and> c \<noteq> CHR '']''"
proof (cases v)
  case (Value p c)
  show ?thesis
  proof (cases p)
    case (V_int i)
    obtain c cs where "valueToString_int i = c # cs" "digit c \<or> c = CHR ''-''" using int_text_shape by blast
    with number_head [of c] show ?thesis using Value V_int by simp
  next
    case (V_uint u)
    obtain c cs where "show_nat (unat u) = c # cs" "digit c" using show_nat_head by blast
    with number_head [of c] show ?thesis using Value V_uint by (simp add: valueToString_uint_def uintToString_show)
  next
    case (V_real d)
    then have "exact_double D d" using assms Value by simp
    then obtain c cs where "valueToString_double D d = c # cs" "digit c \<or> c = CHR ''-''"
      by (cases "valueToString_double D d") (auto simp: exact_double_def Let_def)
    with number_head [of c] show ?thesis using Value V_real by simp
  qed (use assms Value in \<open>auto simp: is_space_def valueToString_bool_def quoted_text split: option.splits\<close>)
qed

lemma array_reads:
  assumes m: "dense m" "exact_members D m" "\<forall>kv \<in> set m. reads_back D y (snd kv)"
  shows "reads_back D y (plain (V_array m))"
  unfolding reads_back_def
proof (intro allI impI, elim conjE)
  fix n and r :: "'a json_reader" and sp tail p ps w
  let ?v = "plain (V_array m)" and ?t = "text_of_elements D y True m @ CHR '']'' # tail"
  assume n: "length (text_of D y ?v) \<le> n" and r: "r_nodes r = p # ps" "rest_text r = sp @ text_of D y ?v @ tail"
    "list_all is_space sp" "delimited tail" "r_before r = []" "at_path p (r_root r) = Some w"
  obtain n' where n': "n = Suc n'" "length (text_of_elements D y True m) < n'" using n by (cases n) auto
  have rest_text: "rest_text r = sp @ CHR ''['' # ?t" using r(2) by simp
  obtain tok r1 root1 where head: "skipCommentTokens r = Inr (tok, r1)" "tok_type tok = tokenArrayBegin" "r_before r1 = []"
      "currentValue_assign (value_of_type D arrayValue) r1 = Inr (r1\<lparr>r_root := root1\<rparr>)"
      "put p (V_array []) (r_root r) = Inr root1" "kept r r1" "rest_text r1 = ?t"
    by (rule container_head [OF rest_text r(3) _ r(1,5,6), of tokenArrayBegin "value_of_type D arrayValue"]) auto
  let ?r2 = "r1\<lparr>r_root := root1\<rparr>"
  have r2: "rest_text ?r2 = ?t" using head(7) by simp
  obtain c cs where c: "?t = c # cs" "\<not> is_space c" "c = CHR '']'' \<longleftrightarrow> m = []"
  proof (cases m)
    case (Cons kv ms)
    obtain k v where kv: "kv = (k, v)" by fastforce
    then have "exact D v" using m(2) Cons by simp
    then show ?thesis using that text_head [of D v y] Cons kv by auto
  qed (use that [of "CHR '']''"] in \<open>simp add: is_space_def\<close>)
  then have space: "skipSpaces ?r2 = ?r2" using r2 by (simp add: skipSpaces_def)
  have peek: "peek (rest_text ?r2) = CHR '']'' \<longleftrightarrow> m = []" using c r2 by simp
  have body: "readValue D n r = finish_value
      (if m = [] then bind_outcome (Some (readToken ?r2)) (\<lambda>(endArray, r5). Some (Inr (True, r5)))
       else readArray_loop D n' 0 ?r2)"
    using head(2,4) peek unfolding n'(1) readValue.simps head(1) bind_outcome_simps prod.case Let_def
    by (simp add: flush_nothing [OF head(3)] space Let_def)
  have "\<exists>r'. (if m = [] then bind_outcome (Some (readToken ?r2)) (\<lambda>(endArray, r5). Some (Inr (True, r5)))
       else readArray_loop D n' 0 ?r2) = Some (Inr (True, r')) \<and> kept r r' \<and> rest_text r' = tail \<and>
       put p (V_array m) (r_root r) = Inr (r_root r')"
  proof (cases "m = []")
    case True
    then show ?thesis using readToken_punctuation [of ?r2 "[]" "CHR '']''" tail tokenArrayEnd] r2 head by simp
  next
    case False
    then have "\<exists>r'. readArray_loop D n' 0 ?r2 = Some (Inr (True, r')) \<and> kept ?r2 r' \<and> rest_text r' = tail \<and>
        put p (V_array m) (r_root r) = Inr (r_root r')"
      using head n' r by (intro array_loop_reads [OF m]) (auto simp: kept_def)
    then show ?thesis using False head(6) kept_trans [of r ?r2] by auto
  qed
  then show "\<exists>r'. readValue D n r = Some (Inr (True, r')) \<and> kept r r' \<and> rest_text r' = tail \<and>
       put p (value_of ?v) (r_root r) = Inr (r_root r')"
    unfolding body by (auto simp: finish_value_def)
qed

lemma object_reads:
  assumes m: "sorted_keys m" "name_keys m" "exact_members D m" "\<forall>kv \<in> set m. reads_back D y (snd kv)"
  shows "reads_back D y (plain (V_object m))"
  unfolding reads_back_def
proof (intro allI impI, elim conjE)
  fix n and r :: "'a json_reader" and sp tail p ps w
  let ?v = "plain (V_object m)" and ?t = "text_of_members D y True m @ CHR ''}'' # tail"
  assume n: "length (text_of D y ?v) \<le> n" and r: "r_nodes r = p # ps" "rest_text r = sp @ text_of D y ?v @ tail"
    "list_all is_space sp" "delimited tail" "r_before r = []" "at_path p (r_root r) = Some w"
  obtain n' where n': "n = Suc n'" "length (text_of_members D y True m) < n'" using n by (cases n) auto
  have rest_text: "rest_text r = sp @ CHR ''{'' # ?t" using r(2) by simp
  obtain tok r1 root1 where head: "skipCommentTokens r = Inr (tok, r1)" "tok_type tok = tokenObjectBegin" "r_before r1 = []"
      "currentValue_assign (value_of_type D objectValue) r1 = Inr (r1\<lparr>r_root := root1\<rparr>)"
      "put p (V_object []) (r_root r) = Inr root1" "kept r r1" "rest_text r1 = ?t"
    by (rule container_head [OF rest_text r(3) _ r(1,5,6), of tokenObjectBegin "value_of_type D objectValue"]) auto
  let ?r2 = "r1\<lparr>r_root := root1\<rparr>"
  have body: "readValue D n r = finish_value (readObject_loop D n' [] ?r2)"
    using head(2,4) unfolding n'(1) readValue.simps head(1) bind_outcome_simps prod.case Let_def
    by (simp add: flush_nothing [OF head(3)])
  have "\<exists>r'. readObject_loop D n' [] ?r2 = Some (Inr (True, r')) \<and> kept ?r2 r' \<and> rest_text r' = tail \<and>
      put p (V_object m) (r_root r) = Inr (r_root r')"
  proof (cases "m = []")
    case True
    obtain k where k: "n' = Suc k" using n'(2) by (cases n') auto
    have "readToken ?r2 = Inr (token_at tokenObjectEnd [] ''}'' ?r2, advance 1 ?r2)"
      using True readToken_punctuation [of ?r2 "[]" "CHR ''}''" tail tokenObjectEnd] head(7) by simp
    from skip_first(1) [OF this] True head show ?thesis by (simp add: k readObject_loop.simps)
  next
    case False
    then show ?thesis using head n' r by (intro object_loop_reads [OF m, where i = 0]) (auto simp: kept_def)
  qed
  then show "\<exists>r'. readValue D n r = Some (Inr (True, r')) \<and> kept r r' \<and> rest_text r' = tail \<and>
       put p (value_of ?v) (r_root r) = Inr (r_root r')"
    unfolding body using head(6) kept_trans [of r ?r2] by (auto simp: finish_value_def)
qed

lemma exact_reads:
  fixes v :: "'d cvalue" and p :: "'d payload" and m :: "'d members"
  shows "exact D v \<Longrightarrow> reads_back D y v"
    and "exact_payload D p \<Longrightarrow> reads_back D y (plain p)"
    and "exact_members D m \<Longrightarrow> \<forall>kv \<in> set m. reads_back D y (snd kv)"
  by (induction D v and D p and D m rule: exact_exact_payload_exact_members.induct)
    (auto simp: scalar_values_read keyword_values_read string_values_read array_reads object_reads split: option.splits)

section \<open>Documents\<close>

lemma readToken_end: "list_all is_space (rest_text r) \<Longrightarrow> \<exists>t r'. readToken r = Inr (t, r') \<and> tok_type t = tokenEndOfStream \<and>
    r_root r' = r_root r \<and> kept r r'"
proof -
  assume s: "list_all is_space (rest_text r)"
  have "skip_spaces s = length s" if "list_all is_space s" for s using that by (induction s) auto
  then have "skipSpaces r = advance (length (rest_text r)) r" using s by (simp add: skipSpaces_def)
  then show ?thesis by (simp add: readToken_def getNextChar_def token_body_nul Let_def)
qed

lemma exact_fast_write: "exact D v \<Longrightarrow> fast_write D w v = Inr (text_of D (fw_yaml w) v @ [CHR 0x0A])"
  using exact_writes(1) [of D v "fw_yaml w"] by (simp add: fast_write_def writes_def)

lemma exact_parse:
  assumes "exact D v" and "comments_of root = None" and "\<not> strictRoot (r_features r)"
  shows "\<exists>r'. parse D (text_of D y v @ [CHR 0x0A]) root collectComments r = Some (Inr (True, r')) \<and>
    r_root r' = v \<and> r_features r' = r_features r"
proof -
  let ?text = "text_of D y v @ [CHR 0x0A]" and ?r0 = "parse_start (text_of D y v @ [CHR 0x0A]) root collectComments r"
  obtain r1 where r1: "readValue D (parse_fuel ?text) ?r0 = Some (Inr (True, r1))" "kept ?r0 r1" "rest_text r1 = [CHR 0x0A]"
      "put [] (value_of v) (r_root ?r0) = Inr (r_root r1)"
  proof (rule readsD [OF exact_reads(1) [OF assms(1), of y], of "parse_fuel ?text" ?r0 "[]" "[]" "[]" "[CHR 0x0A]" root])
    show "delimited [CHR 0x0A]" by (simp add: delimited_def number_char_def digit_def)
  qed (simp_all add: parse_fuel_def parse_start_def rest_text_def)
  have root: "r_root r1 = v" using r1(4) assms(2) exact_comments [OF assms(1)] by (simp add: put_def parse_start_def)
  obtain t r2 where t: "readToken r1 = Inr (t, r2)" "tok_type t = tokenEndOfStream" "r_root r2 = r_root r1" "kept r1 r2"
    using readToken_end [of r1] r1(3) by (auto simp: is_space_def)
  have "skipCommentTokens r1 = Inr (t, r2)" by (rule skip_first(2) [OF t(1)]) (use t(2) in simp)
  moreover have kept: "r_before r2 = []" "r_features r2 = r_features r"
    using kept_trans [OF r1(2) t(4)] by (simp_all add: kept_def parse_start_def)
  ultimately have "parse D ?text root collectComments r = Some (Inr (True, r2))"
    using r1(1) assms(3) by (simp add: parse_def)
  with root t(3) kept(2) show ?thesis by simp
qed

text \<open>
  C11. What \<^verbatim>\<open>FastWriter::write\<close> writes, \<^verbatim>\<open>Reader::parse\<close> reads back: for every exact value (no
  comments, arrays without gaps, strings and names without NUL, integers above -2147483640,
  unsigned integers between \<^verbatim>\<open>maxInt\<close> and 4294967289, doubles that survive printing) the writer
  returns a text, and parsing it succeeds with that value, whatever the flag for YAML.
\<close>
theorem fast_write_parse:
  assumes "exact D v" and "comments_of root = None" and "\<not> strictRoot (r_features r)"
  shows "\<exists>text r'. fast_write D w v = Inr text \<and> parse D text root collectComments r = Some (Inr (True, r')) \<and>
    r_root r' = v"
  using exact_fast_write [OF assms(1), of w] exact_parse [OF assms, of "fw_yaml w" collectComments] by auto

lemma fast_write_parse_witness:
  "\<exists>text r'. fast_write whole_doubles fast_writer_new
       (plain (V_object [(CZ_Name ''a'', plain (V_array [(CZ_Index 0, null_value), (CZ_Index 1, plain (V_string (Some [quote])))]))])) =
       Inr text \<and>
     parse whole_doubles text null_value True (json_reader_new features_all) = Some (Inr (True, r')) \<and>
     r_root r' = plain (V_object [(CZ_Name ''a'', plain (V_array [(CZ_Index 0, null_value), (CZ_Index 1, plain (V_string (Some [quote])))]))])"
  by (rule fast_write_parse)
    (simp_all add: json_reader_new_def features_all_def dense_def name_keys_def)

text \<open>
  The bounds of exactness are those of the reader: one further and the digits are too many for
  an integer.
\<close>

lemma integers_read_as_doubles:
  "decode_digits (- minInt div 10) 0 ''2147483640'' = Too_Big" "decode_digits (maxUInt div 10) 0 ''4294967290'' = Too_Big"
  by code_simp+

end
