(* ===== verification/Naive_Parse.thy ===== *)
theory Naive_Parse
  imports Jsoncpp_Roundtrip Json_Select
begin

text \<open>
  The baseline \<^verbatim>\<open>naive_parse_stream\<close> of \<^verbatim>\<open>json_select.cpp\<close>: every line is parsed by jsoncpp's
  \<^verbatim>\<open>Reader\<close>, a path is followed through the value, and \<^verbatim>\<open>FastWriter\<close> prints what it leads to. One
  reader and one writer serve all lines. A step that does not fit the value (a key in something
  that is not an object, an index in something that is not an array) leaves the loop over the
  path, and the value reached so far is printed.
\<close>

section \<open>The command\<close>

fun naive_follow :: "'d cvalue \<Rightarrow> path \<Rightarrow> 'd cvalue result" where
  "naive_follow accessor [] = Inr accessor"
| "naive_follow accessor (Key key # rest) =
     (if \<not> isObject accessor then Inr accessor
      else bind_result (key_const accessor key) (\<lambda>r. naive_follow (ref_value r) rest))"
| "naive_follow accessor (Index idx # rest) =
     (if \<not> isArray accessor then Inr accessor
      else bind_result
        (index_const accessor
           (if 0 \<le> idx then word_of_int idx else size_of accessor + word_of_int idx))
        (\<lambda>r. naive_follow (ref_value r) rest))"

text \<open>The values of one line; the newline of \<^verbatim>\<open>FastWriter\<close> is cut off.\<close>

fun naive_paths :: "'d doubles \<Rightarrow> fast_writer \<Rightarrow> 'd cvalue \<Rightarrow> bool \<Rightarrow> path_list \<Rightarrow> string result" where
  "naive_paths D writer root first [] = Inr []"
| "naive_paths D writer root first (path # paths) =
     bind_result (naive_follow root path) (\<lambda>accessor.
       bind_result (fast_write D writer accessor) (\<lambda>out.
         bind_result (naive_paths D writer root False paths) (\<lambda>rest.
           Inr ((if first then [] else '','') @ take (length out - 1) out @ rest))))"

fun naive_lines ::
  "'d doubles \<Rightarrow> fast_writer \<Rightarrow> path_list \<Rightarrow> 'd json_reader \<Rightarrow> string list \<Rightarrow> string outcome" where
  "naive_lines D writer paths reader [] = Some (Inr [])"
| "naive_lines D writer paths reader (line # lines) =
     bind_outcome (parse D line null_value True reader) (\<lambda>(ok, reader').
       bind_outcome (Some (naive_paths D writer (r_root reader') True paths)) (\<lambda>out.
         bind_outcome (naive_lines D writer paths reader' lines) (\<lambda>rest.
           Some (Inr (''['' @ out @ CHR '']'' # CHR 0x0A # rest)))))"

definition naive_parse_stream ::
  "'d doubles \<Rightarrow> (string \<Rightarrow> path_list result) \<Rightarrow> string \<Rightarrow> string list \<Rightarrow> string outcome" where
  "naive_parse_stream D path_parse paths_spec stdin =
     bind_outcome (Some (path_parse paths_spec)) (\<lambda>paths.
       naive_lines D fast_writer_new paths (json_reader_new features_all) stdin)"

section \<open>What it prints\<close>

text \<open>
  The value a path selects, over the elements of arrays as lists. A missing member or element
  is null; a step that does not fit ends the path.
\<close>

fun selected_value :: "'d cvalue \<Rightarrow> path \<Rightarrow> 'd cvalue" where
  "selected_value v [] = v"
| "selected_value v (Key k # p) =
     (case value_of v of
        V_object m \<Rightarrow>
          (case map_of m (CZ_Name k) of None \<Rightarrow> null_value | Some w \<Rightarrow> selected_value w p)
      | _ \<Rightarrow> v)"
| "selected_value v (Index i # p) =
     (case value_of v of
        V_array m \<Rightarrow>
          let es = map snd m; j = (if 0 \<le> i then i else int (length es) + i)
          in if 0 \<le> j \<and> j < int (length es) then selected_value (es ! nat j) p else null_value
      | _ \<Rightarrow> v)"

text \<open>The steps of a path that the representation holds: an \<^verbatim>\<open>int\<close>, and a key without NUL.\<close>

definition plain_step :: "path_element \<Rightarrow> bool" where
  "plain_step e = (case e of Key k \<Rightarrow> nul \<notin> set k | Index i \<Rightarrow> - (2 ^ 31) \<le> i \<and> i < 2 ^ 31)"

definition naive_line :: "'d doubles \<Rightarrow> path_list \<Rightarrow> 'd cvalue \<Rightarrow> string" where
  "naive_line D paths v =
     ''['' @ commas (map (\<lambda>p. text_of D False (selected_value v p)) paths) @ CHR '']'' # [CHR 0x0A]"

lemma c_string_plain: "nul \<notin> set s \<Longrightarrow> c_string s = s"
  by (auto simp: c_string_def takeWhile_eq_all_conv)

lemma selected_null: "selected_value (null_value :: 'd cvalue) p = null_value"
  by (cases "(null_value :: 'd cvalue, p)" rule: selected_value.cases) auto

lemma follow_null: "naive_follow (null_value :: 'd cvalue) p = Inr null_value"
proof (induction p)
  case (Cons e p)
  then show ?case
    by (cases e) (simp_all add: key_const_def object_map_def index_const_def array_map_def ref_value_def)
qed simp

lemma follow_misfit:
  "type_of v \<noteq> objectValue \<Longrightarrow> comments_of v = None \<Longrightarrow> naive_follow v (Key k # p) = Inr v"
  "type_of v \<noteq> arrayValue \<Longrightarrow> comments_of v = None \<Longrightarrow> naive_follow v (Index i # p) = Inr v"
proof -
  have null: "v = null_value" if "type_of v = nullValue" "comments_of v = None"
    using that by (cases v rule: type_of.cases) auto
  show "type_of v \<noteq> objectValue \<Longrightarrow> comments_of v = None \<Longrightarrow> naive_follow v (Key k # p) = Inr v"
    by (cases "type_of v = nullValue") (use null follow_null [of "Key k # p"] in \<open>simp_all add: isObject_def\<close>)
  show "type_of v \<noteq> arrayValue \<Longrightarrow> comments_of v = None \<Longrightarrow> naive_follow v (Index i # p) = Inr v"
    by (cases "type_of v = nullValue") (use null follow_null [of "Index i # p"] in \<open>simp_all add: isArray_def\<close>)
qed

lemma exact_child: "exact_members D m \<Longrightarrow> (k, w) \<in> set m \<Longrightarrow> exact D w"
  by (induction m) auto

text \<open>An \<^verbatim>\<open>int\<close> turned into an index: the element of a dense array, or no key of it.\<close>

lemma dense_index_const:
  assumes "dense m" and "j = (if 0 \<le> i then i else int (length m) + i)" and "- (2 ^ 31) \<le> i" and "i < 2 ^ 31"
  shows "index_const (Value (V_array m) c)
      (if 0 \<le> i then word_of_int i else size_of (Value (V_array m) c) + word_of_int i) =
    Inr (if 0 \<le> j \<and> j < int (length m) then Some (snd (m ! nat j)) else None)"
proof -
  let ?v = "Value (V_array m) c"
  have size: "size_of ?v = word_of_int (int (length m))"
    using dense_size_word [OF assms(1)] by simp
  have len: "length m < 2 ^ 31" using assms(1) by (simp add: dense_def)
  have idx: "(if 0 \<le> i then word_of_int i else size_of ?v + word_of_int i) = (word_of_int j :: 32 word)"
    using assms(2) size by (simp add: wi_hom_add)
  have range: "- (2 ^ 31) \<le> j" "j < 2 ^ 31" using assms(2-4) len by auto
  then have key: "index_key (word_of_int j) = CZ_Index j"
    by (simp add: index_key_def sint_sbintrunc' signed_take_bit_int_eq_self)
  have "map_of m (CZ_Index j) = (if 0 \<le> j \<and> j < int (length m) then Some (snd (m ! nat j)) else None)"
  proof (cases "0 \<le> j \<and> j < int (length m)")
    case True
    then have "nat j < length m" by linarith
    then have "m ! nat j \<in> set m" "fst (m ! nat j) = CZ_Index j"
      using True dense_nth [OF assms(1), of "nat j"] by simp_all
    then have "(CZ_Index j, snd (m ! nat j)) \<in> set m" by (metis prod.collapse)
    then show ?thesis using True dense_distinct [OF assms(1)] by simp
  next
    case False
    have "CZ_Index j \<notin> fst ` set m"
      using False dense_nth [OF assms(1)] by (force simp: in_set_conv_nth)
    then show ?thesis using False by (auto simp: map_of_eq_None_iff)
  qed
  then show ?thesis by (simp add: idx key index_const_def array_map_def)
qed

lemma follow_selected:
  assumes "exact D v" and "list_all plain_step p"
  shows "naive_follow v p = Inr (selected_value v p) \<and> exact D (selected_value v p)"
  using assms
proof (induction v p rule: selected_value.induct)
  case (2 v k p)
  then have k: "name_key k = CZ_Name k" by (simp add: name_key_def c_string_plain plain_step_def)
  show ?case
  proof (cases "\<exists>m. value_of v = V_object m")
    case True
    then obtain m where v: "v = Value (V_object m) None" using 2(2) by (cases v) auto
    then have "exact_members D m" using 2(2) by simp
    then show ?thesis using 2(1) [of m] 2(3) v exact_child [of D m]
      by (cases "map_of m (CZ_Name k)")
        (auto simp: key_const_def object_map_def k ref_value_def follow_null isObject_def dest!: map_of_SomeD)
  next
    case False
    then have "type_of v \<noteq> objectValue" by (cases v rule: type_of.cases) auto
    then show ?thesis using follow_misfit(1) [of v k p] False 2(2) exact_comments [OF 2(2)]
      by (auto split: payload.splits)
  qed
next
  case (3 v i p)
  then have i: "- (2 ^ 31) \<le> i" "i < 2 ^ 31" by (simp_all add: plain_step_def)
  show ?case
  proof (cases "\<exists>m. value_of v = V_array m")
    case True
    then obtain m where v: "v = Value (V_array m) None" using 3(2) by (cases v) auto
    then have ex: "exact_members D m" "dense m" using 3(2) by simp_all
    let ?j = "if 0 \<le> i then i else int (length m) + i"
    note c = dense_index_const [OF ex(2) refl i, of None]
    show ?thesis
    proof (cases "0 \<le> ?j \<and> ?j < int (length m)")
      case True
      then have j: "nat ?j < length m" by linarith
      then have "exact D (snd (m ! nat ?j))" using exact_child [OF ex(1)] nth_mem by (metis prod.collapse)
      then show ?thesis
        using True j c 3(1) [of m, OF _ refl refl] 3(3) v
        by (cases "0 \<le> i") (auto simp: Let_def ref_value_def isArray_def)
    next
      case False
      then show ?thesis using v c by (cases "0 \<le> i") (simp_all add: Let_def ref_value_def follow_null isArray_def)
    qed
  next
    case False
    then have "type_of v \<noteq> arrayValue" by (cases v rule: type_of.cases) auto
    then show ?thesis using follow_misfit(2) [of v i p] False 3(2) exact_comments [OF 3(2)]
      by (auto split: payload.splits)
  qed
qed simp

lemma paths_printed:
  assumes "exact D v" and "list_all (list_all plain_step) paths"
  shows "naive_paths D fast_writer_new v first paths =
    Inr (if paths = [] then [] else (if first then [] else '','') @ commas (map (\<lambda>p. text_of D False (selected_value v p)) paths))"
  using assms(2)
proof (induction paths arbitrary: first)
  case (Cons p ps)
  have "naive_follow v p = Inr (selected_value v p)" "exact D (selected_value v p)"
    using follow_selected [OF assms(1), of p] Cons.prems by simp_all
  then show ?case
    using Cons.IH [of False] Cons.prems exact_fast_write [of D "selected_value v p" fast_writer_new]
    by (cases ps) (auto simp: fast_writer_new_def)
qed simp

lemma lines_printed:
  assumes "list_all (exact D) vs" and "list_all (list_all plain_step) paths" and "\<not> strictRoot (r_features r)"
  shows "naive_lines D fast_writer_new paths r (map (\<lambda>v. text_of D y v @ [CHR 0x0A]) vs) =
    Some (Inr (concat (map (naive_line D paths) vs)))"
  using assms(1,3)
proof (induction vs arbitrary: r)
  case (Cons v vs)
  then obtain r' where "parse D (text_of D y v @ [CHR 0x0A]) null_value True r = Some (Inr (True, r'))"
      "r_root r' = v" "\<not> strictRoot (r_features r')"
    using exact_parse [of D v null_value r y True] by auto
  then show ?case
    using Cons paths_printed [of D v paths True] assms(2) by (auto simp: naive_line_def)
qed simp

section \<open>Properties\<close>

text \<open>
  C16. The baseline on a stream of documents written by \<^verbatim>\<open>FastWriter\<close>: every line is parsed, and for
  every path the text of the value it selects is printed; a missing member or element is
  \<^verbatim>\<open>null\<close>, a negative index counts from the end, and a step that does not fit prints the value
  before it. In particular one reader serves all lines.
\<close>

theorem naive_parse_stream_output:
  assumes "list_all (exact D) vs" and "path_parse spec = Inr paths" and "list_all (list_all plain_step) paths"
    and "list_all2 (\<lambda>v line. fast_write D w v = Inr line) vs stdin"
  shows "naive_parse_stream D path_parse spec stdin = Some (Inr (concat (map (naive_line D paths) vs)))"
proof -
  have "stdin = map (\<lambda>v. text_of D (fw_yaml w) v @ [CHR 0x0A]) vs"
    using assms(4,1) by (induction rule: list_all2_induct) (auto simp: exact_fast_write)
  then show ?thesis
    using lines_printed [OF assms(1,3), of "json_reader_new features_all" "fw_yaml w"] assms(2)
    by (simp add: naive_parse_stream_def json_reader_new_def features_all_def)
qed

definition two_members :: "int cvalue" where
  "two_members = plain (V_object [(CZ_Name ''a'', plain (V_array [(CZ_Index 0, value_int 1), (CZ_Index 1, value_int 2)])),
     (CZ_Name ''b'', value_bool True)])"

theorem naive_parse_stream_output_witness:
  "naive_parse_stream whole_doubles (\<lambda>_. Inr [[Key ''a'', Index (-1)], [Key ''c''], [Key ''b'', Index 0]]) []
     [CHR ''{'' # quote # ''a'' @ quote # '':[1,2],'' @ quote # ''b'' @ quote # '':true}'' @ [CHR 0x0A]] =
   Some (Inr (''[2,null,true]'' @ [CHR 0x0A]))"
proof -
  have "list_all (exact whole_doubles) [two_members]"
    by (simp add: two_members_def dense_def name_keys_def sorted_keys_def exact_int_def value_int_def value_bool_def)
  moreover have "fast_write whole_doubles fast_writer_new two_members =
      Inr (CHR ''{'' # quote # ''a'' @ quote # '':[1,2],'' @ quote # ''b'' @ quote # '':true}'' @ [CHR 0x0A])"
    by code_simp
  moreover have "list_all (list_all plain_step) [[Key ''a'', Index (-1)], [Key ''c''], [Key ''b'', Index 0]]"
    by (simp add: plain_step_def)
  moreover have "naive_line whole_doubles [[Key ''a'', Index (-1)], [Key ''c''], [Key ''b'', Index 0]] two_members =
      ''[2,null,true]'' @ [CHR 0x0A]" by code_simp
  ultimately show ?thesis
    using naive_parse_stream_output [of whole_doubles "[two_members]" "\<lambda>_. Inr [[Key ''a'', Index (-1)], [Key ''c''], [Key ''b'', Index 0]]" "[]"]
    by simp
qed

end
