(* ===== verification/Bson_Bytes.thy ===== *)
theory Bson_Bytes
  imports Decimal Escape_Table Little_Endian "HOL-Library.Word"
begin

unbundle bit_operations_syntax

text \<open>
  Bytes of the MongoDB library: hexadecimal notation (\<^verbatim>\<open>util/hex.h\<close>), base 64
  (\<^verbatim>\<open>util/base64.cpp\<close>), and the growing buffers \<^verbatim>\<open>BufBuilder\<close> and \<^verbatim>\<open>StringBuilder\<close>
  (\<^verbatim>\<open>bson/util/builder.h\<close>). A byte is a \<open>char\<close>; arithmetic on \<^verbatim>\<open>unsigned char\<close> is that of
  \<open>8 word\<close>. A failed \<^verbatim>\<open>assert\<close>, \<^verbatim>\<open>massert\<close> or \<^verbatim>\<open>uassert\<close> throws; the latter two carry their
  message.
\<close>

definition byte :: "char \<Rightarrow> 8 word" where
  "byte c = word_of_nat (of_char c)"

definition of_byte :: "8 word \<Rightarrow> char" where
  "of_byte w = char_of (unat w)"

lemma of_byte_byte [simp]: "of_byte (byte c) = c"
proof -
  have "unat (byte c) = of_char c" by (simp add: byte_def unat_of_nat take_bit_eq_mod)
  then show ?thesis by (simp add: of_byte_def)
qed

lemma byte_of_byte [simp]: "byte (of_byte w) = w"
proof -
  have "unat w < 256" using unsigned_less [of w] by simp
  then show ?thesis by (simp add: byte_def of_byte_def of_char_of take_bit_eq_mod)
qed

text \<open>Equality of bytes, bit by bit; the rules that compute a bit of an expression.\<close>

lemma eight_bits: "n < 8 \<longleftrightarrow> n = 0 \<or> n = 1 \<or> n = 2 \<or> n = 3 \<or> n = 4 \<or> n = 5 \<or> n = 6 \<or> n = (7 :: nat)"
  by auto

lemma byte_eqI:
  fixes v w :: "8 word"
  assumes "bit v 0 = bit w 0" "bit v 1 = bit w 1" "bit v 2 = bit w 2" "bit v 3 = bit w 3"
    "bit v 4 = bit w 4" "bit v 5 = bit w 5" "bit v 6 = bit w 6" "bit v 7 = bit w 7"
  shows "v = w"
  by (rule bit_word_eqI) (use assms in \<open>auto simp: eight_bits\<close>)

lemmas byte_bits = bit_and_iff bit_or_iff bit_push_bit_iff bit_drop_bit_eq

section \<open>Hexadecimal digits\<close>

definition fromHex :: "char \<Rightarrow> int result" where
  "fromHex c =
     (let n = of_char c :: nat
      in if 48 \<le> n \<and> n \<le> 57 then Inr (int n - 48)
         else if 97 \<le> n \<and> n \<le> 102 then Inr (int n - 97 + 10)
         else if 65 \<le> n \<and> n \<le> 70 then Inr (int n - 65 + 10)
         else Inl Assertion_Failed)"

text \<open>\<^verbatim>\<open>fromHex(const char*)\<close>: two digits.\<close>

definition fromHex2 :: "char \<Rightarrow> char \<Rightarrow> char result" where
  "fromHex2 c0 c1 =
     bind_result (fromHex c0) (\<lambda>hi. bind_result (fromHex c1) (\<lambda>lo.
       Inr (of_byte (push_bit 4 (word_of_int hi) OR word_of_int lo))))"

definition hex_chars :: "string \<Rightarrow> char \<Rightarrow> string" where
  "hex_chars hexchars c =
     [hexchars ! unat (drop_bit 4 (byte c AND 0xF0)), hexchars ! unat (byte c AND 0x0F)]"

definition toHex :: "string \<Rightarrow> string" where
  "toHex s = concat (map (hex_chars ''0123456789ABCDEF'') s)"

definition toHexLower :: "string \<Rightarrow> string" where
  "toHexLower s = concat (map (hex_chars ''0123456789abcdef'') s)"

fun from_hex_pairs :: "string \<Rightarrow> string result" where
  "from_hex_pairs (c0 # c1 # cs) =
     bind_result (fromHex2 c0 c1) (\<lambda>b. bind_result (from_hex_pairs cs) (\<lambda>bs. Inr (b # bs)))"
| "from_hex_pairs cs = Inr []"

lemma fromHex_digit:
  assumes "k < 16" and "hexchars \<in> {''0123456789abcdef'', ''0123456789ABCDEF''}"
  shows "fromHex (hexchars ! k) = Inr (int k)"
proof -
  have "k = 0 \<or> k = 1 \<or> k = 2 \<or> k = 3 \<or> k = 4 \<or> k = 5 \<or> k = 6 \<or> k = 7 \<or> k = 8 \<or> k = 9 \<or> k = 10 \<or>
      k = 11 \<or> k = 12 \<or> k = 13 \<or> k = 14 \<or> k = 15"
    using assms(1) by arith
  then show ?thesis using assms(2) by (elim disjE insertE emptyE) (simp_all add: fromHex_def)
qed

lemma nibbles:
  fixes w :: "8 word"
  shows "push_bit 4 (drop_bit 4 (w AND 0xF0)) OR (w AND 0x0F) = w"
    and "unat (drop_bit 4 (w AND 0xF0)) < 16" and "unat (w AND 0x0F) < 16"
proof -
  show "push_bit 4 (drop_bit 4 (w AND 0xF0)) OR (w AND 0x0F) = w"
    by (rule byte_eqI) (simp_all add: byte_bits)
  have low: "unat (v AND 0x0F) < 16" for v :: "8 word"
    using word_and_le1 [of v "0x0F"] by (simp add: word_le_nat_alt)
  show "unat (w AND 0x0F) < 16" by (rule low)
  have "drop_bit 4 (w AND 0xF0) = drop_bit 4 w AND 0x0F"
    by (rule byte_eqI) (simp_all add: byte_bits)
  then show "unat (drop_bit 4 (w AND 0xF0)) < 16" using low by simp
qed

lemma hex_chars_read:
  assumes "hexchars \<in> {''0123456789abcdef'', ''0123456789ABCDEF''}"
  shows "from_hex_pairs (hex_chars hexchars c @ cs) = bind_result (from_hex_pairs cs) (\<lambda>bs. Inr (c # bs))"
proof -
  note n = nibbles [of "byte c"]
  show ?thesis
    using n(1) fromHex_digit [OF n(2) assms] fromHex_digit [OF n(3) assms] of_byte_byte [of c]
    by (simp add: hex_chars_def fromHex2_def del: of_byte_byte drop_bit_and)
qed

lemma toHex_read: "from_hex_pairs (toHex s) = Inr s" "from_hex_pairs (toHexLower s) = Inr s"
  by (induction s) (simp_all add: toHex_def toHexLower_def hex_chars_read)

section \<open>Base 64\<close>

definition alphabet :: string where
  "alphabet = ''ABCDEFGHIJKLMNOPQRSTUVWXYZ'' @ ''abcdefghijklmnopqrstuvwxyz'' @ ''0123456789'' @ ''+/''"

definition alphabet_e :: "8 word \<Rightarrow> char" where
  "alphabet_e x = alphabet ! unat (x AND 0x3f)"

definition alphabet_decode :: "nat list" where
  "alphabet_decode = foldl (\<lambda>t i. t[of_char (alphabet ! i) := i]) (replicate 256 0) [0..<64]"

definition decode_char :: "char \<Rightarrow> 8 word" where
  "decode_char c = word_of_nat (alphabet_decode ! of_char c)"

fun encode_loop :: "8 word list \<Rightarrow> string" where
  "encode_loop [] = []"
| "encode_loop [a] = [alphabet_e (drop_bit 2 a), alphabet_e (push_bit 4 a)]"
| "encode_loop [a, b] =
     [alphabet_e (drop_bit 2 a), alphabet_e (push_bit 4 a OR (drop_bit 4 b AND 0xF)),
      alphabet_e (push_bit 2 (b AND 0xF))]"
| "encode_loop (a # b # c # rest) =
     alphabet_e (drop_bit 2 a) # alphabet_e (push_bit 4 a OR (drop_bit 4 b AND 0xF)) #
     alphabet_e (push_bit 2 (b AND 0xF) OR (drop_bit 6 c AND 0x3)) # alphabet_e (c AND 0x3f) #
     encode_loop rest"

definition base64_encode :: "string \<Rightarrow> string" where
  "base64_encode data =
     encode_loop (map byte data) @
     (if length data mod 3 = 1 then ''=='' else if length data mod 3 = 2 then ''='' else [])"

fun decode_quads :: "string \<Rightarrow> string" where
  "decode_quads (c0 # c1 # c2 # c3 # rest) =
     (let buf =
        [(push_bit 2 (decode_char c0) AND 0xFC) OR (drop_bit 4 (decode_char c1) AND 0x3),
         (push_bit 4 (decode_char c1) AND 0xF0) OR (drop_bit 2 (decode_char c2) AND 0xF),
         (push_bit 6 (decode_char c2) AND 0xC0) OR (decode_char c3 AND 0x3F)];
          len = (if c3 = CHR ''='' then (if c2 = CHR ''='' then 1 else 2) else 3)
      in map of_byte (take len buf) @ decode_quads rest)"
| "decode_quads cs = []"

definition base64_decode :: "string \<Rightarrow> string result" where
  "base64_decode s =
     (if length s mod 4 = 0 then Inr (decode_quads s) else Inl (Runtime_Error ''invalid base64''))"

lemma alphabet_props: "length alphabet = 64" "distinct alphabet" "CHR ''='' \<notin> set alphabet"
  by (simp_all add: alphabet_def)

lemma alphabet_table:
  fixes n :: nat
  defines "t \<equiv> foldl (\<lambda>t i. t[of_char (alphabet ! i) := i]) (replicate 256 0) [0..<n]"
  assumes "n \<le> 64"
  shows "length t = 256" and "k < n \<Longrightarrow> t ! of_char (alphabet ! k) = k"
    and "c \<notin> set alphabet \<Longrightarrow> t ! of_char c = 0"
proof -
  have "length t = 256 \<and> (\<forall>k < n. t ! of_char (alphabet ! k) = k) \<and> (c \<notin> set alphabet \<longrightarrow> t ! of_char c = 0)"
    unfolding t_def using assms(2)
  proof (induction n)
    case (Suc n)
    have "alphabet ! k \<noteq> alphabet ! n" if "k < n" for k
      using that Suc.prems alphabet_props(1,2) by (simp add: nth_eq_iff_index_eq)
    moreover have "alphabet ! n \<in> set alphabet" using Suc.prems alphabet_props(1) by simp
    ultimately show ?case using Suc by (auto simp: nth_list_update less_Suc_eq; blast)
  qed simp
  then show "length t = 256" "k < n \<Longrightarrow> t ! of_char (alphabet ! k) = k"
    "c \<notin> set alphabet \<Longrightarrow> t ! of_char c = 0" by blast+
qed

lemma decode_char_e: "decode_char (alphabet_e x) = x AND 0x3f" "alphabet_e x \<noteq> CHR ''=''"
proof -
  have k: "unat (x AND 0x3f) < 64" using word_and_le1 [of x "0x3f"] by (simp add: word_le_nat_alt)
  then show "decode_char (alphabet_e x) = x AND 0x3f"
    using alphabet_table(2) [of 64] by (simp add: decode_char_def alphabet_e_def alphabet_decode_def)
  show "alphabet_e x \<noteq> CHR ''=''"
    using k alphabet_props(1,3) nth_mem by (metis alphabet_e_def)
qed

lemma decode_pad: "decode_char (CHR ''='') = 0"
  using alphabet_table(3) [of 64, OF _ alphabet_props(3)] by (simp add: decode_char_def alphabet_decode_def)

lemma sextets:
  fixes a b c :: "8 word"
  shows "(push_bit 2 (drop_bit 2 a AND 0x3f) AND 0xFC) OR (drop_bit 4 ((push_bit 4 a OR (drop_bit 4 b AND 0xF)) AND 0x3f) AND 0x3) = a"
    and "(push_bit 2 (drop_bit 2 a AND 0x3f) AND 0xFC) OR (drop_bit 4 (push_bit 4 a AND 0x3f) AND 0x3) = a"
    and "(push_bit 4 ((push_bit 4 a OR (drop_bit 4 b AND 0xF)) AND 0x3f) AND 0xF0) OR
      (drop_bit 2 ((push_bit 2 (b AND 0xF) OR (drop_bit 6 c AND 0x3)) AND 0x3f) AND 0xF) = b"
    and "(push_bit 4 ((push_bit 4 a OR (drop_bit 4 b AND 0xF)) AND 0x3f) AND 0xF0) OR
      (drop_bit 2 (push_bit 2 (b AND 0xF) AND 0x3f) AND 0xF) = b"
    and "(push_bit 6 ((push_bit 2 (b AND 0xF) OR (drop_bit 6 c AND 0x3)) AND 0x3f) AND 0xC0) OR (c AND 0x3f) = c"
  by (rule byte_eqI; simp add: byte_bits)+

lemma length_encode_loop: "length (encode_loop xs) = (4 * length xs + 2) div 3"
  by (induction xs rule: encode_loop.induct) auto

lemma decode_encode_loop:
  "decode_quads (encode_loop xs @ (if length xs mod 3 = 1 then ''=='' else if length xs mod 3 = 2 then ''='' else [])) =
   map of_byte xs"
  by (induction xs rule: encode_loop.induct)
    (auto simp: decode_char_e decode_pad sextets Let_def simp del: push_bit_and drop_bit_and)

lemma base64_read: "base64_decode (base64_encode data) = Inr data"
proof -
  have "(length (encode_loop (map byte data)) +
      (if length data mod 3 = 1 then 2 else if length data mod 3 = 2 then 1 else 0)) mod 4 = 0"
    by (simp add: length_encode_loop) presburger
  then have "length (base64_encode data) mod 4 = 0" by (auto simp: base64_encode_def)
  moreover have "decode_quads (base64_encode data) = data"
    using decode_encode_loop [of "map byte data"] unfolding base64_encode_def by (simp only: length_map) (simp add: comp_def)
  ultimately show ?thesis by (simp add: base64_decode_def)
qed

section \<open>BufBuilder\<close>

text \<open>
  The bytes written so far (\<^verbatim>\<open>l\<close> of them) and the allocated size. A failing \<^verbatim>\<open>malloc\<close> is left out.
  \<open>grow\<close> is \<^verbatim>\<open>grow(int)\<close> together with the bytes its caller stores there.
\<close>

record buf_builder =
  bb_data :: string
  bb_size :: int

definition BufferMaxSize :: int where
  "BufferMaxSize = 512 * 1024 * 1024"

definition buf_new :: "int \<Rightarrow> buf_builder" where
  "buf_new initsize = \<lparr>bb_data = [], bb_size = initsize\<rparr>"

definition buf_reset :: "int \<Rightarrow> buf_builder \<Rightarrow> buf_builder" where
  "buf_reset maxSize b =
     \<lparr>bb_data = [], bb_size = (if maxSize \<noteq> 0 \<and> maxSize < bb_size b then maxSize else bb_size b)\<rparr>"

definition grow_reallocate :: "int \<Rightarrow> int \<Rightarrow> int result" where
  "grow_reallocate l sz =
     (let a = sz * 2;
          a = (if a = 0 then 512 else a);
          a = (if a < l then l + 16 * 1024 else a)
      in if BufferMaxSize < a then Inl (Runtime_Error ''BufBuilder grow() > 64MB'') else Inr a)"

definition grow :: "string \<Rightarrow> buf_builder \<Rightarrow> buf_builder result" where
  "grow bytes b =
     (let l = int (length (bb_data b) + length bytes)
      in bind_result (if bb_size b < l then grow_reallocate l (bb_size b) else Inr (bb_size b))
           (\<lambda>sz. Inr \<lparr>bb_data = bb_data b @ bytes, bb_size = sz\<rparr>))"

text \<open>\<^verbatim>\<open>skip\<close>: the bytes are not initialised; \<open>nul\<close> stands for them.\<close>

definition skip :: "nat \<Rightarrow> buf_builder \<Rightarrow> buf_builder result" where
  "skip n = grow (replicate n nul)"

definition appendNum_char :: "char \<Rightarrow> buf_builder \<Rightarrow> buf_builder result" where
  "appendNum_char j = grow [j]"

definition appendNum_int :: "32 word \<Rightarrow> buf_builder \<Rightarrow> buf_builder result" where
  "appendNum_int j = grow (le_bytes 4 (unat j))"

definition appendNum_long :: "64 word \<Rightarrow> buf_builder \<Rightarrow> buf_builder result" where
  "appendNum_long j = grow (le_bytes 8 (unat j))"

definition appendBuf :: "string \<Rightarrow> buf_builder \<Rightarrow> buf_builder result" where
  "appendBuf src = grow src"

definition appendStr :: "string \<Rightarrow> bool \<Rightarrow> buf_builder \<Rightarrow> buf_builder result" where
  "appendStr str includeEOO = grow (str @ (if includeEOO then [nul] else []))"

definition setlen :: "nat \<Rightarrow> buf_builder \<Rightarrow> buf_builder" where
  "setlen newLen b = b\<lparr>bb_data := take newLen (bb_data b)\<rparr>"

text \<open>Up to 256 MB a buffer grows.\<close>

lemma grow_small:
  assumes "length (bb_data b) + length bytes \<le> 2 ^ 28"
  shows "\<exists>b'. grow bytes b = Inr b' \<and> bb_data b' = bb_data b @ bytes"
  using assms by (auto simp: grow_def grow_reallocate_def BufferMaxSize_def Let_def)

section \<open>StringBuilder\<close>

text \<open>
  A \<^verbatim>\<open>StringBuilder\<close> is a buffer of text. \<^verbatim>\<open>SBNUM\<close> makes room for \<open>maxSize\<close> characters, prints with
  \<^verbatim>\<open>sprintf\<close>, which also stores a terminating NUL, and sets the length to what was printed.
\<close>

definition sb_new :: buf_builder where
  "sb_new = buf_new 256"

definition sb_write :: "string \<Rightarrow> buf_builder \<Rightarrow> buf_builder result" where
  "sb_write buf = grow buf"

definition SBNUM :: "string \<Rightarrow> nat \<Rightarrow> buf_builder \<Rightarrow> buf_builder result" where
  "SBNUM text maxSize b =
     bind_result (grow (replicate maxSize nul) b) (\<lambda>b'.
       if bb_size b' < int (length (bb_data b) + length text + 1) then Inl Out_Of_Bounds
       else Inr (b'\<lparr>bb_data := bb_data b @ text\<rparr>))"

definition sb_int :: "32 word \<Rightarrow> buf_builder \<Rightarrow> buf_builder result" where
  "sb_int x = SBNUM (show_int (sint x)) 11"

definition sb_long :: "64 word \<Rightarrow> buf_builder \<Rightarrow> buf_builder result" where
  "sb_long x = SBNUM (show_int (sint x)) 22"

definition sb_ulong :: "64 word \<Rightarrow> buf_builder \<Rightarrow> buf_builder result" where
  "sb_ulong x = SBNUM (show_nat (unat x)) 22"

text \<open>
  \<^verbatim>\<open>appendDoubleNice\<close>, on the text that \<^verbatim>\<open>sprintf\<close> prints: without \<^verbatim>\<open>.\<close>, \<^verbatim>\<open>E\<close> and \<^verbatim>\<open>N\<close> in it, \<^verbatim>\<open>.0\<close> is
  added.
\<close>

definition appendDoubleNice :: "string \<Rightarrow> buf_builder \<Rightarrow> buf_builder result" where
  "appendDoubleNice text b =
     bind_result (SBNUM text 32 b) (\<lambda>b'.
       if CHR ''.'' \<notin> set text \<and> CHR ''E'' \<notin> set text \<and> CHR ''N'' \<notin> set text then sb_write ''.0'' b'
       else Inr b')"

lemma SBNUM_small:
  assumes "length text < maxSize" and "length (bb_data b) + maxSize \<le> 2 ^ 28"
  shows "\<exists>b'. SBNUM text maxSize b = Inr b' \<and> bb_data b' = bb_data b @ text"
  using assms by (auto simp: SBNUM_def grow_def grow_reallocate_def BufferMaxSize_def Let_def)

text \<open>
  The room for a \<^verbatim>\<open>long long\<close> is enough. That for an \<^verbatim>\<open>int\<close> is one short: the eleven characters of
  a number below -999999999 leave no room for the terminating NUL.
\<close>

lemma sb_long_fits:
  assumes "length (bb_data b) + 22 \<le> 2 ^ 28"
  shows "\<exists>b'. sb_long x b = Inr b' \<and> bb_data b' = bb_data b @ show_int (sint x)"
    and "\<exists>b'. sb_ulong x b = Inr b' \<and> bb_data b' = bb_data b @ show_nat (unat x)"
proof -
  have "- (2 ^ 63) \<le> sint x" "sint x < 2 ^ 63"
    using sint_ge [of x] sint_lt [of x] by simp_all
  then have "length (show_nat (nat (- sint x))) \<le> 19" "length (show_nat (nat (sint x))) \<le> 19"
    by (intro show_nat_length; simp add: nat_less_iff)+
  then have "length (show_int (sint x)) < 22" by (auto simp: show_int_def)
  then show "\<exists>b'. sb_long x b = Inr b' \<and> bb_data b' = bb_data b @ show_int (sint x)"
    unfolding sb_long_def by (rule SBNUM_small) (rule assms)
  have "unat x < 10 ^ 20" using unsigned_less [of x, where 'a = nat] by simp
  then have "length (show_nat (unat x)) < 22" using show_nat_length [of 20 "unat x"] by simp
  then show "\<exists>b'. sb_ulong x b = Inr b' \<and> bb_data b' = bb_data b @ show_nat (unat x)"
    unfolding sb_ulong_def by (rule SBNUM_small) (rule assms)
qed

lemma sb_int_fits:
  assumes "int (length (bb_data b)) + 12 \<le> bb_size b"
  shows "\<exists>b'. sb_int x b = Inr b' \<and> bb_data b' = bb_data b @ show_int (sint x)"
proof -
  have "- (2 ^ 31) \<le> sint x" "sint x < 2 ^ 31"
    using sint_ge [of x] sint_lt [of x] by simp_all
  then have "length (show_nat (nat (- sint x))) \<le> 10" "length (show_nat (nat (sint x))) \<le> 10"
    by (intro show_nat_length; simp add: nat_less_iff)+
  then have "length (show_int (sint x)) < 12" by (auto simp: show_int_def)
  then show ?thesis using assms by (auto simp: sb_int_def SBNUM_def grow_def Let_def)
qed

lemma sb_int_overruns: "sb_int (- 2147483648) \<lparr>bb_data = replicate 245 x, bb_size = 256\<rparr> = Inl Out_Of_Bounds"
proof -
  have "sint (- 2147483648 :: 32 word) = - 2147483648" by simp
  moreover have "length (show_int (- 2147483648)) = 11" by (simp add: show_int_def show_nat.simps)
  ultimately show ?thesis by (simp add: sb_int_def SBNUM_def grow_def Let_def)
qed

end
