(* ===== verification/Bson_Element.thy ===== *)
theory Bson_Element
  imports Bson_Bytes
begin

text \<open>
  BSON documents in memory: \<^verbatim>\<open>bsontypes.h\<close>, \<^verbatim>\<open>bsonelement.h\<close>, \<^verbatim>\<open>bsonobj.h\<close>, \<^verbatim>\<open>bsonobjiterator.h\<close>,
  \<^verbatim>\<open>bson-inl.h\<close> and \<^verbatim>\<open>jsobj.cpp\<close> of the MongoDB library.

  A \<^verbatim>\<open>BSONObj\<close> and a \<^verbatim>\<open>BSONElement\<close> are pointers into memory: each is the list of the bytes
  readable from it, and a read past them is the fault \<open>Out_Of_Bounds\<close>. The sizes an element
  caches are functions of its bytes and are computed anew. Sizes are integers without bound;
  a size that does not fit \<^verbatim>\<open>int\<close> does not come from a document below 2 GB. A loop over an object
  follows the sizes it finds, so nothing bounds it; it is a \<open>partial_function\<close>.
\<close>

section \<open>Types\<close>

datatype bson_type =
    MinKey | EOO | NumberDouble | BString | BObject | BArray | BinData | Undefined | jstOID | BBool
  | BDate | jstNULL | RegEx | DBRef | BCode | BSymbol | CodeWScope | NumberInt | Timestamp
  | NumberLong | MaxKey | Other_Type int

fun bson_type_number :: "bson_type \<Rightarrow> int" where
  "bson_type_number MinKey = - 1"
| "bson_type_number EOO = 0"
| "bson_type_number NumberDouble = 1"
| "bson_type_number BString = 2"
| "bson_type_number BObject = 3"
| "bson_type_number BArray = 4"
| "bson_type_number BinData = 5"
| "bson_type_number Undefined = 6"
| "bson_type_number jstOID = 7"
| "bson_type_number BBool = 8"
| "bson_type_number BDate = 9"
| "bson_type_number jstNULL = 10"
| "bson_type_number RegEx = 11"
| "bson_type_number DBRef = 12"
| "bson_type_number BCode = 13"
| "bson_type_number BSymbol = 14"
| "bson_type_number CodeWScope = 15"
| "bson_type_number NumberInt = 16"
| "bson_type_number Timestamp = 17"
| "bson_type_number NumberLong = 18"
| "bson_type_number MaxKey = 127"
| "bson_type_number (Other_Type n) = n"

definition named_types :: "bson_type list" where
  "named_types =
     [MinKey, EOO, NumberDouble, BString, BObject, BArray, BinData, Undefined, jstOID, BBool, BDate, jstNULL,
      RegEx, DBRef, BCode, BSymbol, CodeWScope, NumberInt, Timestamp, NumberLong, MaxKey]"

text \<open>A \<^verbatim>\<open>char\<close> cast to the enumeration, and a type cast to \<^verbatim>\<open>char\<close>.\<close>

definition type_of_char :: "char \<Rightarrow> bson_type" where
  "type_of_char c =
     (let n = sint (byte c)
      in case find_first (\<lambda>t. bson_type_number t = n) named_types of None \<Rightarrow> Other_Type n | Some t \<Rightarrow> t)"

definition type_char :: "bson_type \<Rightarrow> char" where
  "type_char t = of_byte (word_of_int (bson_type_number t))"

lemma find_first_unique:
  "distinct (map f xs) \<Longrightarrow> x \<in> set xs \<Longrightarrow> find_first (\<lambda>y. f y = f x) xs = Some x"
  by (induction xs) (auto simp: image_iff)

lemma named_type_numbers:
  "distinct (map bson_type_number named_types)" "\<forall>t \<in> set named_types. - 128 \<le> bson_type_number t \<and> bson_type_number t < 128"
  by (simp_all add: named_types_def)

lemma type_of_type_char [simp]:
  assumes "t \<in> set named_types"
  shows "type_of_char (type_char t) = t"
proof -
  have "sint (word_of_int (bson_type_number t) :: 8 word) = bson_type_number t"
    using named_type_numbers(2) assms by (simp add: sint_sbintrunc' signed_take_bit_int_eq_self)
  then show ?thesis
    using find_first_unique [OF named_type_numbers(1) assms] by (simp add: type_of_char_def type_char_def)
qed

lemma type_char_nul:
  assumes "t \<in> set named_types"
  shows "type_char t = nul \<longleftrightarrow> t = EOO"
proof -
  have "type_of_char nul = EOO" "type_char EOO = nul" by code_simp+
  then show ?thesis using type_of_type_char [OF assms] by auto
qed

section \<open>Reading memory\<close>

definition strlen :: "string \<Rightarrow> nat result" where
  "strlen s = (if nul \<in> set s then Inr (length (takeWhile (\<lambda>c. c \<noteq> nul) s)) else Inl Out_Of_Bounds)"

definition c_string_at :: "string \<Rightarrow> string result" where
  "c_string_at s = bind_result (strlen s) (\<lambda>n. Inr (take n s))"

text \<open>\<^verbatim>\<open>mongo::strnlen\<close>: -1 when the first \<open>n\<close> bytes hold no NUL.\<close>

definition strnlen :: "string \<Rightarrow> int \<Rightarrow> int result" where
  "strnlen s n =
     (let k = length (takeWhile (\<lambda>c. c \<noteq> nul) s)
      in if n \<le> int k then (if int (length s) < n then Inl Out_Of_Bounds else Inr (- 1))
         else if k < length s then Inr (int k) else Inl Out_Of_Bounds)"

definition read32 :: "string \<Rightarrow> 32 word result" where
  "read32 p = (if length p < 4 then Inl Out_Of_Bounds else Inr (word_of_nat (le_value (take 4 p))))"

definition read64 :: "string \<Rightarrow> 64 word result" where
  "read64 p = (if length p < 8 then Inl Out_Of_Bounds else Inr (word_of_nat (le_value (take 8 p))))"

definition read_bytes :: "string \<Rightarrow> int \<Rightarrow> string result" where
  "read_bytes p n = (if int (length p) < n then Inl Out_Of_Bounds else Inr (take (nat n) p))"

text \<open>Pointer arithmetic; the end of the memory may be pointed to.\<close>

definition offset_ptr :: "string \<Rightarrow> int \<Rightarrow> string result" where
  "offset_ptr p n = (if 0 \<le> n \<and> n \<le> int (length p) then Inr (drop (nat n) p) else Inl Out_Of_Bounds)"

section \<open>Elements\<close>

definition element_default :: string where
  "element_default = [nul]"

definition e_type :: "string \<Rightarrow> bson_type result" where
  "e_type e = bind_result (deref e 0) (\<lambda>c. Inr (type_of_char c))"

definition e_eoo :: "string \<Rightarrow> bool result" where
  "e_eoo e = bind_result (e_type e) (\<lambda>t. Inr (t = EOO))"

definition fieldName :: "string \<Rightarrow> string result" where
  "fieldName e =
     bind_result (e_eoo e) (\<lambda>eoo. if eoo then Inr [] else c_string_at (drop 1 e))"

definition fieldNameSize :: "string \<Rightarrow> int result" where
  "fieldNameSize e =
     bind_result (e_eoo e) (\<lambda>eoo.
       if eoo then Inr 0 else bind_result (strlen (drop 1 e)) (\<lambda>n. Inr (int n + 1)))"

text \<open>The constructor; \<open>maxLen\<close> is -1 for no limit.\<close>

definition element_new :: "string \<Rightarrow> int \<Rightarrow> string result" where
  "element_new d maxLen =
     bind_result (e_eoo d) (\<lambda>eoo.
       if eoo \<or> maxLen = - 1 then Inr d
       else bind_result (strnlen (drop 1 d) (maxLen - 1)) (\<lambda>sz.
         if sz \<noteq> - 1 then Inr d else Inl (Runtime_Error ''Invalid field name'')))"

definition e_value :: "string \<Rightarrow> string result" where
  "e_value e = bind_result (fieldNameSize e) (\<lambda>n. offset_ptr e (n + 1))"

definition value_at :: "string \<Rightarrow> int \<Rightarrow> string result" where
  "value_at e n = bind_result (e_value e) (\<lambda>v. offset_ptr v n)"

definition valuestrsize :: "string \<Rightarrow> int result" where
  "valuestrsize e = bind_result (e_value e) (\<lambda>v. bind_result (read32 v) (\<lambda>w. Inr (sint w)))"

definition regex_size :: "string \<Rightarrow> int \<Rightarrow> int \<Rightarrow> int result" where
  "regex_size p maxLen remain =
     bind_result (if maxLen = - 1 then bind_result (strlen p) (\<lambda>n. Inr (int n)) else strnlen p remain) (\<lambda>len1.
       bind_result (offset_ptr p (len1 + 1)) (\<lambda>p'.
         bind_result
           (if maxLen = - 1 then bind_result (strlen p') (\<lambda>n. Inr (int n))
            else
              let x = remain - len1 - 1
              in if 0 \<le> x \<and> x \<le> 0x7fffffff then strnlen p' x else Inl Assertion_Failed)
           (\<lambda>len2. Inr (len1 + 1 + len2 + 1))))"

definition value_size :: "bson_type \<Rightarrow> string \<Rightarrow> int \<Rightarrow> int \<Rightarrow> int result" where
  "value_size t e maxLen remain =
     (let sized = (\<lambda>extra.
        if maxLen = - 1 \<or> 3 < remain then bind_result (valuestrsize e) (\<lambda>n. Inr (n + extra))
        else Inl (Runtime_Error ''Insufficient bytes to calculate element size''))
      in case t of
           EOO \<Rightarrow> Inr 0 | Undefined \<Rightarrow> Inr 0 | jstNULL \<Rightarrow> Inr 0 | MaxKey \<Rightarrow> Inr 0 | MinKey \<Rightarrow> Inr 0
         | BBool \<Rightarrow> Inr 1
         | NumberInt \<Rightarrow> Inr 4
         | Timestamp \<Rightarrow> Inr 8 | BDate \<Rightarrow> Inr 8 | NumberDouble \<Rightarrow> Inr 8 | NumberLong \<Rightarrow> Inr 8
         | jstOID \<Rightarrow> Inr 12
         | BSymbol \<Rightarrow> sized 4 | BCode \<Rightarrow> sized 4 | BString \<Rightarrow> sized 4
         | CodeWScope \<Rightarrow> sized 0
         | DBRef \<Rightarrow> sized (4 + 12)
         | BObject \<Rightarrow> sized 0 | BArray \<Rightarrow> sized 0
         | BinData \<Rightarrow> sized (4 + 1)
         | RegEx \<Rightarrow> bind_result (e_value e) (\<lambda>p. regex_size p maxLen remain)
         | Other_Type n \<Rightarrow> Inl (Runtime_Error (''BSONElement: bad type '' @ show_int n)))"

definition element_size :: "string \<Rightarrow> int \<Rightarrow> int result" where
  "element_size e maxLen =
     bind_result (fieldNameSize e) (\<lambda>n. bind_result (e_type e) (\<lambda>t.
       bind_result (value_size t e maxLen (maxLen - n - 1)) (\<lambda>x. Inr (x + n + 1))))"

definition isABSONObj :: "string \<Rightarrow> bool result" where
  "isABSONObj e = bind_result (e_type e) (\<lambda>t. Inr (t = BObject \<or> t = BArray))"

definition isNumber :: "string \<Rightarrow> bool result" where
  "isNumber e = bind_result (e_type e) (\<lambda>t. Inr (t \<in> {NumberLong, NumberDouble, NumberInt}))"

definition boolean :: "string \<Rightarrow> bool result" where
  "boolean e = bind_result (e_value e) (\<lambda>v. bind_result (deref v 0) (\<lambda>c. Inr (c \<noteq> nul)))"

definition numberInt_raw :: "string \<Rightarrow> 32 word result" where
  "numberInt_raw e = bind_result (e_value e) read32"

definition numberLong_raw :: "string \<Rightarrow> 64 word result" where
  "numberLong_raw e = bind_result (e_value e) read64"

text \<open>\<^verbatim>\<open>string(valuestr(), valuestrsize()-1)\<close>\<close>

definition e_str :: "string \<Rightarrow> string result" where
  "e_str e =
     bind_result (valuestrsize e) (\<lambda>n. bind_result (value_at e 4) (\<lambda>p.
       if n < 1 then Inl (Runtime_Error ''basic_string'') else read_bytes p (n - 1)))"

definition BSONObjMaxInternalSize :: int where
  "BSONObjMaxInternalSize = 256 * 1024 * 1024 + 16 * 1024"

definition validate :: "string \<Rightarrow> unit result" where
  "validate e =
     bind_result (e_type e) (\<lambda>t.
       if t \<in> {DBRef, BCode, BSymbol, BString} then
         bind_result (valuestrsize e) (\<lambda>x.
           let bad = (\<lambda>n. Runtime_Error (''Invalid dbref/code/string/symbol size: '' @
             show_nat (unat (word_of_int x :: 32 word)) @ n))
           in if 0 < x \<and> x < BSONObjMaxInternalSize then
                bind_result (value_at e 4) (\<lambda>p. bind_result (deref p (nat (x - 1))) (\<lambda>c.
                  if c = nul then Inr ()
                  else bind_result (strnlen p x) (\<lambda>n. Inl (bad ('' strnlen:'' @ show_int n)))))
              else Inl (bad []))
       else if t = CodeWScope then
         bind_result (valuestrsize e) (\<lambda>total.
           if total < 8 then Inl (Runtime_Error ''Invalid CodeWScope size'')
           else bind_result (value_at e 4) (\<lambda>p. bind_result (read32 p) (\<lambda>w.
             let strSize = sint w
             in if total < strSize + 4 + 4 then Inl (Runtime_Error ''Invalid CodeWScope string size'')
                else bind_result (value_at e 8) (\<lambda>code. bind_result (strnlen code strSize) (\<lambda>n.
                  if \<not> (0 < strSize \<and> strSize - 1 = n) then Inl (Runtime_Error ''Invalid CodeWScope string size'')
                  else if total < strSize + 4 + 4 + 4 then Inl (Runtime_Error ''Invalid CodeWScope size'')
                  else bind_result (value_at e (4 + 4 + strSize)) (\<lambda>o'. bind_result (read32 o') (\<lambda>objSize.
                    if total = 4 + 4 + strSize + sint objSize then Inr ()
                    else Inl (Runtime_Error ''Invalid CodeWScope object size''))))))))
       else Inr ())"

section \<open>Objects\<close>

definition obj_default :: string where
  "obj_default = [CHR 0x05, nul, nul, nul, nul]"

definition objsize :: "string \<Rightarrow> int result" where
  "objsize obj = bind_result (read32 obj) (\<lambda>w. Inr (sint w))"

definition obj_isEmpty :: "string \<Rightarrow> bool result" where
  "obj_isEmpty obj = bind_result (objsize obj) (\<lambda>n. Inr (n \<le> 5))"

definition obj_isValid :: "string \<Rightarrow> bool result" where
  "obj_isValid obj = bind_result (objsize obj) (\<lambda>x. Inr (0 < x \<and> x \<le> BSONObjMaxInternalSize))"

text \<open>
  The constructor from a pointer. The message of \<^verbatim>\<open>_assertInvalid\<close> is cut before the text of the
  first element.
\<close>

definition obj_new :: "string \<Rightarrow> string result" where
  "obj_new p =
     bind_result (obj_isValid p) (\<lambda>ok.
       if ok then Inr p
       else bind_result (objsize p) (\<lambda>os.
         Inl (Runtime_Error (''Invalid BSONObj size: '' @ show_int os @ '' (0x'' @ toHex (take 4 p) @ '')''))))"

definition embeddedObject :: "string \<Rightarrow> string result" where
  "embeddedObject e =
     bind_result (isABSONObj e) (\<lambda>ok. if ok then bind_result (e_value e) obj_new else Inl Assertion_Failed)"

definition codeWScopeObject :: "string \<Rightarrow> string result" where
  "codeWScopeObject e =
     bind_result (e_type e) (\<lambda>t. if t = CodeWScope then
       bind_result (value_at e 4) (\<lambda>p. bind_result (read32 p) (\<lambda>w.
         bind_result (value_at e (4 + 4 + sint w)) obj_new))
     else Inl Assertion_Failed)"

section \<open>Iterators\<close>

record bson_iterator =
  it_mem :: string
  it_pos :: int
  it_end :: int

definition iterator_new :: "string \<Rightarrow> bson_iterator result" where
  "iterator_new obj =
     bind_result (objsize obj) (\<lambda>sz.
       Inr \<lparr>it_mem = obj, it_pos = (if sz = 0 then 0 else 4), it_end = sz\<rparr>)"

definition it_ptr :: "bson_iterator \<Rightarrow> string result" where
  "it_ptr it = offset_ptr (it_mem it) (it_pos it)"

definition it_more :: "bson_iterator \<Rightarrow> bool result" where
  "it_more it =
     (if it_pos it < it_end it then
        bind_result (it_ptr it) (\<lambda>p. bind_result (deref p 0) (\<lambda>c. Inr (c \<noteq> nul)))
      else Inr False)"

definition it_moreWithEOO :: "bson_iterator \<Rightarrow> bool" where
  "it_moreWithEOO it \<longleftrightarrow> it_pos it < it_end it"

definition it_next :: "bool \<Rightarrow> bson_iterator \<Rightarrow> (string \<times> bson_iterator) result" where
  "it_next checkEnd it =
     (if \<not> it_pos it < it_end it then Inl Assertion_Failed
      else
        let maxLen = (if checkEnd then it_end it - it_pos it else - 1)
        in bind_result (it_ptr it) (\<lambda>p. bind_result (element_new p maxLen) (\<lambda>e.
             bind_result (element_size e maxLen) (\<lambda>n. Inr (e, it\<lparr>it_pos := it_pos it + n\<rparr>)))))"

section \<open>Loops over an object\<close>

lemma bind_outcome_mono [partial_function_mono]:
  assumes "monotone (fun_ord option_ord) option_ord m"
    and "\<And>x. monotone (fun_ord option_ord) option_ord (\<lambda>f. k x f)"
  shows "monotone (fun_ord option_ord) option_ord (\<lambda>f. bind_outcome (m f) (\<lambda>x. k x f))"
proof -
  have "monotone (fun_ord option_ord) option_ord
      (\<lambda>f. Option.bind (m f) (\<lambda>r. case r of Inl e \<Rightarrow> Some (Inl e) | Inr x \<Rightarrow> k x f))"
  proof (rule bind_mono [OF assms(1)])
    show "monotone (fun_ord option_ord) option_ord (\<lambda>f. case r of Inl e \<Rightarrow> Some (Inl e) | Inr x \<Rightarrow> k x f)" for r
      using assms(2) by (cases r) (simp_all add: option.const_mono)
  qed
  moreover have "(\<lambda>f. Option.bind (m f) (\<lambda>r. case r of Inl e \<Rightarrow> Some (Inl e) | Inr x \<Rightarrow> k x f)) =
      (\<lambda>f. bind_outcome (m f) (\<lambda>x. k x f))"
    by (auto simp: bind_outcome_def split: option.split)
  ultimately show ?thesis by simp
qed

partial_function (option) getField_loop :: "string \<Rightarrow> bson_iterator \<Rightarrow> string outcome" where
  "getField_loop name it =
     bind_outcome (Some (it_more it)) (\<lambda>more.
       if \<not> more then Some (Inr element_default)
       else bind_outcome (Some (it_next False it)) (\<lambda>r.
         bind_outcome (Some (fieldName (fst r))) (\<lambda>n.
           if n = takeWhile (\<lambda>c. c \<noteq> nul) name then Some (Inr (fst r)) else getField_loop name (snd r))))"

definition getField :: "string \<Rightarrow> string \<Rightarrow> string outcome" where
  "getField obj name = bind_outcome (Some (iterator_new obj)) (getField_loop name)"

text \<open>\<^verbatim>\<open>operator[](int)\<close>: the number is the field's name.\<close>

definition getField_int :: "string \<Rightarrow> 32 word \<Rightarrow> string outcome" where
  "getField_int obj i =
     bind_outcome (Some (sb_int i sb_new)) (\<lambda>ss. getField obj (bb_data ss))"

partial_function (option) elems_loop :: "string list \<Rightarrow> bson_iterator \<Rightarrow> string list outcome" where
  "elems_loop v it =
     bind_outcome (Some (it_more it)) (\<lambda>more.
       if \<not> more then Some (Inr v)
       else bind_outcome (Some (it_next False it)) (\<lambda>r. elems_loop (v @ [fst r]) (snd r)))"

definition elems :: "string \<Rightarrow> string list outcome" where
  "elems obj = bind_outcome (Some (iterator_new obj)) (elems_loop [])"

partial_function (option) nFields_loop :: "nat \<Rightarrow> bson_iterator \<Rightarrow> nat outcome" where
  "nFields_loop n it =
     (if \<not> it_moreWithEOO it then Some (Inr n)
      else bind_outcome (Some (it_next False it)) (\<lambda>r. bind_outcome (Some (e_eoo (fst r))) (\<lambda>eoo.
        if eoo then Some (Inr n) else nFields_loop (n + 1) (snd r))))"

definition nFields :: "string \<Rightarrow> nat outcome" where
  "nFields obj = bind_outcome (Some (iterator_new obj)) (nFields_loop 0)"

definition getObjectField :: "string \<Rightarrow> string \<Rightarrow> string outcome" where
  "getObjectField obj name =
     bind_outcome (getField obj name) (\<lambda>e. bind_outcome (Some (isABSONObj e)) (\<lambda>ok.
       Some (if ok then embeddedObject e else Inr obj_default)))"

partial_function (option) getFieldDotted :: "string \<Rightarrow> string \<Rightarrow> string outcome" where
  "getFieldDotted obj name =
     bind_outcome (getField obj name) (\<lambda>e. bind_outcome (Some (e_eoo e)) (\<lambda>eoo.
       if eoo \<and> CHR ''.'' \<in> set (takeWhile (\<lambda>c. c \<noteq> nul) name) then
         bind_outcome (getObjectField obj (takeWhile (\<lambda>c. c \<noteq> CHR ''.'') name)) (\<lambda>sub.
           bind_outcome (Some (obj_isEmpty sub)) (\<lambda>empty.
             if empty then Some (Inr element_default)
             else getFieldDotted sub (tl (dropWhile (\<lambda>c. c \<noteq> CHR ''.'') name))))
       else Some (Inr e)))"

text \<open>
  \<^verbatim>\<open>valid\<close>: its \<^verbatim>\<open>catch (...)\<close> turns every exception into \<open>False\<close>; a read outside the memory is
  not an exception. The fuel bounds the nesting and the elements; \<open>None\<close> means that it ran out.
\<close>

definition catch_all :: "bool outcome \<Rightarrow> bool outcome" where
  "catch_all m =
     (case m of
        Some (Inl Assertion_Failed) \<Rightarrow> Some (Inr False)
      | Some (Inl (Runtime_Error msg)) \<Rightarrow> Some (Inr False)
      | _ \<Rightarrow> m)"

fun valid_loop :: "nat \<Rightarrow> bson_iterator \<Rightarrow> bool outcome" where
  "valid_loop 0 it = None"
| "valid_loop (Suc n) it =
     (if \<not> it_moreWithEOO it then Some (Inr False)
      else bind_outcome (Some (it_next True it)) (\<lambda>r.
        bind_outcome (Some (validate (fst r))) (\<lambda>_.
          bind_outcome (Some (e_type (fst r))) (\<lambda>t.
            if t = EOO then Some (Inr (\<not> it_moreWithEOO (snd r)))
            else if t = BObject \<or> t = BArray then
              bind_outcome (Some (embeddedObject (fst r))) (\<lambda>sub.
                bind_outcome (catch_all (bind_outcome (Some (iterator_new sub)) (valid_loop n))) (\<lambda>ok.
                  if ok then valid_loop n (snd r) else Some (Inr False)))
            else if t = CodeWScope then
              bind_outcome (Some (codeWScopeObject (fst r))) (\<lambda>sub.
                bind_outcome (catch_all (bind_outcome (Some (iterator_new sub)) (valid_loop n))) (\<lambda>ok.
                  if ok then valid_loop n (snd r) else Some (Inr False)))
            else valid_loop n (snd r)))))"

definition obj_valid :: "nat \<Rightarrow> string \<Rightarrow> bool outcome" where
  "obj_valid fuel obj = catch_all (bind_outcome (Some (iterator_new obj)) (valid_loop fuel))"

end
