(* ===== verification/Bson_Doc.thy ===== *)
theory Bson_Doc
  imports Bson_Element
begin

text \<open>
  Abstract BSON documents and the bytes that represent them. A document is a list of named
  values; \<open>encode_doc\<close> is the layout that \<^verbatim>\<open>bsonobj.h\<close> documents. The theory shows that the
  functions on pointers compute the corresponding functions on documents: types, names and
  sizes of elements, iteration, lookup, \<^verbatim>\<open>valid\<close>.
\<close>

datatype bson =
    B_Double "64 word"
  | B_String string
  | B_Object "(string \<times> bson) list"
  | B_Array "(string \<times> bson) list"
  | B_BinData char string
  | B_Undefined
  | B_OID string
  | B_Bool bool
  | B_Date "64 word"
  | B_Null
  | B_RegEx string string
  | B_DBRef string string
  | B_Code string
  | B_Symbol string
  | B_CodeWScope string "(string \<times> bson) list"
  | B_Int "32 word"
  | B_Timestamp "64 word"
  | B_Long "64 word"
  | B_MinKey
  | B_MaxKey

type_synonym fields = "(string \<times> bson) list"

fun type_of_bson :: "bson \<Rightarrow> bson_type" where
  "type_of_bson (B_Double d) = NumberDouble"
| "type_of_bson (B_String s) = BString"
| "type_of_bson (B_Object fs) = BObject"
| "type_of_bson (B_Array fs) = BArray"
| "type_of_bson (B_BinData t s) = BinData"
| "type_of_bson B_Undefined = Undefined"
| "type_of_bson (B_OID s) = jstOID"
| "type_of_bson (B_Bool b) = BBool"
| "type_of_bson (B_Date d) = BDate"
| "type_of_bson B_Null = jstNULL"
| "type_of_bson (B_RegEx r opts) = RegEx"
| "type_of_bson (B_DBRef ns i) = DBRef"
| "type_of_bson (B_Code s) = BCode"
| "type_of_bson (B_Symbol s) = BSymbol"
| "type_of_bson (B_CodeWScope s fs) = CodeWScope"
| "type_of_bson (B_Int i) = NumberInt"
| "type_of_bson (B_Timestamp t) = Timestamp"
| "type_of_bson (B_Long i) = NumberLong"
| "type_of_bson B_MinKey = MinKey"
| "type_of_bson B_MaxKey = MaxKey"

definition int32 :: "nat \<Rightarrow> string" where
  "int32 n = le_bytes 4 n"

definition sized_string :: "string \<Rightarrow> string" where
  "sized_string s = int32 (length s + 1) @ s @ [nul]"

definition doc_of :: "string \<Rightarrow> string" where
  "doc_of body = int32 (length body + 5) @ body @ [nul]"

definition field_of :: "string \<Rightarrow> bson_type \<Rightarrow> string \<Rightarrow> string" where
  "field_of name t body = type_char t # name @ nul # body"

fun encode_value :: "bson \<Rightarrow> string" and encode_fields :: "fields \<Rightarrow> string" where
  "encode_value (B_Double d) = le_bytes 8 (unat d)"
| "encode_value (B_String s) = sized_string s"
| "encode_value (B_Object fs) = doc_of (encode_fields fs)"
| "encode_value (B_Array fs) = doc_of (encode_fields fs)"
| "encode_value (B_BinData t s) = int32 (length s) @ t # s"
| "encode_value B_Undefined = []"
| "encode_value (B_OID s) = s"
| "encode_value (B_Bool b) = [if b then CHR 0x01 else nul]"
| "encode_value (B_Date d) = le_bytes 8 (unat d)"
| "encode_value B_Null = []"
| "encode_value (B_RegEx r opts) = r @ nul # opts @ [nul]"
| "encode_value (B_DBRef ns i) = sized_string ns @ i"
| "encode_value (B_Code s) = sized_string s"
| "encode_value (B_Symbol s) = sized_string s"
| "encode_value (B_CodeWScope s fs) =
     (let rest = sized_string s @ doc_of (encode_fields fs) in int32 (4 + length rest) @ rest)"
| "encode_value (B_Int i) = le_bytes 4 (unat i)"
| "encode_value (B_Timestamp t) = le_bytes 8 (unat t)"
| "encode_value (B_Long i) = le_bytes 8 (unat i)"
| "encode_value B_MinKey = []"
| "encode_value B_MaxKey = []"
| "encode_fields [] = []"
| "encode_fields ((name, v) # fs) = field_of name (type_of_bson v) (encode_value v) @ encode_fields fs"

definition encode_doc :: "fields \<Rightarrow> string" where
  "encode_doc fs = doc_of (encode_fields fs)"

text \<open>What the representation can hold: no NUL where a C string is stored, twelve bytes of an id.\<close>

fun wf_bson :: "bson \<Rightarrow> bool" and wf_fields :: "fields \<Rightarrow> bool" where
  "wf_bson (B_Object fs) \<longleftrightarrow> wf_fields fs"
| "wf_bson (B_Array fs) \<longleftrightarrow> wf_fields fs"
| "wf_bson (B_OID s) \<longleftrightarrow> length s = 12"
| "wf_bson (B_RegEx r opts) \<longleftrightarrow> nul \<notin> set r \<and> nul \<notin> set opts"
| "wf_bson (B_DBRef ns i) \<longleftrightarrow> length i = 12"
| "wf_bson (B_CodeWScope s fs) \<longleftrightarrow> nul \<notin> set s \<and> wf_fields fs"
| "wf_bson _ \<longleftrightarrow> True"
| "wf_fields [] \<longleftrightarrow> True"
| "wf_fields ((name, v) # fs) \<longleftrightarrow> nul \<notin> set name \<and> wf_bson v \<and> wf_fields fs"

section \<open>Pointers to documents\<close>

definition elem_at :: "string \<Rightarrow> string \<Rightarrow> bson \<Rightarrow> bool" where
  "elem_at e name v \<longleftrightarrow>
     (\<exists>rest. e = field_of name (type_of_bson v) (encode_value v) @ rest) \<and> nul \<notin> set name \<and> wf_bson v \<and>
     int (length (encode_value v)) < BSONObjMaxInternalSize"

definition obj_at :: "string \<Rightarrow> fields \<Rightarrow> bool" where
  "obj_at p fs \<longleftrightarrow>
     (\<exists>rest. p = encode_doc fs @ rest) \<and> wf_fields fs \<and> int (length (encode_doc fs)) \<le> BSONObjMaxInternalSize"

lemma int32_length [simp]: "length (int32 n) = 4"
  by (simp add: int32_def)

lemma read32_int32: "n < 2 ^ 31 \<Longrightarrow> read32 (int32 n @ s) = Inr (word_of_nat n)"
  using le_value_bytes [of n 4] by (simp add: read32_def int32_def)

lemma sint_size: "n < 2 ^ 31 \<Longrightarrow> sint (word_of_nat n :: 32 word) = int n"
  by (simp add: sint_uint unsigned_of_nat take_bit_eq_mod zmod_int signed_take_bit_int_eq_self)

lemma read_words:
  "read32 (le_bytes 4 (unat w) @ s) = Inr w"
  "read64 (le_bytes 8 (unat x) @ s) = Inr x"
  using le_value_bytes [of "unat w" 4] le_value_bytes [of "unat x" 8]
    unsigned_less [of w, where 'a = nat] unsigned_less [of x, where 'a = nat]
  by (simp_all add: read32_def read64_def)

lemma strlen_c_string [simp]: "nul \<notin> set s \<Longrightarrow> strlen (s @ nul # t) = Inr (length s)"
  by (simp add: strlen_def takeWhile_append)

lemma takeWhile_c_string [simp]: "nul \<notin> set s \<Longrightarrow> takeWhile (\<lambda>c. c \<noteq> nul) (s @ nul # t) = s"
  by (induction s) auto

lemma strnlen_c_string: "nul \<notin> set s \<Longrightarrow> int (length s) < n \<Longrightarrow> strnlen (s @ nul # t) n = Inr (int (length s))"
  by (simp add: strnlen_def Let_def)

lemma type_of_bson_named [simp]: "type_of_bson v \<in> set named_types" "type_of_bson v \<noteq> EOO"
  by (cases v; simp add: named_types_def)+

text \<open>The parts of an element.\<close>

lemma elem_type: "elem_at e name v \<Longrightarrow> e_type e = Inr (type_of_bson v)"
  by (auto simp: elem_at_def field_of_def e_type_def deref_def)

lemma elem_eoo: "elem_at e name v \<Longrightarrow> e_eoo e = Inr False"
  by (simp add: e_eoo_def elem_type)

lemma elem_name: "elem_at e name v \<Longrightarrow> fieldName e = Inr name"
  using elem_eoo [of e name v] by (auto simp: elem_at_def field_of_def fieldName_def c_string_at_def)

lemma elem_name_size: "elem_at e name v \<Longrightarrow> fieldNameSize e = Inr (int (length name) + 1)"
  using elem_eoo [of e name v] by (auto simp: elem_at_def field_of_def fieldNameSize_def)

lemma elem_value:
  assumes "elem_at e name v"
  obtains rest where "e_value e = Inr (encode_value v @ rest)"
    and "e = field_of name (type_of_bson v) (encode_value v) @ rest"
proof -
  obtain rest where e: "e = field_of name (type_of_bson v) (encode_value v) @ rest"
    using assms by (auto simp: elem_at_def)
  have "drop (nat (int (length name) + 1 + 1)) e = encode_value v @ rest"
    by (simp add: e field_of_def nat_add_distrib)
  then have "e_value e = Inr (encode_value v @ rest)"
    using elem_name_size [OF assms] e by (simp add: e_value_def offset_ptr_def field_of_def)
  then show thesis using e by (rule that)
qed

lemma encode_sized: "int (length (encode_value v)) < BSONObjMaxInternalSize \<Longrightarrow> length (encode_value v) < 2 ^ 31"
  by (simp add: BSONObjMaxInternalSize_def)

text \<open>The size of an element, unlimited or within a limit that it fits.\<close>

lemma elem_value_size:
  assumes e: "elem_at e name v" and m: "maxLen = - 1 \<or> int (length (encode_value v)) \<le> remain \<and> remain < 2 ^ 31"
  shows "value_size (type_of_bson v) e maxLen remain = Inr (int (length (encode_value v)))"
proof -
  obtain rest where val: "e_value e = Inr (encode_value v @ rest)" using elem_value [OF e] by blast
  have wf: "wf_bson v" and len: "length (encode_value v) < 2 ^ 31"
    using e encode_sized by (auto simp: elem_at_def)
  have size: "valuestrsize e = Inr (int n)" if "encode_value v = int32 n @ t" "n < 2 ^ 31" for n t
    using that by (simp add: valuestrsize_def val read32_int32 sint_size)
  note sized = size sized_string_def doc_of_def Let_def value_size_def
  show ?thesis
  proof (cases v)
    case (B_RegEx r opts)
    then have n: "nul \<notin> set r" "nul \<notin> set opts" using wf by auto
    show ?thesis
    proof (cases "maxLen = - 1")
      case True
      then show ?thesis using B_RegEx n val
        by (simp add: value_size_def regex_size_def offset_ptr_def nat_add_distrib Let_def)
    next
      case False
      then have "int (length r) < remain" "int (length opts) < remain - int (length r) - 1"
        "remain - int (length r) - 1 \<le> 0x7fffffff" using m B_RegEx by auto
      then show ?thesis using False B_RegEx n val
        by (simp add: value_size_def regex_size_def offset_ptr_def nat_add_distrib Let_def strnlen_c_string)
    qed
  qed (use m len wf in \<open>auto simp: sized\<close>)
qed

definition field_bytes :: "string \<Rightarrow> bson \<Rightarrow> string" where
  "field_bytes name v = field_of name (type_of_bson v) (encode_value v)"

lemma field_bytes_length: "length (field_bytes name v) = length name + length (encode_value v) + 2"
  by (simp add: field_bytes_def field_of_def)

lemma elem_size:
  assumes "elem_at e name v" and "maxLen = - 1 \<or> int (length (field_bytes name v)) \<le> maxLen \<and> maxLen < 2 ^ 31"
  shows "element_size e maxLen = Inr (int (length (field_bytes name v)))"
    and "element_new e maxLen = Inr e"
proof -
  let ?remain = "maxLen - (int (length name) + 1) - 1"
  have "maxLen = - 1 \<or> int (length (encode_value v)) \<le> ?remain \<and> ?remain < 2 ^ 31"
    using assms(2) by (auto simp: field_bytes_length)
  then show "element_size e maxLen = Inr (int (length (field_bytes name v)))"
    using elem_value_size [OF assms(1)] elem_name_size [OF assms(1)] elem_type [OF assms(1)]
    by (simp add: element_size_def field_bytes_length)
  obtain rest where "e = field_of name (type_of_bson v) (encode_value v) @ rest" "nul \<notin> set name"
    using assms(1) by (auto simp: elem_at_def)
  then show "element_new e maxLen = Inr e"
    using assms(2) elem_eoo [OF assms(1)]
    by (auto simp: element_new_def field_of_def field_bytes_length strnlen_c_string)
qed

lemma eoo_nul [simp]: "e_type (nul # rest) = Inr EOO" "e_eoo (nul # rest) = Inr True"
proof -
  have "type_of_char nul = EOO" by code_simp
  then show "e_type (nul # rest) = Inr EOO" by (simp add: e_type_def deref_def)
  then show "e_eoo (nul # rest) = Inr True" by (simp add: e_eoo_def)
qed

lemma obj_at_size:
  assumes "obj_at p fs"
  shows "objsize p = Inr (int (length (encode_doc fs)))"
proof -
  obtain rest where p: "p = int32 (length (encode_fields fs) + 5) @ encode_fields fs @ nul # rest"
    "int (length (encode_fields fs)) + 5 \<le> BSONObjMaxInternalSize"
    using assms by (auto simp: obj_at_def encode_doc_def doc_of_def)
  let ?n = "length (encode_fields fs) + 5"
  have "?n < 2 ^ 31" using p(2) by (simp add: BSONObjMaxInternalSize_def)
  then have "objsize p = Inr (int ?n)"
    unfolding objsize_def p(1) by (subst read32_int32) (simp_all only: bind_result_simps sint_size)
  then show ?thesis by (simp add: encode_doc_def doc_of_def)
qed

section \<open>Iteration\<close>

text \<open>An iterator in front of the remaining fields of an object.\<close>

definition it_at :: "bson_iterator \<Rightarrow> fields \<Rightarrow> bool" where
  "it_at it fs \<longleftrightarrow>
     (\<exists>rest. it_ptr it = Inr (encode_fields fs @ nul # rest)) \<and> wf_fields fs \<and>
     it_end it = it_pos it + int (length (encode_fields fs)) + 1 \<and>
     int (length (encode_fields fs)) < BSONObjMaxInternalSize"

lemma it_at_Nil:
  assumes "it_at it []"
  shows "it_more it = Inr False" and "it_moreWithEOO it"
    and "\<exists>rest. it_next checkEnd it = Inr (nul # rest, it\<lparr>it_pos := it_end it\<rparr>)"
proof -
  obtain rest where p: "it_ptr it = Inr (nul # rest)" "it_end it = it_pos it + 1"
    using assms by (auto simp: it_at_def)
  then show "it_more it = Inr False" "it_moreWithEOO it" by (simp_all add: it_more_def it_moreWithEOO_def deref_def)
  show "\<exists>rest. it_next checkEnd it = Inr (nul # rest, it\<lparr>it_pos := it_end it\<rparr>)"
    using p by (simp add: it_next_def Let_def element_new_def element_size_def fieldNameSize_def value_size_def)
qed

lemma offset_ptr_append:
  assumes "offset_ptr p n = Inr (xs @ ys)"
  shows "offset_ptr p (n + int (length xs)) = Inr ys"
proof -
  have n: "0 \<le> n" "n \<le> int (length p)" "drop (nat n) p = xs @ ys"
    using assms by (auto simp: offset_ptr_def split: if_splits)
  have "length (drop (nat n) p) = length xs + length ys" using n(3) by simp
  then have "n + int (length xs) \<le> int (length p)" using n(1,2) by simp
  moreover have "drop (nat (n + int (length xs))) p = drop (length xs) (drop (nat n) p)"
    using n(1) by (simp add: nat_add_distrib add.commute)
  ultimately show ?thesis using n by (simp add: offset_ptr_def)
qed

lemma it_at_Cons:
  assumes "it_at it ((name, v) # fs)"
  obtains e it' where "it_next checkEnd it = Inr (e, it')" and "elem_at e name v" and "it_at it' fs"
    and "it_more it = Inr True" and "it_moreWithEOO it" and "it_mem it' = it_mem it"
proof -
  let ?n = "int (length (field_bytes name v))"
  obtain rest where p: "it_ptr it = Inr (field_bytes name v @ encode_fields fs @ nul # rest)"
    and wf: "nul \<notin> set name" "wf_bson v" "wf_fields fs"
    and stop: "it_end it = it_pos it + ?n + int (length (encode_fields fs)) + 1"
    and size: "?n + int (length (encode_fields fs)) < BSONObjMaxInternalSize"
    using assms by (auto simp: it_at_def field_bytes_def)
  let ?e = "field_bytes name v @ encode_fields fs @ nul # rest" and ?it' = "it\<lparr>it_pos := it_pos it + ?n\<rparr>"
  have e: "elem_at ?e name v"
    using wf size by (auto simp: elem_at_def field_bytes_length simp flip: field_bytes_def)
  let ?m = "if checkEnd then it_end it - it_pos it else - 1"
  have "?m = - 1 \<or> ?n \<le> ?m \<and> ?m < 2 ^ 31" using stop size by (auto simp: BSONObjMaxInternalSize_def)
  from elem_size [OF e this] have "it_next checkEnd it = Inr (?e, ?it')"
    using stop by (simp add: it_next_def Let_def p)
  moreover have "it_at ?it' fs"
  proof -
    have "offset_ptr (it_mem it) (it_pos it + ?n) = Inr (encode_fields fs @ nul # rest)"
      using p unfolding it_ptr_def by (rule offset_ptr_append)
    then show ?thesis using wf stop size by (auto simp: it_at_def it_ptr_def)
  qed
  moreover have "type_char (type_of_bson v) \<noteq> nul" by (simp add: type_char_nul)
  then have "it_more it = Inr True" "it_moreWithEOO it"
    using p stop by (auto simp: it_more_def it_moreWithEOO_def deref_def field_bytes_def field_of_def)
  ultimately show thesis using e that [of ?e ?it'] by simp
qed

lemma obj_at_iterator:
  assumes "obj_at p fs"
  obtains it where "iterator_new p = Inr it" and "it_at it fs"
proof -
  let ?it = "\<lparr>it_mem = p, it_pos = 4, it_end = int (length (encode_doc fs))\<rparr>"
  have "it_at ?it fs"
    using assms by (auto simp: obj_at_def it_at_def it_ptr_def offset_ptr_def encode_doc_def doc_of_def)
  moreover have "iterator_new p = Inr ?it"
    using obj_at_size [OF assms] by (simp add: iterator_new_def encode_doc_def doc_of_def)
  ultimately show thesis using that [of ?it] by simp
qed

text \<open>Lookup finds the first field with the name; its loop, like the others, ends.\<close>

lemma getField_loop_finds:
  assumes "it_at it fs" and "nul \<notin> set name"
  shows "\<exists>e. getField_loop name it = Some (Inr e) \<and>
    (case find_first (\<lambda>f. fst f = name) fs of None \<Rightarrow> e = element_default | Some f \<Rightarrow> elem_at e name (snd f))"
  using assms(1)
proof (induction fs arbitrary: it)
  case Nil
  then show ?case by (subst getField_loop.simps) (simp add: it_at_Nil)
next
  case (Cons f fs)
  obtain k v where f: "f = (k, v)" by (cases f)
  have t: "takeWhile (\<lambda>c. c \<noteq> nul) name = name" using assms(2) by (simp add: takeWhile_eq_all_conv) metis
  from Cons.prems [unfolded f] obtain e it' where "it_next False it = Inr (e, it')" and e: "elem_at e k v"
    and "it_at it' fs" "it_more it = Inr True" by (rule it_at_Cons)
  then show ?case using Cons.IH [of it'] elem_name [OF e]
    by (subst getField_loop.simps) (auto simp: f t)
qed

lemma getField_finds:
  assumes "obj_at p fs" and "nul \<notin> set name"
  shows "\<exists>e. getField p name = Some (Inr e) \<and>
    (case find_first (\<lambda>f. fst f = name) fs of None \<Rightarrow> e = element_default | Some f \<Rightarrow> elem_at e name (snd f))"
  by (rule obj_at_iterator [OF assms(1)]) (simp add: getField_def getField_loop_finds assms(2))

lemma elems_loop_all:
  assumes "it_at it fs"
  shows "\<exists>es. elems_loop v it = Some (Inr (v @ es)) \<and> list_all2 (\<lambda>e f. elem_at e (fst f) (snd f)) es fs"
  using assms
proof (induction fs arbitrary: it v)
  case Nil
  then show ?case by (subst elems_loop.simps) (simp add: it_at_Nil)
next
  case (Cons f fs)
  obtain k w where f: "f = (k, w)" by (cases f)
  from Cons.prems [unfolded f] obtain e it' where n: "it_next False it = Inr (e, it')" "elem_at e k w"
    "it_at it' fs" "it_more it = Inr True" by (rule it_at_Cons)
  from Cons.IH [OF n(3), of "v @ [e]"] obtain es where
    "elems_loop (v @ [e]) it' = Some (Inr (v @ [e] @ es))" "list_all2 (\<lambda>e f. elem_at e (fst f) (snd f)) es fs" by auto
  then have "elems_loop v it = Some (Inr (v @ (e # es)))" "list_all2 (\<lambda>e f. elem_at e (fst f) (snd f)) (e # es) (f # fs)"
    using n f by (subst elems_loop.simps, simp_all)
  then show ?case by blast
qed

lemma elems_all:
  assumes "obj_at p fs"
  shows "\<exists>es. elems p = Some (Inr es) \<and> list_all2 (\<lambda>e f. elem_at e (fst f) (snd f)) es fs"
  by (rule obj_at_iterator [OF assms]) (use elems_loop_all [of _ fs "[]"] in \<open>simp add: elems_def\<close>)

lemma nFields_loop_counts: "it_at it fs \<Longrightarrow> nFields_loop n it = Some (Inr (n + length fs))"
proof (induction fs arbitrary: it n)
  case Nil
  obtain rest where "it_next False it = Inr (nul # rest, it\<lparr>it_pos := it_end it\<rparr>)"
    using it_at_Nil(3) [OF Nil] by blast
  then show ?case using it_at_Nil(2) [OF Nil] by (subst nFields_loop.simps) simp
next
  case (Cons f fs)
  obtain k w where f: "f = (k, w)" by (cases f)
  from Cons.prems [unfolded f] obtain e it' where n: "it_next False it = Inr (e, it')" "elem_at e k w"
    "it_at it' fs" "it_moreWithEOO it" by (rule it_at_Cons)
  then show ?case using Cons.IH [of it' "n + 1"] elem_eoo [OF n(2)]
    by (subst nFields_loop.simps) simp
qed

text \<open>The object inside an element.\<close>

lemma obj_at_valid: "obj_at p fs \<Longrightarrow> obj_new p = Inr p"
  using obj_at_size [of p fs] by (auto simp: obj_new_def obj_isValid_def obj_at_def encode_doc_def doc_of_def)

lemma embedded_at:
  assumes "elem_at e name (B_Object fs) \<or> elem_at e name (B_Array fs)"
  shows "\<exists>p. embeddedObject e = Inr p \<and> obj_at p fs" and "isABSONObj e = Inr True"
proof -
  obtain v where e: "elem_at e name v" and v: "v = B_Object fs \<or> v = B_Array fs" using assms by blast
  show ok: "isABSONObj e = Inr True" using elem_type [OF e] v by (auto simp: isABSONObj_def)
  obtain rest where val: "e_value e = Inr (encode_value v @ rest)" using elem_value [OF e] by blast
  have "obj_at (encode_value v @ rest) fs" using e v by (auto simp: elem_at_def obj_at_def encode_doc_def)
  then show "\<exists>p. embeddedObject e = Inr p \<and> obj_at p fs"
    using ok val obj_at_valid by (simp add: embeddedObject_def)
qed

lemma scope_at:
  assumes "elem_at e name (B_CodeWScope s fs)"
  shows "\<exists>p. codeWScopeObject e = Inr p \<and> obj_at p fs"
proof -
  let ?doc = "doc_of (encode_fields fs)"
  obtain rest where val: "e_value e = Inr (encode_value (B_CodeWScope s fs) @ rest)" using elem_value [OF assms] by blast
  have len: "length s + 1 < 2 ^ 31"
    using assms by (auto simp: elem_at_def sized_string_def BSONObjMaxInternalSize_def Let_def)
  have "value_at e 4 = Inr (int32 (length s + 1) @ (s @ nul # ?doc @ rest))"
    by (simp add: value_at_def val offset_ptr_def Let_def sized_string_def)
  then have "bind_result (value_at e 4) (\<lambda>p. bind_result (read32 p) (\<lambda>w. Inr (sint w))) = Inr (int (length s + 1))"
    using len by (simp only: bind_result_simps read32_int32 sint_size)
  moreover have "value_at e (4 + 4 + int (length s + 1)) = Inr (?doc @ rest)"
    by (simp add: value_at_def val offset_ptr_def Let_def sized_string_def nat_add_distrib)
  moreover have "obj_at (?doc @ rest) fs"
    using assms by (auto simp: elem_at_def obj_at_def encode_doc_def Let_def)
  ultimately show ?thesis
    using elem_type [OF assms] obj_at_valid by (auto simp: codeWScopeObject_def bind_result_Inr)
qed

lemma string_valid:
  assumes e: "elem_at e name v" and "encode_value v = sized_string s @ t"
  shows "valuestrsize e = Inr (int (length s + 1))" and "\<exists>rest. value_at e 4 = Inr (s @ nul # rest)"
proof -
  obtain rest where val: "e_value e = Inr (int32 (length s + 1) @ s @ nul # t @ rest)"
    using elem_value [OF e] assms(2) by (auto simp: sized_string_def)
  have "length s + 1 < 2 ^ 31" using e assms(2) by (auto simp: elem_at_def sized_string_def BSONObjMaxInternalSize_def)
  then show "valuestrsize e = Inr (int (length s + 1))"
    by (simp only: valuestrsize_def val bind_result_simps read32_int32 sint_size)
  show "\<exists>rest. value_at e 4 = Inr (s @ nul # rest)" by (simp add: value_at_def val offset_ptr_def)
qed

lemma scope_valid:
  assumes e: "elem_at e name (B_CodeWScope s fs)"
  shows "validate e = Inr ()"
proof -
  let ?doc = "doc_of (encode_fields fs)" and ?n = "length s + 1"
  let ?total = "4 + length (sized_string s @ ?doc)" and ?d = "length (encode_fields fs) + 5"
  obtain rest where val: "e_value e = Inr (int32 ?total @ int32 ?n @ s @ nul # ?doc @ rest)"
    using elem_value [OF e] by (auto simp: sized_string_def Let_def)
  have len: "?total < 2 ^ 31" "?n < 2 ^ 31" "?d < 2 ^ 31"
    using e by (auto simp: elem_at_def sized_string_def doc_of_def BSONObjMaxInternalSize_def Let_def)
  have "valuestrsize e = Inr (int ?total)"
    using len(1) by (simp only: valuestrsize_def val bind_result_simps read32_int32 sint_size)
  moreover have "value_at e 4 = Inr (int32 ?n @ s @ nul # ?doc @ rest)" "value_at e 8 = Inr (s @ nul # ?doc @ rest)"
    "value_at e (4 + 4 + int ?n) = Inr (int32 ?d @ encode_fields fs @ nul # rest)"
    by (simp_all add: value_at_def val offset_ptr_def doc_of_def nat_add_distrib)
  moreover have "int ?total = 4 + 4 + int ?n + int ?d" by (simp add: sized_string_def doc_of_def)
  moreover have "read32 (int32 ?n @ s @ nul # ?doc @ rest) = Inr (word_of_nat ?n)" "sint (word_of_nat ?n :: 32 word) = int ?n"
    "read32 (int32 ?d @ encode_fields fs @ nul # rest) = Inr (word_of_nat ?d)" "sint (word_of_nat ?d :: 32 word) = int ?d"
    using len by (simp_all only: read32_int32 sint_size)
  moreover have "strnlen (s @ nul # ?doc @ rest) (int ?n) = Inr (int (length s))"
    using e by (intro strnlen_c_string) (auto simp: elem_at_def)
  ultimately show ?thesis
    using elem_type [OF e] by (simp only: validate_def bind_result_simps Let_def) simp
qed

lemma elem_valid:
  assumes e: "elem_at e name v"
  shows "validate e = Inr ()"
proof (cases "\<exists>s t. encode_value v = sized_string s @ t \<and> type_of_bson v \<in> {DBRef, BCode, BSymbol, BString}")
  case True
  then obtain s t where s: "encode_value v = sized_string s @ t" "type_of_bson v \<in> {DBRef, BCode, BSymbol, BString}" by blast
  from string_valid(2) [OF e s(1)] obtain rest where "value_at e 4 = Inr (s @ nul # rest)" by blast
  moreover have "int (length s + 1) < BSONObjMaxInternalSize" using e s(1) by (auto simp: elem_at_def sized_string_def)
  ultimately show ?thesis
    using string_valid(1) [OF e s(1)] elem_type [OF e] s(2) by (simp add: validate_def Let_def)
next
  case False
  then have "type_of_bson v \<notin> {DBRef, BCode, BSymbol, BString}" by (cases v) auto
  then show ?thesis
    using elem_type [OF e] scope_valid [of e name] e by (cases v) (auto simp: validate_def)
qed

lemma valid_loop_True:
  assumes "it_at it fs" and "length (encode_fields fs) < n"
  shows "valid_loop n it = Some (Inr True)"
  using assms
proof (induction n arbitrary: it fs)
  case (Suc n)
  have sub: "catch_all (bind_outcome (Some (iterator_new p)) (valid_loop n)) = Some (Inr True)"
    if "obj_at p gs" "length (encode_fields gs) < n" for p gs
    by (rule obj_at_iterator [OF that(1)]) (use Suc.IH that(2) in \<open>simp add: catch_all_def\<close>)
  show ?case
  proof (cases fs)
    case Nil
    with Suc.prems have it: "it_at it []" by simp
    from it_at_Nil(3) [OF it, of True] obtain rest where "it_next True it = Inr (nul # rest, it\<lparr>it_pos := it_end it\<rparr>)" by blast
    moreover have "validate (nul # rest) = Inr ()" by (simp add: validate_def)
    ultimately show ?thesis using it_at_Nil(2) [OF it] by (simp add: it_moreWithEOO_def)
  next
    case (Cons f gs)
    obtain k v where f: "f = (k, v)" by (cases f)
    with Cons Suc.prems(1) have "it_at it ((k, v) # gs)" by simp
    then obtain e it' where n: "it_next True it = Inr (e, it')" and e: "elem_at e k v" and it': "it_at it' gs"
      and more: "it_moreWithEOO it" by (rule it_at_Cons)
    have len: "length (field_bytes k v) + length (encode_fields gs) < Suc n"
      using Suc.prems(2) Cons f by (simp add: field_bytes_def)
    have next': "valid_loop n it' = Some (Inr True)"
      by (rule Suc.IH [OF it']) (use len in \<open>simp add: field_bytes_length\<close>)
    note step = valid_loop.simps(2) [of n it] n more elem_valid [OF e] elem_type [OF e] next'
    show ?thesis
    proof (cases "\<exists>hs. v = B_Object hs \<or> v = B_Array hs")
      case True
      then obtain hs where v: "v = B_Object hs \<or> v = B_Array hs" by blast
      then obtain p where "embeddedObject e = Inr p" "obj_at p hs" using embedded_at(1) [of e k hs] e by auto
      moreover have "length (encode_fields hs) < n" using len v by (auto simp: field_bytes_length doc_of_def)
      ultimately show ?thesis using v sub by (auto simp: step)
    next
      case False
      show ?thesis
      proof (cases "\<exists>s hs. v = B_CodeWScope s hs")
        case True
        then obtain s hs where v: "v = B_CodeWScope s hs" by blast
        then obtain p where "codeWScopeObject e = Inr p" "obj_at p hs" using scope_at e by blast
        moreover have "length (encode_fields hs) < n" using len v by (auto simp: field_bytes_length doc_of_def Let_def)
        ultimately show ?thesis using v sub by (simp add: step)
      next
        case scalar: False
        then have "type_of_bson v \<notin> {BObject, BArray, CodeWScope}" using False by (cases v) auto
        then show ?thesis by (simp add: step)
      qed
    qed
  qed
qed simp

end
