(* ===== verification/Bson_Builder.thy ===== *)
theory Bson_Builder
  imports Bson_Doc
begin

text \<open>
  \<^verbatim>\<open>BSONObjBuilder\<close> (\<^verbatim>\<open>bson/bsonobjbuilder.h\<close>). A builder writes into a \<^verbatim>\<open>BufBuilder\<close>, its own or, for
  a subobject, that of the builder around it: the model passes the one buffer along, and a
  builder is the offset where its object starts with the flag \<^verbatim>\<open>_doneCalled\<close>. The stream
  operators of \<^verbatim>\<open>BSONObjBuilderValueStream\<close> are not used and left out, so that \<^verbatim>\<open>endField\<close> in \<^verbatim>\<open>_done\<close>
  does nothing.
\<close>

section \<open>Operations\<close>

fun run_buf :: "(buf_builder \<Rightarrow> buf_builder result) list \<Rightarrow> buf_builder \<Rightarrow> buf_builder result" where
  "run_buf [] b = Inr b"
| "run_buf (f # fs) b = bind_result (f b) (run_buf fs)"

definition header :: "bson_type \<Rightarrow> string \<Rightarrow> (buf_builder \<Rightarrow> buf_builder result) list" where
  "header t name = [appendNum_char (type_char t), appendStr name True]"

definition append_double :: "string \<Rightarrow> 64 word \<Rightarrow> buf_builder \<Rightarrow> buf_builder result" where
  "append_double name n = run_buf (header NumberDouble name @ [appendNum_long n])"

definition append_int :: "string \<Rightarrow> 32 word \<Rightarrow> buf_builder \<Rightarrow> buf_builder result" where
  "append_int name n = run_buf (header NumberInt name @ [appendNum_int n])"

definition append_long :: "string \<Rightarrow> 64 word \<Rightarrow> buf_builder \<Rightarrow> buf_builder result" where
  "append_long name n = run_buf (header NumberLong name @ [appendNum_long n])"

text \<open>\<^verbatim>\<open>appendIntOrLL\<close>: the absolute value is computed with wrap-around.\<close>

definition appendIntOrLL :: "string \<Rightarrow> 64 word \<Rightarrow> buf_builder \<Rightarrow> buf_builder result" where
  "appendIntOrLL name n =
     (let x = (if sint n < 0 then - n else n)
      in if sint x < (2 ^ 31 - 1) div 2 then append_int name (ucast n) else append_long name n)"

text \<open>\<^verbatim>\<open>append(fieldName, str, len)\<close>, with the length of the string and its NUL\<close>

definition append_string :: "string \<Rightarrow> string \<Rightarrow> buf_builder \<Rightarrow> buf_builder result" where
  "append_string name s =
     run_buf (header BString name @ [appendNum_int (word_of_nat (length s + 1)), appendBuf (s @ [nul])])"

definition appendBool :: "string \<Rightarrow> bool \<Rightarrow> buf_builder \<Rightarrow> buf_builder result" where
  "appendBool name val = run_buf (header BBool name @ [appendNum_char (if val then CHR 0x01 else nul)])"

definition appendNull :: "string \<Rightarrow> buf_builder \<Rightarrow> buf_builder result" where
  "appendNull name = run_buf (header jstNULL name)"

definition appendUndefined :: "string \<Rightarrow> buf_builder \<Rightarrow> buf_builder result" where
  "appendUndefined name = run_buf (header Undefined name)"

definition appendMinKey :: "string \<Rightarrow> buf_builder \<Rightarrow> buf_builder result" where
  "appendMinKey name = run_buf (header MinKey name)"

definition appendMaxKey :: "string \<Rightarrow> buf_builder \<Rightarrow> buf_builder result" where
  "appendMaxKey name = run_buf (header MaxKey name)"

definition appendOID :: "string \<Rightarrow> string \<Rightarrow> buf_builder \<Rightarrow> buf_builder result" where
  "appendOID name oid = run_buf (header jstOID name @ [appendBuf oid])"

definition appendDate :: "string \<Rightarrow> 64 word \<Rightarrow> buf_builder \<Rightarrow> buf_builder result" where
  "appendDate name dt = run_buf (header BDate name @ [appendNum_long dt])"

definition appendTimestamp :: "string \<Rightarrow> 64 word \<Rightarrow> buf_builder \<Rightarrow> buf_builder result" where
  "appendTimestamp name val = run_buf (header Timestamp name @ [appendNum_long val])"

definition appendRegex :: "string \<Rightarrow> string \<Rightarrow> string \<Rightarrow> buf_builder \<Rightarrow> buf_builder result" where
  "appendRegex name regex options =
     run_buf (header RegEx name @ [appendStr regex True, appendStr options True])"

definition appendCode :: "string \<Rightarrow> string \<Rightarrow> buf_builder \<Rightarrow> buf_builder result" where
  "appendCode name code =
     run_buf (header BCode name @ [appendNum_int (word_of_nat (length code + 1)), appendStr code True])"

definition appendSymbol :: "string \<Rightarrow> string \<Rightarrow> buf_builder \<Rightarrow> buf_builder result" where
  "appendSymbol name symbol =
     run_buf (header BSymbol name @ [appendNum_int (word_of_nat (length symbol + 1)), appendStr symbol True])"

definition appendDBRef :: "string \<Rightarrow> string \<Rightarrow> string \<Rightarrow> buf_builder \<Rightarrow> buf_builder result" where
  "appendDBRef name ns oid =
     run_buf (header DBRef name @
       [appendNum_int (word_of_nat (length ns + 1)), appendStr ns True, appendBuf oid])"

definition appendBinData :: "string \<Rightarrow> char \<Rightarrow> string \<Rightarrow> buf_builder \<Rightarrow> buf_builder result" where
  "appendBinData name subtype data =
     run_buf (header BinData name @
       [appendNum_int (word_of_nat (length data)), appendNum_char subtype, appendBuf data])"

text \<open>The bytes of an object, as many as its size says.\<close>

definition obj_bytes :: "string \<Rightarrow> string result" where
  "obj_bytes obj = bind_result (objsize obj) (read_bytes obj)"

definition append_object :: "string \<Rightarrow> string \<Rightarrow> buf_builder \<Rightarrow> buf_builder result" where
  "append_object name subObj b =
     bind_result (obj_bytes subObj) (\<lambda>bytes. run_buf (header BObject name @ [appendBuf bytes]) b)"

definition appendArray :: "string \<Rightarrow> string \<Rightarrow> buf_builder \<Rightarrow> buf_builder result" where
  "appendArray name subObj b =
     bind_result (obj_bytes subObj) (\<lambda>bytes. run_buf (header BArray name @ [appendBuf bytes]) b)"

definition appendCodeWScope :: "string \<Rightarrow> string \<Rightarrow> string \<Rightarrow> buf_builder \<Rightarrow> buf_builder result" where
  "appendCodeWScope name code scope b =
     bind_result (obj_bytes scope) (\<lambda>bytes. run_buf (header CodeWScope name @
       [appendNum_int (word_of_nat (4 + 4 + length code + 1 + length bytes)),
        appendNum_int (word_of_nat (length code + 1)), appendStr code True, appendBuf bytes]) b)"

definition append_element :: "string \<Rightarrow> buf_builder \<Rightarrow> buf_builder result" where
  "append_element e b =
     bind_result (e_eoo e) (\<lambda>eoo. if eoo then Inl Assertion_Failed
       else bind_result (element_size e (- 1)) (\<lambda>n. bind_result (read_bytes e n) (\<lambda>bytes. appendBuf bytes b)))"

definition appendAs :: "string \<Rightarrow> string \<Rightarrow> buf_builder \<Rightarrow> buf_builder result" where
  "appendAs e name b =
     bind_result (e_type e) (\<lambda>t. if t = EOO then Inl Assertion_Failed
       else bind_result (element_size e (- 1)) (\<lambda>n. bind_result (fieldNameSize e) (\<lambda>k.
         bind_result (e_value e) (\<lambda>v. bind_result (read_bytes v (n - k - 1)) (\<lambda>bytes.
           run_buf (header t name @ [appendBuf bytes]) b)))))"

partial_function (option) appendElements_loop :: "bson_iterator \<Rightarrow> buf_builder \<Rightarrow> buf_builder outcome" where
  "appendElements_loop it b =
     (if \<not> it_moreWithEOO it then Some (Inr b)
      else bind_outcome (Some (it_next False it)) (\<lambda>r. bind_outcome (Some (e_eoo (fst r))) (\<lambda>eoo.
        if eoo then Some (Inr b)
        else bind_outcome (Some (append_element (fst r) b)) (appendElements_loop (snd r)))))"

definition appendElements :: "string \<Rightarrow> buf_builder \<Rightarrow> buf_builder outcome" where
  "appendElements x b = bind_outcome (Some (iterator_new x)) (\<lambda>it. appendElements_loop it b)"

definition subobjStart :: "string \<Rightarrow> buf_builder \<Rightarrow> buf_builder result" where
  "subobjStart name = run_buf (header BObject name)"

definition subarrayStart :: "string \<Rightarrow> buf_builder \<Rightarrow> buf_builder result" where
  "subarrayStart name = run_buf (header BArray name)"

text \<open>Builders: a new one on a buffer, and \<^verbatim>\<open>_done\<close>, which stores the size of the object.\<close>

record obj_builder =
  ob_offset :: nat
  ob_doneCalled :: bool

definition builder_on :: "buf_builder \<Rightarrow> (obj_builder \<times> buf_builder) result" where
  "builder_on b =
     bind_result (skip 4 b) (\<lambda>b'. Inr (\<lparr>ob_offset = length (bb_data b), ob_doneCalled = False\<rparr>, b'))"

definition builder_new :: "(obj_builder \<times> buf_builder) result" where
  "builder_new = builder_on (buf_new 512)"

definition store32 :: "nat \<Rightarrow> 32 word \<Rightarrow> string \<Rightarrow> string" where
  "store32 n w s = take n s @ le_bytes 4 (unat w) @ drop (n + 4) s"

definition builder_done :: "obj_builder \<Rightarrow> buf_builder \<Rightarrow> (obj_builder \<times> buf_builder) result" where
  "builder_done ob b =
     (if ob_doneCalled ob then Inr (ob, b)
      else bind_result (appendNum_char (type_char EOO) b) (\<lambda>b'.
        let sz = length (bb_data b') - ob_offset ob
        in Inr (ob\<lparr>ob_doneCalled := True\<rparr>, b'\<lparr>bb_data := store32 (ob_offset ob) (word_of_nat sz) (bb_data b')\<rparr>)))"

text \<open>\<^verbatim>\<open>done()\<close> and \<^verbatim>\<open>obj()\<close>: the object in the buffer; the latter asserts that the buffer is the builder's own.\<close>

definition builder_object :: "obj_builder \<Rightarrow> buf_builder \<Rightarrow> (string \<times> obj_builder \<times> buf_builder) result" where
  "builder_object ob b =
     bind_result (builder_done ob b) (\<lambda>(ob', b').
       bind_result (obj_new (drop (ob_offset ob) (bb_data b'))) (\<lambda>p. Inr (p, ob', b')))"

definition builder_obj :: "bool \<Rightarrow> obj_builder \<Rightarrow> buf_builder \<Rightarrow> string result" where
  "builder_obj own ob b =
     (if own then bind_result (builder_object ob b) (\<lambda>r. Inr (fst r))
      else Inl (Runtime_Error ''builder does not own memory''))"

definition numStr :: "32 word \<Rightarrow> string result" where
  "numStr i =
     (if 0 \<le> sint i \<and> sint i < 100 then Inr (show_int (sint i))
      else bind_result (sb_int i sb_new) (\<lambda>o'. Inr (bb_data o')))"

section \<open>What they append\<close>

definition appends :: "(buf_builder \<Rightarrow> buf_builder result) \<Rightarrow> string \<Rightarrow> bool" where
  "appends f bytes \<longleftrightarrow>
     (\<forall>b. length (bb_data b) + length bytes \<le> 2 ^ 28 \<longrightarrow>
        (\<exists>b'. f b = Inr b' \<and> bb_data b' = bb_data b @ bytes))"

lemma appendsD:
  fixes b :: buf_builder
  assumes "appends f bytes" and "length (bb_data b) + length bytes \<le> 2 ^ 28"
  obtains b' where "f b = Inr b'" and "bb_data b' = bb_data b @ bytes"
  using assms by (auto simp: appends_def)

lemma appends_grow: "appends (grow bytes) bytes"
  by (simp add: appends_def grow_small)

lemma appends_prims:
  "appends (appendNum_char c) [c]"
  "appends (appendNum_int i) (le_bytes 4 (unat i))"
  "appends (appendNum_long l) (le_bytes 8 (unat l))"
  "appends (appendBuf s) s"
  "appends (appendStr s True) (s @ [nul])"
  "appends (skip n) (replicate n nul)"
  by (simp_all add: appendNum_char_def appendNum_int_def appendNum_long_def appendBuf_def appendStr_def skip_def appends_grow)

lemma appends_run:
  assumes "list_all2 appends fs bs"
  shows "appends (run_buf fs) (concat bs)"
  using assms
proof (induction rule: list_all2_induct)
  case Nil
  then show ?case by (simp add: appends_def)
next
  case (Cons f fs bytes bs)
  show ?case unfolding appends_def
  proof (intro allI impI)
    fix b :: buf_builder assume len: "length (bb_data b) + length (concat (bytes # bs)) \<le> 2 ^ 28"
    from appendsD [OF Cons.hyps(1), of b] len obtain b1 where b1: "f b = Inr b1" "bb_data b1 = bb_data b @ bytes" by auto
    from appendsD [OF Cons.IH, of b1] len b1 obtain b2 where "run_buf fs b1 = Inr b2" "bb_data b2 = bb_data b1 @ concat bs" by auto
    with b1 show "\<exists>b'. run_buf (f # fs) b = Inr b' \<and> bb_data b' = bb_data b @ concat (bytes # bs)" by simp
  qed
qed

lemma unat_size: "n < 2 ^ 31 \<Longrightarrow> le_bytes 4 (unat (word_of_nat n :: 32 word)) = int32 n"
  by (simp add: int32_def unsigned_of_nat take_bit_eq_mod)

lemma appends_int32: "n < 2 ^ 31 \<Longrightarrow> appends (appendNum_int (word_of_nat n)) (int32 n)"
  using appends_prims(2) [of "word_of_nat n"] by (simp only: unat_size)

lemma appends_header:
  "list_all2 appends fs bs \<Longrightarrow> concat bs = body \<Longrightarrow>
   appends (run_buf (header t name @ fs)) (field_of name t body)"
proof -
  assume "list_all2 appends fs bs" and body: "concat bs = body"
  then have "list_all2 appends (header t name @ fs) ([[type_char t], name @ [nul]] @ bs)"
    by (simp add: header_def appends_prims)
  from appends_run [OF this] show ?thesis using body by (simp add: field_of_def)
qed

lemma appends_headers:
  "appends (run_buf (header t name)) (field_of name t [])"
  "appends f x \<Longrightarrow> appends (run_buf (header t name @ [f])) (field_of name t x)"
  "appends f x \<Longrightarrow> appends g y \<Longrightarrow> appends (run_buf (header t name @ [f, g])) (field_of name t (x @ y))"
  "appends f x \<Longrightarrow> appends g y \<Longrightarrow> appends h z \<Longrightarrow>
   appends (run_buf (header t name @ [f, g, h])) (field_of name t (x @ y @ z))"
  using appends_header [of "[]" "[]" "[]" t name] appends_header [of "[f]" "[x]" x t name]
    appends_header [of "[f, g]" "[x, y]" "x @ y" t name] appends_header [of "[f, g, h]" "[x, y, z]" "x @ y @ z" t name]
  by simp_all

lemmas appends_defs = append_double_def append_int_def append_long_def appendBool_def appendNull_def
  appendUndefined_def appendMinKey_def appendMaxKey_def appendOID_def appendDate_def appendTimestamp_def
  appendRegex_def append_string_def appendCode_def appendSymbol_def appendDBRef_def appendBinData_def
  subobjStart_def subarrayStart_def field_bytes_def

lemma appends_scalar:
  "appends (append_double name d) (field_bytes name (B_Double d))"
  "appends (append_int name i) (field_bytes name (B_Int i))"
  "appends (append_long name l) (field_bytes name (B_Long l))"
  "appends (appendBool name val) (field_bytes name (B_Bool val))"
  "appends (appendNull name) (field_bytes name B_Null)"
  "appends (appendUndefined name) (field_bytes name B_Undefined)"
  "appends (appendMinKey name) (field_bytes name B_MinKey)"
  "appends (appendMaxKey name) (field_bytes name B_MaxKey)"
  "appends (appendOID name oid) (field_bytes name (B_OID oid))"
  "appends (appendDate name dt) (field_bytes name (B_Date dt))"
  "appends (appendTimestamp name dt) (field_bytes name (B_Timestamp dt))"
  "appends (appendRegex name r opts) (field_bytes name (B_RegEx r opts))"
  unfolding appends_defs type_of_bson.simps encode_value.simps
  using appends_headers(3) [OF appends_prims(5) appends_prims(5), of RegEx name r opts]
  by (auto intro!: appends_headers(1,2) appends_prims)

lemma appends_sized:
  assumes "length s + 1 < 2 ^ 31"
  shows "appends (append_string name s) (field_bytes name (B_String s))"
    and "appends (appendCode name s) (field_bytes name (B_Code s))"
    and "appends (appendSymbol name s) (field_bytes name (B_Symbol s))"
    and "appends (appendDBRef name s oid) (field_bytes name (B_DBRef s oid))"
proof -
  note n = appends_int32 [OF assms]
  show "appends (append_string name s) (field_bytes name (B_String s))"
    "appends (appendCode name s) (field_bytes name (B_Code s))"
    "appends (appendSymbol name s) (field_bytes name (B_Symbol s))"
    unfolding appends_defs type_of_bson.simps encode_value.simps sized_string_def
    by (intro appends_headers(3) n appends_prims)+
  show "appends (appendDBRef name s oid) (field_bytes name (B_DBRef s oid))"
    unfolding appends_defs type_of_bson.simps encode_value.simps sized_string_def append_assoc
    using appends_headers(4) [OF n appends_prims(5) appends_prims(4)] by simp
qed

lemma appends_bindata:
  assumes "length s < 2 ^ 31"
  shows "appends (appendBinData name t s) (field_bytes name (B_BinData t s))"
  unfolding appends_defs type_of_bson.simps encode_value.simps
  using appends_headers(4) [OF appends_int32 [OF assms] appends_prims(1) appends_prims(4)] by simp

text \<open>A subobject: its header, its builder, what is appended to it, and \<^verbatim>\<open>done\<close>.\<close>

lemma builder_on_appends:
  assumes "length (bb_data b) + 4 \<le> 2 ^ 28"
  obtains b' where "builder_on b = Inr (\<lparr>ob_offset = length (bb_data b), ob_doneCalled = False\<rparr>, b')"
    and "bb_data b' = bb_data b @ replicate 4 nul"
proof (rule appendsD [OF appends_prims(6) [of 4], of b])
  show "length (bb_data b) + length (replicate 4 nul) \<le> 2 ^ 28" using assms by simp
  fix b' assume "skip 4 b = Inr b'" "bb_data b' = bb_data b @ replicate 4 nul"
  then show thesis by (intro that) (simp_all add: builder_on_def)
qed

lemma builder_object_stores:
  assumes "bb_data b = pre @ hole @ encode_fields fs" and "length hole = 4" and "length pre = ob_offset ob"
    and "\<not> ob_doneCalled ob" and "wf_fields fs" and "length (bb_data b) + 1 \<le> 2 ^ 28"
  obtains p ob' b' where "builder_object ob b = Inr (p, ob', b')" and "bb_data b' = pre @ encode_doc fs"
    and "p = encode_doc fs"
proof -
  have eoo: "type_char EOO = nul" by (simp add: type_char_nul named_types_def)
  obtain b1 where b1: "appendNum_char (type_char EOO) b = Inr b1" "bb_data b1 = bb_data b @ [nul]"
    using appendsD [OF appends_prims(1) [of "type_char EOO"], of b] assms(6) eoo by auto
  let ?n = "length (encode_fields fs) + 5"
  have n: "length (bb_data b1) - ob_offset ob = ?n" using b1(2) assms(1-3) by simp
  have small: "?n < 2 ^ 31" using assms(1,2,6) by simp
  let ?b' = "b1\<lparr>bb_data := store32 (ob_offset ob) (word_of_nat ?n) (bb_data b1)\<rparr>"
  have data: "bb_data ?b' = pre @ encode_doc fs"
    using assms(1-3) b1(2) unat_size [OF small] by (simp add: store32_def encode_doc_def doc_of_def)
  then have "drop (ob_offset ob) (bb_data ?b') = encode_doc fs" using assms(3) by simp
  moreover have "obj_new (encode_doc fs) = Inr (encode_doc fs)"
    by (rule obj_at_valid) (use assms in \<open>auto simp: obj_at_def encode_doc_def doc_of_def BSONObjMaxInternalSize_def\<close>)
  ultimately have "builder_object ob b = Inr (encode_doc fs, ob\<lparr>ob_doneCalled := True\<rparr>, ?b')"
    using b1(1) assms(4) n by (simp add: builder_object_def builder_done_def Let_def)
  then show thesis using data by (rule that) simp
qed

lemma numStr_show: "numStr i = Inr (show_int (sint i))"
proof -
  have "int (length (bb_data sb_new)) + 12 \<le> bb_size sb_new" by (simp add: sb_new_def buf_new_def)
  from sb_int_fits [OF this, of i] show ?thesis by (auto simp: numStr_def sb_new_def buf_new_def)
qed

section \<open>Building documents\<close>

text \<open>Building a document with these operations, field by field.\<close>

fun build_value :: "string \<Rightarrow> bson \<Rightarrow> buf_builder \<Rightarrow> buf_builder result"
  and build_fields :: "fields \<Rightarrow> buf_builder \<Rightarrow> buf_builder result" where
  "build_value name (B_Double d) = append_double name d"
| "build_value name (B_String s) = append_string name s"
| "build_value name (B_Object fs) = (\<lambda>b.
     bind_result (subobjStart name b) (\<lambda>b. bind_result (builder_on b) (\<lambda>(ob, b).
       bind_result (build_fields fs b) (\<lambda>b. bind_result (builder_object ob b) (\<lambda>r. Inr (snd (snd r)))))))"
| "build_value name (B_Array fs) = (\<lambda>b.
     bind_result (subarrayStart name b) (\<lambda>b. bind_result (builder_on b) (\<lambda>(ob, b).
       bind_result (build_fields fs b) (\<lambda>b. bind_result (builder_object ob b) (\<lambda>r. Inr (snd (snd r)))))))"
| "build_value name (B_BinData t s) = appendBinData name t s"
| "build_value name B_Undefined = appendUndefined name"
| "build_value name (B_OID s) = appendOID name s"
| "build_value name (B_Bool b) = appendBool name b"
| "build_value name (B_Date d) = appendDate name d"
| "build_value name B_Null = appendNull name"
| "build_value name (B_RegEx r opts) = appendRegex name r opts"
| "build_value name (B_DBRef ns i) = appendDBRef name ns i"
| "build_value name (B_Code s) = appendCode name s"
| "build_value name (B_Symbol s) = appendSymbol name s"
| "build_value name (B_CodeWScope s fs) = (\<lambda>b.
     bind_result builder_new (\<lambda>(ob, b0). bind_result (build_fields fs b0) (\<lambda>b1.
       bind_result (builder_obj True ob b1) (\<lambda>scope. appendCodeWScope name s scope b))))"
| "build_value name (B_Int i) = append_int name i"
| "build_value name (B_Timestamp t) = appendTimestamp name t"
| "build_value name (B_Long i) = append_long name i"
| "build_value name B_MinKey = appendMinKey name"
| "build_value name B_MaxKey = appendMaxKey name"
| "build_fields [] = (\<lambda>b. Inr b)"
| "build_fields ((name, v) # fs) = (\<lambda>b. bind_result (build_value name v b) (build_fields fs))"

definition build_doc :: "fields \<Rightarrow> string result" where
  "build_doc fs =
     bind_result builder_new (\<lambda>(ob, b). bind_result (build_fields fs b) (builder_obj True ob))"

lemma appends_bounded: "(length bytes \<le> 2 ^ 28 \<Longrightarrow> appends f bytes) \<Longrightarrow> appends f bytes"
  by (auto simp: appends_def)

lemma bind_result_right: "bind_result m Inr = m"
  by (cases m) simp_all

lemma bind_result_assoc: "bind_result (bind_result m f) g = bind_result m (\<lambda>x. bind_result (f x) g)"
  by (cases m) simp_all

lemma appends_seq:
  assumes "appends f x" and "appends g y"
  shows "appends (\<lambda>b. bind_result (f b) g) (x @ y)"
proof -
  have "run_buf [] = Inr" by (rule ext) simp
  then have "run_buf [g] = g" by (intro ext) (simp add: bind_result_right)
  then have "run_buf [f, g] = (\<lambda>b. bind_result (f b) g)" by (intro ext) simp
  then show ?thesis using appends_run [of "[f, g]" "[x, y]"] assms by simp
qed

lemma appends_sub:
  assumes start: "appends start (field_of name t [])" and fields: "appends (build_fields fs) (encode_fields fs)"
    and wf: "wf_fields fs"
  shows "appends (\<lambda>b. bind_result (start b) (\<lambda>b. bind_result (builder_on b) (\<lambda>(ob, b).
     bind_result (build_fields fs b) (\<lambda>b. bind_result (builder_object ob b) (\<lambda>r. Inr (snd (snd r)))))))
     (field_of name t (encode_doc fs))"
  unfolding appends_def
proof (intro allI impI)
  fix b :: buf_builder
  assume len: "length (bb_data b) + length (field_of name t (encode_doc fs)) \<le> 2 ^ 28"
  then have len': "length (bb_data b) + length name + length (encode_fields fs) + 7 \<le> 2 ^ 28"
    by (simp add: field_of_def encode_doc_def doc_of_def)
  obtain b1 where b1: "start b = Inr b1" "bb_data b1 = bb_data b @ field_of name t []"
    using appendsD [OF start, of b] len' by (auto simp: field_of_def)
  obtain b2 where b2: "builder_on b1 = Inr (\<lparr>ob_offset = length (bb_data b1), ob_doneCalled = False\<rparr>, b2)"
    "bb_data b2 = bb_data b1 @ replicate 4 nul"
    by (rule builder_on_appends [of b1]) (use b1 len' in \<open>auto simp: field_of_def\<close>)
  obtain b3 where b3: "build_fields fs b2 = Inr b3" "bb_data b3 = bb_data b1 @ replicate 4 nul @ encode_fields fs"
    using appendsD [OF fields, of b2] b1 b2 len' by (auto simp: field_of_def)
  obtain p ob' b4 where "builder_object \<lparr>ob_offset = length (bb_data b1), ob_doneCalled = False\<rparr> b3 = Inr (p, ob', b4)"
    "bb_data b4 = bb_data b1 @ encode_doc fs"
    by (rule builder_object_stores [OF b3(2)]) (use b1 b3 wf len' in \<open>auto simp: field_of_def\<close>)
  then show "\<exists>b'. bind_result (start b) (\<lambda>b. bind_result (builder_on b) (\<lambda>(ob, b).
     bind_result (build_fields fs b) (\<lambda>b. bind_result (builder_object ob b) (\<lambda>r. Inr (snd (snd r)))))) = Inr b' \<and>
     bb_data b' = bb_data b @ field_of name t (encode_doc fs)"
    using b1 b2(1) b3(1) by (simp add: field_of_def)
qed

lemma build_doc_encodes:
  assumes fields: "appends (build_fields fs) (encode_fields fs)" and "wf_fields fs" and "length (encode_doc fs) \<le> 2 ^ 28"
  shows "build_doc fs = Inr (encode_doc fs)"
proof -
  have len: "length (encode_fields fs) + 5 \<le> 2 ^ 28" using assms(3) by (simp add: encode_doc_def doc_of_def)
  obtain b0 where b0: "builder_new = Inr (\<lparr>ob_offset = 0, ob_doneCalled = False\<rparr>, b0)" "bb_data b0 = replicate 4 nul"
    using builder_on_appends [of "buf_new 512"] by (auto simp: builder_new_def buf_new_def)
  obtain b1 where b1: "build_fields fs b0 = Inr b1" "bb_data b1 = [] @ replicate 4 nul @ encode_fields fs"
    using appendsD [OF fields, of b0] b0 len by auto
  obtain p ob' b2 where "builder_object \<lparr>ob_offset = 0, ob_doneCalled = False\<rparr> b1 = Inr (p, ob', b2)" "p = encode_doc fs"
    by (rule builder_object_stores [OF b1(2)]) (use b1(2) assms(2) len in auto)
  then show ?thesis unfolding build_doc_def b0(1) bind_result_simps split_conv b1(1)
    by (simp add: builder_obj_def)
qed

text \<open>Every operation appends the bytes of its field, at any nesting.\<close>

lemma appends_scope:
  assumes fields: "appends (build_fields fs) (encode_fields fs)" and wf: "wf_fields fs"
  shows "appends (build_value name (B_CodeWScope s fs)) (field_bytes name (B_CodeWScope s fs))"
proof (rule appends_bounded)
  let ?doc = "encode_doc fs"
  assume "length (field_bytes name (B_CodeWScope s fs)) \<le> 2 ^ 28"
  then have len: "length s + length ?doc + 9 \<le> 2 ^ 28"
    by (simp add: field_bytes_length encode_doc_def sized_string_def Let_def)
  then have doc: "build_doc fs = Inr ?doc" by (intro build_doc_encodes [OF fields wf]) simp
  have at: "obj_at (?doc @ []) fs" unfolding obj_at_def using wf len by (auto simp: BSONObjMaxInternalSize_def)
  have bytes: "obj_bytes ?doc = Inr ?doc"
    using obj_at_size [OF at] by (simp add: obj_bytes_def read_bytes_def)
  have "build_value name (B_CodeWScope s fs) b = bind_result (build_doc fs) (\<lambda>d. appendCodeWScope name s d b)" for b
    by (simp add: build_doc_def bind_result_assoc split_def)
  then have build: "build_value name (B_CodeWScope s fs) = appendCodeWScope name s ?doc" using doc by (intro ext) simp
  let ?t = "4 + 4 + length s + 1 + length ?doc"
  have n: "appends (appendNum_int (word_of_nat ?t)) (int32 ?t)"
    "appends (appendNum_int (word_of_nat (length s + 1))) (int32 (length s + 1))"
    by (rule appends_int32, use len in simp)+
  have "appends (run_buf (header CodeWScope name @ [appendNum_int (word_of_nat ?t),
      appendNum_int (word_of_nat (length s + 1)), appendStr s True, appendBuf ?doc]))
      (field_of name CodeWScope (int32 ?t @ int32 (length s + 1) @ (s @ [nul]) @ ?doc))"
    by (rule appends_header [where bs = "[int32 ?t, int32 (length s + 1), s @ [nul], ?doc]"])
      (use n in \<open>simp_all add: appends_prims\<close>)
  then show "appends (build_value name (B_CodeWScope s fs)) (field_bytes name (B_CodeWScope s fs))"
    unfolding build appendCodeWScope_def bytes bind_result_simps field_bytes_def
    by (simp add: encode_doc_def sized_string_def Let_def add.assoc)
qed

lemma build_appends:
  "wf_bson v \<Longrightarrow> appends (build_value name v) (field_bytes name v)"
  "wf_fields fs \<Longrightarrow> appends (build_fields fs) (encode_fields fs)"
proof (induction v and fs arbitrary: name rule: encode_value_encode_fields.induct)
  case (3 fs)
  then show ?case using appends_sub [of "subobjStart name" name BObject fs] appends_headers(1)
    by (simp add: field_bytes_def subobjStart_def encode_doc_def)
next
  case (4 fs)
  then show ?case using appends_sub [of "subarrayStart name" name BArray fs] appends_headers(1)
    by (simp add: field_bytes_def subarrayStart_def encode_doc_def)
next
  case (15 s fs)
  then show ?case by (intro appends_scope) auto
next
  case (21)
  then show ?case by (simp add: appends_def)
next
  case (22 name v fs)
  then show ?case using appends_seq [of "build_value name v" "field_bytes name v" "build_fields fs" "encode_fields fs"]
    by (simp add: field_bytes_def)
qed (rule appends_bounded; simp add: appends_scalar appends_sized appends_bindata field_bytes_length sized_string_def)+

text \<open>
  \<^verbatim>\<open>appendIntOrLL\<close> stores the least 64-bit number as the 32-bit number 0: its negation is itself,
  and passes the test for small numbers.
\<close>

lemma appendIntOrLL_least: "appendIntOrLL name (- (2 ^ 63)) = append_int name 0"
proof -
  have "sint (- (2 ^ 63) :: 64 word) = - (2 ^ 63)" by simp
  moreover have "append_int name 9223372036854775808 = append_int name 0"
    by (rule arg_cong [where f = "append_int name"]) simp
  ultimately show ?thesis by (simp add: appendIntOrLL_def)
qed

text \<open>
  C12. A document built with the operations of \<^verbatim>\<open>BSONObjBuilder\<close> is laid out as BSON documents it, and
  reading it gives the document back: it is valid, iterating over it finds its elements in
  order, and a field is found by its name, the first one of several.
\<close>

theorem build_then_read:
  assumes "wf_fields fs" and "length (encode_doc fs) \<le> 2 ^ 28" and "nul \<notin> set name"
  shows "\<exists>p es e. build_doc fs = Inr p \<and> p = encode_doc fs \<and>
    obj_valid (length p) p = Some (Inr True) \<and>
    nFields p = Some (Inr (length fs)) \<and>
    elems p = Some (Inr es) \<and> list_all2 (\<lambda>e f. elem_at e (fst f) (snd f)) es fs \<and>
    getField p name = Some (Inr e) \<and>
    (case find_first (\<lambda>f. fst f = name) fs of None \<Rightarrow> e_eoo e = Inr True | Some f \<Rightarrow> elem_at e name (snd f))"
proof -
  let ?p = "encode_doc fs"
  have at: "obj_at ?p fs" using assms(1,2) by (auto simp: obj_at_def BSONObjMaxInternalSize_def)
  have "build_doc fs = Inr ?p" by (rule build_doc_encodes [OF build_appends(2) [OF assms(1)] assms(1,2)])
  moreover have "obj_valid (length ?p) ?p = Some (Inr True)"
    by (rule obj_at_iterator [OF at])
      (simp add: obj_valid_def catch_all_def valid_loop_True encode_doc_def doc_of_def)
  moreover have "nFields ?p = Some (Inr (length fs))"
    by (rule obj_at_iterator [OF at]) (simp add: nFields_def nFields_loop_counts)
  moreover obtain es where "elems ?p = Some (Inr es)" "list_all2 (\<lambda>e f. elem_at e (fst f) (snd f)) es fs"
    using elems_all [OF at] by blast
  moreover obtain e where "getField ?p name = Some (Inr e)"
    "case find_first (\<lambda>f. fst f = name) fs of None \<Rightarrow> e = element_default | Some f \<Rightarrow> elem_at e name (snd f)"
    using getField_finds [OF at assms(3)] by blast
  ultimately show ?thesis by (auto simp: element_default_def split: option.splits)
qed

definition small_doc :: fields where
  "small_doc = [(''a'', B_Int 7), (''b'', B_Array [(''0'', B_String ''x''), (''1'', B_Null)]), (''a'', B_Bool True)]"

theorem build_then_read_witness:
  "\<exists>p e. build_doc small_doc = Inr p \<and> obj_valid (length p) p = Some (Inr True) \<and>
     getField p ''a'' = Some (Inr e) \<and> elem_at e ''a'' (B_Int 7)"
proof -
  have "length (encode_doc small_doc) = 36"
    by (simp add: small_doc_def encode_doc_def doc_of_def field_of_def sized_string_def)
  then show ?thesis using build_then_read [of small_doc "''a''"] by (auto simp: small_doc_def)
qed

end
