(* ===== verification/Double_Text.thy ===== *)
theory Double_Text
  imports Decimal "HOL-Library.Word"
begin

unbundle bit_operations_syntax

text \<open>
  IEEE 754 doubles as their 64 bits, as far as the BSON code uses them: the comparison with the
  largest finite number, the conversion from \<^verbatim>\<open>int\<close> (which is exact), and the text a stream with
  precision 16 or \<^verbatim>\<open>"%.16g"\<close> gives. The text is computed exactly: the value is the fraction
  \<open>num / den\<close>, its sixteen significant digits are rounded to nearest, ties to even.
\<close>

definition negative :: "64 word \<Rightarrow> bool" where
  "negative d \<longleftrightarrow> unat d div 2 ^ 63 = 1"

definition exponent_bits :: "64 word \<Rightarrow> nat" where
  "exponent_bits d = unat d div 2 ^ 52 mod 2 ^ 11"

definition mantissa_bits :: "64 word \<Rightarrow> nat" where
  "mantissa_bits d = unat d mod 2 ^ 52"

text \<open>
  \<^verbatim>\<open>x >= -max && x <= max\<close> holds of the doubles whose exponent bits are not all ones.
\<close>

definition finite_double :: "64 word \<Rightarrow> bool" where
  "finite_double d \<longleftrightarrow> exponent_bits d \<noteq> 0x7FF"

definition nonfinite_text :: "64 word \<Rightarrow> string" where
  "nonfinite_text d = (if negative d then ''-'' else []) @ (if mantissa_bits d = 0 then ''inf'' else ''nan'')"

text \<open>The absolute value as a fraction; an exponent of zero marks a subnormal number.\<close>

definition fraction :: "64 word \<Rightarrow> nat \<times> nat" where
  "fraction d =
     (let e = exponent_bits d; m = (if e = 0 then mantissa_bits d else mantissa_bits d + 2 ^ 52); e = max e 1
      in if 1075 \<le> e then (m * 2 ^ (e - 1075), 1) else (m, 2 ^ (1075 - e)))"

definition div_round :: "nat \<Rightarrow> nat \<Rightarrow> nat" where
  "div_round n d =
     (let q = n div d; r = n mod d in if d < 2 * r \<or> d = 2 * r \<and> odd q then q + 1 else q)"

text \<open>The exponent of the first significant digit.\<close>

definition decimal_exponent :: "nat \<Rightarrow> nat \<Rightarrow> int" where
  "decimal_exponent num den =
     (if den \<le> num then int (length (show_nat (num div den))) - 1
      else case find_first (\<lambda>k. den \<le> num * 10 ^ k) [1..<400] of None \<Rightarrow> - 400 | Some k \<Rightarrow> - int k)"

definition scale :: "nat \<Rightarrow> nat \<Rightarrow> int \<Rightarrow> nat" where
  "scale num den k = (if 0 \<le> k then div_round (num * 10 ^ nat k) den else div_round num (den * 10 ^ nat (- k)))"

definition strip_zeros :: "string \<Rightarrow> string" where
  "strip_zeros s = rev (dropWhile (\<lambda>c. c = CHR ''0'') (rev s))"

definition with_fraction :: "string \<Rightarrow> string \<Rightarrow> string" where
  "with_fraction whole frac = (if strip_zeros frac = [] then whole else whole @ ''.'' @ strip_zeros frac)"

definition exponent_text :: "int \<Rightarrow> string" where
  "exponent_text x =
     (let s = show_nat (nat \<bar>x\<bar>)
      in ''e'' @ (if x < 0 then ''-'' else ''+'') @ replicate (2 - length s) CHR ''0'' @ s)"

text \<open>\<open>ds\<close> are the significant digits, \<open>x\<close> is the exponent of the first.\<close>

definition layout_digits :: "string \<Rightarrow> int \<Rightarrow> string" where
  "layout_digits ds x =
     (if x < - 4 \<or> int (length ds) \<le> x then with_fraction (take 1 ds) (drop 1 ds) @ exponent_text x
      else if 0 \<le> x then with_fraction (take (nat x + 1) ds) (drop (nat x + 1) ds)
      else with_fraction ''0'' (replicate (nat (- x - 1)) CHR ''0'' @ ds))"

definition print_double :: "64 word \<Rightarrow> string" where
  "print_double d =
     (let (num, den) = fraction d; sign = (if negative d then ''-'' else [])
      in if num = 0 then sign @ ''0''
         else
           let x = decimal_exponent num den; D = scale num den (15 - x)
           in sign @ (if D = 10 ^ 16 then layout_digits (show_nat (10 ^ 15)) (x + 1)
                      else layout_digits (show_nat D) x))"

text \<open>The conversion from \<^verbatim>\<open>int\<close>.\<close>

fun log2 :: "nat \<Rightarrow> nat" where
  "log2 n = (if n < 2 then 0 else log2 (n div 2) + 1)"

declare log2.simps [simp del]

definition double_of_nat :: "nat \<Rightarrow> nat" where
  "double_of_nat a = (if a = 0 then 0 else (log2 a + 1023) * 2 ^ 52 + (a * 2 ^ (52 - log2 a) - 2 ^ 52))"

definition double_of_int :: "32 word \<Rightarrow> 64 word" where
  "double_of_int i =
     word_of_nat ((if sint i < 0 then 2 ^ 63 else 0) + double_of_nat (nat \<bar>sint i\<bar>))"

section \<open>Integers print as integers\<close>

lemma log2_bounds: "0 < a \<Longrightarrow> 2 ^ log2 a \<le> a \<and> a < 2 ^ Suc (log2 a)"
proof (induction a rule: log2.induct)
  case (1 n)
  show ?case
  proof (cases "n < 2")
    case False
    with 1 have "2 ^ log2 (n div 2) \<le> n div 2 \<and> n div 2 < 2 ^ Suc (log2 (n div 2))" by simp
    then have "2 * 2 ^ log2 (n div 2) \<le> n" "n < 2 * 2 ^ Suc (log2 (n div 2))" by linarith+
    then show ?thesis using False by (subst (1 2) log2.simps) simp
  qed (use 1 in \<open>subst (1 2) log2.simps, simp\<close>)
qed

lemma double_of_nat_parts:
  assumes "0 < a" and "a < 2 ^ 32"
  obtains m where "double_of_nat a = (log2 a + 1023) * 2 ^ 52 + m" and "m < 2 ^ 52"
    and "m + 2 ^ 52 = a * 2 ^ (52 - log2 a)" and "log2 a < 32"
proof -
  note b = log2_bounds [OF assms(1)]
  have l: "log2 a < 32"
  proof (rule ccontr)
    assume "\<not> log2 a < 32"
    then have "(2 :: nat) ^ 32 \<le> 2 ^ log2 a" by (intro power_increasing) auto
    then show False using b assms(2) by linarith
  qed
  then have pow: "(2 :: nat) ^ log2 a * 2 ^ (52 - log2 a) = 2 ^ 52" by (simp flip: power_add)
  have "2 ^ 52 \<le> a * 2 ^ (52 - log2 a)" using b unfolding pow [symmetric] by simp
  moreover have "a * 2 ^ (52 - log2 a) < 2 ^ Suc (log2 a) * 2 ^ (52 - log2 a)" using b by simp
  then have "a * 2 ^ (52 - log2 a) < 2 * 2 ^ 52" using pow by (simp add: mult.assoc)
  ultimately show thesis using that [of "a * 2 ^ (52 - log2 a) - 2 ^ 52"] assms(1) l
    by (simp add: double_of_nat_def)
qed

lemma int_magnitude: "nat \<bar>sint (i :: 32 word)\<bar> < 2 ^ 32"
  using sint_ge [of i] sint_lt [of i] by simp

lemma unat_of_nat64: "n < 2 ^ 64 \<Longrightarrow> unat (word_of_nat n :: 64 word) = n"
  by (simp add: unsigned_of_nat take_bit_nat_eq_self)

lemma double_of_int_bits:
  assumes "sint i \<noteq> 0"
  defines "a \<equiv> nat \<bar>sint i\<bar>"
  shows "exponent_bits (double_of_int i) = log2 a + 1023"
    and "mantissa_bits (double_of_int i) + 2 ^ 52 = a * 2 ^ (52 - log2 a)"
    and "negative (double_of_int i) \<longleftrightarrow> sint i < 0" and "log2 a < 32"
proof -
  have "0 < a" "a < 2 ^ 32" using assms int_magnitude [of i] by auto
  then obtain m where m: "double_of_nat a = (log2 a + 1023) * 2 ^ 52 + m" "m < 2 ^ 52"
    "m + 2 ^ 52 = a * 2 ^ (52 - log2 a)" and l: "log2 a < 32"
    by (rule double_of_nat_parts)
  define s :: nat where "s = (if sint i < 0 then 1 else 0)"
  let ?h = "s * 2 ^ 11 + (log2 a + 1023)"
  have h: "?h < 2 ^ 12" using l by (simp add: s_def)
  then have "?h * 2 ^ 52 + m < (?h + 1) * 2 ^ 52" "(?h + 1) * 2 ^ 52 \<le> 2 ^ 12 * (2 ^ 52 :: nat)"
    using m(2) by (simp_all del: power_Suc)
  then have less: "?h * 2 ^ 52 + m < 2 ^ 64" by (simp del: add_mult_distrib2)
  have word: "double_of_int i = word_of_nat (?h * 2 ^ 52 + m)"
    unfolding double_of_int_def a_def [symmetric] m(1) by (simp add: s_def algebra_simps)
  have u: "unat (double_of_int i) = ?h * 2 ^ 52 + m"
    unfolding word by (rule unat_of_nat64 [OF less])
  have q: "unat (double_of_int i) div 2 ^ 52 = ?h" "unat (double_of_int i) mod 2 ^ 52 = m"
    unfolding u using m(2) by (simp_all only: mod_mult_self3 mod_less) (subst div_mult_self3; simp)
  show "exponent_bits (double_of_int i) = log2 a + 1023"
    unfolding exponent_bits_def q(1) using l by simp
  show "mantissa_bits (double_of_int i) + 2 ^ 52 = a * 2 ^ (52 - log2 a)"
    unfolding mantissa_bits_def q(2) by (rule m(3))
  have "unat (double_of_int i) div 2 ^ 63 = ?h div 2 ^ 11"
    unfolding q(1) [symmetric] by (simp flip: div_mult2_eq)
  also have "\<dots> = s" using l by simp
  finally show "negative (double_of_int i) \<longleftrightarrow> sint i < 0"
    by (simp add: negative_def s_def)
  show "log2 a < 32" by (rule l)
qed

lemma double_of_int_finite: "finite_double (double_of_int i)"
proof (cases "sint i = 0")
  case True
  then show ?thesis by (simp add: finite_double_def exponent_bits_def double_of_int_def double_of_nat_def)
next
  case False
  then show ?thesis using double_of_int_bits(1,4) [of i] by (simp add: finite_double_def)
qed

lemma double_of_int_fraction:
  assumes "sint i \<noteq> 0"
  obtains den where "fraction (double_of_int i) = (nat \<bar>sint i\<bar> * den, den)" and "0 < den"
  using double_of_int_bits [OF assms] that [of "2 ^ (52 - log2 (nat \<bar>sint i\<bar>))"]
  by (simp add: fraction_def Let_def max_def)

lemma char_zero: "char_of (48 :: nat) = CHR ''0''"
  by code_simp

lemma show_nat_shift: "0 < a \<Longrightarrow> show_nat (a * 10 ^ k) = show_nat a @ replicate k CHR ''0''"
proof (induction k)
  case (Suc k)
  have "\<not> a * 10 ^ Suc k < 10" using Suc.prems by simp
  then have "show_nat (a * 10 ^ Suc k) = show_nat (a * 10 ^ k) @ [CHR ''0'']"
    by (subst show_nat.simps) (simp add: char_zero)
  then show ?case using Suc by (simp flip: replicate_append_same)
qed simp

lemma digits_of_int: "0 < a \<Longrightarrow> a < 2 ^ 32 \<Longrightarrow> length (show_nat a) \<le> 10 \<and> 0 < length (show_nat a)"
  using show_nat_length [of 10 a] show_nat_not_Nil [of a] by simp

lemma print_whole:
  assumes "0 < a" and "a < 2 ^ 32" and "0 < den"
  defines "x \<equiv> decimal_exponent (a * den) den" and "D \<equiv> scale (a * den) den (15 - decimal_exponent (a * den) den)"
  shows "D \<noteq> 10 ^ 16" and "layout_digits (show_nat D) x = show_nat a"
proof -
  let ?n = "length (show_nat a)"
  note n = digits_of_int [OF assms(1,2)]
  have "den \<le> a * den" using assms(1,3) by simp
  then have x: "x = int ?n - 1" using assms(3) by (simp add: x_def decimal_exponent_def)
  have "nat (15 - x) = 16 - ?n" using n by (simp add: x)
  then have D: "D = a * 10 ^ (16 - ?n)"
    using n assms(3) by (simp add: D_def x_def [symmetric] scale_def div_round_def x mult.commute mult.left_commute)
  have ds: "show_nat D = show_nat a @ replicate (16 - ?n) CHR ''0''" unfolding D by (rule show_nat_shift [OF assms(1)])
  have "length (show_nat (1 * 10 ^ 16)) = 17" using show_nat_shift [of 1 16] by (simp add: show_nat.simps [of "Suc 0"])
  then show "D \<noteq> 10 ^ 16" using ds n by auto
  have "strip_zeros (replicate (16 - ?n) CHR ''0'') = []" by (simp add: strip_zeros_def)
  moreover have "nat x + 1 = ?n" "0 \<le> x" "x < 16" using n unfolding x by arith+
  ultimately show "layout_digits (show_nat D) x = show_nat a"
    using n unfolding ds by (simp add: layout_digits_def with_fraction_def)
qed

lemma print_double_int: "print_double (double_of_int i) = show_int (sint i)"
proof (cases "sint i = 0")
  case True
  then have "double_of_int i = 0" by (simp add: double_of_int_def double_of_nat_def)
  then show ?thesis using True
    by (simp add: print_double_def fraction_def exponent_bits_def mantissa_bits_def negative_def show_int_def
        show_nat.simps char_zero)
next
  case False
  obtain den where f: "fraction (double_of_int i) = (nat \<bar>sint i\<bar> * den, den)" "0 < den"
    using double_of_int_fraction [OF False] by blast
  have "0 < nat \<bar>sint i\<bar>" using False by simp
  then show ?thesis
    using f print_whole [OF _ int_magnitude f(2)] double_of_int_bits(3) [OF False]
    by (simp add: print_double_def Let_def show_int_def)
qed

end
