(* ===== verification/Bson_Json.thy ===== *)
theory Bson_Json
  imports Bson_Builder Double_Text
begin

text \<open>
  Documents as JSON text: \<^verbatim>\<open>escape\<close>, \<^verbatim>\<open>BSONElement::jsonString\<close> and \<^verbatim>\<open>BSONObj::jsonString\<close> of
  \<^verbatim>\<open>jsobj.cpp\<close>.

  A \<^verbatim>\<open>stringstream\<close> is the text written to it; a \<^verbatim>\<open>StringBuilder\<close> is a buffer that can refuse to
  grow. The text of a date in local time (\<^verbatim>\<open>ctime_r\<close>) is an argument. The two functions call each other and loop over documents
  of any length, so they take fuel; \<open>None\<close> means that it ran out, and the length of the
  document is enough (\<open>elem_json_text\<close>).
\<close>

section \<open>Escapes\<close>

text \<open>What is written for one character, one string for each \<^verbatim>\<open><<\<close>.\<close>

definition escape_writes :: "bool \<Rightarrow> char \<Rightarrow> string list" where
  "escape_writes escape_slash c =
     (if c = CHR 0x22 then [[CHR 0x5C, CHR 0x22]]
      else if c = CHR 0x5C then [[CHR 0x5C, CHR 0x5C]]
      else if c = CHR ''/'' then [if escape_slash then [CHR 0x5C, CHR ''/''] else ''/'']
      else if c = CHR 0x08 then [[CHR 0x5C, CHR ''b'']]
      else if c = CHR 0x0C then [[CHR 0x5C, CHR ''f'']]
      else if c = CHR 0x0A then [[CHR 0x5C, CHR ''n'']]
      else if c = CHR 0x0D then [[CHR 0x5C, CHR ''r'']]
      else if c = CHR 0x09 then [[CHR 0x5C, CHR ''t'']]
      else if 0 \<le> sint (byte c) \<and> sint (byte c) \<le> 0x1f then [[CHR 0x5C, CHR ''u'', CHR ''0'', CHR ''0''], toHexLower [c]]
      else [[c]])"

definition escape :: "string \<Rightarrow> bool \<Rightarrow> string result" where
  "escape s escape_slash =
     bind_result (run_buf (map sb_write (concat (map (escape_writes escape_slash) s))) sb_new) (\<lambda>ret.
       Inr (bb_data ret))"

definition escaped_text :: "bool \<Rightarrow> string \<Rightarrow> string" where
  "escaped_text slash s = concat (concat (map (escape_writes slash) s))"

section \<open>Numbers\<close>

definition number_json :: "64 word \<Rightarrow> string result" where
  "number_json d =
     (if finite_double d then Inr (print_double d)
      else Inl (Runtime_Error (''Number '' @ nonfinite_text d @ '' cannot be represented in JSON'')))"

section \<open>Elements that hold no other\<close>

type_synonym ctime = "64 word \<Rightarrow> string"

datatype json_format = Strict | TenGen | JS

definition quoted_text :: "string \<Rightarrow> string" where
  "quoted_text s = CHR 0x22 # s @ [CHR 0x22]"

text \<open>A number in base 16, and the subtype of binary data: a \<^verbatim>\<open>char\<close> made an enumeration, two digits wide.\<close>

fun show_hex :: "nat \<Rightarrow> string" where
  "show_hex n =
     (if n < 16 then [''0123456789abcdef'' ! n] else show_hex (n div 16) @ [''0123456789abcdef'' ! (n mod 16)])"

definition subtype_text :: "char \<Rightarrow> string" where
  "subtype_text c =
     (let s = show_hex (unat (scast (byte c) :: 32 word)) in replicate (2 - length s) CHR ''0'' @ s)"

definition dbref_json :: "json_format \<Rightarrow> string \<Rightarrow> string result" where
  "dbref_json fmt e =
     bind_result (value_at e 4) (\<lambda>valuestr. bind_result (valuestrsize e) (\<lambda>n.
       bind_result (offset_ptr valuestr n) (\<lambda>x. bind_result (c_string_at valuestr) (\<lambda>ns.
         bind_result (read_bytes x 12) (\<lambda>oid.
           Inr ((if fmt = TenGen then ''Dbref( '' else ''{ '' @ quoted_text ''$ref'' @ '' : '') @
             quoted_text ns @ '', '' @
             (if fmt \<noteq> TenGen then quoted_text ''$id'' @ '' : '' else []) @
             quoted_text (toHexLower oid) @ '' '' @ (if fmt = TenGen then '')'' else ''}'')))))))"

definition oid_json :: "json_format \<Rightarrow> string \<Rightarrow> string result" where
  "oid_json fmt e =
     bind_result (e_value e) (\<lambda>v. bind_result (read_bytes v 12) (\<lambda>oid.
       Inr ((if fmt = TenGen then ''ObjectId( '' else ''{ '' @ quoted_text ''$oid'' @ '' : '') @
         quoted_text (toHexLower oid) @ (if fmt = TenGen then '' )'' else '' }''))))"

definition bindata_json :: "string \<Rightarrow> string result" where
  "bindata_json e =
     bind_result (valuestrsize e) (\<lambda>len. bind_result (value_at e 4) (\<lambda>p. bind_result (deref p 0) (\<lambda>t.
       bind_result (value_at e 5) (\<lambda>start. bind_result (read_bytes start len) (\<lambda>bytes.
         Inr (''{ '' @ quoted_text ''$binary'' @ '' : '' @ quoted_text (base64_encode bytes) @ '', '' @
           quoted_text ''$type'' @ '' : '' @ quoted_text (subtype_text t) @ '' }''))))))"

definition date_json :: "ctime \<Rightarrow> json_format \<Rightarrow> int \<Rightarrow> string \<Rightarrow> string result" where
  "date_json ctime fmt pretty e =
     bind_result (numberLong_raw e) (\<lambda>d.
       Inr ((if fmt = Strict then ''{ '' @ quoted_text ''$date'' @ '' : '' else ''Date( '') @
         (if pretty \<noteq> 0 then (if d = 0 then ''0'' else quoted_text (ctime d)) else show_nat (unat d)) @
         (if fmt = Strict then '' }'' else '' )'')))"

definition regex_json :: "json_format \<Rightarrow> string \<Rightarrow> string result" where
  "regex_json fmt e =
     bind_result (e_value e) (\<lambda>v. bind_result (c_string_at v) (\<lambda>regex.
       bind_result (offset_ptr v (int (length regex) + 1)) (\<lambda>f. bind_result (c_string_at f) (\<lambda>flags.
         bind_result (escape regex (fmt \<noteq> Strict)) (\<lambda>r.
           Inr (if fmt = Strict then ''{ '' @ quoted_text ''$regex'' @ '' : '' @ quoted_text r @ '', '' @
                  quoted_text ''$options'' @ '' : '' @ quoted_text flags @ '' }''
                else ''/'' @ r @ ''/'' @ filter (\<lambda>c. c \<in> set ''gim'') flags))))))"

definition timestamp_json :: "string \<Rightarrow> string result" where
  "timestamp_json e =
     bind_result (value_at e 4) (\<lambda>p. bind_result (read32 p) (\<lambda>t. bind_result (numberInt_raw e) (\<lambda>i.
       Inr (''{ '' @ quoted_text ''t'' @ '' : '' @ show_nat (unat (ucast t * 1000 :: 64 word)) @ '' , '' @
         quoted_text ''i'' @ '' : '' @ show_nat (unat i) @ '' }''))))"

text \<open>\<^verbatim>\<open>_asCode\<close> of the two types it is called for.\<close>

definition asCode :: "bson_type \<Rightarrow> string \<Rightarrow> string result" where
  "asCode t e =
     (if t = CodeWScope then
        bind_result (value_at e 4) (\<lambda>p. bind_result (read32 p) (\<lambda>n. bind_result (value_at e 8) (\<lambda>code.
          if sint n < 1 then Inl (Runtime_Error ''basic_string'') else read_bytes code (sint n - 1))))
      else e_str e)"

text \<open>The cases of the switch without a document inside; the last one throws.\<close>

definition scalar_json :: "ctime \<Rightarrow> json_format \<Rightarrow> int \<Rightarrow> bson_type \<Rightarrow> string \<Rightarrow> string result" where
  "scalar_json ctime fmt pretty t e =
     (let quote_string = bind_result (e_str e) (\<lambda>s. bind_result (escape s False) (\<lambda>r. Inr (quoted_text r)));
          bad = (\<lambda>text n. Inl (Runtime_Error (''Cannot create a properly formatted JSON string with element: '' @
            text @ '' of type: '' @ show_int n)))
      in case t of
           BString \<Rightarrow> quote_string | BSymbol \<Rightarrow> quote_string
         | NumberLong \<Rightarrow> bind_result (numberLong_raw e) (\<lambda>i. Inr (show_int (sint i)))
         | NumberInt \<Rightarrow> bind_result (numberInt_raw e) (\<lambda>i. number_json (double_of_int i))
         | NumberDouble \<Rightarrow> bind_result (numberLong_raw e) number_json
         | BBool \<Rightarrow> bind_result (boolean e) (\<lambda>b. Inr (if b then ''true'' else ''false''))
         | jstNULL \<Rightarrow> Inr ''null''
         | DBRef \<Rightarrow> dbref_json fmt e
         | jstOID \<Rightarrow> oid_json fmt e
         | BinData \<Rightarrow> bindata_json e
         | BDate \<Rightarrow> date_json ctime fmt pretty e
         | RegEx \<Rightarrow> regex_json fmt e
         | BCode \<Rightarrow> asCode BCode e
         | Timestamp \<Rightarrow> timestamp_json e
         | MinKey \<Rightarrow> Inr (''{ '' @ quoted_text ''$minKey'' @ '' : 1 }'')
         | MaxKey \<Rightarrow> Inr (''{ '' @ quoted_text ''$maxKey'' @ '' : 1 }'')
         | Other_Type n \<Rightarrow> bind_result (fieldName e) (\<lambda>name. bad (name @ '': ?type='' @ show_int n) n)
         | EOO \<Rightarrow> bad ''EOO'' 0
         | Undefined \<Rightarrow> Inr [] | BObject \<Rightarrow> Inr [] | BArray \<Rightarrow> Inr [] | CodeWScope \<Rightarrow> Inr [])"

section \<open>jsonString\<close>

definition deeper :: "int \<Rightarrow> int" where
  "deeper pretty = (if pretty \<noteq> 0 then pretty + 1 else 0)"

definition new_line :: "int \<Rightarrow> string" where
  "new_line pretty = CHR 0x0A # concat (replicate (nat pretty) ''  '')"

definition name_json :: "bool \<Rightarrow> string \<Rightarrow> string result" where
  "name_json includeFieldNames e =
     (if includeFieldNames then
        bind_result (fieldName e) (\<lambda>name. bind_result (escape name False) (\<lambda>r. Inr (quoted_text r @ '' : '')))
      else Inr [])"

text \<open>
  The two functions call each other: \<open>object_json\<close> and the loops \<open>array_json\<close> and \<open>members_json\<close>
  take the printer of an element as an argument, and \<open>elem_json\<close> gives them itself. The loops
  start with the first element already read.
\<close>

type_synonym printer = "json_format \<Rightarrow> bool \<Rightarrow> int \<Rightarrow> string \<Rightarrow> string outcome"

fun array_json :: "printer \<Rightarrow> nat \<Rightarrow> json_format \<Rightarrow> int \<Rightarrow> string \<Rightarrow> bson_iterator \<Rightarrow> string outcome" where
  "array_json P 0 fmt pretty e i = None"
| "array_json P (Suc n) fmt pretty e i =
     bind_outcome (P fmt False (deeper pretty) e) (\<lambda>text.
       bind_outcome (Some (it_next False i)) (\<lambda>r. bind_outcome (Some (e_eoo (fst r))) (\<lambda>eoo.
         let text = (if pretty \<noteq> 0 then new_line pretty else []) @ text
         in if eoo then Some (Inr text)
            else bind_outcome (array_json P n fmt pretty (fst r) (snd r)) (\<lambda>rest.
              Some (Inr (text @ '', '' @ rest))))))"

fun members_json ::
  "printer \<Rightarrow> nat \<Rightarrow> json_format \<Rightarrow> int \<Rightarrow> string \<Rightarrow> bson_iterator \<Rightarrow> buf_builder \<Rightarrow> buf_builder outcome" where
  "members_json P 0 fmt pretty e i s = None"
| "members_json P (Suc n) fmt pretty e i s =
     bind_outcome (P fmt True (deeper pretty) e) (\<lambda>text.
       bind_outcome (Some (sb_write text s)) (\<lambda>s.
         bind_outcome (Some (it_next False i)) (\<lambda>r. bind_outcome (Some (e_eoo (fst r))) (\<lambda>eoo.
           if eoo then Some (Inr s)
           else bind_outcome
             (Some (run_buf (map sb_write ('','' #
                (if pretty \<noteq> 0 then [CHR 0x0A] # replicate (nat pretty) ''  '' else ['' '']))) s))
             (members_json P n fmt pretty (fst r) (snd r))))))"

definition object_json :: "printer \<Rightarrow> nat \<Rightarrow> json_format \<Rightarrow> int \<Rightarrow> string \<Rightarrow> string outcome" where
  "object_json P n fmt pretty obj =
     bind_outcome (Some (obj_isEmpty obj)) (\<lambda>empty.
       if empty then Some (Inr ''{}'')
       else bind_outcome (Some (sb_write ''{ '' sb_new)) (\<lambda>s.
         bind_outcome (Some (iterator_new obj)) (\<lambda>i. bind_outcome (Some (it_next False i)) (\<lambda>r.
           bind_outcome (Some (e_eoo (fst r))) (\<lambda>eoo.
             bind_outcome (if eoo then Some (Inr s) else members_json P n fmt pretty (fst r) (snd r) s) (\<lambda>s.
               bind_outcome (Some (sb_write '' }'' s)) (\<lambda>s. Some (Inr (bb_data s)))))))))"

definition array_text :: "printer \<Rightarrow> nat \<Rightarrow> json_format \<Rightarrow> int \<Rightarrow> string \<Rightarrow> string outcome" where
  "array_text P n fmt pretty arr =
     bind_outcome (Some (obj_isEmpty arr)) (\<lambda>empty.
       if empty then Some (Inr ''[]'')
       else bind_outcome (Some (iterator_new arr)) (\<lambda>i. bind_outcome (Some (it_next False i)) (\<lambda>r.
         bind_outcome (Some (e_eoo (fst r))) (\<lambda>eoo.
           bind_outcome (if eoo then Some (Inr []) else array_json P n fmt pretty (fst r) (snd r))
             (\<lambda>text. Some (Inr (''[ '' @ text @ '' ]'')))))))"

definition scope_json :: "printer \<Rightarrow> nat \<Rightarrow> string \<Rightarrow> string outcome" where
  "scope_json P n e =
     bind_outcome (Some (codeWScopeObject e)) (\<lambda>scope. bind_outcome (Some (obj_isEmpty scope)) (\<lambda>empty.
       bind_outcome (Some (asCode CodeWScope e)) (\<lambda>code.
         if empty then Some (Inr code)
         else bind_outcome (object_json P n Strict 0 scope) (\<lambda>text.
           Some (Inr (''{ '' @ quoted_text ''$code'' @ '' : '' @ code @ '' ,  '' @
             quoted_text ''$scope'' @ '' : '' @ text @ '' }''))))))"

fun elem_json :: "ctime \<Rightarrow> nat \<Rightarrow> printer" where
  "elem_json ctime 0 fmt names pretty e = None"
| "elem_json ctime (Suc n) fmt names pretty e =
     bind_outcome (Some (e_type e)) (\<lambda>t.
       if t = Undefined then Some (Inr [])
       else bind_outcome (Some (name_json names e)) (\<lambda>name.
         bind_outcome
           (if t = BObject then bind_outcome (Some (embeddedObject e)) (object_json (elem_json ctime n) n fmt pretty)
            else if t = BArray then bind_outcome (Some (embeddedObject e)) (array_text (elem_json ctime n) n fmt pretty)
            else if t = CodeWScope then scope_json (elem_json ctime n) n e
            else Some (scalar_json ctime fmt pretty t e))
           (\<lambda>body. Some (Inr (name @ body)))))"

definition obj_json :: "ctime \<Rightarrow> nat \<Rightarrow> json_format \<Rightarrow> int \<Rightarrow> string \<Rightarrow> string outcome" where
  "obj_json ctime n = object_json (elem_json ctime n) n"

section \<open>The text of a document\<close>

definition separator :: "int \<Rightarrow> string" where
  "separator pretty = '','' @ (if pretty \<noteq> 0 then new_line pretty else '' '')"

fun value_text :: "ctime \<Rightarrow> json_format \<Rightarrow> int \<Rightarrow> bson \<Rightarrow> string"
  and members_text :: "ctime \<Rightarrow> json_format \<Rightarrow> int \<Rightarrow> fields \<Rightarrow> string"
  and elements_text :: "ctime \<Rightarrow> json_format \<Rightarrow> int \<Rightarrow> fields \<Rightarrow> string" where
  "value_text ctime fmt p (B_Double d) = print_double d"
| "value_text ctime fmt p (B_String s) = quoted_text (escaped_text False s)"
| "value_text ctime fmt p (B_Object fs) = (if fs = [] then ''{}'' else ''{ '' @ members_text ctime fmt p fs @ '' }'')"
| "value_text ctime fmt p (B_Array fs) = (if fs = [] then ''[]'' else ''[ '' @ elements_text ctime fmt p fs @ '' ]'')"
| "value_text ctime fmt p (B_BinData t s) =
     ''{ '' @ quoted_text ''$binary'' @ '' : '' @ quoted_text (base64_encode s) @ '', '' @
     quoted_text ''$type'' @ '' : '' @ quoted_text (subtype_text t) @ '' }''"
| "value_text ctime fmt p B_Undefined = []"
| "value_text ctime fmt p (B_OID s) =
     (if fmt = TenGen then ''ObjectId( '' @ quoted_text (toHexLower s) @ '' )''
      else ''{ '' @ quoted_text ''$oid'' @ '' : '' @ quoted_text (toHexLower s) @ '' }'')"
| "value_text ctime fmt p (B_Bool b) = (if b then ''true'' else ''false'')"
| "value_text ctime fmt p (B_Date d) =
     (let t = (if p = 0 then show_nat (unat d) else if d = 0 then ''0'' else quoted_text (ctime d))
      in if fmt = Strict then ''{ '' @ quoted_text ''$date'' @ '' : '' @ t @ '' }'' else ''Date( '' @ t @ '' )'')"
| "value_text ctime fmt p B_Null = ''null''"
| "value_text ctime fmt p (B_RegEx r opts) =
     (if fmt = Strict then ''{ '' @ quoted_text ''$regex'' @ '' : '' @ quoted_text (escaped_text False r) @ '', '' @
        quoted_text ''$options'' @ '' : '' @ quoted_text opts @ '' }''
      else ''/'' @ escaped_text True r @ ''/'' @ filter (\<lambda>c. c \<in> set ''gim'') opts)"
| "value_text ctime fmt p (B_DBRef ns i) =
     (let ns = takeWhile (\<lambda>c. c \<noteq> nul) ns
      in if fmt = TenGen then ''Dbref( '' @ quoted_text ns @ '', '' @ quoted_text (toHexLower i) @ '' )''
         else ''{ '' @ quoted_text ''$ref'' @ '' : '' @ quoted_text ns @ '', '' @
           quoted_text ''$id'' @ '' : '' @ quoted_text (toHexLower i) @ '' }'')"
| "value_text ctime fmt p (B_Code s) = s"
| "value_text ctime fmt p (B_Symbol s) = quoted_text (escaped_text False s)"
| "value_text ctime fmt p (B_CodeWScope s fs) =
     (if fs = [] then s
      else ''{ '' @ quoted_text ''$code'' @ '' : '' @ s @ '' ,  '' @
        quoted_text ''$scope'' @ '' : '' @ ''{ '' @ members_text ctime Strict 0 fs @ '' }'' @ '' }'')"
| "value_text ctime fmt p (B_Int i) = show_int (sint i)"
| "value_text ctime fmt p (B_Timestamp t) =
     ''{ '' @ quoted_text ''t'' @ '' : '' @ show_nat (unat t div 2 ^ 32 * 1000) @ '' , '' @
     quoted_text ''i'' @ '' : '' @ show_nat (unat t mod 2 ^ 32) @ '' }''"
| "value_text ctime fmt p (B_Long i) = show_int (sint i)"
| "value_text ctime fmt p B_MinKey = ''{ '' @ quoted_text ''$minKey'' @ '' : 1 }''"
| "value_text ctime fmt p B_MaxKey = ''{ '' @ quoted_text ''$maxKey'' @ '' : 1 }''"
| "members_text ctime fmt p [] = []"
| "members_text ctime fmt p ((name, v) # fs) =
     (if v = B_Undefined then []
      else quoted_text (escaped_text False name) @ '' : '' @ value_text ctime fmt (deeper p) v) @
     (if fs = [] then [] else separator p @ members_text ctime fmt p fs)"
| "elements_text ctime fmt p [] = []"
| "elements_text ctime fmt p ((name, v) # fs) =
     (if p \<noteq> 0 then new_line p else []) @ value_text ctime fmt (deeper p) v @
     (if fs = [] then [] else '', '' @ elements_text ctime fmt p fs)"

definition elem_text :: "ctime \<Rightarrow> json_format \<Rightarrow> bool \<Rightarrow> int \<Rightarrow> string \<Rightarrow> bson \<Rightarrow> string" where
  "elem_text ctime fmt names p name v =
     (if v = B_Undefined then []
      else (if names then quoted_text (escaped_text False name) @ '' : '' else []) @ value_text ctime fmt p v)"

text \<open>JSON has no notation for infinities and NaN.\<close>

fun printable :: "bson \<Rightarrow> bool" and all_printable :: "fields \<Rightarrow> bool" where
  "printable (B_Double d) = finite_double d"
| "printable (B_Object fs) = all_printable fs"
| "printable (B_Array fs) = all_printable fs"
| "printable (B_CodeWScope s fs) = all_printable fs"
| "printable _ = True"
| "all_printable [] = True"
| "all_printable ((name, v) # fs) = (printable v \<and> all_printable fs)"

lemma writes_small:
  assumes "length (bb_data b) + length (concat ws) \<le> 2 ^ 28"
  shows "\<exists>b'. run_buf (map sb_write ws) b = Inr b' \<and> bb_data b' = bb_data b @ concat ws"
  using assms
proof (induction ws arbitrary: b)
  case (Cons w ws)
  obtain b1 where b1: "sb_write w b = Inr b1" "bb_data b1 = bb_data b @ w"
    using grow_small [of b w] Cons.prems by (auto simp: sb_write_def)
  show ?case using Cons.IH [of b1] Cons.prems b1 by auto
qed simp

lemma escape_text: "length (escaped_text slash s) \<le> 2 ^ 28 \<Longrightarrow> escape s slash = Inr (escaped_text slash s)"
  using writes_small [of sb_new "concat (map (escape_writes slash) s)"]
  by (auto simp: escape_def escaped_text_def sb_new_def buf_new_def)

section \<open>Printing gives the text\<close>

lemma offset_ptr_app: "length xs = k \<Longrightarrow> offset_ptr (xs @ ys) (int k) = Inr ys"
  by (auto simp: offset_ptr_def)

lemma read_bytes_app: "length xs = k \<Longrightarrow> read_bytes (xs @ ys) (int k) = Inr xs"
  by (auto simp: read_bytes_def)

lemma sized_string_parts:
  assumes "e_value e = Inr (sized_string s @ rest)" and "length s < 2 ^ 30"
  shows "valuestrsize e = Inr (int (length s) + 1)" and "value_at e 4 = Inr (s @ nul # rest)"
    and "e_str e = Inr s"
proof -
  show size: "valuestrsize e = Inr (int (length s) + 1)"
    using assms sint_size [of "length s + 1"]
    by (simp add: valuestrsize_def sized_string_def read32_int32 del: of_nat_Suc of_nat_add)
  have "offset_ptr (int32 (length s + 1) @ s @ nul # rest) (int 4) = Inr (s @ nul # rest)"
    by (rule offset_ptr_app) simp
  then show at: "value_at e 4 = Inr (s @ nul # rest)"
    using assms(1) by (simp add: value_at_def sized_string_def)
  show "e_str e = Inr s" using read_bytes_app [of s "length s" "nul # rest"] by (simp add: e_str_def size at)
qed

lemma le_bytes_mod: "le_bytes k (n mod 256 ^ k) = le_bytes k n"
proof (induction k arbitrary: n)
  case (Suc k)
  have "n mod (256 * 256 ^ k) mod 256 = n mod 256" by (simp add: mod_mod_cancel)
  moreover have "n mod (256 * 256 ^ k) div 256 = n div 256 mod 256 ^ k"
    by (simp add: mod_mult2_eq)
  ultimately show ?case using Suc by simp
qed simp

lemma le_bytes_split: "le_bytes (j + k) n = le_bytes j n @ le_bytes k (n div 256 ^ j)"
  by (induction j arbitrary: n) (simp_all add: div_mult2_eq)

text \<open>The two halves of a time stamp.\<close>

lemma timestamp_parts:
  fixes t :: "64 word"
  defines "lo \<equiv> word_of_nat (unat t mod 2 ^ 32) :: 32 word" and "hi \<equiv> word_of_nat (unat t div 2 ^ 32) :: 32 word"
  shows "le_bytes 8 (unat t) = le_bytes 4 (unat lo) @ le_bytes 4 (unat hi)"
    and "unat lo = unat t mod 2 ^ 32" and "unat (ucast hi * 1000 :: 64 word) = unat t div 2 ^ 32 * 1000"
proof -
  have less: "unat t div 2 ^ 32 < 2 ^ 32" using unsigned_less [of t, where 'a = nat] by (simp add: less_mult_imp_div_less)
  show lo: "unat lo = unat t mod 2 ^ 32" by (simp add: lo_def unsigned_of_nat take_bit_eq_mod)
  have hi: "unat hi = unat t div 2 ^ 32" using less by (simp add: hi_def unsigned_of_nat take_bit_eq_mod)
  show "le_bytes 8 (unat t) = le_bytes 4 (unat lo) @ le_bytes 4 (unat hi)"
    using le_bytes_split [of 4 4 "unat t"] le_bytes_mod [of 4 "unat t"] by (simp add: lo hi)
  have "unat (ucast hi :: 64 word) = unat hi" 
    using unsigned_less [of hi, where 'a = nat] by (simp add: unsigned_ucast_eq take_bit_nat_eq_self)
  then have "unat (ucast hi * 1000 :: 64 word) = unat hi * 1000"
    using less by (simp add: unat_word_ariths hi)
  then show "unat (ucast hi * 1000 :: 64 word) = unat t div 2 ^ 32 * 1000" by (simp add: hi)
qed

lemma scalar_text:
  assumes e: "elem_at e name v" and "printable v" and "length (value_text ctime fmt p v) \<le> 2 ^ 28"
    and "type_of_bson v \<notin> {Undefined, BObject, BArray, CodeWScope}"
  shows "scalar_json ctime fmt p (type_of_bson v) e = Inr (value_text ctime fmt p v)"
proof -
  obtain rest where val: "e_value e = Inr (encode_value v @ rest)" using elem_value [OF e] by blast
  have wf: "wf_bson v" and len: "int (length (encode_value v)) < BSONObjMaxInternalSize"
    using e by (auto simp: elem_at_def)
  show ?thesis
  proof (cases v)
    case (B_Double d)
    then show ?thesis using val assms(2) read_words(2) [of d rest]
      by (simp add: scalar_json_def numberLong_raw_def number_json_def)
  next
    case (B_String s)
    then show ?thesis using val len assms(3) sized_string_parts(3) [of e s rest] escape_text [of False s]
      by (simp add: scalar_json_def sized_string_def quoted_text_def BSONObjMaxInternalSize_def)
  next
    case (B_BinData t s)
    have n: "length s < 2 ^ 31" using len B_BinData by (simp add: BSONObjMaxInternalSize_def)
    then have size: "valuestrsize e = Inr (int (length s))"
      using val B_BinData by (simp add: valuestrsize_def read32_int32 sint_size)
    have "offset_ptr (int32 (length s) @ t # s @ rest) (int 4) = Inr (t # s @ rest)"
      "offset_ptr ((int32 (length s) @ [t]) @ s @ rest) (int 5) = Inr (s @ rest)"
      by (rule offset_ptr_app; simp)+
    then show ?thesis using val B_BinData size read_bytes_app [of s "length s" rest]
      by (simp add: scalar_json_def bindata_json_def value_at_def deref_def)
  next
    case (B_OID s)
    then show ?thesis using val wf read_bytes_app [of s 12 rest] by (simp add: scalar_json_def oid_json_def)
  next
    case (B_Date d)
    then show ?thesis using val read_words(2) [of d rest]
      by (simp add: scalar_json_def date_json_def numberLong_raw_def)
  next
    case (B_RegEx r opts)
    then have n: "nul \<notin> set r" "nul \<notin> set opts" using wf by auto
    have "offset_ptr ((r @ [nul]) @ opts @ nul # rest) (int (Suc (length r))) = Inr (opts @ nul # rest)"
      by (rule offset_ptr_app) simp
    moreover have "length (escaped_text (fmt \<noteq> Strict) r) \<le> 2 ^ 28"
      using assms(3) B_RegEx by (auto simp: quoted_text_def split: if_splits)
    ultimately show ?thesis using val B_RegEx n escape_text [of "fmt \<noteq> Strict" r]
      by (auto simp: scalar_json_def regex_json_def c_string_at_def add.commute)
  next
    case (B_DBRef ns i)
    have i: "length i = 12" using wf B_DBRef by simp
    have "length ns < 2 ^ 30" using len B_DBRef by (simp add: sized_string_def BSONObjMaxInternalSize_def)
    note str = sized_string_parts [OF _ this, of e "i @ rest"]
    have "offset_ptr ((ns @ [nul]) @ i @ rest) (int (Suc (length ns))) = Inr (i @ rest)"
      by (rule offset_ptr_app) simp
    moreover have "c_string_at (ns @ nul # i @ rest) = Inr (takeWhile (\<lambda>c. c \<noteq> nul) ns)"
      by (induction ns) (auto simp: c_string_at_def strlen_def)
    ultimately show ?thesis using val B_DBRef str(1,2) read_bytes_app [OF i, of rest]
      by (auto simp: scalar_json_def dbref_json_def add.commute Let_def)
  next
    case (B_Code s)
    then show ?thesis using val len sized_string_parts(3) [of e s rest]
      by (simp add: scalar_json_def asCode_def sized_string_def BSONObjMaxInternalSize_def)
  next
    case (B_Symbol s)
    then show ?thesis using val len assms(3) sized_string_parts(3) [of e s rest] escape_text [of False s]
      by (simp add: scalar_json_def sized_string_def quoted_text_def BSONObjMaxInternalSize_def)
  next
    case (B_Int i)
    then show ?thesis using val read_words(1) [of i rest]
      by (simp add: scalar_json_def numberInt_raw_def number_json_def double_of_int_finite print_double_int)
  next
    case (B_Timestamp t)
    let ?lo = "word_of_nat (unat t mod 2 ^ 32) :: 32 word" and ?hi = "word_of_nat (unat t div 2 ^ 32) :: 32 word"
    have v: "e_value e = Inr (le_bytes 4 (unat ?lo) @ le_bytes 4 (unat ?hi) @ rest)"
      using val B_Timestamp timestamp_parts(1) [of t] by simp
    have "offset_ptr (le_bytes 4 (unat ?lo) @ le_bytes 4 (unat ?hi) @ rest) (int 4) = Inr (le_bytes 4 (unat ?hi) @ rest)"
      by (rule offset_ptr_app) simp
    then have "value_at e 4 = Inr (le_bytes 4 (unat ?hi) @ rest)" by (simp add: value_at_def v)
    moreover have "numberInt_raw e = Inr ?lo" by (simp only: numberInt_raw_def v read_words bind_result_simps)
    ultimately show ?thesis unfolding B_Timestamp
      by (simp only: scalar_json_def timestamp_json_def read_words bind_result_simps Let_def
          type_of_bson.simps bson_type.case timestamp_parts(2,3) value_text.simps)
  next
    case (B_Long i)
    then show ?thesis using val read_words(2) [of i rest]
      by (simp add: scalar_json_def numberLong_raw_def)
  qed (use val assms(4) in \<open>auto simp: scalar_json_def boolean_def deref_def\<close>)
qed

text \<open>Reading the next element of a document, at its end or before it.\<close>

lemma it_step:
  assumes "it_at it fs"
  obtains r where "it_next checkEnd it = Inr r" and "e_eoo (fst r) = Inr (fs = [])"
    and "\<And>name v fs'. fs = (name, v) # fs' \<Longrightarrow> elem_at (fst r) name v \<and> it_at (snd r) fs'"
proof (cases fs)
  case Nil
  then show thesis using it_at_Nil(3) [of it checkEnd] assms that by (metis eoo_nul(2) fst_conv list.distinct(1))
next
  case (Cons f fs')
  obtain name v where f: "f = (name, v)" by (cases f)
  obtain e it' where "it_next checkEnd it = Inr (e, it')" "elem_at e name v" "it_at it' fs'"
    using it_at_Cons [of it name v fs' checkEnd] assms Cons f by blast
  then show thesis using that [of "(e, it')"] elem_eoo [of e name v] Cons f by simp
qed

lemma elem_text_members:
  "members_text ctime fmt p ((name, v) # fs) =
     elem_text ctime fmt True (deeper p) name v @ (if fs = [] then [] else separator p @ members_text ctime fmt p fs)"
  "elements_text ctime fmt p ((name, v) # fs) =
     (if p \<noteq> 0 then new_line p else []) @ elem_text ctime fmt False (deeper p) name v @
     (if fs = [] then [] else '', '' @ elements_text ctime fmt p fs)"
  by (simp_all add: elem_text_def)

declare members_text.simps(2) [simp del] elements_text.simps(2) [simp del]
declare elem_text_members [simp]

definition prints_all :: "ctime \<Rightarrow> printer \<Rightarrow> json_format \<Rightarrow> bool \<Rightarrow> int \<Rightarrow> fields \<Rightarrow> bool" where
  "prints_all ctime P fmt names p fs \<longleftrightarrow>
     (\<forall>(name, v) \<in> set fs. \<forall>e. elem_at e name v \<longrightarrow> length (elem_text ctime fmt names p name v) \<le> 2 ^ 28 \<longrightarrow>
        P fmt names p e = Some (Inr (elem_text ctime fmt names p name v)))"

lemma prints_all_Cons:
  "prints_all ctime P fmt names p ((name, v) # fs) \<longleftrightarrow>
     (\<forall>e. elem_at e name v \<longrightarrow> length (elem_text ctime fmt names p name v) \<le> 2 ^ 28 \<longrightarrow>
        P fmt names p e = Some (Inr (elem_text ctime fmt names p name v))) \<and> prints_all ctime P fmt names p fs"
  by (simp add: prints_all_def)

lemma separator_writes:
  "concat ('','' # (if pretty \<noteq> 0 then [CHR 0x0A] # replicate (nat pretty) ''  '' else ['' ''])) = separator pretty"
  by (simp add: separator_def new_line_def)

lemma members_json_text:
  assumes "prints_all ctime P fmt True (deeper p) ((name, v) # fs)" and "elem_at e name v" and "it_at it fs"
    and "length fs < n" and "length (bb_data s) + length (members_text ctime fmt p ((name, v) # fs)) \<le> 2 ^ 28"
  shows "\<exists>s'. members_json P n fmt p e it s = Some (Inr s') \<and>
    bb_data s' = bb_data s @ members_text ctime fmt p ((name, v) # fs)"
  using assms
proof (induction n arbitrary: name v fs e it s)
  case (Suc n)
  let ?t = "elem_text ctime fmt True (deeper p) name v"
  have t: "P fmt True (deeper p) e = Some (Inr ?t)" using Suc.prems by (simp add: prints_all_Cons)
  obtain s1 where s1: "sb_write ?t s = Inr s1" "bb_data s1 = bb_data s @ ?t"
    using grow_small [of s ?t] Suc.prems(5) by (auto simp: sb_write_def)
  obtain r where r: "it_next False it = Inr r" "e_eoo (fst r) = Inr (fs = [])"
    "\<And>name v fs'. fs = (name, v) # fs' \<Longrightarrow> elem_at (fst r) name v \<and> it_at (snd r) fs'"
    using it_step [OF Suc.prems(3)] by blast
  show ?case
  proof (cases fs)
    case Nil
    then show ?thesis using t s1 r by simp
  next
    case (Cons f fs')
    obtain name' v' where f: "f = (name', v')" by (cases f)
    let ?ws = "'','' # (if p \<noteq> 0 then [CHR 0x0A] # replicate (nat p) ''  '' else ['' ''])"
    obtain s2 where s2: "run_buf (map sb_write ?ws) s1 = Inr s2" "bb_data s2 = bb_data s1 @ separator p"
      using writes_small [of s1 ?ws] Suc.prems(5) s1(2) Cons unfolding separator_writes by auto
    have "\<exists>s'. members_json P n fmt p (fst r) (snd r) s2 = Some (Inr s') \<and>
        bb_data s' = bb_data s2 @ members_text ctime fmt p ((name', v') # fs')"
      using Suc.prems r(3) Cons f s1(2) s2(2) by (intro Suc.IH) (auto simp: prints_all_Cons)
    then show ?thesis using t s1 r s2 Cons f by auto
  qed
qed simp

lemma array_json_text:
  assumes "prints_all ctime P fmt False (deeper p) ((name, v) # fs)" and "elem_at e name v" and "it_at it fs"
    and "length fs < n" and "length (elements_text ctime fmt p ((name, v) # fs)) \<le> 2 ^ 28"
  shows "array_json P n fmt p e it = Some (Inr (elements_text ctime fmt p ((name, v) # fs)))"
  using assms
proof (induction n arbitrary: name v fs e it)
  case (Suc n)
  have t: "P fmt False (deeper p) e = Some (Inr (elem_text ctime fmt False (deeper p) name v))"
    using Suc.prems by (simp add: prints_all_Cons)
  obtain r where r: "it_next False it = Inr r" "e_eoo (fst r) = Inr (fs = [])"
    "\<And>name v fs'. fs = (name, v) # fs' \<Longrightarrow> elem_at (fst r) name v \<and> it_at (snd r) fs'"
    using it_step [OF Suc.prems(3)] by blast
  show ?case
  proof (cases fs)
    case (Cons f fs')
    obtain name' v' where f: "f = (name', v')" by (cases f)
    have "array_json P n fmt p (fst r) (snd r) = Some (Inr (elements_text ctime fmt p ((name', v') # fs')))"
      using Suc.prems r(3) Cons f by (intro Suc.IH) (auto simp: prints_all_Cons)
    then show ?thesis using t r Cons f by (simp add: Let_def)
  qed (use t r in simp)
qed simp

lemma obj_at_empty: "obj_at p fs \<Longrightarrow> obj_isEmpty p = Inr (fs = [])"
  using obj_at_size [of p fs]
  by (cases fs; cases "hd fs") (auto simp: obj_isEmpty_def encode_doc_def doc_of_def field_of_def)

lemma object_json_text:
  assumes "obj_at obj fs" and "prints_all ctime P fmt True (deeper p) fs" and "length fs \<le> n"
    and "length (value_text ctime fmt p (B_Object fs)) \<le> 2 ^ 28"
  shows "object_json P n fmt p obj = Some (Inr (value_text ctime fmt p (B_Object fs)))"
proof (cases fs)
  case Nil
  then show ?thesis using obj_at_empty [OF assms(1)] by (simp add: object_json_def)
next
  case (Cons f fs')
  obtain name v where f: "f = (name, v)" by (cases f)
  obtain it where it: "iterator_new obj = Inr it" "it_at it fs" using obj_at_iterator [OF assms(1)] by blast
  obtain r where r: "it_next False it = Inr r" "e_eoo (fst r) = Inr (fs = [])"
    "elem_at (fst r) name v" "it_at (snd r) fs'"
    using it_step [OF it(2)] Cons f by metis
  obtain s where s: "sb_write ''{ '' sb_new = Inr s" "bb_data s = ''{ ''"
    using grow_small [of sb_new "''{ ''"] by (auto simp: sb_write_def sb_new_def buf_new_def)
  obtain s1 where s1: "members_json P n fmt p (fst r) (snd r) s = Some (Inr s1)"
    "bb_data s1 = ''{ '' @ members_text ctime fmt p fs"
    using members_json_text [OF _ r(3,4), of ctime P fmt p n s] assms(2-4) Cons f s(2) by auto
  obtain s2 where "sb_write '' }'' s1 = Inr s2" "bb_data s2 = ''{ '' @ members_text ctime fmt p fs @ '' }''"
    using grow_small [of s1 "'' }''"] assms(4) Cons s1(2) by (auto simp: sb_write_def)
  then show ?thesis using obj_at_empty [OF assms(1)] it r s s1 Cons by (simp add: object_json_def)
qed

lemma array_text_text:
  assumes "obj_at arr fs" and "prints_all ctime P fmt False (deeper p) fs" and "length fs \<le> n"
    and "length (value_text ctime fmt p (B_Array fs)) \<le> 2 ^ 28"
  shows "array_text P n fmt p arr = Some (Inr (value_text ctime fmt p (B_Array fs)))"
proof (cases fs)
  case Nil
  then show ?thesis using obj_at_empty [OF assms(1)] by (simp add: array_text_def)
next
  case (Cons f fs')
  obtain name v where f: "f = (name, v)" by (cases f)
  obtain it where it: "iterator_new arr = Inr it" "it_at it fs" using obj_at_iterator [OF assms(1)] by blast
  obtain r where r: "it_next False it = Inr r" "e_eoo (fst r) = Inr (fs = [])"
    "elem_at (fst r) name v" "it_at (snd r) fs'"
    using it_step [OF it(2)] Cons f by metis
  have "array_json P n fmt p (fst r) (snd r) = Some (Inr (elements_text ctime fmt p fs))"
    using array_json_text [OF _ r(3,4), of ctime P fmt p n] assms(2-4) Cons f by simp
  then show ?thesis using obj_at_empty [OF assms(1)] it r Cons by (simp add: array_text_def)
qed

lemma fields_bytes:
  assumes "(name, v) \<in> set fs"
  shows "length (encode_value v) < length (encode_fields fs)"
  using assms by (induction fs) (auto simp: field_of_def)

lemma fields_count: "length fs \<le> length (encode_fields fs)"
  by (induction fs) (auto simp: field_of_def)

lemma scope_code:
  assumes "elem_at e name (B_CodeWScope s fs)"
  shows "asCode CodeWScope e = Inr s"
proof -
  let ?doc = "doc_of (encode_fields fs)"
  obtain rest where val: "e_value e = Inr (encode_value (B_CodeWScope s fs) @ rest)" using elem_value [OF assms] by blast
  let ?n = "4 + length (sized_string s @ ?doc)"
  have len: "length s + 1 < 2 ^ 31"
    using assms by (auto simp: elem_at_def BSONObjMaxInternalSize_def sized_string_def Let_def)
  have "offset_ptr (int32 ?n @ sized_string s @ ?doc @ rest) (int 4) = Inr (sized_string s @ ?doc @ rest)"
    "offset_ptr ((int32 ?n @ int32 (length s + 1)) @ s @ nul # ?doc @ rest) (int 8) = Inr (s @ nul # ?doc @ rest)"
    by (rule offset_ptr_app; simp)+
  then have at: "value_at e 4 = Inr (sized_string s @ ?doc @ rest)" "value_at e 8 = Inr (s @ nul # ?doc @ rest)"
    by (simp_all add: value_at_def val Let_def sized_string_def)
  have "read32 (sized_string s @ ?doc @ rest) = Inr (word_of_nat (length s + 1))"
    using len read32_int32 by (simp add: sized_string_def del: of_nat_Suc)
  moreover have "sint (word_of_nat (length s + 1) :: 32 word) - 1 = int (length s)"
    "\<not> sint (word_of_nat (length s + 1) :: 32 word) < 1"
    unfolding sint_size [OF len] by simp_all
  ultimately show ?thesis
    using at read_bytes_app [of s "length s"] by (simp add: asCode_def del: of_nat_Suc of_nat_add)
qed

lemma name_json_text:
  assumes "elem_at e name v" and "length (elem_text ctime fmt names p name v) \<le> 2 ^ 28" and "v \<noteq> B_Undefined"
  shows "name_json names e = Inr (if names then quoted_text (escaped_text False name) @ '' : '' else [])"
  using assms elem_name [OF assms(1)] escape_text [of False name]
  by (auto simp: name_json_def elem_text_def quoted_text_def)

lemma prints_fields:
  assumes IH: "\<And>e name v fmt names p. elem_at e name v \<Longrightarrow> printable v \<Longrightarrow>
      length (elem_text ctime fmt names p name v) \<le> 2 ^ 28 \<Longrightarrow> length (encode_value v) < n \<Longrightarrow>
      elem_json ctime n fmt names p e = Some (Inr (elem_text ctime fmt names p name v))"
    and "all_printable fs" and "length (encode_fields fs) \<le> n"
  shows "prints_all ctime (elem_json ctime n) fmt names p fs"
proof -
  have "printable v" if "(name, v) \<in> set fs" for name v
    using that assms(2) by (induction fs) auto
  then show ?thesis
    using IH assms(3) fields_bytes [of _ _ fs] by (fastforce simp: prints_all_def)
qed

lemma elem_json_text:
  assumes "elem_at e name v" and "printable v" and "length (elem_text ctime fmt names p name v) \<le> 2 ^ 28"
    and "length (encode_value v) < n"
  shows "elem_json ctime n fmt names p e = Some (Inr (elem_text ctime fmt names p name v))"
  using assms
proof (induction n arbitrary: e name v fmt names p)
  case (Suc n)
  note type = elem_type [OF Suc.prems(1)]
  have body: "length (value_text ctime fmt p v) \<le> 2 ^ 28" if "v \<noteq> B_Undefined"
    using Suc.prems(3) that by (simp add: elem_text_def)
  note name = name_json_text [OF Suc.prems(1,3)] and all = prints_fields [OF Suc.IH]
  show ?case
  proof (cases v)
    case (B_Object fs)
    obtain sub where "embeddedObject e = Inr sub" "obj_at sub fs" using embedded_at Suc.prems(1) B_Object by blast
    moreover from this(2) have "object_json (elem_json ctime n) n fmt p sub = Some (Inr (value_text ctime fmt p v))"
      unfolding B_Object
      using Suc.prems body B_Object fields_count [of fs]
      by (intro object_json_text all) (auto simp: doc_of_def)
    ultimately show ?thesis using type name B_Object by (simp add: elem_text_def)
  next
    case (B_Array fs)
    obtain sub where "embeddedObject e = Inr sub" "obj_at sub fs" using embedded_at Suc.prems(1) B_Array by blast
    moreover from this(2) have "array_text (elem_json ctime n) n fmt p sub = Some (Inr (value_text ctime fmt p v))"
      unfolding B_Array
      using Suc.prems body B_Array fields_count [of fs]
      by (intro array_text_text all) (auto simp: doc_of_def)
    ultimately show ?thesis using type name B_Array by (simp add: elem_text_def)
  next
    case (B_CodeWScope s fs)
    obtain sub where sub: "codeWScopeObject e = Inr sub" "obj_at sub fs" using scope_at Suc.prems(1) B_CodeWScope by blast
    have "object_json (elem_json ctime n) n Strict 0 sub = Some (Inr (value_text ctime Strict 0 (B_Object fs)))" if "fs \<noteq> []"
      using Suc.prems body B_CodeWScope that fields_count [of fs] sub(2)
      by (intro object_json_text all) (auto simp: doc_of_def Let_def)
    then have "scope_json (elem_json ctime n) n e = Some (Inr (value_text ctime fmt p v))"
      using sub obj_at_empty [OF sub(2)] scope_code [of e] Suc.prems(1) B_CodeWScope
      by (auto simp: scope_json_def)
    then show ?thesis using type name B_CodeWScope by (simp add: elem_text_def)
  next
    case B_Undefined
    then show ?thesis using type by (simp add: elem_text_def)
  qed (use scalar_text [OF Suc.prems(1,2) body] type name in \<open>simp add: elem_text_def\<close>)+
qed simp

lemma obj_json_text:
  assumes "obj_at obj fs" and "all_printable fs" and "length (value_text ctime fmt p (B_Object fs)) \<le> 2 ^ 28"
    and "length (encode_fields fs) \<le> n"
  shows "obj_json ctime n fmt p obj = Some (Inr (value_text ctime fmt p (B_Object fs)))"
  unfolding obj_json_def
  using assms fields_count [of fs] by (intro object_json_text prints_fields elem_json_text) auto

text \<open>A BinData subtype of 0x80 and above is printed with the sign bits of the \<^verbatim>\<open>char\<close>, in eight digits.\<close>

lemma custom_subtype_text: "subtype_text (CHR 0x80) = ''ffffff80''"
proof -
  have "unat (scast (byte (CHR 0x80)) :: 32 word) = 0xFFFFFF80" by (simp add: byte_def)
  then show ?thesis by (simp add: subtype_text_def)
qed

text \<open>Infinities and NaN are refused, with the value in the message.\<close>

lemma nonfinite_refused:
  assumes "elem_at e name (B_Double d)" and "\<not> finite_double d"
  shows "elem_json ctime 1 fmt False p e =
    Some (Inl (Runtime_Error (''Number '' @ nonfinite_text d @ '' cannot be represented in JSON'')))"
proof -
  obtain rest where "e_value e = Inr (encode_value (B_Double d) @ rest)" using elem_value [OF assms(1)] by blast
  then have "numberLong_raw e = Inr d" using read_words(2) [of d rest] by (simp add: numberLong_raw_def)
  then show ?thesis
    using elem_type [OF assms(1)] assms(2) by (simp add: name_json_def scalar_json_def number_json_def Let_def)
qed



end
