(* ===== verification/Spirit_Classic.thy ===== *)
theory Spirit_Classic
  imports Spirit
begin

text \<open>
  The interface to Boost.Spirit Classic, the parser library behind \<^verbatim>\<open>db/json.cpp\<close> of the MongoDB
  library. As for Qi, a grammar is data, one constructor per operator the source uses, and
  \<^verbatim>\<open>parse\<close> is an argument of the definition that calls it; the locale \<open>classic_spec\<close> states its
  documented behaviour as the evaluation \<open>cl_eval\<close>.

  There are no attributes: a semantic action is called with the text its parser matched (after
  the white space before it) and changes a state that the whole parse shares. A failing
  alternative moves the input back but not the state. An action may throw, which ends the
  parse. \<^verbatim>\<open>a & b\<close> matches when both match the same text; strings and numbers are matched
  without skipping inside.
\<close>

datatype ('r, 's) classic =
    Ch_p "char \<Rightarrow> bool"
  | Str_p string
  | Num_p "string \<Rightarrow> (('s \<Rightarrow> 's result) \<times> string) option"
  | Lexeme_d "('r, 's) classic"
  | Then_p "('r, 's) classic" "('r, 's) classic"
  | Or_p "('r, 's) classic" "('r, 's) classic"
  | And_p "('r, 's) classic" "('r, 's) classic"
  | Opt_p "('r, 's) classic"
  | Star_p "('r, 's) classic"
  | Rule_p 'r
  | Act_p "('r, 's) classic" "string \<Rightarrow> 's \<Rightarrow> 's result"

definition list_p :: "('r, 's) classic \<Rightarrow> ('r, 's) classic \<Rightarrow> ('r, 's) classic" where
  "list_p a b = Then_p a (Star_p (Then_p b a))"

fun repeat_p :: "nat \<Rightarrow> ('r, 's) classic \<Rightarrow> ('r, 's) classic" where
  "repeat_p (Suc (Suc n)) a = Then_p a (repeat_p (Suc n) a)"
| "repeat_p n a = a"

text \<open>\<^verbatim>\<open>a >> b >> c\<close> and \<^verbatim>\<open>a | b | c\<close>; both operators are associative.\<close>

fun sequence_p :: "('r, 's) classic list \<Rightarrow> ('r, 's) classic" where
  "sequence_p (a # b # es) = Then_p a (sequence_p (b # es))"
| "sequence_p [a] = a"
| "sequence_p [] = Opt_p (Str_p [])"

fun choice_p :: "('r, 's) classic list \<Rightarrow> ('r, 's) classic" where
  "choice_p (a # b # es) = Or_p a (choice_p (b # es))"
| "choice_p [a] = a"
| "choice_p [] = Ch_p (\<lambda>c. False)"

type_synonym ('r, 's) rules = "'r \<Rightarrow> ('r, 's) classic"

datatype 's matching =
    Match 's string
  | No_Match 's
  | Thrown fault

definition if_match :: "'s matching option \<Rightarrow> ('s \<Rightarrow> string \<Rightarrow> 's matching option) \<Rightarrow> 's matching option" where
  "if_match m k = Option.bind m (\<lambda>r. case r of Match st s \<Rightarrow> k st s | _ \<Rightarrow> Some r)"

definition if_no_match :: "'s matching option \<Rightarrow> ('s \<Rightarrow> 's matching option) \<Rightarrow> 's matching option" where
  "if_no_match m k = Option.bind m (\<lambda>r. case r of No_Match st \<Rightarrow> k st | _ \<Rightarrow> Some r)"

fun acted :: "'s result \<Rightarrow> string \<Rightarrow> 's matching" where
  "acted (Inl err) s = Thrown err"
| "acted (Inr st) s = Match st s"

text \<open>The text between two positions.\<close>

definition between :: "string \<Rightarrow> string \<Rightarrow> string" where
  "between s t = take (length s - length t) s"

definition cl_step ::
  "(bool \<Rightarrow> ('r, 's) classic \<Rightarrow> 's \<Rightarrow> string \<Rightarrow> 's matching option) \<Rightarrow> ('r, 's) rules \<Rightarrow> bool \<Rightarrow>
   ('r, 's) classic \<Rightarrow> 's \<Rightarrow> string \<Rightarrow> 's matching option" where
  "cl_step ev G sk e st s =
     (case e of
        Ch_p P \<Rightarrow>
          Some (case pre_skip sk s of [] \<Rightarrow> No_Match st | c # t \<Rightarrow> if P c then Match st t else No_Match st)
      | Str_p w \<Rightarrow>
          Some (case strip_prefix w (pre_skip sk s) of None \<Rightarrow> No_Match st | Some t \<Rightarrow> Match st t)
      | Num_p f \<Rightarrow>
          Some (case f (pre_skip sk s) of None \<Rightarrow> No_Match st | Some at \<Rightarrow> acted (fst at st) (snd at))
      | Lexeme_d a \<Rightarrow> ev False a st (pre_skip sk s)
      | Then_p a b \<Rightarrow> if_match (ev sk a st s) (\<lambda>st1 s1. ev sk b st1 s1)
      | Or_p a b \<Rightarrow> if_no_match (ev sk a st s) (\<lambda>st1. ev sk b st1 s)
      | And_p a b \<Rightarrow>
          if_match (ev sk a st s) (\<lambda>st1 s1. if_match (ev sk b st1 s) (\<lambda>st2 s2.
            Some (if s1 = s2 then Match st2 s2 else No_Match st2)))
      | Opt_p a \<Rightarrow> if_no_match (ev sk a st s) (\<lambda>st1. Some (Match st1 s))
      | Star_p a \<Rightarrow>
          if_no_match (if_match (ev sk a st s) (\<lambda>st1 s1. ev sk (Star_p a) st1 s1)) (\<lambda>st1. Some (Match st1 s))
      | Rule_p r \<Rightarrow> ev sk (G r) st s
      | Act_p a f \<Rightarrow>
          if_match (ev sk a st s) (\<lambda>st1 s1. Some (acted (f (between (pre_skip sk s) s1) st1) s1)))"

primrec cl_eval ::
  "nat \<Rightarrow> ('r, 's) rules \<Rightarrow> bool \<Rightarrow> ('r, 's) classic \<Rightarrow> 's \<Rightarrow> string \<Rightarrow> 's matching option" where
  "cl_eval 0 G = (\<lambda>sk e st s. None)"
| "cl_eval (Suc n) G = cl_step (cl_eval n G) G"

definition gives ::
  "('r, 's) rules \<Rightarrow> bool \<Rightarrow> ('r, 's) classic \<Rightarrow> 's \<Rightarrow> string \<Rightarrow> 's matching \<Rightarrow> bool" where
  "gives G sk e st s r \<longleftrightarrow> (\<exists>n. cl_eval n G sk e st s = Some r)"

section \<open>How the evaluation composes\<close>

lemma if_match_simps [simp]:
  "if_match None k = None"
  "if_match (Some (Match st s)) k = k st s"
  "if_match (Some (No_Match st)) k = Some (No_Match st)"
  "if_match (Some (Thrown err)) k = Some (Thrown err)"
  by (simp_all add: if_match_def)

lemma if_no_match_simps [simp]:
  "if_no_match None k' = None"
  "if_no_match (Some (Match st s)) k' = Some (Match st s)"
  "if_no_match (Some (No_Match st)) k' = k' st"
  "if_no_match (Some (Thrown err)) k' = Some (Thrown err)"
  by (simp_all add: if_no_match_def)

lemma if_match_grows:
  "if_match m k = Some r \<Longrightarrow> (\<And>p. m = Some p \<Longrightarrow> m' = Some p) \<Longrightarrow>
   (\<And>st s p. k st s = Some p \<Longrightarrow> k' st s = Some p) \<Longrightarrow> if_match m' k' = Some r"
  by (cases m) (auto simp: if_match_def split: matching.splits)

lemma if_no_match_grows:
  "if_no_match m k = Some r \<Longrightarrow> (\<And>p. m = Some p \<Longrightarrow> m' = Some p) \<Longrightarrow>
   (\<And>st p. k st = Some p \<Longrightarrow> k' st = Some p) \<Longrightarrow> if_no_match m' k' = Some r"
  by (cases m) (auto simp: if_no_match_def split: matching.splits)

lemma cl_step_grows:
  assumes "\<And>sk e st s p. ev sk e st s = Some p \<Longrightarrow> ev' sk e st s = Some p"
  shows "cl_step ev G sk e st s = Some r \<Longrightarrow> cl_step ev' G sk e st s = Some r"
  by (cases e) (auto simp: cl_step_def intro!: assms elim!: if_match_grows if_no_match_grows)

lemma cl_eval_Suc: "cl_eval n G sk e st s = Some r \<Longrightarrow> cl_eval (Suc n) G sk e st s = Some r"
proof (induction n arbitrary: sk e st s r)
  case (Suc n)
  from cl_step_grows [of "cl_eval n G" "cl_eval (Suc n) G", OF Suc.IH] Suc.prems show ?case
    by (simp only: cl_eval.simps(2))
qed simp

lemma cl_eval_mono:
  assumes "cl_eval n G sk e st s = Some r" and "n \<le> k"
  shows "cl_eval k G sk e st s = Some r"
  using assms(2) by (induction rule: dec_induct) (simp_all only: assms(1) cl_eval_Suc)

lemma givesI: "cl_step (cl_eval n G) G sk e st s = Some r \<Longrightarrow> gives G sk e st s r"
  unfolding gives_def by (rule exI [of _ "Suc n"]) (simp only: cl_eval.simps(2))

lemma gives_both:
  assumes "gives G sk e st s r" and "gives G sk' e' st' s' r'"
  obtains n where "cl_eval n G sk e st s = Some r" and "cl_eval n G sk' e' st' s' = Some r'"
proof -
  from assms obtain i j where "cl_eval i G sk e st s = Some r" "cl_eval j G sk' e' st' s' = Some r'"
    by (auto simp: gives_def)
  then show thesis
    by (intro that [of "max i j"]) (erule cl_eval_mono [OF _ max.cobounded1], erule cl_eval_mono [OF _ max.cobounded2])
qed

lemma gives_one:
  assumes "gives G sk' a st' s' p"
    and "\<And>n. cl_eval n G sk' a st' s' = Some p \<Longrightarrow> cl_step (cl_eval n G) G sk e st s = Some q"
  shows "gives G sk e st s q"
proof -
  from assms(1) obtain n where "cl_eval n G sk' a st' s' = Some p" by (auto simp: gives_def)
  from givesI [OF assms(2) [OF this]] show ?thesis .
qed

lemma gives_two:
  assumes "gives G sk' a st' s' p" and "gives G sk'' b st'' s'' p'"
    and "\<And>n. cl_eval n G sk' a st' s' = Some p \<Longrightarrow> cl_eval n G sk'' b st'' s'' = Some p' \<Longrightarrow>
      cl_step (cl_eval n G) G sk e st s = Some q"
  shows "gives G sk e st s q"
proof -
  obtain n where "cl_eval n G sk' a st' s' = Some p" "cl_eval n G sk'' b st'' s'' = Some p'"
    using assms(1,2) by (rule gives_both)
  from givesI [OF assms(3) [OF this]] show ?thesis .
qed

lemma gives_Ch:
  "pre_skip sk s = c # t \<Longrightarrow> P c \<Longrightarrow> gives G sk (Ch_p P) st s (Match st t)"
  by (rule givesI) (simp add: cl_step_def)

lemma gives_Ch_none:
  "(\<And>c t. pre_skip sk s = c # t \<Longrightarrow> \<not> P c) \<Longrightarrow> gives G sk (Ch_p P) st s (No_Match st)"
  by (rule givesI) (auto simp: cl_step_def split: list.splits)

lemma gives_Str: "strip_prefix w (pre_skip sk s) = Some t \<Longrightarrow> gives G sk (Str_p w) st s (Match st t)"
  by (rule givesI) (simp add: cl_step_def)

lemma gives_Str_none: "strip_prefix w (pre_skip sk s) = None \<Longrightarrow> gives G sk (Str_p w) st s (No_Match st)"
  by (rule givesI) (simp add: cl_step_def)

lemma gives_Num: "f (pre_skip sk s) = Some (act, t) \<Longrightarrow> act st = Inr st' \<Longrightarrow> gives G sk (Num_p f) st s (Match st' t)"
  by (rule givesI) (simp add: cl_step_def)

lemma gives_Num_none: "f (pre_skip sk s) = None \<Longrightarrow> gives G sk (Num_p f) st s (No_Match st)"
  by (rule givesI) (simp add: cl_step_def)

lemma gives_Lexeme: "gives G False a st (pre_skip sk s) r \<Longrightarrow> gives G sk (Lexeme_d a) st s r"
  by (erule gives_one) (simp add: cl_step_def)

lemma gives_Then:
  "gives G sk a st s (Match st1 s1) \<Longrightarrow> gives G sk b st1 s1 r \<Longrightarrow> gives G sk (Then_p a b) st s r"
  by (erule (1) gives_two) (simp add: cl_step_def)

lemma gives_Then_none: "gives G sk a st s (No_Match st1) \<Longrightarrow> gives G sk (Then_p a b) st s (No_Match st1)"
  by (erule gives_one) (simp add: cl_step_def)

lemma gives_Or1: "gives G sk a st s (Match st1 s1) \<Longrightarrow> gives G sk (Or_p a b) st s (Match st1 s1)"
  by (erule gives_one) (simp add: cl_step_def)

lemma gives_Or2:
  "gives G sk a st s (No_Match st1) \<Longrightarrow> gives G sk b st1 s r \<Longrightarrow> gives G sk (Or_p a b) st s r"
  by (erule (1) gives_two) (simp add: cl_step_def)

lemma gives_And:
  "gives G sk a st s (Match st1 s1) \<Longrightarrow> gives G sk b st1 s (Match st2 s1) \<Longrightarrow>
   gives G sk (And_p a b) st s (Match st2 s1)"
  by (erule (1) gives_two) (simp add: cl_step_def)

lemma gives_And_none1: "gives G sk a st s (No_Match st1) \<Longrightarrow> gives G sk (And_p a b) st s (No_Match st1)"
  by (erule gives_one) (simp add: cl_step_def)

lemma gives_And_none2:
  "gives G sk a st s (Match st1 s1) \<Longrightarrow> gives G sk b st1 s (No_Match st2) \<Longrightarrow>
   gives G sk (And_p a b) st s (No_Match st2)"
  by (erule (1) gives_two) (simp add: cl_step_def)

lemma gives_Opt: "gives G sk a st s (Match st1 s1) \<Longrightarrow> gives G sk (Opt_p a) st s (Match st1 s1)"
  by (erule gives_one) (simp add: cl_step_def)

lemma gives_Opt_none: "gives G sk a st s (No_Match st1) \<Longrightarrow> gives G sk (Opt_p a) st s (Match st1 s)"
  by (erule gives_one) (simp add: cl_step_def)

lemma gives_Star_stop: "gives G sk a st s (No_Match st1) \<Longrightarrow> gives G sk (Star_p a) st s (Match st1 s)"
  by (erule gives_one) (simp add: cl_step_def)

lemma gives_Star_step:
  "gives G sk a st s (Match st1 s1) \<Longrightarrow> gives G sk (Star_p a) st1 s1 (Match st2 s2) \<Longrightarrow>
   gives G sk (Star_p a) st s (Match st2 s2)"
  by (erule (1) gives_two) (simp add: cl_step_def)

lemma gives_Rule: "gives G sk (G r) st s p \<Longrightarrow> gives G sk (Rule_p r) st s p"
  by (erule gives_one) (simp add: cl_step_def)

lemma gives_Act:
  "gives G sk a st s (Match st1 s1) \<Longrightarrow> f (between (pre_skip sk s) s1) st1 = Inr st2 \<Longrightarrow>
   gives G sk (Act_p a f) st s (Match st2 s1)"
  by (erule gives_one) (simp add: cl_step_def)

lemma gives_Act_none: "gives G sk a st s (No_Match st1) \<Longrightarrow> gives G sk (Act_p a f) st s (No_Match st1)"
  by (erule gives_one) (simp add: cl_step_def)

lemma gives_Act_thrown:
  "gives G sk a st s (Match st1 s1) \<Longrightarrow> f (between (pre_skip sk s) s1) st1 = Inl err \<Longrightarrow>
   gives G sk (Act_p a f) st s (Thrown err)"
  by (erule gives_one) (simp add: cl_step_def)

lemma between_app [simp]: "between (s @ t) t = s"
  by (simp add: between_def)

lemma between_Cons [simp]: "between (c # t) t = [c]"
  by (simp add: between_def Suc_diff_le)

section \<open>The interface\<close>

text \<open>
  \<^verbatim>\<open>parse(str, parser, space_p)\<close>: \<^verbatim>\<open>full\<close>, the text from \<^verbatim>\<open>stop\<close> on, and the state. What \<^verbatim>\<open>stop\<close> is when
  nothing matched is left open.
\<close>

type_synonym ('r, 's) classic_parser =
  "('r, 's) rules \<Rightarrow> 'r \<Rightarrow> string \<Rightarrow> 's \<Rightarrow> (bool \<times> string \<times> 's) result"

locale classic_spec =
  fixes parse :: "('r, 's) classic_parser"
  assumes parse_full: "gives G True (Rule_p r) st s (Match st' []) \<Longrightarrow> parse G r s st = Inr (True, [], st')"
    and parse_stop: "gives G True (Rule_p r) st s (Match st' (c # t)) \<Longrightarrow> \<not> ascii_space c \<Longrightarrow>
      parse G r s st = Inr (False, c # t, st')"
    and parse_no_match: "gives G True (Rule_p r) st s (No_Match st') \<Longrightarrow>
      \<exists>stop. parse G r s st = Inr (False, stop, st')"
    and parse_thrown: "gives G True (Rule_p r) st s (Thrown err) \<Longrightarrow> parse G r s st = Inl err"

text \<open>An executable instance.\<close>

partial_function (option) cl_search :: "nat \<Rightarrow> ('r, 's) rules \<Rightarrow> 'r \<Rightarrow> string \<Rightarrow> 's \<Rightarrow> 's matching option" where
  "cl_search n G r s st =
     (case cl_eval n G True (Rule_p r) st s of Some p \<Rightarrow> Some p | None \<Rightarrow> cl_search (Suc n) G r s st)"

declare cl_search.simps [code]

definition classic_parse_ref :: "('r, 's) classic_parser" where
  "classic_parse_ref G r s st =
     (case cl_search 0 G r s st of
        None \<Rightarrow> Inl Terminate
      | Some p \<Rightarrow>
          (case p of
             Match st' t \<Rightarrow> Inr (pre_skip True t = [], pre_skip True t, st')
           | No_Match st' \<Rightarrow> Inr (False, s, st')
           | Thrown err \<Rightarrow> Inl err))"

lemma cl_search_finds:
  assumes "cl_eval k G True (Rule_p r) st s = Some p" and "n \<le> k"
  shows "cl_search n G r s st = Some p"
  using assms(2)
proof (induction rule: inc_induct)
  case base
  with assms(1) show ?case by (subst cl_search.simps) simp
next
  case (step n)
  then show ?case using cl_eval_mono [of n G True "Rule_p r" st s _ k] assms(1)
    by (subst cl_search.simps) (fastforce split: option.splits)
qed

lemma gives_found: "gives G True (Rule_p r) st s p \<Longrightarrow> cl_search 0 G r s st = Some p"
  using cl_search_finds [of _ G r st s p 0] by (auto simp: gives_def)

interpretation classic_ref: classic_spec classic_parse_ref
  by unfold_locales (auto simp: classic_parse_ref_def pre_skip_def dest!: gives_found)

end
