(* ===== verification/Bson_Fromjson.thy ===== *)
theory Bson_Fromjson
  imports Bson_Json Spirit_Classic
begin

text \<open>
  JSON text to documents: \<^verbatim>\<open>db/json.cpp\<close>. \<^verbatim>\<open>ObjectBuilder\<close> is the state that the semantic actions of
  the grammar change: a stack of builders that all write to the buffer of the lowest one, the
  name and the index of the element each of them is at, and the parts of a value read so far.
  The actions of a failed alternative are not undone. Spirit Classic and its number parsers are
  parameters.
\<close>

section \<open>ObjectBuilder\<close>

text \<open>The vectors are lists with \<^verbatim>\<open>back()\<close> first; \<^verbatim>\<open>back()\<close> of an empty one is a fault.\<close>

record object_builder =
  jb_buf :: buf_builder
  jb_builders :: "obj_builder list"
  jb_names :: "string list"
  jb_indexes :: "32 word list"
  jb_ss :: string
  jb_ns :: string
  jb_oid :: string
  jb_binData :: string
  jb_binDataType :: char
  jb_regex :: string
  jb_regexOptions :: string
  jb_date :: "64 word"

text \<open>
  \<^verbatim>\<open>oid\<close>, \<^verbatim>\<open>binDataType\<close> and \<^verbatim>\<open>date\<close> are not initialised; an action that reads them follows one that sets
  them.
\<close>

definition jb_new :: object_builder where
  "jb_new = \<lparr>jb_buf = buf_new 512, jb_builders = [], jb_names = [], jb_indexes = [], jb_ss = [], jb_ns = [],
     jb_oid = replicate 12 nul, jb_binData = [], jb_binDataType = nul, jb_regex = [], jb_regexOptions = [], jb_date = 0\<rparr>"

definition jb_fieldName :: "object_builder \<Rightarrow> string result" where
  "jb_fieldName b =
     (case jb_names b of [] \<Rightarrow> Inl Out_Of_Bounds | name # _ \<Rightarrow> Inr (takeWhile (\<lambda>c. c \<noteq> nul) name))"

text \<open>\<^verbatim>\<open>b.back()->append...( b.fieldName(), ... )\<close>\<close>

definition to_back :: "(string \<Rightarrow> buf_builder \<Rightarrow> buf_builder result) \<Rightarrow> object_builder \<Rightarrow> object_builder result" where
  "to_back f b =
     (if jb_builders b = [] then Inl Out_Of_Bounds
      else bind_result (jb_fieldName b) (\<lambda>name. bind_result (f name (jb_buf b)) (\<lambda>buf. Inr (b\<lparr>jb_buf := buf\<rparr>))))"

definition push_builder :: "obj_builder \<times> buf_builder \<Rightarrow> object_builder \<Rightarrow> object_builder" where
  "push_builder r b =
     b\<lparr>jb_buf := snd r, jb_builders := fst r # jb_builders b, jb_names := [] # jb_names b,
       jb_indexes := 0 # jb_indexes b\<rparr>"

definition jb_init :: "object_builder \<Rightarrow> object_builder result" where
  "jb_init b = bind_result builder_new (\<lambda>r. Inr (push_builder r b))"

definition pushObject :: "string \<Rightarrow> object_builder \<Rightarrow> object_builder result" where
  "pushObject name b =
     (if jb_builders b = [] then Inl Out_Of_Bounds
      else bind_result (subobjStart name (jb_buf b)) (\<lambda>buf. bind_result (builder_on buf) (\<lambda>r. Inr (push_builder r b))))"

definition pushArray :: "string \<Rightarrow> object_builder \<Rightarrow> object_builder result" where
  "pushArray name b =
     (if jb_builders b = [] then Inl Out_Of_Bounds
      else bind_result (subarrayStart name (jb_buf b)) (\<lambda>buf. bind_result (builder_on buf) (\<lambda>r. Inr (push_builder r b))))"

text \<open>\<^verbatim>\<open>pop\<close>: the lowest builder owns its buffer, the others do not; both calls finish the document.\<close>

definition pop :: "object_builder \<Rightarrow> (string \<times> object_builder) result" where
  "pop b =
     (case jb_builders b of
        [] \<Rightarrow> Inl Out_Of_Bounds
      | ob # obs \<Rightarrow> bind_result (builder_object ob (jb_buf b)) (\<lambda>r.
          Inr (fst r, b\<lparr>jb_buf := snd (snd r), jb_builders := obs, jb_names := tl (jb_names b),
            jb_indexes := tl (jb_indexes b)\<rparr>)))"

definition set_name :: "string \<Rightarrow> object_builder \<Rightarrow> object_builder result" where
  "set_name name b = (case jb_names b of [] \<Rightarrow> Inl Out_Of_Bounds | _ # ns \<Rightarrow> Inr (b\<lparr>jb_names := name # ns\<rparr>))"

definition nameFromIndex :: "object_builder \<Rightarrow> object_builder result" where
  "nameFromIndex b =
     (case jb_indexes b of [] \<Rightarrow> Inl Out_Of_Bounds | i # _ \<Rightarrow> bind_result (numStr i) (\<lambda>s. set_name s b))"

definition popString :: "object_builder \<Rightarrow> string \<times> object_builder" where
  "popString b = (jb_ss b, b\<lparr>jb_ss := []\<rparr>)"

section \<open>Semantic actions\<close>

text \<open>Each is called with the text its parser matched.\<close>

type_synonym jb_action = "string \<Rightarrow> object_builder \<Rightarrow> object_builder result"

definition objectStart :: jb_action where
  "objectStart c b = (if jb_builders b = [] then jb_init b else bind_result (jb_fieldName b) (\<lambda>name. pushObject name b))"

definition arrayStart :: jb_action where
  "arrayStart c b =
     bind_result (jb_fieldName b) (\<lambda>name. bind_result (pushArray name b) nameFromIndex)"

definition arrayNext :: jb_action where
  "arrayNext c b =
     (case jb_indexes b of [] \<Rightarrow> Inl Out_Of_Bounds | i # is \<Rightarrow> nameFromIndex (b\<lparr>jb_indexes := (i + 1) # is\<rparr>))"

definition ch_action :: jb_action where
  "ch_action c b = Inr (b\<lparr>jb_ss := jb_ss b @ c\<rparr>)"

fun unescaped :: "char \<Rightarrow> char result" where
  "unescaped c =
     (if c = CHR 0x22 \<or> c = CHR 0x27 \<or> c = CHR 0x5C \<or> c = CHR ''/'' then Inr c
      else if c = CHR ''b'' then Inr (CHR 0x08)
      else if c = CHR ''f'' then Inr (CHR 0x0C)
      else if c = CHR ''n'' then Inr (CHR 0x0A)
      else if c = CHR ''r'' then Inr (CHR 0x0D)
      else if c = CHR ''t'' then Inr (CHR 0x09)
      else if c = CHR ''v'' then Inr (CHR 0x0B)
      else Inl Assertion_Failed)"

definition chE :: jb_action where
  "chE s b =
     (case s of [] \<Rightarrow> Inl Out_Of_Bounds | c # _ \<Rightarrow> bind_result (unescaped c) (\<lambda>o'. Inr (b\<lparr>jb_ss := jb_ss b @ [o']\<rparr>)))"

definition utf8_bytes :: "8 word \<Rightarrow> 8 word \<Rightarrow> string" where
  "utf8_bytes first second =
     (if first = 0 \<and> second < 0x80 then [of_byte second]
      else if first < 0x08 then
        [of_byte (0xc0 OR (push_bit 2 first OR drop_bit 6 second)), of_byte (0x80 OR (NOT 0xc0 AND second))]
      else
        [of_byte (0xe0 OR drop_bit 4 first), of_byte (0x80 OR (NOT 0xc0 AND (push_bit 2 first OR drop_bit 6 second))),
         of_byte (0x80 OR (NOT 0xc0 AND second))])"

definition chU :: jb_action where
  "chU s b =
     (case s of
        c0 # c1 # c2 # c3 # _ \<Rightarrow>
          bind_result (fromHex2 c0 c1) (\<lambda>first. bind_result (fromHex2 c2 c3) (\<lambda>second.
            Inr (b\<lparr>jb_ss := jb_ss b @ utf8_bytes (byte first) (byte second)\<rparr>)))
      | _ \<Rightarrow> Inl Out_Of_Bounds)"

definition chClear :: jb_action where
  "chClear c b = Inr (snd (popString b))"

definition reserved_names :: "string list" where
  "reserved_names = [''$oid'', ''$binary'', ''$type'', ''$date'', ''$regex'', ''$options'']"

definition fieldNameEnd :: jb_action where
  "fieldNameEnd s b =
     (let (name, b) = popString b
      in if name \<in> set reserved_names then Inl (Runtime_Error ''Invalid use of reserved field name'')
         else set_name name b)"

definition unquotedFieldNameEnd :: jb_action where
  "unquotedFieldNameEnd s b = set_name s b"

definition stringEnd :: jb_action where
  "stringEnd s b = (let (v, b) = popString b in to_back (\<lambda>name. append_string name v) b)"

definition numberValue :: "64 word \<Rightarrow> object_builder \<Rightarrow> object_builder result" where
  "numberValue d = to_back (\<lambda>name. append_double name d)"

definition intValue :: "int \<Rightarrow> object_builder \<Rightarrow> object_builder result" where
  "intValue num =
     (if int_range num then to_back (\<lambda>name. append_int name (word_of_int num))
      else to_back (\<lambda>name. append_long name (word_of_int num)))"

definition subobjectEnd :: jb_action where
  "subobjectEnd s b = bind_result (pop b) (\<lambda>r. Inr (snd r))"

definition arrayEnd :: jb_action where
  "arrayEnd s b = bind_result (pop b) (\<lambda>r. Inr (snd r))"

definition trueValue :: jb_action where
  "trueValue s = to_back (\<lambda>name. appendBool name True)"

definition falseValue :: jb_action where
  "falseValue s = to_back (\<lambda>name. appendBool name False)"

definition nullValue :: jb_action where
  "nullValue s = to_back appendNull"

definition dbrefNS :: jb_action where
  "dbrefNS s b = (let (v, b) = popString b in Inr (b\<lparr>jb_ns := v\<rparr>))"

definition stringToOid :: "string \<Rightarrow> string result" where
  "stringToOid s = (if length s < 24 then Inl Out_Of_Bounds else from_hex_pairs (take 24 s))"

definition oidValue :: jb_action where
  "oidValue s b = bind_result (stringToOid s) (\<lambda>i. Inr (b\<lparr>jb_oid := i\<rparr>))"

definition dbrefEnd :: jb_action where
  "dbrefEnd s b = to_back (\<lambda>name. appendDBRef name (jb_ns b) (jb_oid b)) b"

definition oidEnd :: jb_action where
  "oidEnd s b = to_back (\<lambda>name. appendOID name (jb_oid b)) b"

definition binDataBinary :: jb_action where
  "binDataBinary s b =
     (if length s mod 4 = 0 then bind_result (base64_decode s) (\<lambda>bytes. Inr (b\<lparr>jb_binData := bytes\<rparr>))
      else Inl (Runtime_Error ''Badly formatted bindata''))"

definition binDataType :: jb_action where
  "binDataType s b =
     (case s of c0 # c1 # _ \<Rightarrow> bind_result (fromHex2 c0 c1) (\<lambda>t. Inr (b\<lparr>jb_binDataType := t\<rparr>))
      | _ \<Rightarrow> Inl Out_Of_Bounds)"

definition binDataEnd :: jb_action where
  "binDataEnd s b = to_back (\<lambda>name. appendBinData name (jb_binDataType b) (jb_binData b)) b"

definition dateValue :: "64 word \<Rightarrow> object_builder \<Rightarrow> object_builder result" where
  "dateValue v b = Inr (b\<lparr>jb_date := v\<rparr>)"

definition dateEnd :: jb_action where
  "dateEnd s b = to_back (\<lambda>name. appendDate name (jb_date b)) b"

definition regexValue :: jb_action where
  "regexValue s b = (let (v, b) = popString b in Inr (b\<lparr>jb_regex := v\<rparr>))"

definition regexOptions :: jb_action where
  "regexOptions s b = Inr (b\<lparr>jb_regexOptions := s\<rparr>)"

definition regexEnd :: jb_action where
  "regexEnd s b = to_back (\<lambda>name. appendRegex name (jb_regex b) (jb_regexOptions b)) b"

section \<open>The grammar\<close>

datatype mongo_rule =
    R_object | R_members | R_array | R_elements | R_value | R_str | R_number | R_integer
  | R_dbref | R_dbrefS | R_dbrefT | R_oid | R_oidS | R_oidT | R_bindata | R_date | R_dateS | R_dateT
  | R_regex | R_regexS | R_regexT | R_quotedOid | R_fieldName | R_unquotedFieldName | R_singleQuoteStr

type_synonym jb_parser = "(mongo_rule, object_builder) classic"

text \<open>The number parsers of the library: \<^verbatim>\<open>strict_real_p\<close>, \<^verbatim>\<open>int_parser<long long, 10, 1, 19>\<close>, \<^verbatim>\<open>uint_parser<Date_t>\<close>.\<close>

record number_parsers =
  np_strict_real :: "string \<Rightarrow> (64 word \<times> string) option"
  np_long_long :: "string \<Rightarrow> (int \<times> string) option"
  np_uint :: "string \<Rightarrow> (64 word \<times> string) option"

definition num_p :: "(string \<Rightarrow> ('a \<times> string) option) \<Rightarrow> ('a \<Rightarrow> object_builder \<Rightarrow> object_builder result) \<Rightarrow> jb_parser" where
  "num_p f act = Num_p (\<lambda>s. map_option (\<lambda>r. (act (fst r), snd r)) (f s))"

definition ch_p :: "char \<Rightarrow> jb_parser" where
  "ch_p c = Ch_p (\<lambda>d. d = c)"

definition not_ch_p :: "char \<Rightarrow> jb_parser" where
  "not_ch_p c = Ch_p (\<lambda>d. d \<noteq> c)"

definition in_range :: "nat \<Rightarrow> nat \<Rightarrow> char \<Rightarrow> bool" where
  "in_range lo hi c \<longleftrightarrow> lo \<le> of_char c \<and> of_char c \<le> hi"

definition alpha :: "char \<Rightarrow> bool" where
  "alpha c \<longleftrightarrow> in_range 65 90 c \<or> in_range 97 122 c"

definition xdigit :: "char \<Rightarrow> bool" where
  "xdigit c \<longleftrightarrow> digit c \<or> in_range 65 70 c \<or> in_range 97 102 c"

definition unicode_p :: jb_parser where
  "unicode_p = Then_p (ch_p CHR ''u'') (Act_p (repeat_p 4 (Ch_p xdigit)) chU)"

definition plain_char_p :: "char \<Rightarrow> jb_parser" where
  "plain_char_p q =
     And_p (And_p (Ch_p (\<lambda>c. \<not> in_range 0 0x1f c)) (not_ch_p q)) (Act_p (not_ch_p CHR 0x5C) ch_action)"

text \<open>\<^verbatim>\<open>str\<close> and \<^verbatim>\<open>singleQuoteStr\<close> differ in the quote.\<close>

definition string_char_p :: "char \<Rightarrow> jb_parser" where
  "string_char_p q =
     Or_p
       (Then_p (ch_p CHR 0x5C)
         (choice_p
           (map (\<lambda>c. Act_p (ch_p c) chE) ''bfnrtv'' @
            [unicode_p, And_p (not_ch_p CHR ''x'') (Act_p (Ch_p (\<lambda>c. \<not> digit c)) ch_action)])))
       (plain_char_p q)"

definition string_p :: "char \<Rightarrow> jb_parser" where
  "string_p q =
     Lexeme_d (sequence_p [Act_p (ch_p q) chClear, Star_p (string_char_p q), ch_p q])"

definition regex_char_p :: jb_parser where
  "regex_char_p =
     Or_p
       (Then_p (ch_p CHR 0x5C)
         (choice_p (map (\<lambda>c. Act_p (ch_p c) chE) [CHR 0x22, CHR 0x5C, CHR ''/'', CHR ''b'', CHR ''f'', CHR ''n'', CHR ''r'', CHR ''t''] @
           [unicode_p])))
       (plain_char_p CHR ''/'')"

definition quoted_p :: "jb_parser \<Rightarrow> jb_parser" where
  "quoted_p p = Lexeme_d (sequence_p [ch_p CHR 0x22, p, ch_p CHR 0x22])"

definition key_p :: "string \<Rightarrow> jb_parser" where
  "key_p s = Str_p (quoted_text s)"

fun mongo_grammar :: "number_parsers \<Rightarrow> (mongo_rule, object_builder) rules" where
  "mongo_grammar N R_object =
     sequence_p [Act_p (ch_p CHR 0x7B) objectStart, Opt_p (Rule_p R_members), ch_p CHR 0x7D]"
| "mongo_grammar N R_members =
     list_p (sequence_p [Rule_p R_fieldName, ch_p CHR '':'', Rule_p R_value]) (ch_p CHR '','')"
| "mongo_grammar N R_fieldName =
     choice_p [Act_p (Rule_p R_str) fieldNameEnd, Act_p (Rule_p R_singleQuoteStr) fieldNameEnd,
       Act_p (Rule_p R_unquotedFieldName) unquotedFieldNameEnd]"
| "mongo_grammar N R_array =
     sequence_p [Act_p (ch_p CHR ''['') arrayStart, Opt_p (Rule_p R_elements), ch_p CHR '']'']"
| "mongo_grammar N R_elements = list_p (Rule_p R_value) (Act_p (ch_p CHR '','') arrayNext)"
| "mongo_grammar N R_value =
     choice_p [
       Act_p (Rule_p R_str) stringEnd,
       Rule_p R_number,
       Rule_p R_integer,
       Act_p (Rule_p R_array) arrayEnd,
       Act_p (Lexeme_d (Str_p ''true'')) trueValue,
       Act_p (Lexeme_d (Str_p ''false'')) falseValue,
       Act_p (Lexeme_d (Str_p ''null'')) nullValue,
       Act_p (Rule_p R_singleQuoteStr) stringEnd,
       Act_p (Rule_p R_date) dateEnd,
       Act_p (Rule_p R_oid) oidEnd,
       Act_p (Rule_p R_bindata) binDataEnd,
       Act_p (Rule_p R_dbref) dbrefEnd,
       Act_p (Rule_p R_regex) regexEnd,
       Act_p (Rule_p R_object) subobjectEnd]"
| "mongo_grammar N R_str = string_p CHR 0x22"
| "mongo_grammar N R_singleQuoteStr = string_p CHR 0x27"
| "mongo_grammar N R_number = num_p (np_strict_real N) numberValue"
| "mongo_grammar N R_integer = num_p (np_long_long N) intValue"
| "mongo_grammar N R_unquotedFieldName =
     Lexeme_d (Then_p (Ch_p (\<lambda>c. alpha c \<or> c \<in> set ''$_'')) (Star_p (Ch_p (\<lambda>c. alpha c \<or> digit c \<or> c \<in> set ''$_''))))"
| "mongo_grammar N R_dbref = Or_p (Rule_p R_dbrefS) (Rule_p R_dbrefT)"
| "mongo_grammar N R_dbrefS =
     sequence_p [ch_p CHR 0x7B, key_p ''$ref'', ch_p CHR '':'', Act_p (Rule_p R_str) dbrefNS, ch_p CHR '','',
       key_p ''$id'', ch_p CHR '':'', Rule_p R_quotedOid, ch_p CHR 0x7D]"
| "mongo_grammar N R_dbrefT =
     sequence_p [Str_p ''Dbref'', ch_p CHR ''('', Act_p (Rule_p R_str) dbrefNS, ch_p CHR '','', Rule_p R_quotedOid,
       ch_p CHR '')'']"
| "mongo_grammar N R_oid = Or_p (Rule_p R_oidS) (Rule_p R_oidT)"
| "mongo_grammar N R_oidS =
     sequence_p [ch_p CHR 0x7B, key_p ''$oid'', ch_p CHR '':'', Rule_p R_quotedOid, ch_p CHR 0x7D]"
| "mongo_grammar N R_oidT = sequence_p [Str_p ''ObjectId'', ch_p CHR ''('', Rule_p R_quotedOid, ch_p CHR '')'']"
| "mongo_grammar N R_quotedOid = quoted_p (Act_p (repeat_p 24 (Ch_p xdigit)) oidValue)"
| "mongo_grammar N R_bindata =
     sequence_p [ch_p CHR 0x7B, key_p ''$binary'', ch_p CHR '':'',
       quoted_p (Act_p (Then_p (Star_p (Ch_p (\<lambda>c. alpha c \<or> digit c \<or> c \<in> set ''+/''))) (Star_p (ch_p CHR ''=''))) binDataBinary),
       ch_p CHR '','', key_p ''$type'', ch_p CHR '':'',
       quoted_p (Act_p (repeat_p 2 (Ch_p xdigit)) binDataType), ch_p CHR 0x7D]"
| "mongo_grammar N R_date = Or_p (Rule_p R_dateS) (Rule_p R_dateT)"
| "mongo_grammar N R_dateS =
     sequence_p [ch_p CHR 0x7B, key_p ''$date'', ch_p CHR '':'', num_p (np_uint N) dateValue, ch_p CHR 0x7D]"
| "mongo_grammar N R_dateT =
     sequence_p [Opt_p (Str_p ''new''), Str_p ''Date'', ch_p CHR ''('', num_p (np_uint N) dateValue, ch_p CHR '')'']"
| "mongo_grammar N R_regex = Or_p (Rule_p R_regexS) (Rule_p R_regexT)"
| "mongo_grammar N R_regexS =
     sequence_p [ch_p CHR 0x7B, key_p ''$regex'', ch_p CHR '':'', Act_p (Rule_p R_str) regexValue, ch_p CHR '','',
       key_p ''$options'', ch_p CHR '':'', quoted_p (Act_p (Star_p (Ch_p alpha)) regexOptions), ch_p CHR 0x7D]"
| "mongo_grammar N R_regexT =
     Lexeme_d (sequence_p [Act_p (ch_p CHR ''/'') chClear, Star_p regex_char_p, Act_p (Str_p ''/'') regexValue,
       Act_p (Star_p (Ch_p (\<lambda>c. c \<in> set ''igm''))) regexOptions])"

section \<open>fromjson\<close>

text \<open>\<open>len\<close>: the caller wants the length of the text; then a parse that fails or stops early is no error.\<close>

definition fromjson_len ::
  "(mongo_rule, object_builder) classic_parser \<Rightarrow> number_parsers \<Rightarrow> string \<Rightarrow> bool \<Rightarrow> (string \<times> nat) result" where
  "fromjson_len parse N str len =
     (if str = [] then Inr (obj_default, 0)
      else bind_result (parse (mongo_grammar N) R_object str jb_new) (\<lambda>(full, stop, b).
        if \<not> len \<and> \<not> full then Inl (Runtime_Error (''Failure parsing JSON string near: '' @ take 10 stop))
        else bind_result (pop b) (\<lambda>(ret, b).
          if jb_builders b = [] then Inr (ret, length str - length stop) else Inl Assertion_Failed)))"

definition fromjson ::
  "(mongo_rule, object_builder) classic_parser \<Rightarrow> number_parsers \<Rightarrow> string \<Rightarrow> string result" where
  "fromjson parse N str =
     bind_result (fromjson_len parse N (takeWhile (\<lambda>c. c \<noteq> nul) str) False) (\<lambda>r. Inr (fst r))"

section \<open>Number parsers\<close>

text \<open>
  What the number parsers promise: they fail on a text that does not start like a number,
  \<^verbatim>\<open>strict_real_p\<close> fails on an integer, and the integer parsers read an integer in their range that
  is followed by neither a digit, a point nor an exponent.
\<close>

definition number_start :: "char \<Rightarrow> bool" where
  "number_start c \<longleftrightarrow> digit c \<or> c \<in> set ''+-.''"

definition number_end :: "string \<Rightarrow> bool" where
  "number_end s \<longleftrightarrow> s = [] \<or> (\<not> digit (hd s) \<and> hd s \<notin> set ''.eE'')"

locale number_parsers_spec =
  fixes N :: number_parsers
  assumes no_number: "\<not> number_start c \<Longrightarrow> np_strict_real N (c # t) = None"
      "\<not> number_start c \<Longrightarrow> np_long_long N (c # t) = None"
    and not_strict: "number_end t \<Longrightarrow> np_strict_real N (show_int i @ t) = None"
    and reads_int: "number_end t \<Longrightarrow> - (2 ^ 63) \<le> i \<Longrightarrow> i < 2 ^ 63 \<Longrightarrow> np_long_long N (show_int i @ t) = Some (i, t)"
    and reads_uint: "number_end t \<Longrightarrow> np_uint N (show_nat (unat w) @ t) = Some (w, t)"

text \<open>An instance: reals are rounded to the nearest double, ties to even.\<close>

definition nearest_double :: "nat \<Rightarrow> nat \<Rightarrow> nat" where
  "nearest_double num den =
     (if num = 0 then 0
      else
        let scaled = (\<lambda>k. if 0 \<le> k then (num * 2 ^ nat k, den) else (num, den * 2 ^ nat (- k)));
            k = 52 - (int (log2 num) - int (log2 den));
            k = (if fst (scaled k) div snd (scaled k) < 2 ^ 52 then k + 1 else k);
            k = min k 1074;
            m = div_round (fst (scaled k)) (snd (scaled k));
            e = (if m < 2 ^ 52 then 0 else 1075 - k)
        in if 2047 \<le> e + int (m div 2 ^ 53) then 2047 * 2 ^ 52 else nat e * 2 ^ 52 + m - (if e = 0 then 0 else 2 ^ 52))"

fun take_sign :: "string \<Rightarrow> bool \<times> string" where
  "take_sign (c # t) = (if c = CHR ''-'' then (True, t) else if c = CHR ''+'' then (False, t) else (False, c # t))"
| "take_sign [] = (False, [])"

definition take_exponent :: "string \<Rightarrow> (int \<times> string) option" where
  "take_exponent s =
     (if s = [] \<or> hd s \<notin> set ''eE'' then None
      else let (neg, t) = take_sign (tl s); ds = takeWhile digit t
           in if ds = [] then None
              else Some (if neg then - int (read_digits ds) else int (read_digits ds), dropWhile digit t))"

definition strict_real_ref :: "string \<Rightarrow> (64 word \<times> string) option" where
  "strict_real_ref s =
     (let (neg, s1) = take_sign s; whole = takeWhile digit s1; s2 = dropWhile digit s1;
          dot = (s2 \<noteq> [] \<and> hd s2 = CHR ''.'');
          frac = (if dot then takeWhile digit (tl s2) else []);
          s3 = (if dot then dropWhile digit (tl s2) else s2);
          e = take_exponent s3
      in if whole @ frac = [] \<or> \<not> dot \<and> e = None then None
         else
           let x = (case e of None \<Rightarrow> 0 | Some p \<Rightarrow> fst p) - int (length frac); D = read_digits (whole @ frac);
               d = (if 0 \<le> x then nearest_double (D * 10 ^ nat x) 1 else nearest_double D (10 ^ nat (- x)))
           in Some (word_of_nat ((if neg then 2 ^ 63 else 0) + d), case e of None \<Rightarrow> s3 | Some p \<Rightarrow> snd p))"

definition long_long_ref :: "string \<Rightarrow> (int \<times> string) option" where
  "long_long_ref s =
     (let (neg, s1) = take_sign s; ds = take 19 (takeWhile digit s1);
          i = (if neg then - int (read_digits ds) else int (read_digits ds))
      in if ds = [] \<or> i < - (2 ^ 63) \<or> 2 ^ 63 \<le> i then None else Some (i, drop (length ds) s1))"

definition uint_ref :: "string \<Rightarrow> (64 word \<times> string) option" where
  "uint_ref s =
     (let ds = takeWhile digit s
      in if ds = [] \<or> 2 ^ 64 \<le> read_digits ds then None else Some (word_of_nat (read_digits ds), dropWhile digit s))"

definition number_parsers_ref :: number_parsers where
  "number_parsers_ref = \<lparr>np_strict_real = strict_real_ref, np_long_long = long_long_ref, np_uint = uint_ref\<rparr>"

lemma number_end_span:
  assumes "number_end t" and "\<forall>c \<in> set ds. digit c"
  shows "takeWhile digit (ds @ t) = ds" and "dropWhile digit (ds @ t) = t"
  using assms by (cases t; simp add: number_end_def)+

lemma show_nat_Cons: obtains c cs where "show_nat n = c # cs" and "digit c"
  using show_nat_not_Nil [of n] show_nat_digits [of n] by (cases "show_nat n") auto

lemma digit_not_sign: "digit c \<Longrightarrow> c \<noteq> CHR ''-'' \<and> c \<noteq> CHR ''+''"
  by (auto simp: digit_def)

lemma take_sign_show: "take_sign (show_int i @ t) = (i < 0, show_nat (nat \<bar>i\<bar>) @ t)"
proof -
  obtain c cs where "show_nat (nat \<bar>i\<bar>) = c # cs" "digit c" by (rule show_nat_Cons)
  then show ?thesis using digit_not_sign [of c] by (auto simp: show_int_def)
qed

lemma long_digits:
  assumes "- (2 ^ 63) \<le> i" and "i < (2 ^ 63 :: int)"
  shows "length (show_nat (nat \<bar>i\<bar>)) \<le> 19"
proof -
  have "\<bar>i\<bar> < 10 ^ 19" using assms by (simp add: abs_le_iff)
  then have "nat \<bar>i\<bar> < 10 ^ 19" by (simp add: nat_less_iff)
  then show ?thesis by (intro show_nat_length) auto
qed

interpretation ref_numbers: number_parsers_spec number_parsers_ref
proof
  fix c t assume "\<not> number_start c"
  then have "\<not> digit c" "c \<noteq> CHR ''+''" "c \<noteq> CHR ''-''" "c \<noteq> CHR ''.''" by (auto simp: number_start_def)
  then show "np_strict_real number_parsers_ref (c # t) = None" "np_long_long number_parsers_ref (c # t) = None"
    by (simp_all add: number_parsers_ref_def strict_real_ref_def long_long_ref_def)
next
  fix t i assume t: "number_end t"
  note span = number_end_span [OF t show_nat_digits]
  show "np_strict_real number_parsers_ref (show_int i @ t) = None"
  proof -
    have "take_exponent t = None" "\<not> (t \<noteq> [] \<and> hd t = CHR ''.'')"
      using t by (auto simp: take_exponent_def number_end_def)
    then show ?thesis
      by (auto simp: number_parsers_ref_def strict_real_ref_def take_sign_show span Let_def simp del: dropWhile_eq_Nil_conv)
  qed
  assume i: "- (2 ^ 63) \<le> i" "i < 2 ^ 63"
  show "np_long_long number_parsers_ref (show_int i @ t) = Some (i, t)"
    using i long_digits [OF i] show_nat_not_Nil
    by (cases "i < 0") (simp_all add: number_parsers_ref_def long_long_ref_def take_sign_show span read_show_nat Let_def)
next
  fix t and w :: "64 word" assume t: "number_end t"
  note span = number_end_span [OF t show_nat_digits]
  show "np_uint number_parsers_ref (show_nat (unat w) @ t) = Some (w, t)"
    using unsigned_less [of w, where 'a = nat] show_nat_not_Nil
    by (simp add: number_parsers_ref_def uint_ref_def span read_show_nat Let_def)
qed

end
