(* ===== verification/Bson_Roundtrip.thy ===== *)
theory Bson_Roundtrip
  imports Bson_Fromjson
begin

text \<open>
  Reading what \<^verbatim>\<open>jsonString\<close> prints: \<^verbatim>\<open>fromjson\<close> rebuilds the document, with the numbers, symbols and
  array names that JSON cannot tell apart made normal.
\<close>

section \<open>Strings\<close>

lemma choice_nth:
  assumes "i < length es" and "\<And>j. j < i \<Longrightarrow> gives G sk (es ! j) st s (No_Match st)"
    and "gives G sk (es ! i) st s (Match st' t)"
  shows "gives G sk (choice_p es) st s (Match st' t)"
  using assms
proof (induction es arbitrary: i rule: choice_p.induct)
  case (1 a b es)
  show ?case
  proof (cases i)
    case 0
    then show ?thesis using 1 by (simp add: gives_Or1)
  next
    case (Suc k)
    have "gives G sk a st s (No_Match st)" using 1(3) [of 0] Suc by simp
    moreover have "gives G sk (choice_p (b # es)) st s (Match st' t)"
      using 1(1) [of k] 1(2,4) 1(3) [of "Suc j" for j] Suc by fastforce
    ultimately show ?thesis by (simp add: gives_Or2)
  qed
qed auto

lemma pre_skip_lexeme [simp]: "pre_skip False s = s"
  by (simp add: pre_skip_def)

lemma gives_chars:
  "gives G False (ch_p c) st (c # t) (Match st t)"
  "c \<noteq> d \<Longrightarrow> gives G False (ch_p d) st (c # t) (No_Match st)"
  "c \<noteq> d \<Longrightarrow> gives G False (not_ch_p d) st (c # t) (Match st t)"
  "gives G False (not_ch_p d) st (d # t) (No_Match st)"
  "P c \<Longrightarrow> gives G False (Ch_p P) st (c # t) (Match st t)"
  by (auto simp: ch_p_def not_ch_p_def intro!: gives_Ch gives_Ch_none)

lemma plain_char_read:
  assumes "\<not> in_range 0 0x1f c" and "c \<noteq> q" and "c \<noteq> CHR 0x5C"
  shows "gives G False (plain_char_p q) st (c # t) (Match (st\<lparr>jb_ss := jb_ss st @ [c]\<rparr>) t)"
  unfolding plain_char_p_def
  by (rule gives_And [OF gives_And [OF gives_chars(5) gives_chars(3)] gives_Act [OF gives_chars(3)]])
    (use assms in \<open>simp_all add: ch_action_def\<close>)

definition escape_choices :: "jb_parser list" where
  "escape_choices =
     map (\<lambda>c. Act_p (ch_p c) chE) ''bfnrtv'' @
     [unicode_p, And_p (not_ch_p CHR ''x'') (Act_p (Ch_p (\<lambda>c. \<not> digit c)) ch_action)]"

lemma escape_choice_read:
  assumes "i < length escape_choices" and "\<And>j. j < i \<Longrightarrow> gives G False (escape_choices ! j) st s (No_Match st)"
    and "gives G False (escape_choices ! i) st s (Match st' t)"
  shows "gives G False (string_char_p q) st (CHR 0x5C # s) (Match st' t)"
  unfolding string_char_p_def escape_choices_def [symmetric]
  by (rule gives_Or1, rule gives_Then [OF gives_chars(1)], rule choice_nth [OF assms])

lemma letter_none: "c \<noteq> d \<Longrightarrow> gives G False (Act_p (ch_p d) chE) st (c # t) (No_Match st)"
  by (intro gives_Act_none gives_chars)

lemma escape_choice_letter: "i < 6 \<Longrightarrow> escape_choices ! i = Act_p (ch_p (''bfnrtv'' ! i)) chE"
  by (auto simp: escape_choices_def less_Suc_eq numeral_eq_Suc)

lemma letters_none: "j < 6 \<Longrightarrow> c \<noteq> ''bfnrtv'' ! j \<Longrightarrow> gives G False (escape_choices ! j) st (c # t) (No_Match st)"
  by (simp only: escape_choice_letter) (rule letter_none)

lemma escaped_letter_read:
  assumes "i < 6" and "unescaped (''bfnrtv'' ! i) = Inr c"
  shows "gives G False (string_char_p q) st (CHR 0x5C # (''bfnrtv'' ! i) # t) (Match (st\<lparr>jb_ss := jb_ss st @ [c]\<rparr>) t)"
proof (rule escape_choice_read [of i])
  have "distinct ''bfnrtv''" by simp
  then have "''bfnrtv'' ! i \<noteq> ''bfnrtv'' ! j" if "j < i" for j
    using that assms(1) nth_eq_iff_index_eq [of "''bfnrtv''" i j] by simp
  then show "gives G False (escape_choices ! j) st (''bfnrtv'' ! i # t) (No_Match st)" if "j < i" for j
    using that assms(1) by (intro letters_none) auto
  show "gives G False (escape_choices ! i) st (''bfnrtv'' ! i # t) (Match (st\<lparr>jb_ss := jb_ss st @ [c]\<rparr>) t)"
    using assms(2) unfolding escape_choice_letter [OF assms(1)]
    by (intro gives_Act [OF gives_chars(1)]) (simp add: chE_def del: unescaped.simps)
qed (use assms(1) in \<open>simp add: escape_choices_def\<close>)

lemma escaped_self_read:
  assumes "c = CHR 0x22 \<or> c = CHR 0x5C"
  shows "gives G False (string_char_p q) st (CHR 0x5C # c # t) (Match (st\<lparr>jb_ss := jb_ss st @ [c]\<rparr>) t)"
proof (rule escape_choice_read [of 7])
  have c: "c \<notin> set ''bfnrtvux''" "\<not> digit c" using assms by (auto simp: digit_def)
  show "gives G False (escape_choices ! j) st (c # t) (No_Match st)" if "j < 7" for j
  proof (cases "j < 6")
    case True
    then have "''bfnrtv'' ! j \<in> set ''bfnrtv''" by (intro nth_mem) simp
    then show ?thesis using True c by (intro letters_none) auto
  next
    case False
    then have "j = 6" using that by simp
    then show ?thesis using c by (simp add: escape_choices_def unicode_p_def gives_Then_none gives_chars)
  qed
  show "gives G False (escape_choices ! 7) st (c # t) (Match (st\<lparr>jb_ss := jb_ss st @ [c]\<rparr>) t)"
    using c by (auto simp: escape_choices_def ch_action_def intro!: gives_And [OF gives_chars(3) gives_Act [OF gives_chars(5)]])
qed (simp add: escape_choices_def)

lemma repeat_read:
  fixes G :: "(mongo_rule, object_builder) rules"
  assumes "cs \<noteq> []" and "\<forall>c \<in> set cs. P c"
  shows "gives G False (repeat_p (length cs) (Ch_p P)) st (cs @ t) (Match st t)"
  using assms
proof (induction cs rule: induct_list012)
  case (3 c d cs)
  then show ?case by (simp add: gives_Then [OF gives_chars(5)])
qed (auto intro: gives_chars)

lemma hex_digits: "\<forall>d \<in> set (toHexLower s). xdigit d"
proof -
  have "xdigit (''0123456789abcdef'' ! k)" if "k < 16" for k
  proof -
    have "''0123456789abcdef'' ! k \<in> set ''0123456789abcdef''" using that by (intro nth_mem) simp
    then show ?thesis by (auto simp: xdigit_def digit_def in_range_def)
  qed
  then show ?thesis using nibbles(2,3) by (auto simp: toHexLower_def hex_chars_def simp del: drop_bit_and)
qed

lemma toHexLower_length [simp]: "length (toHexLower s) = 2 * length s"
  by (induction s) (simp_all add: toHexLower_def hex_chars_def)

lemma escaped_control_read:
  assumes "in_range 0 0x1f c"
  shows "gives G False (string_char_p q) st ([CHR 0x5C, CHR ''u'', CHR ''0'', CHR ''0''] @ toHexLower [c] @ t)
    (Match (st\<lparr>jb_ss := jb_ss st @ [c]\<rparr>) t)"
proof -
  obtain h l where hl: "toHexLower [c] = [h, l]"
    using toHexLower_length [of "[c]"] by (cases "toHexLower [c]"; cases "tl (toHexLower [c])") auto
  have digits: "\<forall>d \<in> set ([CHR ''0'', CHR ''0'', h, l]). xdigit d"
    using hex_digits [of "[c]"] by (auto simp: hl xdigit_def digit_def)
  have read: "fromHex2 h l = Inr c" using toHex_read(2) [of "[c]"] by (cases "fromHex2 h l") (auto simp: hl)
  have zero: "fromHex2 CHR ''0'' CHR ''0'' = Inr nul" by code_simp
  have "of_char c < (128 :: nat)" using assms by (simp add: in_range_def)
  then have "byte c < 0x80" "byte nul = 0" by (simp_all add: byte_def word_less_nat_alt unsigned_of_nat take_bit_nat_eq_self)
  then have chU: "chU [CHR ''0'', CHR ''0'', h, l] st = Inr (st\<lparr>jb_ss := jb_ss st @ [c]\<rparr>)"
    by (simp add: chU_def zero read utf8_bytes_def)
  have "gives G False unicode_p st (CHR ''u'' # [CHR ''0'', CHR ''0'', h, l] @ t)
      (Match (st\<lparr>jb_ss := jb_ss st @ [c]\<rparr>) t)"
    unfolding unicode_p_def
  proof (rule gives_Then [OF gives_chars(1)], rule gives_Act)
    show "gives G False (repeat_p 4 (Ch_p xdigit)) st ([CHR ''0'', CHR ''0'', h, l] @ t) (Match st t)"
      using repeat_read [OF _ digits, of G st t] by (simp add: numeral_eq_Suc)
    show "chU (between (pre_skip False ([CHR ''0'', CHR ''0'', h, l] @ t)) t) st = Inr (st\<lparr>jb_ss := jb_ss st @ [c]\<rparr>)"
      using chU by (simp only: pre_skip_lexeme between_app)
  qed
  then show ?thesis unfolding hl append.simps
    by (intro escape_choice_read [of 6]) (auto simp: escape_choices_def nth_append letter_none less_Suc_eq numeral_nat)
qed

lemma sint_byte: "sint (byte c) = (if of_char c < (128 :: nat) then int (of_char c) else int (of_char c) - 256)"
proof -
  let ?n = "of_char c :: nat"
  have n: "?n < 256" by simp
  then have u: "uint (byte c) = int ?n" by (simp add: byte_def unsigned_of_nat take_bit_nat_eq_self)
  have "bit (int ?n) 7 \<longleftrightarrow> 128 \<le> ?n"
  proof (cases "?n < 128")
    case False
    then have "int ?n div 128 = 1" using n by (intro int_div_pos_eq [where r = "int ?n - 128"]) auto
    then show ?thesis using False by (simp add: bit_iff_odd)
  qed (simp add: bit_iff_odd)
  then show ?thesis using n
    by (simp add: sint_uint u signed_take_bit_eq_take_bit_minus take_bit_int_eq_self)
qed

lemma string_char_read:
  "gives G False (string_char_p CHR 0x22) st (concat (escape_writes False c) @ t)
     (Match (st\<lparr>jb_ss := jb_ss st @ [c]\<rparr>) t)"
proof -
  have letters: "gives G False (string_char_p CHR 0x22) st (CHR 0x5C # (''bfnrtv'' ! i) # t)
      (Match (st\<lparr>jb_ss := jb_ss st @ [c]\<rparr>) t)" if "i < 6" "unescaped (''bfnrtv'' ! i) = Inr c" for i
    using escaped_letter_read [OF that] .
  have control: "in_range 0 0x1f c \<longleftrightarrow> 0 \<le> sint (byte c) \<and> sint (byte c) \<le> 0x1f"
  proof -
    have "(of_char c :: nat) < 256" by simp
    then show ?thesis unfolding in_range_def sint_byte by presburger
  qed
  consider "c = CHR 0x22 \<or> c = CHR 0x5C" | "c = CHR 0x08" | "c = CHR 0x0C" | "c = CHR 0x0A" | "c = CHR 0x0D" | "c = CHR 0x09"
    | "c \<notin> {CHR 0x22, CHR 0x5C, CHR 0x08, CHR 0x0C, CHR 0x0A, CHR 0x0D, CHR 0x09}" "in_range 0 0x1f c"
    | "c \<notin> {CHR 0x22, CHR 0x5C, CHR 0x08, CHR 0x0C, CHR 0x0A, CHR 0x0D, CHR 0x09}" "\<not> in_range 0 0x1f c"
    by auto
  then show ?thesis
  proof cases
    case 1
    then show ?thesis using escaped_self_read [OF 1, of G "CHR 0x22" st t] by (auto simp: escape_writes_def)
  next
    case 2
    then show ?thesis using letters [of 0] by (simp add: escape_writes_def)
  next
    case 3
    then show ?thesis using letters [of 1] by (simp add: escape_writes_def)
  next
    case 4
    then show ?thesis using letters [of 2] by (simp add: escape_writes_def)
  next
    case 5
    then show ?thesis using letters [of 3] by (simp add: escape_writes_def)
  next
    case 6
    then show ?thesis using letters [of 4] by (simp add: escape_writes_def)
  next
    case 7
    have "c \<noteq> CHR ''/''" using 7(2) by (intro notI) (simp add: in_range_def)
    then show ?thesis using 7(1) escaped_control_read [OF 7(2), of G "CHR 0x22" st t]
      control 7(2) by (simp add: escape_writes_def)
  next
    case 8
    then have "concat (escape_writes False c) = [c]" unfolding escape_writes_def control by auto
    moreover have "gives G False (string_char_p CHR 0x22) st (c # t) (Match (st\<lparr>jb_ss := jb_ss st @ [c]\<rparr>) t)"
      unfolding string_char_p_def
      by (rule gives_Or2 [OF gives_Then_none [OF gives_chars(2)] plain_char_read]) (use 8 in auto)
    ultimately show ?thesis by simp
  qed
qed

lemma string_chars_read:
  "gives G False (Star_p (string_char_p CHR 0x22)) st (escaped_text False s @ CHR 0x22 # t)
     (Match (st\<lparr>jb_ss := jb_ss st @ s\<rparr>) (CHR 0x22 # t))"
proof (induction s arbitrary: st)
  case Nil
  have "gives G False (string_char_p CHR 0x22) st (CHR 0x22 # t) (No_Match st)"
    unfolding string_char_p_def plain_char_p_def
    by (rule gives_Or2 [OF gives_Then_none [OF gives_chars(2)]],
        simp, rule gives_And_none1 [OF gives_And_none2 [OF gives_chars(5) gives_chars(4)]]) (simp add: in_range_def)
  from gives_Star_stop [OF this] show ?case by (simp add: escaped_text_def)
next
  case (Cons c s)
  have "escaped_text False (c # s) = concat (escape_writes False c) @ escaped_text False s" by (simp add: escaped_text_def)
  then show ?case using gives_Star_step [OF string_char_read Cons.IH, of "st" c] by simp
qed

lemma gives_ch:
  "pre_skip True s = c # t \<Longrightarrow> gives G True (ch_p c) st s (Match st t)"
  "pre_skip True s = c # t \<Longrightarrow> c \<noteq> d \<Longrightarrow> gives G True (ch_p d) st s (No_Match st)"
  "pre_skip True s = [] \<Longrightarrow> gives G True (ch_p d) st s (No_Match st)"
  by (auto simp: ch_p_def intro!: gives_Ch gives_Ch_none)

lemma str_read:
  assumes "pre_skip True s = quoted_text (escaped_text False x) @ t"
  shows "gives (mongo_grammar N) True (Rule_p R_str) st s (Match (st\<lparr>jb_ss := x\<rparr>) t)"
proof (rule gives_Rule, unfold mongo_grammar.simps string_p_def sequence_p.simps, rule gives_Lexeme, unfold assms,
    rule gives_Then [OF gives_Act])
  show "gives (mongo_grammar N) False (ch_p CHR 0x22) st (quoted_text (escaped_text False x) @ t)
      (Match st (escaped_text False x @ CHR 0x22 # t))"
    by (simp add: quoted_text_def gives_chars)
  show "chClear (between (pre_skip False (quoted_text (escaped_text False x) @ t)) (escaped_text False x @ CHR 0x22 # t)) st =
      Inr (st\<lparr>jb_ss := []\<rparr>)" by (simp add: chClear_def popString_def)
  show "gives (mongo_grammar N) False (Then_p (Star_p (string_char_p CHR 0x22)) (ch_p CHR 0x22)) (st\<lparr>jb_ss := []\<rparr>)
      (escaped_text False x @ CHR 0x22 # t) (Match (st\<lparr>jb_ss := x\<rparr>) t)"
    using gives_Then [OF string_chars_read gives_chars(1), of "mongo_grammar N" "st\<lparr>jb_ss := []\<rparr>" x] by simp
qed

section \<open>Alternatives that do not match\<close>

text \<open>An alternative that fails on its first character or first key leaves the state alone.\<close>

lemma strip_prefix_hd: "c \<noteq> d \<Longrightarrow> strip_prefix (c # w) (d # t) = None"
  by simp

definition no_key :: "string \<Rightarrow> string \<Rightarrow> bool" where
  "no_key k t \<longleftrightarrow> strip_prefix (quoted_text k) (pre_skip True t) = None"

lemma first_none:
  assumes "pre_skip True s = c # t"
  shows "c \<noteq> CHR 0x22 \<Longrightarrow> gives (mongo_grammar N) True (Rule_p R_str) st s (No_Match st)"
    and "c \<noteq> CHR 0x27 \<Longrightarrow> gives (mongo_grammar N) True (Rule_p R_singleQuoteStr) st s (No_Match st)"
    and "c \<noteq> CHR ''['' \<Longrightarrow> gives (mongo_grammar N) True (Rule_p R_array) st s (No_Match st)"
    and "c \<noteq> CHR 0x7B \<Longrightarrow> gives (mongo_grammar N) True (Rule_p R_object) st s (No_Match st)"
    and "c \<noteq> d \<Longrightarrow> gives (mongo_grammar N) True (Lexeme_d (Str_p (d # w))) st s (No_Match st)"
    and "c \<noteq> d \<Longrightarrow> gives (mongo_grammar N) True (Str_p (d # w)) st s (No_Match st)"
  using assms
  by (auto intro!: gives_Rule gives_Lexeme gives_Then_none gives_Act_none gives_Str_none gives_chars gives_ch(2) [OF assms]
      simp: string_p_def)

lemma brace_none:
  assumes "pre_skip True s = c # t" and "c = CHR 0x7B \<Longrightarrow> no_key k t"
  shows "gives (mongo_grammar N) True (sequence_p (ch_p CHR 0x7B # key_p k # x # es)) st s (No_Match st)"
proof (cases "c = CHR 0x7B")
  case True
  then have "gives (mongo_grammar N) True (key_p k) st t (No_Match st)"
    using assms(2) by (auto simp: key_p_def no_key_def intro!: gives_Str_none)
  then show ?thesis
    using gives_Then [OF gives_ch(1) gives_Then_none, of s "CHR 0x7B" t "mongo_grammar N" "key_p k" st st "sequence_p (x # es)"]
      assms(1) True by simp
next
  case False
  then show ?thesis using gives_ch(2) [OF assms(1)] by (auto intro!: gives_Then_none)
qed

lemma special_none:
  assumes "pre_skip True s = c # t"
  shows "c \<noteq> CHR ''n'' \<Longrightarrow> c \<noteq> CHR ''D'' \<Longrightarrow> (c = CHR 0x7B \<Longrightarrow> no_key ''$date'' t) \<Longrightarrow>
      gives (mongo_grammar N) True (Rule_p R_date) st s (No_Match st)"
    and "c \<noteq> CHR ''O'' \<Longrightarrow> (c = CHR 0x7B \<Longrightarrow> no_key ''$oid'' t) \<Longrightarrow>
      gives (mongo_grammar N) True (Rule_p R_oid) st s (No_Match st)"
    and "(c = CHR 0x7B \<Longrightarrow> no_key ''$binary'' t) \<Longrightarrow> gives (mongo_grammar N) True (Rule_p R_bindata) st s (No_Match st)"
    and "c \<noteq> CHR ''D'' \<Longrightarrow> (c = CHR 0x7B \<Longrightarrow> no_key ''$ref'' t) \<Longrightarrow>
      gives (mongo_grammar N) True (Rule_p R_dbref) st s (No_Match st)"
    and "c \<noteq> CHR ''/'' \<Longrightarrow> (c = CHR 0x7B \<Longrightarrow> no_key ''$regex'' t) \<Longrightarrow>
      gives (mongo_grammar N) True (Rule_p R_regex) st s (No_Match st)"
proof -
  note brace = brace_none [OF assms, of _ N] and str = first_none(6) [OF assms, of _ N]
  show "gives (mongo_grammar N) True (Rule_p R_date) st s (No_Match st)"
    if "c \<noteq> CHR ''n''" "c \<noteq> CHR ''D''" "c = CHR 0x7B \<Longrightarrow> no_key ''$date'' t"
  proof (rule gives_Rule, unfold mongo_grammar.simps, rule gives_Or2, rule gives_Rule, unfold mongo_grammar.simps, rule brace)
    show "gives (mongo_grammar N) True (Rule_p R_dateT) st s (No_Match st)"
      by (rule gives_Rule, unfold mongo_grammar.simps sequence_p.simps,
          rule gives_Then [OF gives_Opt_none [OF str] gives_Then_none [OF str]]) (use that in auto)
  qed (use that in simp)
  show "gives (mongo_grammar N) True (Rule_p R_oid) st s (No_Match st)"
    if "c \<noteq> CHR ''O''" "c = CHR 0x7B \<Longrightarrow> no_key ''$oid'' t"
    by (rule gives_Rule, unfold mongo_grammar.simps, rule gives_Or2, rule gives_Rule, unfold mongo_grammar.simps, rule brace)
      (use that in \<open>auto intro!: gives_Rule gives_Then_none str\<close>)
  show "gives (mongo_grammar N) True (Rule_p R_bindata) st s (No_Match st)" if "c = CHR 0x7B \<Longrightarrow> no_key ''$binary'' t"
    by (rule gives_Rule, unfold mongo_grammar.simps, rule brace) (use that in simp)
  show "gives (mongo_grammar N) True (Rule_p R_dbref) st s (No_Match st)"
    if "c \<noteq> CHR ''D''" "c = CHR 0x7B \<Longrightarrow> no_key ''$ref'' t"
    by (rule gives_Rule, unfold mongo_grammar.simps, rule gives_Or2, rule gives_Rule, unfold mongo_grammar.simps, rule brace)
      (use that in \<open>auto intro!: gives_Rule gives_Then_none str\<close>)
  show "gives (mongo_grammar N) True (Rule_p R_regex) st s (No_Match st)"
    if "c \<noteq> CHR ''/''" "c = CHR 0x7B \<Longrightarrow> no_key ''$regex'' t"
    by (rule gives_Rule, unfold mongo_grammar.simps, rule gives_Or2, rule gives_Rule, unfold mongo_grammar.simps, rule brace)
      (use that in \<open>auto intro!: gives_Rule gives_Lexeme gives_Then_none gives_Act_none gives_chars simp: assms\<close>)
qed

definition alternatives :: "number_parsers \<Rightarrow> jb_parser list" where
  "alternatives N =
     [Act_p (Rule_p R_str) stringEnd, Rule_p R_number, Rule_p R_integer, Act_p (Rule_p R_array) arrayEnd,
      Act_p (Lexeme_d (Str_p ''true'')) trueValue, Act_p (Lexeme_d (Str_p ''false'')) falseValue,
      Act_p (Lexeme_d (Str_p ''null'')) nullValue, Act_p (Rule_p R_singleQuoteStr) stringEnd,
      Act_p (Rule_p R_date) dateEnd, Act_p (Rule_p R_oid) oidEnd, Act_p (Rule_p R_bindata) binDataEnd,
      Act_p (Rule_p R_dbref) dbrefEnd, Act_p (Rule_p R_regex) regexEnd, Act_p (Rule_p R_object) subobjectEnd]"

lemma value_choice:
  assumes "i < 14" and "\<And>j. j < i \<Longrightarrow> gives (mongo_grammar N) True (alternatives N ! j) st s (No_Match st)"
    and "gives (mongo_grammar N) True (alternatives N ! i) st s (Match st' t)"
  shows "gives (mongo_grammar N) True (Rule_p R_value) st s (Match st' t)"
  by (rule gives_Rule, unfold mongo_grammar.simps alternatives_def [symmetric], rule choice_nth [of i])
    (use assms in \<open>simp_all add: alternatives_def\<close>)

section \<open>Values without fields\<close>

text \<open>Bytes were appended for the element the state is at; builders, names and indexes are as before.\<close>

definition appended :: "object_builder \<Rightarrow> string \<Rightarrow> object_builder \<Rightarrow> bool" where
  "appended st bytes st' \<longleftrightarrow>
     jb_builders st' = jb_builders st \<and> jb_names st' = jb_names st \<and> jb_indexes st' = jb_indexes st \<and>
     bb_data (jb_buf st') = bb_data (jb_buf st) @ bytes"

text \<open>A state inside an object, at the element \<open>name\<close>, with room for \<open>bytes\<close>.\<close>

definition ready :: "object_builder \<Rightarrow> string \<Rightarrow> string \<Rightarrow> bool" where
  "ready st name bytes \<longleftrightarrow>
     jb_builders st \<noteq> [] \<and> jb_names st \<noteq> [] \<and> hd (jb_names st) = name \<and> nul \<notin> set name \<and>
     length (bb_data (jb_buf st)) + length bytes \<le> 2 ^ 28"

lemma ready_fieldName: "ready st name bytes \<Longrightarrow> jb_fieldName st = Inr name"
proof -
  assume r: "ready st name bytes"
  then have "takeWhile (\<lambda>c. c \<noteq> nul) name = name" by (intro takeWhile_eq_all_conv [THEN iffD2]) (auto simp: ready_def)
  then show ?thesis using r by (cases "jb_names st") (auto simp: ready_def jb_fieldName_def)
qed

lemma to_back_appends:
  assumes "ready st name bytes" and "appends (f name) bytes"
  obtains st' where "to_back f st = Inr st'" and "appended st bytes st'"
proof -
  obtain b where b: "f name (jb_buf st) = Inr b" "bb_data b = bb_data (jb_buf st) @ bytes"
    using appendsD [OF assms(2), of "jb_buf st"] assms(1) by (auto simp: ready_def)
  then have "to_back f st = Inr (st\<lparr>jb_buf := b\<rparr>)"
    using ready_fieldName [OF assms(1)] assms(1) by (auto simp: to_back_def ready_def)
  then show thesis by (rule that) (simp add: appended_def b(2))
qed

text \<open>The parts of a value that the actions keep in the state do not matter to it.\<close>

lemma ready_scratch [simp]:
  "ready (st\<lparr>jb_ss := x\<rparr>) name bytes = ready st name bytes"
  "ready (st\<lparr>jb_ns := x\<rparr>) name bytes = ready st name bytes"
  "ready (st\<lparr>jb_oid := x\<rparr>) name bytes = ready st name bytes"
  "ready (st\<lparr>jb_binData := x\<rparr>) name bytes = ready st name bytes"
  "ready (st\<lparr>jb_binDataType := y\<rparr>) name bytes = ready st name bytes"
  "ready (st\<lparr>jb_regex := x\<rparr>) name bytes = ready st name bytes"
  "ready (st\<lparr>jb_regexOptions := x\<rparr>) name bytes = ready st name bytes"
  "ready (st\<lparr>jb_date := d\<rparr>) name bytes = ready st name bytes"
  by (simp_all add: ready_def)

lemma appended_scratch [simp]:
  "appended (st\<lparr>jb_ss := x\<rparr>) bytes st' = appended st bytes st'"
  "appended (st\<lparr>jb_ns := x\<rparr>) bytes st' = appended st bytes st'"
  "appended (st\<lparr>jb_oid := x\<rparr>) bytes st' = appended st bytes st'"
  "appended (st\<lparr>jb_binData := x\<rparr>) bytes st' = appended st bytes st'"
  "appended (st\<lparr>jb_binDataType := y\<rparr>) bytes st' = appended st bytes st'"
  "appended (st\<lparr>jb_regex := x\<rparr>) bytes st' = appended st bytes st'"
  "appended (st\<lparr>jb_regexOptions := x\<rparr>) bytes st' = appended st bytes st'"
  "appended (st\<lparr>jb_date := d\<rparr>) bytes st' = appended st bytes st'"
  by (simp_all add: appended_def)

lemma ready_sized: "ready st name (field_bytes name v) \<Longrightarrow> length (encode_value v) < 2 ^ 31 - 1"
  by (simp add: ready_def field_bytes_length)

text \<open>A value is read when an alternative, after others that fail, appends its bytes.\<close>

definition value_read :: "number_parsers \<Rightarrow> object_builder \<Rightarrow> string \<Rightarrow> string \<Rightarrow> bson \<Rightarrow> string \<Rightarrow> bool" where
  "value_read N st s name v t \<longleftrightarrow>
     (\<exists>st'. gives (mongo_grammar N) True (Rule_p R_value) st s (Match st' t) \<and> appended st (field_bytes name v) st')"

lemma value_readI:
  assumes "i < 14" and "\<And>j. j < i \<Longrightarrow> gives (mongo_grammar N) True (alternatives N ! j) st s (No_Match st)"
    and "alternatives N ! i = Act_p p act" and "gives (mongo_grammar N) True p st s (Match st1 t)"
    and "act (between (pre_skip True s) t) st1 = to_back f st2" and "ready st2 name (field_bytes name v)"
    and "appends (f name) (field_bytes name v)" and "\<And>bytes st'. appended st2 bytes st' = appended st bytes st'"
  shows "value_read N st s name v t"
proof -
  obtain st' where "to_back f st2 = Inr st'" "appended st2 (field_bytes name v) st'"
    by (rule to_back_appends [of st2 name "field_bytes name v" f]) (rule assms(6), rule assms(7))
  then show ?thesis unfolding value_read_def
    using value_choice [OF assms(1,2)] gives_Act [OF assms(4)] assms(3,5,8) by (metis)
qed

context number_parsers_spec
begin

lemma number_none:
  assumes "pre_skip True s = c # t" and "\<not> number_start c"
  shows "gives (mongo_grammar N) True (Rule_p R_number) st s (No_Match st)"
    and "gives (mongo_grammar N) True (Rule_p R_integer) st s (No_Match st)"
  using assms no_number [OF assms(2)] by (auto simp: num_p_def intro!: gives_Rule gives_Num_none)

lemma fails_before:
  assumes "pre_skip True s = c # t" and "c \<noteq> CHR 0x22" and "\<not> number_start c"
  shows "gives (mongo_grammar N) True (Act_p (Rule_p R_str) stringEnd) st s (No_Match st)"
    and "gives (mongo_grammar N) True (Rule_p R_number) st s (No_Match st)"
    and "gives (mongo_grammar N) True (Rule_p R_integer) st s (No_Match st)"
    and "c \<noteq> CHR ''['' \<Longrightarrow> gives (mongo_grammar N) True (Act_p (Rule_p R_array) arrayEnd) st s (No_Match st)"
    and "c \<noteq> CHR ''t'' \<Longrightarrow> gives (mongo_grammar N) True (Act_p (Lexeme_d (Str_p ''true'')) trueValue) st s (No_Match st)"
    and "c \<noteq> CHR ''f'' \<Longrightarrow> gives (mongo_grammar N) True (Act_p (Lexeme_d (Str_p ''false'')) falseValue) st s (No_Match st)"
    and "c \<noteq> CHR ''n'' \<Longrightarrow> gives (mongo_grammar N) True (Act_p (Lexeme_d (Str_p ''null'')) nullValue) st s (No_Match st)"
    and "c \<noteq> CHR 0x27 \<Longrightarrow> gives (mongo_grammar N) True (Act_p (Rule_p R_singleQuoteStr) stringEnd) st s (No_Match st)"
  by (intro gives_Act_none first_none(1-3,5) [OF assms(1)] number_none [OF assms(1,3)]; use assms in simp)+

lemma brace_before:
  assumes "pre_skip True s = CHR 0x7B # t" and "i < 14" and "j < i"
    and "8 < i \<Longrightarrow> no_key ''$date'' t" and "9 < i \<Longrightarrow> no_key ''$oid'' t" and "10 < i \<Longrightarrow> no_key ''$binary'' t"
    and "11 < i \<Longrightarrow> no_key ''$ref'' t" and "12 < i \<Longrightarrow> no_key ''$regex'' t"
  shows "gives (mongo_grammar N) True (alternatives N ! j) st s (No_Match st)"
proof -
  have c: "\<not> number_start CHR 0x7B" by (simp add: number_start_def digit_def)
  note fails = fails_before [OF assms(1) _ c, of st]
  note special = special_none [OF assms(1), of N st, THEN gives_Act_none]
  from assms(2,3) consider "j < 8" | "j = 8" | "j = 9" | "j = 10" | "j = 11" | "j = 12" by linarith
  then show ?thesis
  proof cases
    case 1
    then show ?thesis using fails by (auto simp: alternatives_def less_Suc_eq numeral_eq_Suc)
  qed (use assms special in \<open>simp_all add: alternatives_def\<close>)
qed

end

lemma pre_skip_simps [simp]:
  "pre_skip True (CHR '' '' # s) = pre_skip True s"
  "\<not> ascii_space c \<Longrightarrow> pre_skip True (c # s) = c # s"
  "pre_skip True (quoted_text x @ s) = quoted_text x @ s"
  by (simp_all add: pre_skip_def quoted_text_def) (simp_all add: ascii_space_def)

lemma not_space [simp]:
  "\<not> ascii_space CHR 0x7B" "\<not> ascii_space CHR 0x7D" "\<not> ascii_space CHR '':''" "\<not> ascii_space CHR '',''"
  "\<not> ascii_space CHR ''[''" "\<not> ascii_space CHR '']''" "\<not> ascii_space CHR 0x22" "\<not> ascii_space CHR ''t''"
  "\<not> ascii_space CHR ''f''" "\<not> ascii_space CHR ''n''"
  by (simp_all add: ascii_space_def)

lemma digit_not_ascii_space: "digit c \<Longrightarrow> \<not> ascii_space c"
  by (auto simp: digit_def ascii_space_def)

lemma pre_skip_number [simp]:
  "pre_skip True (show_nat n @ s) = show_nat n @ s"
proof -
  obtain c cs where "show_nat n = c # cs" "digit c" by (rule show_nat_Cons)
  then show ?thesis using digit_not_ascii_space by simp
qed

lemma strip_prefix_app [simp]: "strip_prefix w (w @ t) = Some t"
  by (induction w) simp_all

lemma strip_prefix_self [simp]: "strip_prefix w w = Some []"
  using strip_prefix_app [of w "[]"] by simp

lemma key_read: "pre_skip True s = quoted_text k @ t \<Longrightarrow> gives G True (key_p k) st s (Match st t)"
  by (simp add: key_p_def gives_Str)

text \<open>The start of the special objects: a brace, a key and a colon.\<close>

lemma special_read:
  assumes "pre_skip True s = ''{ '' @ quoted_text k @ '' : '' @ t" and "gives (mongo_grammar N) True (sequence_p (x # es)) st ('' '' @ t) r"
  shows "gives (mongo_grammar N) True (sequence_p (ch_p CHR 0x7B # key_p k # ch_p CHR '':'' # x # es)) st s r"
  unfolding sequence_p.simps
  by (rule gives_Then [OF gives_ch(1)], use assms(1) in simp, rule gives_Then [OF key_read], simp,
      rule gives_Then [OF gives_ch(1)], simp) (use assms(2) in simp)

lemma no_key_quoted: "strip_prefix (quoted_text k) (quoted_text k' @ t) = None \<Longrightarrow> no_key k (CHR '' '' # quoted_text k' @ t)"
  by (simp add: no_key_def)

lemma quoted_read:
  assumes "pre_skip True s = quoted_text x @ t" and "gives (mongo_grammar N) False p st (x @ CHR 0x22 # t) (Match st' (CHR 0x22 # t))"
  shows "gives (mongo_grammar N) True (quoted_p p) st s (Match st' t)"
  unfolding quoted_p_def sequence_p.simps
  by (rule gives_Lexeme, unfold assms(1) quoted_text_def, simp,
      rule gives_Then [OF gives_chars(1) gives_Then [OF assms(2) gives_chars(1)]])

lemma star_read:
  fixes G :: "(mongo_rule, object_builder) rules"
  assumes "\<forall>c \<in> set cs. P c" and "\<And>c u. t = c # u \<Longrightarrow> \<not> P c"
  shows "gives G False (Star_p (Ch_p P)) st (cs @ t) (Match st t)"
  using assms(1)
proof (induction cs)
  case Nil
  show ?case using assms(2) by (auto intro!: gives_Star_stop gives_Ch_none)
next
  case (Cons c cs)
  then show ?case using gives_Star_step [OF gives_chars(5) [of P c] Cons.IH] by simp
qed

lemma oid_read:
  assumes "pre_skip True s = quoted_text (toHexLower i) @ t" and "length i = 12"
  shows "gives (mongo_grammar N) True (Rule_p R_quotedOid) st s (Match (st\<lparr>jb_oid := i\<rparr>) t)"
proof (rule gives_Rule, unfold mongo_grammar.simps, rule quoted_read [OF assms(1)], rule gives_Act)
  have "toHexLower i \<noteq> []" using assms(2) by (auto simp flip: length_0_conv)
  from repeat_read [OF this hex_digits] assms(2)
  show "gives (mongo_grammar N) False (repeat_p 24 (Ch_p xdigit)) st (toHexLower i @ CHR 0x22 # t) (Match st (CHR 0x22 # t))"
    by simp
  show "oidValue (between (pre_skip False (toHexLower i @ CHR 0x22 # t)) (CHR 0x22 # t)) st = Inr (st\<lparr>jb_oid := i\<rparr>)"
    using assms(2) by (simp add: oidValue_def stringToOid_def toHex_read)
qed

lemma base64_chars:
  obtains cs k where "base64_encode s = cs @ replicate k CHR ''=''" and "\<forall>c \<in> set cs. alpha c \<or> digit c \<or> c \<in> set ''+/''"
proof -
  have e: "alphabet_e x \<in> set alphabet" for x
    using word_and_le1 [of x "0x3f"] alphabet_props(1) by (auto simp: alphabet_e_def word_le_nat_alt intro!: nth_mem)
  have "list_all (\<lambda>c. alpha c \<or> digit c \<or> c \<in> set ''+/'') alphabet" by code_simp
  then have "set alphabet \<subseteq> {c. alpha c \<or> digit c \<or> c \<in> set ''+/''}" by (auto simp only: list_all_iff)
  moreover have "set (encode_loop xs) \<subseteq> set alphabet" for xs
    by (induction xs rule: encode_loop.induct) (simp_all add: e)
  ultimately have ok: "\<forall>c \<in> set (encode_loop (map byte s)). alpha c \<or> digit c \<or> c \<in> set ''+/''" by blast
  have "replicate 2 CHR ''='' = ''==''" by (simp add: numeral_2_eq_2)
  then show thesis
    by (intro that [OF _ ok, of "if length s mod 3 = 1 then 2 else if length s mod 3 = 2 then 1 else 0"])
      (simp add: base64_encode_def)
qed

lemma bindata_bytes_read:
  "gives (mongo_grammar N) False
     (Act_p (Then_p (Star_p (Ch_p (\<lambda>c. alpha c \<or> digit c \<or> c \<in> set ''+/''))) (Star_p (ch_p CHR ''=''))) binDataBinary)
     st (base64_encode x @ CHR 0x22 # t) (Match (st\<lparr>jb_binData := x\<rparr>) (CHR 0x22 # t))"
proof (rule gives_Act)
  obtain cs k where e: "base64_encode x = cs @ replicate k CHR ''=''"
    and cs: "\<forall>c \<in> set cs. alpha c \<or> digit c \<or> c \<in> set ''+/''" by (rule base64_chars)
  show "gives (mongo_grammar N) False (Then_p (Star_p (Ch_p (\<lambda>c. alpha c \<or> digit c \<or> c \<in> set ''+/''))) (Star_p (ch_p CHR ''='')))
      st (base64_encode x @ CHR 0x22 # t) (Match st (CHR 0x22 # t))"
    unfolding e append_assoc ch_p_def
  proof (rule gives_Then [OF star_read [OF cs] star_read])
    fix c u assume "replicate k CHR ''='' @ CHR 0x22 # t = c # u"
    then have "c = CHR ''='' \<or> c = CHR 0x22" by (cases k) auto
    then show "\<not> (alpha c \<or> digit c \<or> c \<in> set ''+/'')" by (auto simp: alpha_def in_range_def digit_def)
  qed auto
  have "length (base64_encode x) mod 4 = 0" using base64_read [of x] by (auto simp: base64_decode_def split: if_splits)
  then show "binDataBinary (between (pre_skip False (base64_encode x @ CHR 0x22 # t)) (CHR 0x22 # t)) st =
      Inr (st\<lparr>jb_binData := x\<rparr>)" by (simp add: binDataBinary_def base64_read)
qed

section \<open>What can be read back\<close>

text \<open>
  JSON has one notation for the two integer types, none for symbols, and arrays without names.
\<close>

definition normal_long :: "64 word \<Rightarrow> bson" where
  "normal_long i = (if int_range (sint i) then B_Int (word_of_int (sint i)) else B_Long i)"

fun normal :: "bson \<Rightarrow> bson" and normal_fields :: "fields \<Rightarrow> fields" and normal_elems :: "nat \<Rightarrow> fields \<Rightarrow> fields" where
  "normal (B_Object fs) = B_Object (normal_fields fs)"
| "normal (B_Array fs) = B_Array (normal_elems 0 fs)"
| "normal (B_Symbol s) = B_String s"
| "normal (B_Long i) = normal_long i"
| "normal v = v"
| "normal_fields [] = []"
| "normal_fields ((name, v) # fs) = (name, normal v) # normal_fields fs"
| "normal_elems i [] = []"
| "normal_elems i ((name, v) # fs) = (show_nat i, normal v) # normal_elems (Suc i) fs"

definition plain_name :: "string \<Rightarrow> bool" where
  "plain_name name \<longleftrightarrow> nul \<notin> set name \<and> (name = [] \<or> hd name \<noteq> CHR ''$'')"

text \<open>
  Not read back are values without JSON notation (undefined, code, the keys of the extended
  range, time stamps), a double whose printed digits denote another number, a binary subtype of
  0x80 and above, an unescaped namespace, and names that start with a dollar sign, which the parser
  takes for its own.
\<close>

definition double_read :: "number_parsers \<Rightarrow> 64 word \<Rightarrow> bool" where
  "double_read N d \<longleftrightarrow>
     finite_double d \<and> (\<forall>t. number_end t \<longrightarrow> np_strict_real N (print_double d @ t) = Some (d, t))"

fun readable :: "number_parsers \<Rightarrow> bson \<Rightarrow> bool" and readable_fields :: "number_parsers \<Rightarrow> bool \<Rightarrow> fields \<Rightarrow> bool" where
  "readable N (B_Double d) = double_read N d"
| "readable N (B_Object fs) = readable_fields N True fs"
| "readable N (B_Array fs) = readable_fields N False fs"
| "readable N (B_BinData t s) = ((of_char t :: nat) < 128)"
| "readable N (B_OID s) = (length s = 12)"
| "readable N (B_RegEx r opts) = (nul \<notin> set r \<and> (\<forall>c \<in> set opts. alpha c))"
| "readable N (B_DBRef ns i) = (length i = 12 \<and> escaped_text False ns = ns)"
| "readable N (B_String s) = True"
| "readable N (B_Symbol s) = True"
| "readable N (B_Bool b) = True"
| "readable N (B_Date d) = True"
| "readable N B_Null = True"
| "readable N (B_Int i) = True"
| "readable N (B_Long i) = True"
| "readable N _ = False"
| "readable_fields N named [] = True"
| "readable_fields N named ((name, v) # fs) =
     ((named \<longrightarrow> plain_name name) \<and> nul \<notin> set name \<and> readable N v \<and> readable_fields N named fs)"

lemma hex_chars_nat:
  "unat (drop_bit 4 (byte c AND 0xF0)) = of_char c div 16" "unat (byte c AND 0x0F) = of_char c mod 16"
proof -
  have n: "unat (byte c) = of_char c" by (simp add: byte_def unsigned_of_nat take_bit_nat_eq_self)
  have [simp]: "\<not> bit (byte c) k" if "8 \<le> k" for k using that by (auto dest: bit_imp_le_length)
  have "drop_bit 4 (byte c AND 0xF0) = drop_bit 4 (byte c)" by (rule byte_eqI) (simp_all add: byte_bits)
  then show "unat (drop_bit 4 (byte c AND 0xF0)) = of_char c div 16"
    by (simp add: unsigned_drop_bit_eq drop_bit_eq_div unat_div_distrib n del: drop_bit_and)
  have "byte c AND 0x0F = take_bit 4 (byte c)" by (rule byte_eqI) (simp_all add: byte_bits bit_take_bit_iff)
  then show "unat (byte c AND 0x0F) = of_char c mod 16" by (simp add: unsigned_take_bit_eq take_bit_eq_mod unat_mod_distrib n)
qed

lemma subtype_text_low:
  assumes "(of_char c :: nat) < 128"
  shows "subtype_text c = toHexLower [c]"
proof -
  let ?n = "of_char c :: nat"
  have "unat (scast (byte c) :: 32 word) = ?n"
    using assms by (simp add: scast_eq sint_byte unsigned_of_nat take_bit_nat_eq_self)
  moreover have "?n div 16 < 16" using assms by simp
  ultimately show ?thesis
    by (simp add: subtype_text_def toHexLower_def hex_chars_def hex_chars_nat Let_def del: drop_bit_and)
qed

lemma show_int_first: "\<exists>c cs. show_int i = c # cs \<and> c \<noteq> CHR 0x22 \<and> \<not> ascii_space c"
proof -
  obtain c cs where "show_nat (nat i) = c # cs" "digit c" by (rule show_nat_Cons)
  moreover have "digit c \<Longrightarrow> c \<noteq> CHR 0x22" by (auto simp: digit_def)
  ultimately show ?thesis using digit_not_ascii_space by (auto simp: show_int_def ascii_space_def)
qed

context number_parsers_spec
begin

lemma int_read:
  assumes "ready st name (field_bytes name v)" and "pre_skip True s = show_int i @ t" and "number_end t"
    and "v = (if int_range i then B_Int (word_of_int i) else B_Long (word_of_int i))" and "- (2 ^ 63) \<le> i" and "i < 2 ^ 63"
  shows "value_read N st s name v t"
proof -
  obtain c cs where c: "show_int i = c # cs" "c \<noteq> CHR 0x22" using show_int_first by blast
  obtain st' where st': "intValue i st = Inr st'" "appended st (field_bytes name v) st'"
  proof (cases "int_range i")
    case True
    then have a: "appends (append_int name (word_of_int i)) (field_bytes name v)" using assms(4) appends_scalar(2) by simp
    obtain st' where "to_back (\<lambda>name. append_int name (word_of_int i)) st = Inr st'" "appended st (field_bytes name v) st'"
      by (rule to_back_appends [where f = "\<lambda>name. append_int name (word_of_int i)", OF assms(1) a])
    with True show thesis by (intro that [of st']) (simp_all add: intValue_def)
  next
    case False
    then have a: "appends (append_long name (word_of_int i)) (field_bytes name v)" using assms(4) appends_scalar(3) by simp
    obtain st' where "to_back (\<lambda>name. append_long name (word_of_int i)) st = Inr st'" "appended st (field_bytes name v) st'"
      by (rule to_back_appends [where f = "\<lambda>name. append_long name (word_of_int i)", OF assms(1) a])
    with False show thesis by (intro that [of st']) (simp_all add: intValue_def)
  qed
  have "gives (mongo_grammar N) True (Rule_p R_integer) st s (Match st' t)"
    by (rule gives_Rule, unfold mongo_grammar.simps num_p_def, rule gives_Num [where act = "intValue i"])
      (use assms reads_int [of t i] st'(1) in auto)
  moreover have "gives (mongo_grammar N) True (Rule_p R_number) st s (No_Match st)"
    by (rule gives_Rule, unfold mongo_grammar.simps num_p_def, rule gives_Num_none) (use assms not_strict [of t i] in simp)
  moreover have "gives (mongo_grammar N) True (Act_p (Rule_p R_str) stringEnd) st s (No_Match st)"
    using first_none(1) [of s c "cs @ t" N st] assms(2) c by (auto intro: gives_Act_none)
  ultimately show ?thesis unfolding value_read_def using st'(2)
    by (intro exI [of _ st'] conjI value_choice [of 2]) (auto simp: alternatives_def less_Suc_eq numeral_2_eq_2)
qed

lemma double_first:
  assumes "double_read N d"
  obtains c cs where "print_double d = c # cs" and "number_start c"
proof -
  have "np_strict_real N (print_double d @ '','') = Some (d, '','')"
    using assms by (simp add: double_read_def number_end_def digit_def)
  then show thesis
    using no_number(1) [of "CHR '',''" "[]"] no_number(1) [of "hd (print_double d)" "tl (print_double d) @ '',''"] that
    by (cases "print_double d") (auto simp: number_start_def digit_def)
qed

lemma double_value_read:
  assumes "ready st name (field_bytes name (B_Double d))" and "pre_skip True s = print_double d @ t" and "number_end t"
    and "double_read N d"
  shows "value_read N st s name (B_Double d) t"
proof -
  have r: "np_strict_real N (print_double d @ t) = Some (d, t)" using assms by (simp add: double_read_def)
  obtain c cs where c: "print_double d = c # cs" "number_start c" by (rule double_first [OF assms(4)])
  obtain st' where st': "numberValue d st = Inr st'" "appended st (field_bytes name (B_Double d)) st'"
    using to_back_appends [where f = "\<lambda>name. append_double name d", OF assms(1) appends_scalar(1)]
    by (auto simp: numberValue_def)
  have "gives (mongo_grammar N) True (Rule_p R_number) st s (Match st' t)"
    by (rule gives_Rule, unfold mongo_grammar.simps num_p_def, rule gives_Num [where act = "numberValue d"])
      (use assms r st'(1) in auto)
  moreover have "c \<noteq> CHR 0x22" using c(2) by (auto simp: number_start_def digit_def)
  then have "gives (mongo_grammar N) True (Act_p (Rule_p R_str) stringEnd) st s (No_Match st)"
    using first_none(1) [of s c "cs @ t" N st] assms(2) c by (auto intro: gives_Act_none)
  ultimately show ?thesis unfolding value_read_def using st'(2)
    by (intro exI [of _ st'] conjI value_choice [of 1]) (auto simp: alternatives_def)
qed

lemma string_value_read:
  assumes "ready st name (field_bytes name (B_String x))" and "pre_skip True s = quoted_text (escaped_text False x) @ t"
  shows "value_read N st s name (B_String x) t"
  by (rule value_readI [where i = "0" and act = stringEnd and ?st2.0 = "st\<lparr>jb_ss := []\<rparr>" and
        f = "\<lambda>name. append_string name x", OF _ _ _ str_read [OF assms(2)]])
    (use assms ready_sized [OF assms(1)] in
      \<open>simp_all add: alternatives_def stringEnd_def popString_def appends_sized sized_string_def\<close>)

lemma keyword_read:
  assumes "ready st name (field_bytes name v)" and "pre_skip True s = w @ t"
    and "(w, v) \<in> {(''true'', B_Bool True), (''false'', B_Bool False), (''null'', B_Null)}"
  shows "value_read N st s name v t"
proof -
  obtain i act f where i: "i < 14" "alternatives N ! i = Act_p (Lexeme_d (Str_p w)) act" "\<And>x st. act x st = to_back f st"
    "appends (f name) (field_bytes name v)" "\<And>j. j < i \<Longrightarrow> gives (mongo_grammar N) True (alternatives N ! j) st s (No_Match st)"
  proof -
    have c: "\<not> number_start CHR ''t''" "\<not> number_start CHR ''f''" "\<not> number_start CHR ''n''"
      by (simp_all add: number_start_def digit_def)
    note fails = fails_before [of s _ _ st, OF _ _ c(1)] fails_before [of s _ _ st, OF _ _ c(2)] fails_before [of s _ _ st, OF _ _ c(3)]
    show thesis
      using assms(3)
    proof (elim insertE emptyE)
      assume "(w, v) = (''true'', B_Bool True)"
      then show thesis using assms(2) fails appends_scalar(4)
        by (intro that [of 4 trueValue "\<lambda>name. appendBool name True"])
          (auto simp: alternatives_def trueValue_def less_Suc_eq numeral_eq_Suc)
    next
      assume "(w, v) = (''false'', B_Bool False)"
      then show thesis using assms(2) fails appends_scalar(4)
        by (intro that [of 5 falseValue "\<lambda>name. appendBool name False"])
          (auto simp: alternatives_def falseValue_def less_Suc_eq numeral_eq_Suc)
    next
      assume "(w, v) = (''null'', B_Null)"
      then show thesis using assms(2) fails appends_scalar(5)
        by (intro that [of 6 nullValue appendNull])
          (auto simp: alternatives_def nullValue_def less_Suc_eq numeral_eq_Suc)
    qed
  qed
  show ?thesis
    by (rule value_readI [OF i(1,5,2) _ i(3) assms(1) i(4)]) (use assms(2) in \<open>auto intro!: gives_Lexeme gives_Str\<close>)
qed

end

section \<open>Special objects\<close>

lemma sequence_read:
  "gives G sk a st s (Match st1 t) \<Longrightarrow> gives G sk (sequence_p (b # es)) st1 t r \<Longrightarrow>
   gives G sk (sequence_p (a # b # es)) st s r"
  by (simp add: gives_Then)

lemma next_key_read:
  assumes "pre_skip True s = '', '' @ quoted_text k @ '' : '' @ t" and "gives (mongo_grammar N) True (sequence_p (x # es)) st ('' '' @ t) r"
  shows "gives (mongo_grammar N) True (sequence_p (ch_p CHR '','' # key_p k # ch_p CHR '':'' # x # es)) st s r"
  unfolding sequence_p.simps
  by (rule gives_Then [OF gives_ch(1)], use assms(1) in simp, rule gives_Then [OF key_read], simp,
      rule gives_Then [OF gives_ch(1)], simp) (use assms(2) in simp)

lemma close_read: "gives (mongo_grammar N) True (sequence_p [ch_p CHR 0x7D]) st ('' }'' @ t) (Match st t)"
  by (simp add: gives_ch)

lemma then_close_read:
  assumes "gives (mongo_grammar N) True x st s (Match st' ('' }'' @ t))"
  shows "gives (mongo_grammar N) True (sequence_p [x, ch_p CHR 0x7D]) st s (Match st' t)"
  unfolding sequence_p.simps by (rule gives_Then [OF assms]) (simp add: gives_ch)

lemma act_str_read:
  assumes "pre_skip True s = quoted_text (escaped_text False x) @ t" and "\<And>w. act w (st\<lparr>jb_ss := x\<rparr>) = Inr st'"
  shows "gives (mongo_grammar N) True (Act_p (Rule_p R_str) act) st s (Match st' t)"
  by (rule gives_Act [OF str_read [OF assms(1)]]) (rule assms(2))

lemma quoted_act_read:
  assumes "pre_skip True s = quoted_text x @ t" and "gives (mongo_grammar N) False p st (x @ CHR 0x22 # t) (Match st (CHR 0x22 # t))"
    and "act x st = Inr st'"
  shows "gives (mongo_grammar N) True (quoted_p (Act_p p act)) st s (Match st' t)"
  by (rule quoted_read [OF assms(1)], rule gives_Act [OF assms(2)]) (use assms(3) in simp)

lemma special_keys [simp]:
  "no_key k (CHR '' '' # CHR 0x22 # w) \<longleftrightarrow> strip_prefix (k @ [CHR 0x22]) w = None"
  by (simp add: no_key_def quoted_text_def)

context number_parsers_spec
begin

lemma date_value_read:
  assumes "ready st name (field_bytes name (B_Date d))"
    and "pre_skip True s = ''{ '' @ quoted_text ''$date'' @ '' : '' @ show_nat (unat d) @ '' }'' @ t"
  shows "value_read N st s name (B_Date d) t"
proof (rule value_readI [where i = "8" and act = dateEnd and ?st1.0 = "st\<lparr>jb_date := d\<rparr>" and ?st2.0 = "st\<lparr>jb_date := d\<rparr>" and
      f = "\<lambda>name. appendDate name d" and p = "Rule_p R_date"])
  have n: "number_end ('' }'' @ t)" by (simp add: number_end_def digit_def)
  have "gives (mongo_grammar N) True (num_p (np_uint N) dateValue) st ('' '' @ show_nat (unat d) @ '' }'' @ t)
      (Match (st\<lparr>jb_date := d\<rparr>) ('' }'' @ t))"
    unfolding num_p_def by (rule gives_Num [where act = "dateValue d"]) (use reads_uint [OF n, of d] in \<open>simp_all add: dateValue_def\<close>)
  from then_close_read [OF this]
  have "gives (mongo_grammar N) True (Rule_p R_dateS) st s (Match (st\<lparr>jb_date := d\<rparr>) t)"
    by (intro gives_Rule, unfold mongo_grammar.simps) (rule special_read [OF assms(2)])
  then show "gives (mongo_grammar N) True (Rule_p R_date) st s (Match (st\<lparr>jb_date := d\<rparr>) t)"
    by (intro gives_Rule, unfold mongo_grammar.simps) (rule gives_Or1)
  show "gives (mongo_grammar N) True (alternatives N ! j) st s (No_Match st)" if "j < 8" for j
    using that by (intro brace_before [where i = "8"]) (use assms(2) in auto)
qed (use assms(1) appends_scalar in \<open>simp_all add: alternatives_def dateEnd_def\<close>)

lemma oid_value_read:
  assumes "ready st name (field_bytes name (B_OID i))" and "length i = 12"
    and "pre_skip True s = ''{ '' @ quoted_text ''$oid'' @ '' : '' @ quoted_text (toHexLower i) @ '' }'' @ t"
  shows "value_read N st s name (B_OID i) t"
proof (rule value_readI [where i = "9" and act = oidEnd and ?st1.0 = "st\<lparr>jb_oid := i\<rparr>" and ?st2.0 = "st\<lparr>jb_oid := i\<rparr>" and
      f = "\<lambda>name. appendOID name i" and p = "Rule_p R_oid"])
  have "gives (mongo_grammar N) True (Rule_p R_quotedOid) st ('' '' @ quoted_text (toHexLower i) @ '' }'' @ t)
      (Match (st\<lparr>jb_oid := i\<rparr>) ('' }'' @ t))"
    by (rule oid_read) (use assms(2) in simp_all)
  from then_close_read [OF this]
  have "gives (mongo_grammar N) True (Rule_p R_oidS) st s (Match (st\<lparr>jb_oid := i\<rparr>) t)"
    by (intro gives_Rule, unfold mongo_grammar.simps) (rule special_read [OF assms(3)])
  then show "gives (mongo_grammar N) True (Rule_p R_oid) st s (Match (st\<lparr>jb_oid := i\<rparr>) t)"
    by (intro gives_Rule, unfold mongo_grammar.simps) (rule gives_Or1)
  show "gives (mongo_grammar N) True (alternatives N ! j) st s (No_Match st)" if "j < 9" for j
    using that by (intro brace_before [where i = "9"]) (use assms(3) in \<open>auto simp: quoted_text_def\<close>)
qed (use assms(1) appends_scalar in \<open>simp_all add: alternatives_def oidEnd_def\<close>)

end

lemma hex_pair_read:
  obtains h l where "toHexLower [c] = [h, l]" and "fromHex2 h l = Inr c"
proof -
  obtain h l where hl: "toHexLower [c] = [h, l]"
    using toHexLower_length [of "[c]"] by (cases "toHexLower [c]"; cases "tl (toHexLower [c])") auto
  moreover have "fromHex2 h l = Inr c" using toHex_read(2) [of "[c]"] by (cases "fromHex2 h l") (auto simp: hl)
  ultimately show thesis by (rule that)
qed

lemma subtype_read:
  assumes "pre_skip True s = quoted_text (toHexLower [c]) @ t"
  shows "gives (mongo_grammar N) True (quoted_p (Act_p (repeat_p 2 (Ch_p xdigit)) binDataType)) st s (Match (st\<lparr>jb_binDataType := c\<rparr>) t)"
proof (rule quoted_act_read [OF assms])
  obtain h l where hl: "toHexLower [c] = [h, l]" "fromHex2 h l = Inr c" by (rule hex_pair_read)
  show "gives (mongo_grammar N) False (repeat_p 2 (Ch_p xdigit)) st (toHexLower [c] @ CHR 0x22 # t) (Match st (CHR 0x22 # t))"
    using repeat_read [OF _ hex_digits [of "[c]"]] hl by (simp add: numeral_2_eq_2)
  show "binDataType (toHexLower [c]) st = Inr (st\<lparr>jb_binDataType := c\<rparr>)" using hl by (simp add: binDataType_def)
qed

lemma options_read:
  assumes "pre_skip True s = quoted_text opts @ t" and "\<forall>c \<in> set opts. alpha c"
  shows "gives (mongo_grammar N) True (quoted_p (Act_p (Star_p (Ch_p alpha)) regexOptions)) st s (Match (st\<lparr>jb_regexOptions := opts\<rparr>) t)"
  by (rule quoted_act_read [OF assms(1) star_read [OF assms(2)]]) (auto simp: regexOptions_def alpha_def in_range_def)

context number_parsers_spec
begin

lemma bindata_value_read:
  assumes "ready st name (field_bytes name (B_BinData c x))"
    and "pre_skip True s = ''{ '' @ quoted_text ''$binary'' @ '' : '' @ quoted_text (base64_encode x) @ '', '' @
      quoted_text ''$type'' @ '' : '' @ quoted_text (toHexLower [c]) @ '' }'' @ t"
  shows "value_read N st s name (B_BinData c x) t"
proof (rule value_readI [where i = "10" and act = binDataEnd and ?st1.0 = "st\<lparr>jb_binData := x, jb_binDataType := c\<rparr>" and
      ?st2.0 = "st\<lparr>jb_binData := x, jb_binDataType := c\<rparr>" and f = "\<lambda>name. appendBinData name c x" and p = "Rule_p R_bindata"])
  let ?t = "'', '' @ quoted_text ''$type'' @ '' : '' @ quoted_text (toHexLower [c]) @ '' }'' @ t"
  have "gives (mongo_grammar N) True (sequence_p [quoted_p (Act_p (Then_p (Star_p (Ch_p (\<lambda>c. alpha c \<or> digit c \<or> c \<in> set ''+/'')))
        (Star_p (ch_p CHR ''=''))) binDataBinary), ch_p CHR '','', key_p ''$type'', ch_p CHR '':'',
        quoted_p (Act_p (repeat_p 2 (Ch_p xdigit)) binDataType), ch_p CHR 0x7D]) st
      ('' '' @ quoted_text (base64_encode x) @ ?t) (Match (st\<lparr>jb_binData := x, jb_binDataType := c\<rparr>) t)"
    by (rule sequence_read [OF quoted_read [OF _ bindata_bytes_read]], simp, rule next_key_read, simp,
        rule then_close_read [OF subtype_read]) simp
  then show "gives (mongo_grammar N) True (Rule_p R_bindata) st s (Match (st\<lparr>jb_binData := x, jb_binDataType := c\<rparr>) t)"
    by (intro gives_Rule, unfold mongo_grammar.simps) (rule special_read [OF assms(2)])
  show "gives (mongo_grammar N) True (alternatives N ! j) st s (No_Match st)" if "j < 10" for j
    using that by (intro brace_before [where i = "10"]) (use assms(2) in \<open>auto simp: quoted_text_def\<close>)
qed (use assms(1) ready_sized [OF assms(1)] in \<open>simp_all add: alternatives_def binDataEnd_def appends_bindata\<close>)

lemma dbref_value_read:
  assumes "ready st name (field_bytes name (B_DBRef ns i))" and "length i = 12" and "escaped_text False ns = ns"
    and "pre_skip True s = ''{ '' @ quoted_text ''$ref'' @ '' : '' @ quoted_text ns @ '', '' @
      quoted_text ''$id'' @ '' : '' @ quoted_text (toHexLower i) @ '' }'' @ t"
  shows "value_read N st s name (B_DBRef ns i) t"
proof (rule value_readI [where i = "11" and act = dbrefEnd and ?st1.0 = "st\<lparr>jb_ss := [], jb_ns := ns, jb_oid := i\<rparr>" and
      ?st2.0 = "st\<lparr>jb_ss := [], jb_ns := ns, jb_oid := i\<rparr>" and f = "\<lambda>name. appendDBRef name ns i" and p = "Rule_p R_dbref"])
  let ?t = "'', '' @ quoted_text ''$id'' @ '' : '' @ quoted_text (toHexLower i) @ '' }'' @ t"
  have ns: "gives (mongo_grammar N) True (Act_p (Rule_p R_str) dbrefNS) st ('' '' @ quoted_text ns @ ?t)
      (Match (st\<lparr>jb_ss := [], jb_ns := ns\<rparr>) ?t)"
    by (rule act_str_read [where x = ns]) (simp_all add: assms(3) dbrefNS_def popString_def)
  have "gives (mongo_grammar N) True (sequence_p [Act_p (Rule_p R_str) dbrefNS, ch_p CHR '','', key_p ''$id'', ch_p CHR '':'',
        Rule_p R_quotedOid, ch_p CHR 0x7D]) st
      ('' '' @ quoted_text ns @ ?t) (Match (st\<lparr>jb_ss := [], jb_ns := ns, jb_oid := i\<rparr>) t)"
    by (rule sequence_read [OF ns], rule next_key_read, simp, rule then_close_read [OF oid_read [OF _ assms(2)]]) simp
  then have "gives (mongo_grammar N) True (Rule_p R_dbrefS) st s (Match (st\<lparr>jb_ss := [], jb_ns := ns, jb_oid := i\<rparr>) t)"
    by (intro gives_Rule, unfold mongo_grammar.simps) (rule special_read [OF assms(4)])
  then show "gives (mongo_grammar N) True (Rule_p R_dbref) st s (Match (st\<lparr>jb_ss := [], jb_ns := ns, jb_oid := i\<rparr>) t)"
    by (intro gives_Rule, unfold mongo_grammar.simps) (rule gives_Or1)
  show "gives (mongo_grammar N) True (alternatives N ! j) st s (No_Match st)" if "j < 11" for j
    using that by (intro brace_before [where i = "11"]) (use assms(4) in \<open>auto simp: quoted_text_def\<close>)
qed (use assms(1) ready_sized [OF assms(1)] in \<open>simp_all add: alternatives_def dbrefEnd_def appends_sized sized_string_def\<close>)

lemma regex_value_read:
  assumes "ready st name (field_bytes name (B_RegEx r opts))" and "\<forall>c \<in> set opts. alpha c"
    and "pre_skip True s = ''{ '' @ quoted_text ''$regex'' @ '' : '' @ quoted_text (escaped_text False r) @ '', '' @
      quoted_text ''$options'' @ '' : '' @ quoted_text opts @ '' }'' @ t"
  shows "value_read N st s name (B_RegEx r opts) t"
proof (rule value_readI [where i = "12" and act = regexEnd and ?st1.0 = "st\<lparr>jb_ss := [], jb_regex := r, jb_regexOptions := opts\<rparr>" and
      ?st2.0 = "st\<lparr>jb_ss := [], jb_regex := r, jb_regexOptions := opts\<rparr>" and f = "\<lambda>name. appendRegex name r opts" and
      p = "Rule_p R_regex"])
  let ?t = "'', '' @ quoted_text ''$options'' @ '' : '' @ quoted_text opts @ '' }'' @ t"
  have r: "gives (mongo_grammar N) True (Act_p (Rule_p R_str) regexValue) st ('' '' @ quoted_text (escaped_text False r) @ ?t)
      (Match (st\<lparr>jb_ss := [], jb_regex := r\<rparr>) ?t)"
    by (rule act_str_read [where x = r]) (simp_all add: regexValue_def popString_def)
  have "gives (mongo_grammar N) True (sequence_p [Act_p (Rule_p R_str) regexValue, ch_p CHR '','', key_p ''$options'', ch_p CHR '':'',
        quoted_p (Act_p (Star_p (Ch_p alpha)) regexOptions), ch_p CHR 0x7D]) st
      ('' '' @ quoted_text (escaped_text False r) @ ?t) (Match (st\<lparr>jb_ss := [], jb_regex := r, jb_regexOptions := opts\<rparr>) t)"
    by (rule sequence_read [OF r], rule next_key_read, simp, rule then_close_read [OF options_read [OF _ assms(2)]]) simp
  then have "gives (mongo_grammar N) True (Rule_p R_regexS) st s (Match (st\<lparr>jb_ss := [], jb_regex := r, jb_regexOptions := opts\<rparr>) t)"
    by (intro gives_Rule, unfold mongo_grammar.simps) (rule special_read [OF assms(3)])
  then show "gives (mongo_grammar N) True (Rule_p R_regex) st s (Match (st\<lparr>jb_ss := [], jb_regex := r, jb_regexOptions := opts\<rparr>) t)"
    by (intro gives_Rule, unfold mongo_grammar.simps) (rule gives_Or1)
  show "gives (mongo_grammar N) True (alternatives N ! j) st s (No_Match st)" if "j < 12" for j
    using that by (intro brace_before [where i = "12"]) (use assms(3) in \<open>auto simp: quoted_text_def\<close>)
qed (use assms(1) appends_scalar in \<open>simp_all add: alternatives_def regexEnd_def\<close>)

end

section \<open>Objects and arrays\<close>

text \<open>Inside an object: fields were appended, what lies below the top of each vector is as before.\<close>

definition inside :: "object_builder \<Rightarrow> bool" where
  "inside st \<longleftrightarrow> jb_builders st \<noteq> [] \<and> jb_names st \<noteq> [] \<and> jb_indexes st \<noteq> []"

definition grown :: "object_builder \<Rightarrow> string \<Rightarrow> object_builder \<Rightarrow> bool" where
  "grown st bytes st' \<longleftrightarrow>
     jb_builders st' = jb_builders st \<and> tl (jb_names st') = tl (jb_names st) \<and> jb_names st' \<noteq> [] \<and>
     tl (jb_indexes st') = tl (jb_indexes st) \<and> jb_indexes st' \<noteq> [] \<and>
     bb_data (jb_buf st') = bb_data (jb_buf st) @ bytes"

lemma grown_refl: "inside st \<Longrightarrow> grown st [] st"
  by (simp add: inside_def grown_def)

lemma grown_trans: "grown st1 x st2 \<Longrightarrow> grown st2 y st3 \<Longrightarrow> grown st1 (x @ y) st3"
  by (simp add: grown_def)

lemma grown_inside: "inside st \<Longrightarrow> grown st bytes st' \<Longrightarrow> inside st'"
  by (auto simp: inside_def grown_def)

text \<open>A document opened in the buffer, filled, and closed by \<^verbatim>\<open>pop\<close>.\<close>

lemma document_read:
  assumes "builder_on buf = Inr (\<lparr>ob_offset = length pre, ob_doneCalled = False\<rparr>, buf')"
    and "grown (push_builder (\<lparr>ob_offset = length pre, ob_doneCalled = False\<rparr>, buf') st) (encode_fields fs) st2"
    and "bb_data buf' = pre @ replicate 4 nul" and "wf_fields fs" and "length pre + length (encode_doc fs) \<le> 2 ^ 28"
  obtains st' where "pop st2 = Inr (encode_doc fs, st')" and "jb_builders st' = jb_builders st" and
    "jb_names st' = jb_names st" and "jb_indexes st' = jb_indexes st" and "bb_data (jb_buf st') = pre @ encode_doc fs"
proof -
  let ?ob = "\<lparr>ob_offset = length pre, ob_doneCalled = False\<rparr>"
  have st2: "jb_builders st2 = ?ob # jb_builders st" "tl (jb_names st2) = jb_names st" "tl (jb_indexes st2) = jb_indexes st"
    "bb_data (jb_buf st2) = pre @ replicate 4 nul @ encode_fields fs"
    using assms(2,3) by (simp_all add: grown_def push_builder_def)
  obtain p ob' b where "builder_object ?ob (jb_buf st2) = Inr (p, ob', b)" "bb_data b = pre @ encode_doc fs" "p = encode_doc fs"
    by (rule builder_object_stores [OF st2(4)]) (use assms(4,5) st2(4) in \<open>auto simp: encode_doc_def doc_of_def\<close>)
  then show thesis using st2(1-3)
    by (intro that [of "st2\<lparr>jb_buf := b, jb_builders := jb_builders st, jb_names := jb_names st, jb_indexes := jb_indexes st\<rparr>"])
      (auto simp: pop_def)
qed

lemma sub_read:
  assumes ready: "ready st name (field_of name ty (encode_doc fs))" and start: "appends (start name) (field_of name ty [])"
    and wf: "wf_fields fs"
  obtains st1 where
    "bind_result (start name (jb_buf st)) (\<lambda>buf. bind_result (builder_on buf) (\<lambda>r. Inr (push_builder r st))) = Inr st1"
    and "inside st1" and "hd (jb_indexes st1) = 0"
    and "length (bb_data (jb_buf st1)) + length (encode_fields fs) \<le> 2 ^ 28"
    and "\<And>st2. grown st1 (encode_fields fs) st2 \<Longrightarrow>
      \<exists>p st'. pop st2 = Inr (p, st') \<and> appended st (field_of name ty (encode_doc fs)) st'"
proof -
  have len: "length (bb_data (jb_buf st)) + length name + length (encode_fields fs) + 7 \<le> 2 ^ 28"
    using ready by (simp add: ready_def field_of_def encode_doc_def doc_of_def)
  obtain b1 where b1: "start name (jb_buf st) = Inr b1" "bb_data b1 = bb_data (jb_buf st) @ field_of name ty []"
    using appendsD [OF start, of "jb_buf st"] len by (auto simp: field_of_def)
  let ?ob = "\<lparr>ob_offset = length (bb_data b1), ob_doneCalled = False\<rparr>"
  obtain b2 where b2: "builder_on b1 = Inr (?ob, b2)" "bb_data b2 = bb_data b1 @ replicate 4 nul"
    by (rule builder_on_appends [of b1]) (use b1 len in \<open>auto simp: field_of_def\<close>)
  have close: "\<exists>p st'. pop st2 = Inr (p, st') \<and> appended st (field_of name ty (encode_doc fs)) st'"
    if grown: "grown (push_builder (?ob, b2) st) (encode_fields fs) st2" for st2
  proof -
    obtain st' where "pop st2 = Inr (encode_doc fs, st')" "jb_builders st' = jb_builders st" "jb_names st' = jb_names st"
      "jb_indexes st' = jb_indexes st" "bb_data (jb_buf st') = bb_data b1 @ encode_doc fs"
      by (rule document_read [OF b2(1) grown b2(2) wf]) (use b1 len in \<open>auto simp: field_of_def encode_doc_def doc_of_def\<close>)
    then show ?thesis using b1(2) by (simp add: appended_def field_of_def)
  qed
  show thesis
    by (rule that [OF _ _ _ _ close]) (use b1 b2 len in \<open>simp_all add: push_builder_def inside_def field_of_def\<close>)
qed

text \<open>What the value parser owes an object or array for each of its values.\<close>

definition value_ok :: "number_parsers \<Rightarrow> ctime \<Rightarrow> bson \<Rightarrow> bool" where
  "value_ok N ctime v \<longleftrightarrow>
     (\<forall>st name s t. ready st name (field_bytes name (normal v)) \<longrightarrow> pre_skip True s = value_text ctime Strict 0 v @ t \<longrightarrow>
        number_end t \<longrightarrow> value_read N st s name (normal v) t)"

lemma value_okD:
  assumes "value_ok N ctime v" and "ready st name (field_bytes name (normal v))"
    and "pre_skip True s = value_text ctime Strict 0 v @ t" and "number_end t"
  obtains st' where "gives (mongo_grammar N) True (Rule_p R_value) st s (Match st' t)" and "appended st (field_bytes name (normal v)) st'"
  using assms unfolding value_ok_def value_read_def by blast

abbreviation member_p :: jb_parser where
  "member_p \<equiv> sequence_p [Rule_p R_fieldName, ch_p CHR '':'', Rule_p R_value]"

lemma plain_not_reserved: "plain_name name \<Longrightarrow> name \<notin> set reserved_names"
  by (auto simp: plain_name_def reserved_names_def)

lemma member_read:
  assumes ok: "value_ok N ctime v" and name: "plain_name name" and st: "inside st"
    and len: "length (bb_data (jb_buf st)) + length (field_bytes name (normal v)) \<le> 2 ^ 28"
    and s: "pre_skip True s = quoted_text (escaped_text False name) @ '' : '' @ value_text ctime Strict 0 v @ u"
    and first: "pre_skip True (value_text ctime Strict 0 v @ u) = value_text ctime Strict 0 v @ u" and u: "number_end u"
  obtains st' where "gives (mongo_grammar N) True member_p st s (Match st' u)" and "grown st (field_bytes name (normal v)) st'"
proof -
  let ?st = "st\<lparr>jb_ss := [], jb_names := name # tl (jb_names st)\<rparr>"
  let ?v = "value_text ctime Strict 0 v @ u"
  have "fieldNameEnd w (st\<lparr>jb_ss := name\<rparr>) = Inr ?st" for w
    using plain_not_reserved [OF name] st
    by (cases "jb_names st") (auto simp: fieldNameEnd_def popString_def set_name_def inside_def)
  then have "gives (mongo_grammar N) True (Act_p (Rule_p R_str) fieldNameEnd) st s (Match ?st ('' : '' @ ?v))"
    by (intro act_str_read [OF s])
  then have field: "gives (mongo_grammar N) True (Rule_p R_fieldName) st s (Match ?st ('' : '' @ ?v))"
    by (intro gives_Rule) (simp add: gives_Or1)
  have "ready ?st name (field_bytes name (normal v))" using name st len by (simp add: ready_def inside_def plain_name_def)
  then obtain st' where st': "gives (mongo_grammar N) True (Rule_p R_value) ?st ('' '' @ ?v) (Match st' u)"
    "appended ?st (field_bytes name (normal v)) st'"
    by (rule value_okD [where s = "'' '' @ ?v", OF ok _ _ u]) (use first in simp)
  show thesis
  proof (rule that)
    show "gives (mongo_grammar N) True member_p st s (Match st' u)"
      by (rule sequence_read [OF field], unfold sequence_p.simps, rule gives_Then [OF gives_ch(1) st'(1)]) simp
    show "grown st (field_bytes name (normal v)) st'" using st'(2) st by (simp add: appended_def grown_def inside_def)
  qed
qed

lemma act_ch_read:
  assumes "pre_skip True s = c # t" and "\<And>w. act w st = Inr st'"
  shows "gives (mongo_grammar N) True (Act_p (ch_p c) act) st s (Match st' t)"
  by (rule gives_Act [OF gives_ch(1) [OF assms(1)]]) (rule assms(2))

lemma comma_none: "u = '' '' @ c # t \<Longrightarrow> \<not> ascii_space c \<Longrightarrow> c \<noteq> CHR '','' \<Longrightarrow> gives G True (ch_p CHR '','') st u (No_Match st)"
  by (simp add: gives_ch)

lemma end_close [simp]: "number_end (CHR '' '' # t)" "number_end (CHR '','' # t)"
  by (simp_all add: number_end_def digit_def)

text \<open>The elements of an array are numbered.\<close>

definition at_element :: "nat \<Rightarrow> object_builder \<Rightarrow> bool" where
  "at_element i st \<longleftrightarrow> inside st \<and> hd (jb_indexes st) = word_of_nat i \<and> i \<le> length (bb_data (jb_buf st))"

lemma sint_index: "i \<le> 2 ^ 28 \<Longrightarrow> sint (word_of_nat i :: 32 word) = int i"
  by (simp add: signed_of_nat signed_take_bit_int_eq_self)

lemma nameFromIndex_at:
  assumes "at_element i st" and "length (bb_data (jb_buf st)) \<le> 2 ^ 28"
  shows "nameFromIndex st = Inr (st\<lparr>jb_names := show_nat i # tl (jb_names st)\<rparr>)"
proof -
  obtain ix ixs where "jb_indexes st = ix # ixs" "jb_names st \<noteq> []" using assms(1) by (cases "jb_indexes st") (auto simp: at_element_def inside_def)
  moreover have "numStr (word_of_nat i) = Inr (show_nat i)"
    using assms by (simp add: numStr_show sint_index at_element_def show_int_def)
  ultimately show ?thesis using assms(1)
    by (cases "jb_names st") (auto simp: nameFromIndex_def set_name_def at_element_def)
qed

lemma show_nat_no_nul: "nul \<notin> set (show_nat n)"
  using show_nat_digits [of n] by (auto simp: digit_def)

context number_parsers_spec
begin

lemma text_first:
  assumes "readable N v"
  shows "pre_skip True (value_text ctime Strict 0 v @ u) = value_text ctime Strict 0 v @ u"
proof -
  have si: "\<exists>c. (\<exists>cs. show_int i = c # cs) \<and> \<not> ascii_space c" for i
    using show_int_first by blast
  have "\<exists>c cs. value_text ctime Strict 0 v = c # cs \<and> \<not> ascii_space c"
  proof (cases v)
    case (B_Double d)
    with assms obtain c cs where "print_double d = c # cs" "number_start c" using double_first by auto
    then show ?thesis using B_Double digit_not_ascii_space by (auto simp: number_start_def ascii_space_def)
  qed (use assms si in \<open>auto simp: quoted_text_def Let_def\<close>)
  then show ?thesis by auto
qed

text \<open>What follows the first member or element.\<close>

abbreviation more_members :: "ctime \<Rightarrow> fields \<Rightarrow> string" where
  "more_members ctime fs \<equiv> (if fs = [] then [] else '', '' @ members_text ctime Strict 0 fs)"

abbreviation more_elements :: "ctime \<Rightarrow> fields \<Rightarrow> string" where
  "more_elements ctime fs \<equiv> (if fs = [] then [] else '', '' @ elements_text ctime Strict 0 fs)"

lemma first_member_read:
  assumes ok: "\<forall>f \<in> set ((name, v) # fs). value_ok N ctime (snd f)" and r: "readable_fields N True ((name, v) # fs)"
    and st: "inside st"
    and len: "length (bb_data (jb_buf st)) + length (encode_fields (normal_fields ((name, v) # fs))) \<le> 2 ^ 28"
  obtains st1 where "gives (mongo_grammar N) True member_p st ('' '' @ members_text ctime Strict 0 ((name, v) # fs) @ '' }'' @ t)
      (Match st1 (more_members ctime fs @ '' }'' @ t))"
    and "grown st (field_bytes name (normal v)) st1" and "inside st1"
    and "length (bb_data (jb_buf st1)) + length (encode_fields (normal_fields fs)) \<le> 2 ^ 28"
proof -
  let ?u = "more_members ctime fs @ '' }'' @ t"
  have v: "readable N v" "plain_name name" "value_ok N ctime v" using ok r by simp_all
  then have nu: "v \<noteq> B_Undefined" by auto
  have len': "length (bb_data (jb_buf st)) + length (field_bytes name (normal v)) + length (encode_fields (normal_fields fs)) \<le> 2 ^ 28"
    using len by (simp add: field_bytes_def)
  have mt: "members_text ctime Strict 0 ((name, v) # fs) @ '' }'' @ t =
      quoted_text (escaped_text False name) @ '' : '' @ value_text ctime Strict 0 v @ ?u"
    using nu by (simp add: deeper_def separator_def elem_text_def)
  have ms: "pre_skip True ('' '' @ members_text ctime Strict 0 ((name, v) # fs) @ '' }'' @ t) =
      quoted_text (escaped_text False name) @ '' : '' @ value_text ctime Strict 0 v @ ?u"
    unfolding mt by simp
  have u: "number_end ?u" by (cases "fs = []") simp_all
  obtain st1 where st1: "gives (mongo_grammar N) True member_p st ('' '' @ members_text ctime Strict 0 ((name, v) # fs) @ '' }'' @ t) (Match st1 ?u)"
    "grown st (field_bytes name (normal v)) st1"
    by (rule member_read [OF v(3,2) st _ ms text_first [OF v(1)] u]) (use len' in simp)
  show thesis by (rule that [OF st1 grown_inside [OF st st1(2)]]) (use st1(2) len' in \<open>simp add: grown_def\<close>)
qed

lemma members_rest:
  assumes "\<forall>f \<in> set fs. value_ok N ctime (snd f)" and "readable_fields N True fs" and "inside st"
    and "length (bb_data (jb_buf st)) + length (encode_fields (normal_fields fs)) \<le> 2 ^ 28"
  shows "\<exists>st'. gives (mongo_grammar N) True (Star_p (Then_p (ch_p CHR '','') member_p)) st
      (more_members ctime fs @ '' }'' @ t) (Match st' ('' }'' @ t)) \<and>
    grown st (encode_fields (normal_fields fs)) st'"
  using assms
proof (induction fs arbitrary: st)
  case Nil
  then show ?case
    by (intro exI [of _ st]) (auto simp: grown_refl intro!: gives_Star_stop gives_Then_none comma_none)
next
  case (Cons f fs)
  obtain name v where f: "f = (name, v)" by (cases f)
  obtain st1 where st1: "gives (mongo_grammar N) True member_p st ('' '' @ members_text ctime Strict 0 (f # fs) @ '' }'' @ t)
      (Match st1 (more_members ctime fs @ '' }'' @ t))" "grown st (field_bytes name (normal v)) st1" "inside st1"
    "length (bb_data (jb_buf st1)) + length (encode_fields (normal_fields fs)) \<le> 2 ^ 28"
    by (rule first_member_read [OF Cons.prems [unfolded f], of t]) (use f in simp)
  then obtain st2 where st2: "gives (mongo_grammar N) True (Star_p (Then_p (ch_p CHR '','') member_p)) st1
      (more_members ctime fs @ '' }'' @ t) (Match st2 ('' }'' @ t))" "grown st1 (encode_fields (normal_fields fs)) st2"
    using Cons.IH [of st1] Cons.prems(1,2) f by auto
  have "gives (mongo_grammar N) True (Then_p (ch_p CHR '','') member_p) st (more_members ctime (f # fs) @ '' }'' @ t)
      (Match st1 (more_members ctime fs @ '' }'' @ t))"
    by (rule gives_Then [OF gives_ch(1) st1(1)]) simp
  from gives_Star_step [OF this st2(1)] grown_trans [OF st1(2) st2(2)]
  show ?case using f by (intro exI [of _ st2]) (simp add: field_bytes_def)
qed

lemma members_read:
  assumes "fs \<noteq> []" and "\<forall>f \<in> set fs. value_ok N ctime (snd f)" and "readable_fields N True fs" and "inside st"
    and "length (bb_data (jb_buf st)) + length (encode_fields (normal_fields fs)) \<le> 2 ^ 28"
  shows "\<exists>st'. gives (mongo_grammar N) True (Rule_p R_members) st ('' '' @ members_text ctime Strict 0 fs @ '' }'' @ t)
      (Match st' ('' }'' @ t)) \<and> grown st (encode_fields (normal_fields fs)) st'"
proof -
  obtain name v gs where f: "fs = (name, v) # gs" using assms(1) by (cases fs) auto
  obtain st1 where st1: "gives (mongo_grammar N) True member_p st ('' '' @ members_text ctime Strict 0 fs @ '' }'' @ t)
      (Match st1 (more_members ctime gs @ '' }'' @ t))" "grown st (field_bytes name (normal v)) st1" "inside st1"
    "length (bb_data (jb_buf st1)) + length (encode_fields (normal_fields gs)) \<le> 2 ^ 28"
    by (rule first_member_read [OF assms(2-5) [unfolded f], of t]) (use f in simp)
  then obtain st2 where st2: "gives (mongo_grammar N) True (Star_p (Then_p (ch_p CHR '','') member_p)) st1
      (more_members ctime gs @ '' }'' @ t) (Match st2 ('' }'' @ t))" "grown st1 (encode_fields (normal_fields gs)) st2"
    using members_rest [of gs ctime st1 t] assms(2,3) f by auto
  have "gives (mongo_grammar N) True (Rule_p R_members) st ('' '' @ members_text ctime Strict 0 fs @ '' }'' @ t) (Match st2 ('' }'' @ t))"
    by (rule gives_Rule, unfold mongo_grammar.simps list_p_def) (rule gives_Then [OF st1(1) st2(1)])
  with grown_trans [OF st1(2) st2(2)] show ?thesis using f by (intro exI [of _ st2]) (simp add: field_bytes_def)
qed

lemma element_read:
  assumes ok: "value_ok N ctime v" and st: "at_element i st" and name: "hd (jb_names st) = show_nat i"
    and len: "length (bb_data (jb_buf st)) + length (field_bytes (show_nat i) (normal v)) \<le> 2 ^ 28"
    and s: "pre_skip True s = value_text ctime Strict 0 v @ u" and u: "number_end u"
  obtains st' where "gives (mongo_grammar N) True (Rule_p R_value) st s (Match st' u)" and "at_element i st'"
    and "grown st (field_bytes (show_nat i) (normal v)) st'" and "Suc i \<le> length (bb_data (jb_buf st'))"
proof -
  have "ready st (show_nat i) (field_bytes (show_nat i) (normal v))"
    using st name len show_nat_no_nul by (simp add: ready_def at_element_def inside_def)
  then obtain st' where st': "gives (mongo_grammar N) True (Rule_p R_value) st s (Match st' u)"
    "appended st (field_bytes (show_nat i) (normal v)) st'"
    by (rule value_okD [OF ok _ s u])
  show thesis
    by (rule that [OF st'(1)]) (use st'(2) st in \<open>auto simp: appended_def grown_def at_element_def inside_def field_bytes_length\<close>)
qed

lemma more_end: "number_end (more_elements ctime fs @ '' ]'' @ t)"
  by (cases "fs = []") simp_all

lemma array_text_first:
  assumes "readable N v"
  shows "pre_skip True ('' '' @ elements_text ctime Strict 0 ((name, v) # fs) @ '' ]'' @ t) =
    value_text ctime Strict 0 v @ more_elements ctime fs @ '' ]'' @ t"
proof -
  have "v \<noteq> B_Undefined" using assms by auto
  then have "elements_text ctime Strict 0 ((name, v) # fs) @ '' ]'' @ t =
      value_text ctime Strict 0 v @ more_elements ctime fs @ '' ]'' @ t"
    by (simp add: deeper_def elem_text_def)
  then show ?thesis using text_first [OF assms] by (simp only: append_Cons append_Nil pre_skip_simps)
qed

lemma elements_rest:
  assumes "\<forall>f \<in> set fs. value_ok N ctime (snd f)" and "readable_fields N False fs" and "at_element i st"
    and "Suc i \<le> length (bb_data (jb_buf st))"
    and "length (bb_data (jb_buf st)) + length (encode_fields (normal_elems (Suc i) fs)) \<le> 2 ^ 28"
  shows "\<exists>st'. gives (mongo_grammar N) True (Star_p (Then_p (Act_p (ch_p CHR '','') arrayNext) (Rule_p R_value))) st
      (more_elements ctime fs @ '' ]'' @ t) (Match st' ('' ]'' @ t)) \<and>
    grown st (encode_fields (normal_elems (Suc i) fs)) st'"
  using assms
proof (induction fs arbitrary: i st)
  case Nil
  then show ?case
    by (intro exI [of _ st])
      (auto simp: grown_refl at_element_def intro!: gives_Star_stop gives_Then_none gives_Act_none comma_none)
next
  case (Cons f fs)
  obtain name v where f: "f = (name, v)" by (cases f)
  let ?u = "more_elements ctime fs @ '' ]'' @ t" and ?el = "field_bytes (show_nat (Suc i)) (normal v)"
  let ?st = "st\<lparr>jb_indexes := word_of_nat (Suc i) # tl (jb_indexes st), jb_names := show_nat (Suc i) # tl (jb_names st)\<rparr>"
  have v: "readable N v" "value_ok N ctime v" using Cons.prems(1,2) f by simp_all
  have len: "length (bb_data (jb_buf st)) + length ?el + length (encode_fields (normal_elems (Suc (Suc i)) fs)) \<le> 2 ^ 28"
    using Cons.prems(5) f by (simp add: field_bytes_def)
  have "at_element (Suc i) (st\<lparr>jb_indexes := word_of_nat (Suc i) # tl (jb_indexes st)\<rparr>)"
    using Cons.prems(3,4) by (simp add: at_element_def inside_def)
  from nameFromIndex_at [OF this] len
  have next_i: "arrayNext w st = Inr ?st" for w
    using Cons.prems(3) by (cases "jb_indexes st") (auto simp: arrayNext_def at_element_def inside_def add.commute)
  have at: "at_element (Suc i) ?st" using Cons.prems(3,4) by (simp add: at_element_def inside_def)
  obtain st1 where st1: "gives (mongo_grammar N) True (Rule_p R_value) ?st ('' '' @ elements_text ctime Strict 0 (f # fs) @ '' ]'' @ t) (Match st1 ?u)"
    "at_element (Suc i) st1" "grown ?st ?el st1" "Suc (Suc i) \<le> length (bb_data (jb_buf st1))"
    by (rule element_read [OF v(2) at _ _ array_text_first [OF v(1)] more_end, of name fs t]) (use f len in simp_all)
  have "grown st ?el st1" using st1(3) by (simp add: grown_def)
  moreover have "length (bb_data (jb_buf st1)) + length (encode_fields (normal_elems (Suc (Suc i)) fs)) \<le> 2 ^ 28"
    using st1(3) len by (simp add: grown_def)
  then obtain st2 where st2: "gives (mongo_grammar N) True (Star_p (Then_p (Act_p (ch_p CHR '','') arrayNext) (Rule_p R_value))) st1 ?u
      (Match st2 ('' ]'' @ t))" "grown st1 (encode_fields (normal_elems (Suc (Suc i)) fs)) st2"
    using Cons.IH [OF _ _ st1(2,4)] Cons.prems(1,2) f by auto
  moreover have "gives (mongo_grammar N) True (Act_p (ch_p CHR '','') arrayNext) st (CHR '','' # x) (Match ?st x)" for x
    by (rule act_ch_read [where act = arrayNext]) (simp_all add: next_i)
  from gives_Then [OF this st1(1)]
  have "gives (mongo_grammar N) True (Then_p (Act_p (ch_p CHR '','') arrayNext) (Rule_p R_value)) st
      (more_elements ctime (f # fs) @ '' ]'' @ t) (Match st1 ?u)" by simp
  from gives_Star_step [OF this st2(1)] grown_trans [OF calculation(1) st2(2)]
  show ?case using f by (intro exI [of _ st2]) (simp add: field_bytes_def)
qed

lemma elements_read:
  assumes "fs \<noteq> []" and "\<forall>f \<in> set fs. value_ok N ctime (snd f)" and "readable_fields N False fs" and "at_element 0 st"
    and "hd (jb_names st) = ''0''" and "length (bb_data (jb_buf st)) + length (encode_fields (normal_elems 0 fs)) \<le> 2 ^ 28"
  shows "\<exists>st'. gives (mongo_grammar N) True (Rule_p R_elements) st ('' '' @ elements_text ctime Strict 0 fs @ '' ]'' @ t)
      (Match st' ('' ]'' @ t)) \<and> grown st (encode_fields (normal_elems 0 fs)) st'"
proof -
  obtain name v gs where f: "fs = (name, v) # gs" using assms(1) by (cases fs) auto
  let ?u = "more_elements ctime gs @ '' ]'' @ t" and ?el = "field_bytes (show_nat 0) (normal v)"
  have v: "readable N v" "value_ok N ctime v" using assms(2,3) f by simp_all
  have zero: "show_nat 0 = ''0''" by code_simp
  have len: "length (bb_data (jb_buf st)) + length ?el + length (encode_fields (normal_elems (Suc 0) gs)) \<le> 2 ^ 28"
    using assms(6) f by (simp add: field_bytes_def)
  obtain st1 where st1: "gives (mongo_grammar N) True (Rule_p R_value) st ('' '' @ elements_text ctime Strict 0 fs @ '' ]'' @ t) (Match st1 ?u)"
    "at_element 0 st1" "grown st ?el st1" "Suc 0 \<le> length (bb_data (jb_buf st1))"
    by (rule element_read [OF v(2) assms(4) _ _ array_text_first [OF v(1)] more_end, of name gs t])
      (use f len assms(5) zero in simp_all)
  have "length (bb_data (jb_buf st1)) + length (encode_fields (normal_elems (Suc 0) gs)) \<le> 2 ^ 28"
    using st1(3) len by (simp add: grown_def)
  then obtain st2 where st2: "gives (mongo_grammar N) True (Star_p (Then_p (Act_p (ch_p CHR '','') arrayNext) (Rule_p R_value))) st1 ?u
      (Match st2 ('' ]'' @ t))" "grown st1 (encode_fields (normal_elems (Suc 0) gs)) st2"
    using elements_rest [OF _ _ st1(2,4), of gs ctime t] assms(2,3) f by auto
  have "gives (mongo_grammar N) True (Rule_p R_elements) st ('' '' @ elements_text ctime Strict 0 fs @ '' ]'' @ t) (Match st2 ('' ]'' @ t))"
    by (rule gives_Rule, unfold mongo_grammar.simps list_p_def) (rule gives_Then [OF st1(1) st2(1)])
  with grown_trans [OF st1(3) st2(2)] show ?thesis using f by (intro exI [of _ st2]) (simp add: field_bytes_def)
qed

end

lemma choice_none:
  assumes "es \<noteq> []" and "\<And>j. j < length es \<Longrightarrow> gives G sk (es ! j) st s (No_Match st)"
  shows "gives G sk (choice_p es) st s (No_Match st)"
  using assms
proof (induction es rule: choice_p.induct)
  case (1 a b es)
  have "gives G sk a st s (No_Match st)" using 1(3) [of 0] by simp
  moreover have "gives G sk (choice_p (b # es)) st s (No_Match st)"
    using 1(1) 1(3) [of "Suc j" for j] by fastforce
  ultimately show ?case by (simp add: gives_Or2)
next
  case (2 a)
  then show ?case using 2(2) [of 0] by simp
qed simp

lemma no_members: "gives (mongo_grammar N) True (Rule_p R_members) st (CHR 0x7D # t) (No_Match st)"
proof -
  have u: "gives (mongo_grammar N) True (Rule_p R_unquotedFieldName) st (CHR 0x7D # t) (No_Match st)"
    by (rule gives_Rule, unfold mongo_grammar.simps, rule gives_Lexeme, rule gives_Then_none, rule gives_Ch_none)
      (auto simp: alpha_def in_range_def)
  have q: "gives (mongo_grammar N) True (Rule_p R_str) st (CHR 0x7D # t) (No_Match st)"
    "gives (mongo_grammar N) True (Rule_p R_singleQuoteStr) st (CHR 0x7D # t) (No_Match st)"
    using first_none(1,2) [of "CHR 0x7D # t" "CHR 0x7D" t N st] by simp_all
  have "gives (mongo_grammar N) True (Rule_p R_fieldName) st (CHR 0x7D # t) (No_Match st)"
    by (rule gives_Rule, unfold mongo_grammar.simps choice_p.simps)
      (rule gives_Or2 [OF gives_Act_none [OF q(1)] gives_Or2 [OF gives_Act_none [OF q(2)] gives_Act_none [OF u]]])
  then show ?thesis by (intro gives_Rule) (simp add: list_p_def gives_Then_none)
qed

lemma escaped_first:
  assumes "name = [] \<or> hd name \<noteq> CHR ''$''"
  obtains c cs where "escaped_text False name @ CHR 0x22 # t = c # cs" and "c \<noteq> CHR ''$''"
proof (cases name)
  case Nil
  then show thesis by (intro that [of "CHR 0x22" t]) (simp_all add: escaped_text_def)
next
  case (Cons c cs)
  have "\<exists>d ds. concat (escape_writes False c) = d # ds \<and> d \<noteq> CHR ''$''"
    using assms Cons by (auto simp: escape_writes_def)
  then show thesis using Cons that by (auto simp: escaped_text_def)
qed

lemma brace_no_keys:
  assumes "readable_fields N True fs" and "fs \<noteq> []"
  shows "no_key (CHR ''$'' # k) ('' '' @ members_text ctime Strict 0 fs @ t)"
proof -
  obtain name v gs where f: "fs = (name, v) # gs" using assms(2) by (cases fs) auto
  have v: "v \<noteq> B_Undefined" "plain_name name" using assms(1) f by auto
  obtain x where x: "members_text ctime Strict 0 fs @ t = CHR 0x22 # escaped_text False name @ CHR 0x22 # x"
    using v(1) by (simp add: f elem_text_def quoted_text_def)
  obtain c cs where "escaped_text False name @ CHR 0x22 # x = c # cs" "c \<noteq> CHR ''$''"
    by (rule escaped_first [of name x]) (use v(2) in \<open>auto simp: plain_name_def\<close>)
  then show ?thesis by (simp add: x)
qed

context number_parsers_spec
begin

lemma no_elements: "gives (mongo_grammar N) True (Rule_p R_elements) st (CHR '']'' # t) (No_Match st)"
proof -
  have s: "pre_skip True (CHR '']'' # t) = CHR '']'' # t" by simp
  have c: "\<not> number_start CHR '']''" by (simp add: number_start_def digit_def)
  note fails = fails_before [OF s _ c, of st] special_none [OF s, of N st, THEN gives_Act_none] first_none(4) [OF s, of N st, THEN gives_Act_none]
  have "gives (mongo_grammar N) True (alternatives N ! j) st (CHR '']'' # t) (No_Match st)" if "j < 14" for j
    using that fails by (auto simp: alternatives_def less_Suc_eq numeral_eq_Suc)
  then have "gives (mongo_grammar N) True (choice_p (alternatives N)) st (CHR '']'' # t) (No_Match st)"
    by (intro choice_none) (simp_all add: alternatives_def)
  then have "gives (mongo_grammar N) True (Rule_p R_value) st (CHR '']'' # t) (No_Match st)"
    by (intro gives_Rule) (simp only: mongo_grammar.simps alternatives_def)
  then show ?thesis by (intro gives_Rule) (simp add: list_p_def gives_Then_none)
qed

lemma object_contents:
  assumes "\<forall>f \<in> set fs. value_ok N ctime (snd f)" and "readable_fields N True fs" and "inside st"
    and "length (bb_data (jb_buf st)) + length (encode_fields (normal_fields fs)) \<le> 2 ^ 28"
    and "value_text ctime Strict 0 (B_Object fs) @ t = CHR 0x7B # s"
  obtains st' where "gives (mongo_grammar N) True (sequence_p [Opt_p (Rule_p R_members), ch_p CHR 0x7D]) st s (Match st' t)"
    and "grown st (encode_fields (normal_fields fs)) st'"
proof (cases "fs = []")
  case True
  show thesis
  proof (rule that)
    show "gives (mongo_grammar N) True (sequence_p [Opt_p (Rule_p R_members), ch_p CHR 0x7D]) st s (Match st t)"
      by (rule sequence_read [OF gives_Opt_none]) (use True assms(5) no_members in \<open>auto simp: gives_ch\<close>)
    show "grown st (encode_fields (normal_fields fs)) st" using True assms(3) by (simp add: grown_refl)
  qed
next
  case False
  obtain st' where st': "gives (mongo_grammar N) True (Rule_p R_members) st ('' '' @ members_text ctime Strict 0 fs @ '' }'' @ t)
      (Match st' ('' }'' @ t))" "grown st (encode_fields (normal_fields fs)) st'"
    using members_read [OF False assms(1-4), of t] by blast
  have "s = '' '' @ members_text ctime Strict 0 fs @ '' }'' @ t" using assms(5) False by simp
  then show thesis using sequence_read [OF gives_Opt [OF st'(1)] close_read] st'(2) by (intro that) simp_all
qed

lemma array_contents:
  assumes "\<forall>f \<in> set fs. value_ok N ctime (snd f)" and "readable_fields N False fs" and "at_element 0 st"
    and "hd (jb_names st) = ''0''"
    and "length (bb_data (jb_buf st)) + length (encode_fields (normal_elems 0 fs)) \<le> 2 ^ 28"
    and "value_text ctime Strict 0 (B_Array fs) @ t = CHR ''['' # s"
  obtains st' where "gives (mongo_grammar N) True (sequence_p [Opt_p (Rule_p R_elements), ch_p CHR '']'']) st s (Match st' t)"
    and "grown st (encode_fields (normal_elems 0 fs)) st'"
proof (cases "fs = []")
  case True
  show thesis
  proof (rule that)
    show "gives (mongo_grammar N) True (sequence_p [Opt_p (Rule_p R_elements), ch_p CHR '']'']) st s (Match st t)"
      by (rule sequence_read [OF gives_Opt_none]) (use True assms(6) no_elements in \<open>auto simp: gives_ch\<close>)
    show "grown st (encode_fields (normal_elems 0 fs)) st" using True assms(3) by (simp add: grown_refl at_element_def)
  qed
next
  case False
  obtain st' where st': "gives (mongo_grammar N) True (Rule_p R_elements) st ('' '' @ elements_text ctime Strict 0 fs @ '' ]'' @ t)
      (Match st' ('' ]'' @ t))" "grown st (encode_fields (normal_elems 0 fs)) st'"
    using elements_read [OF False assms(1-5), of t] by blast
  have "s = '' '' @ elements_text ctime Strict 0 fs @ '' ]'' @ t" using assms(6) False by simp
  moreover have close: "gives (mongo_grammar N) True (sequence_p [ch_p CHR '']'']) st' ('' ]'' @ t) (Match st' t)" by (simp add: gives_ch)
  ultimately show thesis using sequence_read [OF gives_Opt [OF st'(1)] close] st'(2) by (intro that) simp_all
qed

end

section \<open>Values\<close>

lemma normal_long_wf: "wf_bson (normal_long i)"
  by (simp add: normal_long_def)

lemma readable_wf:
  "readable N v \<Longrightarrow> wf_bson (normal v)"
  "readable_fields N named fs \<Longrightarrow> wf_fields (normal_fields fs)"
  "readable_fields N named fs \<Longrightarrow> wf_fields (normal_elems i fs)"
proof (induction v and fs and i fs arbitrary: named and named and named rule: normal_normal_fields_normal_elems.induct)
qed (auto simp: normal_long_wf show_nat_no_nul alpha_def in_range_def)

context number_parsers_spec
begin

lemma sub_bytes:
  "field_bytes name (B_Object fs) = field_of name BObject (encode_doc fs)"
  "field_bytes name (B_Array fs) = field_of name BArray (encode_doc fs)"
  by (simp_all add: field_bytes_def encode_doc_def)

lemma object_ok:
  assumes ok: "\<forall>f \<in> set fs. value_ok N ctime (snd f)" and r: "readable_fields N True fs"
  shows "value_ok N ctime (B_Object fs)"
  unfolding value_ok_def
proof (intro allI impI)
  fix st name s t
  assume ready: "ready st name (field_bytes name (normal (B_Object fs)))"
    and s: "pre_skip True s = value_text ctime Strict 0 (B_Object fs) @ t" and t: "number_end t"
  obtain st1 where start: "bind_result (subobjStart name (jb_buf st)) (\<lambda>buf. bind_result (builder_on buf) (\<lambda>r. Inr (push_builder r st))) = Inr st1"
    and st1: "inside st1" "length (bb_data (jb_buf st1)) + length (encode_fields (normal_fields fs)) \<le> 2 ^ 28"
    and close: "\<And>st2. grown st1 (encode_fields (normal_fields fs)) st2 \<Longrightarrow>
      \<exists>p st'. pop st2 = Inr (p, st') \<and> appended st (field_of name BObject (encode_doc (normal_fields fs))) st'"
    by (rule sub_read [of st name BObject "normal_fields fs" subobjStart])
      (use ready readable_wf(2) [OF r] appends_headers(1) in \<open>auto simp: sub_bytes subobjStart_def\<close>)
  have opened: "objectStart w st = Inr st1" for w
    using start ready_fieldName [OF ready] ready by (simp add: objectStart_def pushObject_def ready_def)
  obtain s' where s': "value_text ctime Strict 0 (B_Object fs) @ t = CHR 0x7B # s'" by (cases "fs = []") simp_all
  obtain st2 where st2: "gives (mongo_grammar N) True (sequence_p [Opt_p (Rule_p R_members), ch_p CHR 0x7D]) st1 s' (Match st2 t)"
    "grown st1 (encode_fields (normal_fields fs)) st2"
    by (rule object_contents [OF ok r st1 s'])
  obtain p st' where st': "pop st2 = Inr (p, st')" "appended st (field_bytes name (normal (B_Object fs))) st'"
    using close [OF st2(2)] by (auto simp: sub_bytes)
  have s1: "pre_skip True s = CHR 0x7B # s'" using s s' by simp
  have "gives (mongo_grammar N) True (Rule_p R_object) st s (Match st2 t)"
    by (rule gives_Rule, unfold mongo_grammar.simps) (rule sequence_read [OF act_ch_read [where act = objectStart, OF s1 opened] st2(1)])
  then have "gives (mongo_grammar N) True (alternatives N ! 13) st s (Match st' t)"
    using st'(1) by (auto simp: alternatives_def subobjectEnd_def intro!: gives_Act)
  moreover have no: "no_key (CHR ''$'' # k) s'" for k
    using s' brace_no_keys [OF r, of k ctime "'' }'' @ t"] by (cases "fs = []") (auto simp: no_key_def quoted_text_def)
  have "gives (mongo_grammar N) True (alternatives N ! j) st s (No_Match st)" if "j < 13" for j
    by (rule brace_before [OF s1 _ that]) (use no in simp_all)
  ultimately show "value_read N st s name (normal (B_Object fs)) t"
    unfolding value_read_def using st'(2) value_choice [of 13 N st s st' t] by auto
qed

lemma array_ok:
  assumes ok: "\<forall>f \<in> set fs. value_ok N ctime (snd f)" and r: "readable_fields N False fs"
  shows "value_ok N ctime (B_Array fs)"
  unfolding value_ok_def
proof (intro allI impI)
  fix st name s t
  assume ready: "ready st name (field_bytes name (normal (B_Array fs)))"
    and s: "pre_skip True s = value_text ctime Strict 0 (B_Array fs) @ t" and t: "number_end t"
  obtain st1 where start: "bind_result (subarrayStart name (jb_buf st)) (\<lambda>buf. bind_result (builder_on buf) (\<lambda>r. Inr (push_builder r st))) = Inr st1"
    and st1: "inside st1" "hd (jb_indexes st1) = 0" "length (bb_data (jb_buf st1)) + length (encode_fields (normal_elems 0 fs)) \<le> 2 ^ 28"
    and close: "\<And>st2. grown st1 (encode_fields (normal_elems 0 fs)) st2 \<Longrightarrow>
      \<exists>p st'. pop st2 = Inr (p, st') \<and> appended st (field_of name BArray (encode_doc (normal_elems 0 fs))) st'"
    by (rule sub_read [of st name BArray "normal_elems 0 fs" subarrayStart])
      (use ready readable_wf(3) [OF r] appends_headers(1) in \<open>auto simp: sub_bytes subarrayStart_def\<close>)
  let ?st1 = "st1\<lparr>jb_names := show_nat 0 # tl (jb_names st1)\<rparr>"
  have zero: "show_nat 0 = ''0''" by code_simp
  have at: "at_element 0 st1" using st1 by (simp add: at_element_def)
  then have opened: "arrayStart w st = Inr ?st1" for w
    using start ready_fieldName [OF ready] ready nameFromIndex_at [OF at] st1(3)
    by (simp add: arrayStart_def pushArray_def ready_def)
  have st1': "at_element 0 ?st1" "hd (jb_names ?st1) = ''0''"
    "length (bb_data (jb_buf ?st1)) + length (encode_fields (normal_elems 0 fs)) \<le> 2 ^ 28"
    using at st1(3) zero by (simp_all add: at_element_def inside_def)
  obtain s' where s': "value_text ctime Strict 0 (B_Array fs) @ t = CHR ''['' # s'" by (cases "fs = []") simp_all
  obtain st2 where st2: "gives (mongo_grammar N) True (sequence_p [Opt_p (Rule_p R_elements), ch_p CHR '']'']) ?st1 s' (Match st2 t)"
    "grown ?st1 (encode_fields (normal_elems 0 fs)) st2"
    by (rule array_contents [OF ok r st1' s'])
  have "grown st1 (encode_fields (normal_elems 0 fs)) st2" using st2(2) by (simp add: grown_def)
  from close [OF this] obtain p st' where st': "pop st2 = Inr (p, st')" "appended st (field_bytes name (normal (B_Array fs))) st'"
    by (auto simp: sub_bytes)
  have s1: "pre_skip True s = CHR ''['' # s'" using s s' by simp
  have "gives (mongo_grammar N) True (Rule_p R_array) st s (Match st2 t)"
    by (rule gives_Rule, unfold mongo_grammar.simps) (rule sequence_read [OF act_ch_read [where act = arrayStart, OF s1 opened] st2(1)])
  then have "gives (mongo_grammar N) True (alternatives N ! 3) st s (Match st' t)"
    using st'(1) by (auto simp: alternatives_def arrayEnd_def intro!: gives_Act)
  moreover have c: "\<not> number_start CHR ''[''" by (simp add: number_start_def digit_def)
  have "gives (mongo_grammar N) True (alternatives N ! j) st s (No_Match st)" if "j < 3" for j
    using that fails_before(1-3) [OF s1 _ c] by (auto simp: alternatives_def less_Suc_eq numeral_eq_Suc)
  ultimately show "value_read N st s name (normal (B_Array fs)) t"
    unfolding value_read_def using st'(2) value_choice [of 3 N st s st' t] by auto
qed

end

section \<open>No NUL is printed\<close>

lemma xdigit_no_nul: "nul \<notin> set (toHexLower s)"
  using hex_digits [of s] by (auto simp: xdigit_def digit_def in_range_def)

lemma escaped_no_nul: "nul \<notin> set (escaped_text False s)"
proof -
  have "nul \<notin> set (concat (escape_writes False c))" for c
  proof (cases "c = nul")
    case True
    have "byte nul = 0" by (simp add: byte_def)
    then show ?thesis using True xdigit_no_nul [of "[nul]"] by (simp add: escape_writes_def)
  next
    case False
    then show ?thesis using xdigit_no_nul [of "[c]"] by (simp add: escape_writes_def)
  qed
  then show ?thesis by (auto simp: escaped_text_def)
qed

lemma show_int_no_nul: "nul \<notin> set (show_int i)"
  using show_nat_no_nul by (simp add: show_int_def)

lemma with_fraction_no_nul: "nul \<notin> set w \<Longrightarrow> nul \<notin> set f \<Longrightarrow> nul \<notin> set (with_fraction w f)"
  by (auto simp: with_fraction_def strip_zeros_def dest: set_dropWhileD)

lemma layout_no_nul:
  assumes "nul \<notin> set ds"
  shows "nul \<notin> set (layout_digits ds x)"
proof -
  have "nul \<notin> set (with_fraction (take k ds) (drop k ds))" "nul \<notin> set (with_fraction ''0'' (replicate k CHR ''0'' @ ds))" for k
    using assms by (intro with_fraction_no_nul; auto dest: in_set_takeD in_set_dropD)+
  then show ?thesis using show_nat_no_nul [of "nat \<bar>x\<bar>"] by (simp add: layout_digits_def exponent_text_def Let_def)
qed

lemma double_no_nul: "nul \<notin> set (print_double d)"
proof -
  have "nul \<notin> set (layout_digits (show_nat n) x)" for n x by (rule layout_no_nul [OF show_nat_no_nul])
  then show ?thesis by (simp add: print_double_def Let_def split_def)
qed

lemma base64_no_nul: "nul \<notin> set (base64_encode x)"
proof -
  obtain cs k where "base64_encode x = cs @ replicate k CHR ''=''" "\<forall>c \<in> set cs. alpha c \<or> digit c \<or> c \<in> set ''+/''"
    by (rule base64_chars)
  then show ?thesis by (auto simp: alpha_def digit_def in_range_def)
qed

lemmas printed_no_nul = xdigit_no_nul escaped_no_nul show_int_no_nul show_nat_no_nul double_no_nul base64_no_nul

lemma quoted_nul [simp]: "nul \<in> set (quoted_text s) \<longleftrightarrow> nul \<in> set s"
  by (auto simp: quoted_text_def)

lemma text_no_nul:
  "readable N v \<Longrightarrow> nul \<notin> set (value_text ctime Strict 0 v)"
  "readable_fields N named fs \<Longrightarrow> nul \<notin> set (members_text ctime Strict 0 fs) \<and> nul \<notin> set (elements_text ctime Strict 0 fs)"
proof (induction v and fs arbitrary: and named rule: encode_value_encode_fields.induct)
  case (11 r opts)
  then show ?case using printed_no_nul by (auto simp: alpha_def in_range_def)
next
  case (12 ns i)
  then show ?case using printed_no_nul set_takeWhileD by (fastforce simp: Let_def)
next
  case (22 name v fs)
  then have "v \<noteq> B_Undefined" by auto
  with 22 show ?case using printed_no_nul by (auto simp: separator_def deeper_def elem_text_def)
qed (use printed_no_nul in \<open>auto simp: Let_def subtype_text_low\<close>)

section \<open>Documents\<close>

context number_parsers_spec
begin

lemma long_range: "- (2 ^ 63) \<le> sint (i :: 64 word)" "sint (i :: 64 word) < 2 ^ 63"
  using sint_ge [of i] sint_lt [of i] by simp_all

lemma int_word_range: "int_range (sint (i :: 32 word))"
  using sint_ge [of i] sint_lt [of i] by (simp add: int_range_def)

lemma value_text_read:
  "readable N v \<Longrightarrow> value_ok N ctime v"
  "readable_fields N named fs \<Longrightarrow> \<forall>f \<in> set fs. value_ok N ctime (snd f)"
proof (induction v and fs arbitrary: and named rule: encode_value_encode_fields.induct)
  case (1 d)
  then show ?case by (auto simp: value_ok_def intro: double_value_read)
next
  case (2 s)
  then show ?case by (auto simp: value_ok_def intro: string_value_read)
next
  case (3 fs)
  then show ?case by (intro object_ok) auto
next
  case (4 fs)
  then show ?case by (intro array_ok) auto
next
  case (5 c x)
  then show ?case by (auto simp: value_ok_def subtype_text_low intro: bindata_value_read)
next
  case (7 i)
  then show ?case by (auto simp: value_ok_def intro: oid_value_read)
next
  case (8 b)
  then show ?case by (cases b) (auto simp: value_ok_def intro: keyword_read)
next
  case (9 d)
  then show ?case by (auto simp: value_ok_def intro: date_value_read)
next
  case (10)
  then show ?case by (auto simp: value_ok_def intro: keyword_read)
next
  case (11 r opts)
  then show ?case by (auto simp: value_ok_def intro: regex_value_read)
next
  case (12 ns i)
  then have "nul \<notin> set ns" using escaped_no_nul [of ns] by simp
  then have whole: "takeWhile (\<lambda>c. c \<noteq> nul) ns = ns" by (intro takeWhile_eq_all_conv [THEN iffD2]) auto
  show ?case unfolding value_ok_def
  proof (intro allI impI)
    fix st name s t assume a: "ready st name (field_bytes name (normal (B_DBRef ns i)))"
      "pre_skip True s = value_text ctime Strict 0 (B_DBRef ns i) @ t"
    have "value_read N st s name (B_DBRef ns i) t"
      by (rule dbref_value_read) (use a 12 whole in \<open>simp_all add: Let_def\<close>)
    then show "value_read N st s name (normal (B_DBRef ns i)) t" by simp
  qed
next
  case (14 s)
  then show ?case by (auto simp: value_ok_def intro: string_value_read)
next
  case (16 i)
  show ?case unfolding value_ok_def
  proof (intro allI impI)
    fix st name s t assume "ready st name (field_bytes name (normal (B_Int i)))"
      "pre_skip True s = value_text ctime Strict 0 (B_Int i) @ t" "number_end t"
    then show "value_read N st s name (normal (B_Int i)) t"
      using int_word_range [of i] sint_ge [of i] sint_lt [of i] by (intro int_read [where i = "sint i"]) simp_all
  qed
next
  case (18 i)
  show ?case unfolding value_ok_def
  proof (intro allI impI)
    fix st name s t assume "ready st name (field_bytes name (normal (B_Long i)))"
      "pre_skip True s = value_text ctime Strict 0 (B_Long i) @ t" "number_end t"
    then show "value_read N st s name (normal (B_Long i)) t"
      using long_range [of i] by (intro int_read [where i = "sint i"]) (simp_all add: normal_long_def)
  qed
next
  case (22 name v fs)
  then show ?case by auto
qed simp_all

text \<open>The whole text, from a new \<^verbatim>\<open>ObjectBuilder\<close>.\<close>

lemma document_text_read:
  assumes r: "readable_fields N True fs" and len: "length (encode_doc (normal_fields fs)) \<le> 2 ^ 28"
  obtains st st' where "gives (mongo_grammar N) True (Rule_p R_object) jb_new (value_text ctime Strict 0 (B_Object fs)) (Match st [])"
    and "pop st = Inr (encode_doc (normal_fields fs), st')" and "jb_builders st' = []"
proof -
  let ?fs = "normal_fields fs" and ?ob = "\<lparr>ob_offset = length ([] :: string), ob_doneCalled = False\<rparr>"
  obtain b where b: "builder_on (buf_new 512) = Inr (?ob, b)" "bb_data b = [] @ replicate 4 nul"
    by (rule builder_on_appends [of "buf_new 512"]) (simp_all add: buf_new_def)
  let ?st = "push_builder (?ob, b) jb_new"
  have start: "objectStart w jb_new = Inr ?st" for w
    using b(1) by (simp add: objectStart_def jb_init_def builder_new_def) (simp add: jb_new_def)
  obtain s where s: "value_text ctime Strict 0 (B_Object fs) @ [] = CHR 0x7B # s" by (cases "fs = []") simp_all
  have inside: "inside ?st" by (simp add: inside_def push_builder_def)
  have "length (bb_data (jb_buf ?st)) + length (encode_fields ?fs) \<le> 2 ^ 28"
    using b(2) len by (simp add: push_builder_def encode_doc_def doc_of_def)
  from object_contents [OF value_text_read(2) [OF r] r inside this s]
  obtain st where st: "gives (mongo_grammar N) True (sequence_p [Opt_p (Rule_p R_members), ch_p CHR 0x7D]) ?st s (Match st [])"
    "grown ?st (encode_fields ?fs) st" by blast
  obtain st' where "pop st = Inr (encode_doc ?fs, st')" "jb_builders st' = jb_builders jb_new"
    by (rule document_read [OF b(1) st(2) b(2) readable_wf(2) [OF r]]) (use len in simp)
  moreover have "pre_skip True (value_text ctime Strict 0 (B_Object fs)) = CHR 0x7B # s" using s by simp
  then have "gives (mongo_grammar N) True (Rule_p R_object) jb_new (value_text ctime Strict 0 (B_Object fs)) (Match st [])"
    by (intro gives_Rule, unfold mongo_grammar.simps)
      (rule sequence_read [OF act_ch_read [where act = objectStart, OF _ start] st(1)])
  ultimately show thesis by (intro that) (simp_all add: jb_new_def)
qed

end

lemma readable_printable:
  "readable N v \<Longrightarrow> printable v \<and> wf_bson v"
  "readable_fields N named fs \<Longrightarrow> all_printable fs \<and> wf_fields fs"
  by (induction v and fs arbitrary: named and named rule: encode_value_encode_fields.induct)
    (auto simp: double_read_def alpha_def in_range_def)

lemma text_fromjson:
  assumes "classic_spec parse" and "number_parsers_spec N" and r: "readable_fields N True fs"
    and len: "length (encode_doc (normal_fields fs)) \<le> 2 ^ 28"
  shows "fromjson parse N (value_text ctime Strict 0 (B_Object fs)) = Inr (encode_doc (normal_fields fs))"
proof -
  let ?t = "value_text ctime Strict 0 (B_Object fs)"
  obtain st st' where st: "gives (mongo_grammar N) True (Rule_p R_object) jb_new ?t (Match st [])"
    "pop st = Inr (encode_doc (normal_fields fs), st')" "jb_builders st' = []"
    by (rule number_parsers_spec.document_text_read [OF assms(2) r len, of ctime])
  have "parse (mongo_grammar N) R_object ?t jb_new = Inr (True, [], st)" by (rule classic_spec.parse_full [OF assms(1) st(1)])
  moreover have "nul \<notin> set ?t" using text_no_nul(1) [of N "B_Object fs" ctime] r by simp
  then have whole: "takeWhile (\<lambda>c. c \<noteq> nul) ?t = ?t" by (intro takeWhile_eq_all_conv [THEN iffD2]) auto
  moreover have "?t \<noteq> []" by simp
  ultimately show ?thesis using st(2,3) unfolding fromjson_def whole by (simp add: fromjson_len_def del: value_text.simps)
qed

text \<open>
  C14. Round trip through JSON text. For a document built with \<^verbatim>\<open>BSONObjBuilder\<close> from values that have
  a JSON notation, \<^verbatim>\<open>jsonString(Strict)\<close> prints a text from which \<^verbatim>\<open>fromjson\<close> builds the same document,
  byte for byte what the builder makes of its normal form: symbols have become strings, 64-bit integers that
  fit in 32 bits have become such, and the elements of arrays are named by their position.
\<close>

theorem print_then_read:
  assumes "classic_spec parse" and "number_parsers_spec N" and "readable_fields N True fs"
    and "length (encode_doc fs) \<le> 2 ^ 28" and "length (encode_doc (normal_fields fs)) \<le> 2 ^ 28"
    and "length (value_text ctime Strict 0 (B_Object fs)) \<le> 2 ^ 28"
  shows "\<exists>p json q. build_doc fs = Inr p \<and> obj_json ctime (length p) Strict 0 p = Some (Inr json) \<and>
    fromjson parse N json = Inr q \<and> build_doc (normal_fields fs) = Inr q"
proof -
  have wf: "wf_fields fs" "wf_fields (normal_fields fs)" "all_printable fs"
    using readable_printable(2) [OF assms(3)] readable_wf(2) [OF assms(3)] by simp_all
  have at: "obj_at (encode_doc fs) fs" using assms(4) wf by (auto simp: obj_at_def BSONObjMaxInternalSize_def)
  have "obj_json ctime (length (encode_doc fs)) Strict 0 (encode_doc fs) = Some (Inr (value_text ctime Strict 0 (B_Object fs)))"
    by (rule obj_json_text [OF at wf(3) assms(6)]) (simp add: encode_doc_def doc_of_def)
  then show ?thesis
    using build_doc_encodes [OF build_appends(2) [OF wf(1)] wf(1) assms(4)]
      build_doc_encodes [OF build_appends(2) [OF wf(2)] wf(2) assms(5)] text_fromjson [OF assms(1-3,5), of ctime]
    by blast
qed

definition mixed_doc :: fields where
  "mixed_doc = [(''a'', B_Long 7), (''b'', B_Array [(''x'', B_Symbol ''s''), ([], B_Null)]), (''c'', B_OID (replicate 12 nul))]"

lemma mixed_normal:
  "normal_fields mixed_doc =
     [(''a'', B_Int 7), (''b'', B_Array [(''0'', B_String ''s''), (''1'', B_Null)]), (''c'', B_OID (replicate 12 nul))]"
proof -
  have "show_nat 0 = ''0''" "show_nat 1 = ''1''" by code_simp+
  then show ?thesis by (simp add: mixed_doc_def normal_long_def int_range_def)
qed

lemma mixed_readable: "readable_fields number_parsers_ref True mixed_doc"
  by (simp add: mixed_doc_def plain_name_def)

lemma mixed_sizes:
  "length (encode_doc mixed_doc) \<le> 2 ^ 28" "length (encode_doc (normal_fields mixed_doc)) \<le> 2 ^ 28"
  unfolding mixed_normal by (simp_all add: mixed_doc_def encode_doc_def doc_of_def field_of_def sized_string_def)

theorem print_then_read_witness:
  "\<exists>p json q. build_doc mixed_doc = Inr p \<and> obj_json (\<lambda>d. []) (length p) Strict 0 p = Some (Inr json) \<and>
    fromjson classic_parse_ref number_parsers_ref json = Inr q \<and>
    build_doc [(''a'', B_Int 7), (''b'', B_Array [(''0'', B_String ''s''), (''1'', B_Null)]), (''c'', B_OID (replicate 12 nul))] = Inr q"
proof -
  have shown: "show_int 7 = ''7''" by code_simp
  have "length (value_text (\<lambda>d. []) Strict 0 (B_Object mixed_doc)) \<le> 2 ^ 28"
    using shown by (simp add: mixed_doc_def elem_text_def separator_def deeper_def quoted_text_def escaped_text_def escape_writes_def byte_def)
  from print_then_read [OF classic_ref.classic_spec_axioms ref_numbers.number_parsers_spec_axioms mixed_readable mixed_sizes this]
  show ?thesis unfolding mixed_normal .
qed

end
