(* ===== verification/Bson_Select.thy ===== *)
theory Bson_Select
  imports Bson_Roundtrip Json_Select
begin

text \<open>
  The BSON baselines of \<^verbatim>\<open>json_select.cpp\<close>: \<^verbatim>\<open>bson_save\<close> stores each line as a BSON document,
  \<^verbatim>\<open>bson_parse_mapped\<close> follows the paths through the documents of such a file, mapped into memory.
  A pointer into the mapped file is the file from there on. The theorems say what the second
  prints from a file of documents, and from one that the first wrote.
\<close>

section \<open>The commands\<close>

text \<open>\<open>lines\<close>: what \<^verbatim>\<open>fast_getline\<close> returns when it is asked to cut off the newline.\<close>

fun bson_save ::
  "(mongo_rule, object_builder) classic_parser \<Rightarrow> number_parsers \<Rightarrow> string list \<Rightarrow> string result" where
  "bson_save parse N [] = Inr []"
| "bson_save parse N (line # lines) =
     bind_result (fromjson parse N line) (\<lambda>bsobj. bind_result (objsize bsobj) (\<lambda>n.
       bind_result (read_bytes bsobj n) (\<lambda>bytes.
         bind_result (bson_save parse N lines) (\<lambda>rest. Inr (bytes @ rest)))))"

text \<open>\<^verbatim>\<open>stringToNum\<close> throws an \<^verbatim>\<open>int\<close>, which nothing catches, at the first character that is not a digit.\<close>

fun stringToNum_from :: "32 word \<Rightarrow> bool \<Rightarrow> string \<Rightarrow> 32 word result" where
  "stringToNum_from x started [] = (if started then Inr x else Inl Terminate)"
| "stringToNum_from x started (c # p) =
     (if \<not> digit c then Inl Terminate
      else stringToNum_from (x * 10 + word_of_nat (of_char c) - 48) True p)"

definition stringToNum :: "string \<Rightarrow> 32 word result" where
  "stringToNum = stringToNum_from 0 False"

text \<open>A step of a path: the element it leads to, or \<open>None\<close> when the loop over the path is left.\<close>

definition bson_index_back :: "string \<Rightarrow> int \<Rightarrow> string option outcome" where
  "bson_index_back cur_obj idx =
     bind_outcome (elems cur_obj) (\<lambda>es.
       let fwd_idx = sint (word_of_nat (length es) + word_of_int idx :: 32 word)
       in if fwd_idx < 0 then Some (Inr None)
          else if length es \<le> nat fwd_idx then Some (Inl Out_Of_Bounds)
          else bind_outcome (Some (fieldName (es ! nat fwd_idx))) (\<lambda>name.
            bind_outcome (Some (stringToNum name)) (\<lambda>num.
              if sint num = fwd_idx then Some (Inr (Some (es ! nat fwd_idx))) else Some (Inl Assertion_Failed))))"

fun bson_step :: "string \<Rightarrow> bool \<Rightarrow> path_element \<Rightarrow> string option outcome" where
  "bson_step cur_obj cur_is_array (Key key) = bind_outcome (getField cur_obj key) (\<lambda>e. Some (Inr (Some e)))"
| "bson_step cur_obj cur_is_array (Index idx) =
     (if \<not> cur_is_array then Some (Inr None)
      else if 0 \<le> idx then bind_outcome (getField_int cur_obj (word_of_int idx)) (\<lambda>e. Some (Inr (Some e)))
      else bson_index_back cur_obj idx)"

fun bson_follow :: "string \<Rightarrow> string \<Rightarrow> bool \<Rightarrow> path \<Rightarrow> string outcome" where
  "bson_follow cur_obj cur_elem cur_is_array [] = Some (Inr cur_elem)"
| "bson_follow cur_obj cur_elem cur_is_array (element # path) =
     bind_outcome (bson_step cur_obj cur_is_array element) (\<lambda>r.
       case r of
         None \<Rightarrow> Some (Inr element_default)
       | Some e \<Rightarrow>
           bind_outcome (Some (isABSONObj e)) (\<lambda>ok.
             if ok then
               bind_outcome (Some (embeddedObject e)) (\<lambda>obj. bind_outcome (Some (e_type e)) (\<lambda>t.
                 bson_follow obj e (t = BArray) path))
             else bson_follow obj_default e cur_is_array path))"

text \<open>
  The values of one document. The fuel of \<^verbatim>\<open>jsonString\<close> is the length of the memory behind the element,
  more than the nesting and the fields of what it holds.
\<close>

fun bson_paths :: "ctime \<Rightarrow> string \<Rightarrow> bool \<Rightarrow> path_list \<Rightarrow> string outcome" where
  "bson_paths ctime bsobj first [] = Some (Inr [])"
| "bson_paths ctime bsobj first (path # paths) =
     bind_outcome (bson_follow bsobj element_default False path) (\<lambda>cur_elem.
       bind_outcome (Some (e_eoo cur_elem)) (\<lambda>eoo.
         bind_outcome (if eoo then Some (Inr ''null'') else elem_json ctime (length cur_elem) Strict True 0 cur_elem) (\<lambda>js.
           bind_outcome (bson_paths ctime bsobj False paths) (\<lambda>rest.
             Some (Inr ((if first then [] else '','') @ js @ rest))))))"

text \<open>
  The loop over the file: \<open>cur\<close> is what lies between the pointer and the end of the file. A valid size is
  positive, so the loop moves on.
\<close>

function bson_docs :: "ctime \<Rightarrow> path_list \<Rightarrow> string \<Rightarrow> string outcome" where
  "bson_docs ctime paths cur =
     (if cur = [] then Some (Inr [])
      else bind_outcome (Some (obj_new cur)) (\<lambda>bsobj. bind_outcome (Some (obj_isValid bsobj)) (\<lambda>ok.
        bind_outcome (Some (if ok then objsize bsobj else Inl Assertion_Failed)) (\<lambda>n.
          if n \<le> 0 \<or> int (length cur) < n then Some (Inl Assertion_Failed)
          else bind_outcome (bson_paths ctime bsobj True paths) (\<lambda>out.
            bind_outcome (bson_docs ctime paths (drop (nat n) cur)) (\<lambda>rest.
              Some (Inr (''['' @ out @ CHR '']'' # CHR 0x0A # rest))))))))"
  by auto
termination by (relation "measure (\<lambda>(ctime, paths, cur). length cur)") auto

declare bson_docs.simps [simp del]

definition bson_parse_mapped :: "ctime \<Rightarrow> (string \<Rightarrow> path_list result) \<Rightarrow> string \<Rightarrow> string \<Rightarrow> string outcome" where
  "bson_parse_mapped ctime path_parse bson paths_spec =
     bind_outcome (Some (path_parse paths_spec)) (\<lambda>paths. bson_docs ctime paths bson)"

section \<open>What a path selects\<close>

text \<open>
  A key names a member, also of an array, where the names are the positions; an index selects
  in arrays only. What is neither an object nor an array has no members.
\<close>

definition bson_child :: "bson \<Rightarrow> path_element \<Rightarrow> (string \<times> bson) option" where
  "bson_child v s =
     (let by_name = (\<lambda>fs k. find_first (\<lambda>f. fst f = k) fs)
      in case (v, s) of
           (B_Object fs, Key k) \<Rightarrow> by_name fs k
         | (B_Array fs, Key k) \<Rightarrow> by_name fs k
         | (B_Array fs, Index i) \<Rightarrow>
             (let j = (if 0 \<le> i then i else int (length fs) + i)
              in if 0 \<le> j \<and> j < int (length fs) then Some (fs ! nat j) else None)
         | _ \<Rightarrow> None)"

fun bson_select :: "bson \<Rightarrow> path \<Rightarrow> (string \<times> bson) option" where
  "bson_select v [] = None"
| "bson_select v (s # p) =
     (case bson_child v s of
        None \<Rightarrow> None
      | Some f \<Rightarrow> if p = [] then Some f else bson_select (snd f) p)"

text \<open>The elements of every array are named by their positions, as \<^verbatim>\<open>fromjson\<close> names them.\<close>

fun numbered :: "bson \<Rightarrow> bool" and all_numbered :: "fields \<Rightarrow> bool" where
  "numbered (B_Object fs) = all_numbered fs"
| "numbered (B_Array fs) = (map fst fs = map show_nat [0..<length fs] \<and> all_numbered fs)"
| "numbered _ = True"
| "all_numbered [] = True"
| "all_numbered ((name, v) # fs) = (numbered v \<and> all_numbered fs)"

definition plain_path :: "path \<Rightarrow> bool" where
  "plain_path = list_all (\<lambda>s. case s of Key k \<Rightarrow> nul \<notin> set k | Index i \<Rightarrow> - (2 ^ 31) \<le> i \<and> i < 2 ^ 31)"

definition selected_json :: "ctime \<Rightarrow> fields \<Rightarrow> path \<Rightarrow> string" where
  "selected_json ctime fs p =
     (case bson_select (B_Object fs) p of None \<Rightarrow> ''null'' | Some f \<Rightarrow> elem_text ctime Strict True 0 (fst f) (snd f))"

definition bson_line :: "ctime \<Rightarrow> path_list \<Rightarrow> fields \<Rightarrow> string" where
  "bson_line ctime paths fs = ''['' @ commas (map (selected_json ctime fs) paths) @ CHR '']'' # [CHR 0x0A]"

lemma all_numberedD: "all_numbered fs \<Longrightarrow> (name, v) \<in> set fs \<Longrightarrow> numbered v"
  by (induction fs) auto

lemma normal_numbered:
  "numbered (normal v)"
  "all_numbered (normal_fields fs)"
  "all_numbered (normal_elems i fs) \<and> map fst (normal_elems i fs) = map show_nat [i..<i + length fs] \<and>
    length (normal_elems i fs) = length fs"
  by (induction v and fs and i fs rule: normal_normal_fields_normal_elems.induct)
    (simp_all add: normal_long_def upt_conv_Cons del: upt_Suc)

lemma show_nat_inj: "show_nat i = show_nat j \<longleftrightarrow> i = j"
  using read_show_nat by metis

lemma find_numbered:
  assumes "map fst fs = map show_nat [a..<a + length fs]"
  shows "find_first (\<lambda>f. fst f = show_nat j) fs = (if a \<le> j \<and> j < a + length fs then Some (fs ! (j - a)) else None)"
  using assms
proof (induction fs arbitrary: a)
  case (Cons f fs)
  have "fst f = show_nat a" "map fst fs = map show_nat [Suc a..<Suc a + length fs]"
    using Cons.prems by (simp_all add: upt_conv_Cons del: upt_Suc)
  then show ?case
    using Cons.IH [of "Suc a"] by (auto simp: show_nat_inj nth_Cons')
qed simp

lemma stringToNum_digits:
  assumes "\<forall>c \<in> set ds. digit c" and "started \<or> ds \<noteq> []"
  shows "stringToNum_from (word_of_nat x) started ds = Inr (word_of_nat (foldl (\<lambda>n c. 10 * n + (of_char c - 48)) x ds))"
  using assms
proof (induction ds arbitrary: x started)
  case (Cons c ds)
  have c: "48 \<le> (of_char c :: nat)" using Cons.prems(1) by (simp add: digit_def)
  have eq: "(word_of_nat x * 10 + word_of_nat (of_char c) - 48 :: 32 word) = word_of_nat (10 * x + (of_char c - 48))"
    using c by (simp add: of_nat_diff algebra_simps)
  show ?case unfolding stringToNum_from.simps eq
    using Cons.IH [of True "10 * x + (of_char c - 48)"] Cons.prems(1) by (simp del: of_nat_add of_nat_mult of_nat_diff)
qed simp

lemma stringToNum_show: "stringToNum (show_nat n) = Inr (word_of_nat n)"
  using stringToNum_digits [where x = 0 and started = False, OF show_nat_digits [of n]] show_nat_not_Nil [of n] read_show_nat [of n]
  by (simp add: stringToNum_def read_digits_def)

lemma element_default_eoo [simp]: "e_eoo element_default = Inr True" "isABSONObj element_default = Inr False"
proof -
  have "type_of_char nul = EOO" by code_simp
  then show "e_eoo element_default = Inr True" "isABSONObj element_default = Inr False"
    by (simp_all add: e_eoo_def isABSONObj_def e_type_def element_default_def deref_def)
qed

section \<open>Following a path\<close>

text \<open>After an element without members, or none, every further step fails.\<close>

lemma default_at: "obj_at obj_default []"
proof -
  have "obj_default = encode_doc []" by code_simp
  moreover have "length (encode_doc []) = 5" by (simp add: encode_doc_def doc_of_def)
  ultimately show ?thesis by (simp add: obj_at_def BSONObjMaxInternalSize_def)
qed

lemma getField_absent: "getField obj_default name = Some (Inr element_default)"
proof -
  obtain it where it: "iterator_new obj_default = Inr it" "it_at it []" by (rule obj_at_iterator [OF default_at])
  have "getField_loop name it = Some (Inr element_default)" using it(2) by (subst getField_loop.simps) (simp add: it_at_Nil)
  then show ?thesis using it(1) by (simp add: getField_def)
qed

lemma getField_int_name:
  "getField_int obj i = getField obj (show_int (sint i))"
proof -
  have "int (length (bb_data sb_new)) + 12 \<le> bb_size sb_new" by (simp add: sb_new_def buf_new_def)
  from sb_int_fits [OF this, of i] show ?thesis by (auto simp: getField_int_def sb_new_def buf_new_def)
qed

lemma int_of_index: "- (2 ^ 31) \<le> i \<Longrightarrow> i < 2 ^ 31 \<Longrightarrow> sint (word_of_int i :: 32 word) = i"
  by (simp add: signed_of_int signed_take_bit_int_eq_self)

lemma sint_of_nat: "n < 2 ^ 31 \<Longrightarrow> sint (word_of_nat n :: 32 word) = int n"
  by (simp add: signed_of_nat signed_take_bit_int_eq_self)

lemma step_dead:
  assumes "plain_path [s]"
  shows "bson_step obj_default arr s = Some (Inr None) \<or> bson_step obj_default arr s = Some (Inr (Some element_default))"
proof (cases s)
  case (Key k)
  then show ?thesis by (simp add: getField_absent)
next
  case (Index i)
  have "elems obj_default = Some (Inr [])" using elems_all [OF default_at] by auto
  then have "i < 0 \<Longrightarrow> bson_index_back obj_default i = Some (Inr None)"
    using assms Index by (simp add: bson_index_back_def int_of_index plain_path_def)
  then show ?thesis using Index by (simp add: getField_int_name getField_absent)
qed

lemma follow_dead:
  assumes "plain_path p" and "p \<noteq> []"
  shows "bson_follow obj_default e arr p = Some (Inr element_default)"
  using assms
proof (induction p arbitrary: e)
  case (Cons s p)
  have s: "plain_path [s]" using Cons.prems by (simp add: plain_path_def)
  have p: "bson_follow obj_default element_default arr p = Some (Inr element_default)"
    using Cons by (cases "p = []") (simp_all add: plain_path_def)
  show ?case using step_dead [OF s, of arr] p by auto
qed simp

text \<open>A step in an object or array.\<close>

definition child_at :: "(string \<times> bson) option \<Rightarrow> string option \<Rightarrow> bool" where
  "child_at f r \<longleftrightarrow>
     (case f of None \<Rightarrow> r = None \<or> r = Some element_default | Some g \<Rightarrow> \<exists>e. r = Some e \<and> elem_at e (fst g) (snd g))"

lemma by_name_child:
  assumes "obj_at obj fs" and "nul \<notin> set name"
  shows "\<exists>r. bind_outcome (getField obj name) (\<lambda>e. Some (Inr (Some e))) = Some (Inr r) \<and>
    child_at (find_first (\<lambda>f. fst f = name) fs) r"
  using getField_finds [OF assms] find_first_SomeD [of "\<lambda>f. fst f = name" fs]
  by (auto simp: child_at_def split: option.splits)

lemma fields_small: "obj_at obj fs \<Longrightarrow> length fs < 2 ^ 29"
  using fields_count [of fs] by (auto simp: obj_at_def BSONObjMaxInternalSize_def encode_doc_def doc_of_def)

lemma index_forward:
  assumes "obj_at obj fs" and "map fst fs = map show_nat [0..<length fs]" and "0 \<le> i" and "i < 2 ^ 31"
  shows "\<exists>r. bson_step obj True (Index i) = Some (Inr r) \<and> child_at (bson_child (B_Array fs) (Index i)) r"
proof -
  have name: "show_int i = show_nat (nat i)" using assms(3) by (simp add: show_int_def)
  have find: "find_first (\<lambda>f. fst f = show_nat (nat i)) fs = bson_child (B_Array fs) (Index i)"
    using find_numbered [of fs 0 "nat i"] assms(2,3) by (auto simp: bson_child_def nat_less_iff)
  show ?thesis
    using by_name_child [OF assms(1) show_nat_no_nul, of "nat i"] assms(3,4) unfolding find
    by (simp add: getField_int_name int_of_index name)
qed

lemma index_backward:
  assumes "obj_at obj fs" and "map fst fs = map show_nat [0..<length fs]" and "i < 0" and "- (2 ^ 31) \<le> i"
  shows "\<exists>r. bson_step obj True (Index i) = Some (Inr r) \<and> child_at (bson_child (B_Array fs) (Index i)) r"
proof -
  obtain es where es: "elems obj = Some (Inr es)" "list_all2 (\<lambda>e f. elem_at e (fst f) (snd f)) es fs"
    using elems_all [OF assms(1)] by blast
  have len: "length es = length fs" using list_all2_lengthD [OF es(2)] .
  let ?j = "int (length fs) + i"
  have "sint (word_of_int ?j :: 32 word) = ?j" using fields_small [OF assms(1)] assms(3,4) by (intro int_of_index) auto
  then have j: "sint (word_of_nat (length es) + word_of_int i :: 32 word) = ?j" by (simp add: len)
  show ?thesis
  proof (cases "?j < 0")
    case True
    then show ?thesis using es(1) j assms(3) by (simp add: bson_index_back_def bson_child_def child_at_def Let_def)
  next
    case False
    let ?n = "nat ?j"
    have n: "?n < length fs" "int ?n = ?j" using False assms(3) by simp_all
    have e: "elem_at (es ! ?n) (fst (fs ! ?n)) (snd (fs ! ?n))" using list_all2_nthD2 [OF es(2) n(1)] .
    have "map fst fs ! ?n = show_nat ?n" unfolding assms(2) using n(1) by simp
    then have name: "fst (fs ! ?n) = show_nat ?n" using n(1) by simp
    have "?n < 2 ^ 31" by (rule less_trans [OF n(1)]) (use fields_small [OF assms(1)] in simp)
    then have "sint (word_of_nat ?n :: 32 word) = ?j" by (rule trans [OF sint_of_nat n(2)])
    then show ?thesis
      using es(1) j e elem_name [OF e] name n(1) False len stringToNum_show [of ?n]
      by (auto simp: bson_index_back_def bson_child_def child_at_def Let_def)
  qed
qed

lemma step_child:
  assumes "obj_at obj fs" and "v = B_Object fs \<and> \<not> arr \<or> v = B_Array fs \<and> arr" and "numbered v" and "plain_path [s]"
  shows "\<exists>r. bson_step obj arr s = Some (Inr r) \<and> child_at (bson_child v s) r"
proof (cases s)
  case (Key k)
  then have "nul \<notin> set k" using assms(4) by (simp add: plain_path_def)
  from by_name_child [OF assms(1) this] show ?thesis using assms(2) Key by (auto simp: bson_child_def)
next
  case (Index i)
  show ?thesis
  proof (cases arr)
    case True
    then show ?thesis
      using index_forward [OF assms(1), of i] index_backward [OF assms(1), of i] assms(2-4) Index
      by (cases "0 \<le> i") (auto simp: plain_path_def)
  next
    case False
    then show ?thesis using assms(2) Index by (auto simp: bson_child_def child_at_def)
  qed
qed

definition reached :: "(string \<times> bson) option \<Rightarrow> string \<Rightarrow> bool" where
  "reached f e \<longleftrightarrow> (case f of None \<Rightarrow> e = element_default | Some g \<Rightarrow> elem_at e (fst g) (snd g))"

lemma child_numbered:
  assumes "numbered v" and "bson_child v s = Some f"
  shows "numbered (snd f)"
proof -
  obtain fs where fs: "v = B_Object fs \<or> v = B_Array fs" "f \<in> set fs"
    using assms(2) by (cases v; cases s) (auto simp: bson_child_def Let_def split: if_splits dest!: find_first_SomeD intro!: nth_mem)
  then have "all_numbered fs" using assms(1) by auto
  then show ?thesis using all_numberedD [of fs "fst f" "snd f"] fs(2) by simp
qed

lemma follow_selects:
  assumes "obj_at obj fs" and "v = B_Object fs \<and> \<not> arr \<or> v = B_Array fs \<and> arr" and "numbered v"
    and "plain_path p" and "p \<noteq> []"
  shows "\<exists>e'. bson_follow obj e arr p = Some (Inr e') \<and> reached (bson_select v p) e'"
  using assms
proof (induction p arbitrary: obj fs v arr e)
  case (Cons s p)
  have plain: "plain_path [s]" "plain_path p" using Cons.prems(4) by (simp_all add: plain_path_def)
  obtain r where r: "bson_step obj arr s = Some (Inr r)" "child_at (bson_child v s) r"
    using step_child [OF Cons.prems(1-3) plain(1)] by blast
  show ?case
  proof (cases "bson_child v s")
    case None
    then have "r = None \<or> r = Some element_default" using r(2) by (simp add: child_at_def)
    then show ?thesis using r(1) None follow_dead [OF plain(2)] by (cases "p = []") (auto simp: reached_def)
  next
    case (Some f)
    then obtain e where e: "r = Some e" "elem_at e (fst f) (snd f)" using r(2) by (auto simp: child_at_def)
    note type = elem_type [OF e(2)] and num = child_numbered [OF Cons.prems(3) Some]
    show ?thesis
    proof (cases "\<exists>gs. snd f = B_Object gs \<or> snd f = B_Array gs")
      case True
      then obtain gs where gs: "snd f = B_Object gs \<or> snd f = B_Array gs" by blast
      obtain sub where sub: "embeddedObject e = Inr sub" "obj_at sub gs" "isABSONObj e = Inr True"
        using embedded_at [of e "fst f" gs] e(2) gs by auto
      let ?a = "type_of_bson (snd f) = BArray"
      have go: "bson_follow obj e' arr (s # p) = bson_follow sub e ?a p" for e'
        using r(1) e(1) sub type by simp
      show ?thesis
      proof (cases "p = []")
        case True
        then show ?thesis using go Some e(2) by (simp add: reached_def)
      next
        case False
        have "snd f = B_Object gs \<and> \<not> ?a \<or> snd f = B_Array gs \<and> ?a" using gs by auto
        from Cons.IH [OF sub(2) this num plain(2) False, of e] show ?thesis using go Some False by simp
      qed
    next
      case False
      then have no: "isABSONObj e = Inr False" using type by (cases "snd f") (auto simp: isABSONObj_def)
      have "bson_select (snd f) p = None" if "p \<noteq> []"
        using False that by (cases p; cases "snd f") (auto simp: bson_child_def)
      then show ?thesis
        using r(1) e no Some follow_dead [OF plain(2)] by (cases "p = []") (auto simp: reached_def)
    qed
  qed
qed simp

section \<open>What is printed\<close>

lemma child_printable:
  assumes "printable v" and "bson_child v s = Some f"
  shows "printable (snd f)"
proof -
  obtain fs where fs: "v = B_Object fs \<or> v = B_Array fs" "f \<in> set fs"
    using assms(2) by (cases v; cases s) (auto simp: bson_child_def Let_def split: if_splits dest!: find_first_SomeD intro!: nth_mem)
  moreover have "all_printable fs \<Longrightarrow> f \<in> set fs \<Longrightarrow> printable (snd f)" for fs
    by (induction fs) auto
  ultimately show ?thesis using assms(1) by auto
qed

lemma select_printable: "printable v \<Longrightarrow> bson_select v p = Some f \<Longrightarrow> printable (snd f)"
  by (induction v p rule: bson_select.induct) (auto split: option.splits if_splits dest: child_printable)

text \<open>What the theorems ask of a document, and of a list of paths on it.\<close>

definition query_ok :: "ctime \<Rightarrow> path_list \<Rightarrow> fields \<Rightarrow> bool" where
  "query_ok ctime paths fs \<longleftrightarrow>
     wf_fields fs \<and> length (encode_doc fs) \<le> 2 ^ 28 \<and> all_numbered fs \<and> all_printable fs \<and>
     (\<forall>p \<in> set paths. plain_path p \<and> length (selected_json ctime fs p) \<le> 2 ^ 28)"

lemma path_prints:
  assumes "obj_at obj fs" and "all_numbered fs" and "all_printable fs"
    and "plain_path p" and "length (selected_json ctime fs p) \<le> 2 ^ 28"
  shows "\<exists>e eoo. bson_follow obj element_default False p = Some (Inr e) \<and> e_eoo e = Inr eoo \<and>
    (if eoo then Some (Inr ''null'') else elem_json ctime (length e) Strict True 0 e) =
      Some (Inr (selected_json ctime fs p))"
proof -
  obtain e where e: "bson_follow obj element_default False p = Some (Inr e)" "reached (bson_select (B_Object fs) p) e"
    using follow_selects [OF assms(1), of "B_Object fs" False p element_default] assms(2,4)
    by (cases "p = []") (auto simp: reached_def)
  show ?thesis
  proof (cases "bson_select (B_Object fs) p")
    case None
    then show ?thesis using e by (intro exI [of _ e] exI [of _ True]) (simp add: reached_def selected_json_def)
  next
    case (Some f)
    then have at: "elem_at e (fst f) (snd f)" using e(2) by (simp add: reached_def)
    have "length (encode_value (snd f)) < length e" using at by (auto simp: elem_at_def field_of_def)
    with elem_json_text [OF at select_printable [OF _ Some]] assms(3,5) Some
    show ?thesis using e(1) elem_eoo [OF at]
      by (intro exI [of _ e] exI [of _ False]) (simp add: selected_json_def)
  qed
qed

lemma paths_print:
  assumes "obj_at obj fs" and "all_numbered fs" and "all_printable fs"
    and "\<forall>p \<in> set paths. plain_path p \<and> length (selected_json ctime fs p) \<le> 2 ^ 28"
  shows "bson_paths ctime obj first paths =
    Some (Inr ((if first \<or> paths = [] then [] else '','') @ commas (map (selected_json ctime fs) paths)))"
  using assms(4)
proof (induction paths arbitrary: first)
  case (Cons p paths)
  obtain e eoo where "bson_follow obj element_default False p = Some (Inr e)" "e_eoo e = Inr eoo"
    "(if eoo then Some (Inr ''null'') else elem_json ctime (length e) Strict True 0 e) =
      Some (Inr (selected_json ctime fs p))"
    using path_prints [OF assms(1-3), of p ctime] Cons.prems by auto
  then show ?case using Cons.IH [of False] Cons.prems by (cases paths) simp_all
qed simp

lemma docs_print:
  assumes "list_all (query_ok ctime paths) fss"
  shows "bson_docs ctime paths (concat (map encode_doc fss)) = Some (Inr (concat (map (bson_line ctime paths) fss)))"
  using assms
proof (induction fss)
  case Nil
  show ?case by (simp add: bson_docs.simps)
next
  case (Cons fs fss)
  let ?rest = "concat (map encode_doc fss)"
  have ok: "query_ok ctime paths fs" using Cons.prems by simp
  then have at: "obj_at (encode_doc fs @ ?rest) fs" by (auto simp: obj_at_def query_ok_def BSONObjMaxInternalSize_def)
  have size: "objsize (encode_doc fs @ ?rest) = Inr (int (length (encode_doc fs)))"
    using obj_at_size [OF at] by (simp add: encode_doc_def doc_of_def)
  have pos: "0 < length (encode_doc fs)" by (simp add: encode_doc_def doc_of_def)
  have "obj_isValid (encode_doc fs @ ?rest) = Inr True"
    using size ok pos by (auto simp: obj_isValid_def query_ok_def BSONObjMaxInternalSize_def)
  then show ?case
    using paths_print [OF at, of paths ctime True] obj_at_valid [OF at] size pos ok Cons
    by (subst bson_docs.simps) (simp add: query_ok_def bson_line_def [of ctime paths fs])
qed

lemma bson_parse_mapped_output:
  assumes "path_parse spec = Inr paths" and "list_all (query_ok ctime paths) fss"
  shows "bson_parse_mapped ctime path_parse (concat (map encode_doc fss)) spec =
    Some (Inr (concat (map (bson_line ctime paths) fss)))"
  using docs_print [OF assms(2)] assms(1) by (simp add: bson_parse_mapped_def)

text \<open>Nothing asks whether a key meets an object: the names of an array's elements are keys too.\<close>

lemma key_selects_in_array:
  "bson_select (B_Object [(''b'', B_Array [(''0'', v), (''1'', w)])]) [Key ''b'', Key ''0''] = Some (''0'', v)"
  by (simp add: bson_child_def)

section \<open>What bson_save writes\<close>

text \<open>A document that \<^verbatim>\<open>bson_save\<close> reads from its text.\<close>

definition save_ok :: "number_parsers \<Rightarrow> fields \<Rightarrow> bool" where
  "save_ok N fs \<longleftrightarrow> readable_fields N True fs \<and> length (encode_doc (normal_fields fs)) \<le> 2 ^ 28"

lemma bson_save_writes:
  assumes "classic_spec parse" and "number_parsers_spec N" and "list_all (save_ok N) fss"
  shows "bson_save parse N (map (\<lambda>fs. value_text ctime Strict 0 (B_Object fs)) fss) =
    Inr (concat (map encode_doc (map normal_fields fss)))"
  using assms(3)
proof (induction fss)
  case (Cons fs fss)
  let ?doc = "encode_doc (normal_fields fs)"
  have ok: "readable_fields N True fs" "length ?doc \<le> 2 ^ 28" using Cons.prems by (simp_all add: save_ok_def)
  have "obj_at (?doc @ []) (normal_fields fs)"
    using readable_wf(2) [OF ok(1)] ok(2) by (auto simp: obj_at_def BSONObjMaxInternalSize_def)
  then have "objsize ?doc = Inr (int (length ?doc))"
    using obj_at_size by (fastforce simp: encode_doc_def doc_of_def)
  then have "bind_result (objsize ?doc) (\<lambda>n. read_bytes ?doc n) = Inr ?doc" by (simp add: read_bytes_def)
  then show ?case
    using text_fromjson [OF assms(1,2) ok, of ctime] Cons
    by (simp add: read_bytes_def \<open>objsize ?doc = Inr (int (length ?doc))\<close> del: value_text.simps)
qed simp

lemma normal_printable:
  "readable N v \<Longrightarrow> printable (normal v)"
  "readable_fields N named fs \<Longrightarrow> all_printable (normal_fields fs)"
  "readable_fields N named fs \<Longrightarrow> all_printable (normal_elems i fs)"
  by (induction v and fs and i fs arbitrary: named and named and named rule: normal_normal_fields_normal_elems.induct)
    (auto simp: normal_long_def double_read_def)

lemma normal_query_ok:
  assumes "save_ok N fs" and "\<forall>p \<in> set paths. plain_path p \<and> length (selected_json ctime (normal_fields fs) p) \<le> 2 ^ 28"
  shows "query_ok ctime paths (normal_fields fs)"
  using assms readable_wf(2) normal_printable(2) normal_numbered(2) by (auto simp: query_ok_def save_ok_def)

end
