(* ===== verification/Json_Select_Main.thy ===== *)
theory Json_Select_Main
  imports Semi_Index_Zrandom Path_Parser Naive_Parse Bson_Select
begin

text \<open>
  The program of \<^verbatim>\<open>json_select.cpp\<close>: \<^verbatim>\<open>main\<close> and its dispatch. The world of a process is its
  standard input (the lines), the file system (a map from names to contents) and what it
  writes to its two output streams. The vector of arguments ends with a null pointer; a file
  that cannot be mapped is an exception that nothing catches; \<^verbatim>\<open>compress\<close> truncates its
  output file before it reads, and reads a file that cannot be opened as an empty one. The
  size report of \<^verbatim>\<open>si_save\<close> is left out, and writing a file succeeds.

  The theorems follow a file through several runs of the program.
\<close>

record world =
  w_stdin :: "string list"
  w_files :: "string \<Rightarrow> string option"
  w_stdout :: string
  w_stderr :: string

text \<open>The libraries the program is linked with.\<close>

record ('bvb, 'ef, 'bp, 'z, 'd) libraries =
  lib_succinct :: "('bvb, 'ef, 'bp) succinct"
  lib_mapper :: "('ef, 'bp) mapper"
  lib_zlib :: "'z zlib"
  lib_zmapper :: zmapper
  lib_phrase_parse :: "(path_rule, path_attr) phrase_parser"
  lib_int :: "string \<Rightarrow> (int \<times> string) option"
  lib_doubles :: "'d doubles"
  lib_classic_parse :: "(mongo_rule, object_builder) classic_parser"
  lib_numbers :: number_parsers
  lib_ctime :: ctime
  lib_trim_newline :: "string \<Rightarrow> string"

text \<open>
  \<open>arg\<close>: the pointer \<^verbatim>\<open>argv[n]\<close>, null at the end of the vector. \<open>pointee\<close>: using it as a
  string. \<open>parse_arg\<close>: \<^verbatim>\<open>json::path::parse\<close> on such a pointer, converted when the parser is
  called.
\<close>

definition arg :: "string list \<Rightarrow> nat \<Rightarrow> string option outcome" where
  "arg argv n =
     Some (if n < length argv then Inr (Some (argv ! n))
           else if n = length argv then Inr None
           else Inl Out_Of_Bounds)"

definition pointee :: "string option \<Rightarrow> string result" where
  "pointee p = (case p of None \<Rightarrow> Inl Null_Pointer | Some s \<Rightarrow> Inr s)"

definition map_file :: "world \<Rightarrow> string option \<Rightarrow> string outcome" where
  "map_file w p =
     bind_outcome (Some (pointee p))
       (\<lambda>name. Some (case w_files w name of None \<Rightarrow> Inl Terminate | Some s \<Rightarrow> Inr s))"

definition parse_arg :: "(string \<Rightarrow> 'a result) \<Rightarrow> string option \<Rightarrow> string \<Rightarrow> 'a result" where
  "parse_arg parser p _ = bind_result (pointee p) parser"

definition exit_ok :: "world \<Rightarrow> (nat \<times> world) outcome" where
  "exit_ok w = Some (Inr (0, w))"

definition print_result :: "world \<Rightarrow> string outcome \<Rightarrow> (nat \<times> world) outcome" where
  "print_result w r = bind_outcome r (\<lambda>out. exit_ok (w\<lparr>w_stdout := w_stdout w @ out\<rparr>))"

definition write_file :: "world \<Rightarrow> string \<Rightarrow> string \<Rightarrow> world" where
  "write_file w name s = w\<lparr>w_files := (w_files w)(name \<mapsto> s)\<rparr>"

definition read_stream :: "world \<Rightarrow> string \<Rightarrow> string" where
  "read_stream w name = (case w_files w name of None \<Rightarrow> [] | Some s \<Rightarrow> s)"

definition nop_stream :: "world \<Rightarrow> world" where
  "nop_stream w = w\<lparr>w_stdin := []\<rparr>"

definition fail_with :: "world \<Rightarrow> string \<Rightarrow> (nat \<times> world) outcome" where
  "fail_with w msg = Some (Inr (1, w\<lparr>w_stderr := w_stderr w @ msg @ [CHR 0x0A]\<rparr>))"

definition main ::
  "('bvb, 'ef, 'bp, 'z, 'd) libraries \<Rightarrow>
   string list \<Rightarrow> world \<Rightarrow> (nat \<times> world) outcome" where
  "main L argv w =
     (if length argv < 2 then fail_with w ''No command given''
      else
        let cmd = argv ! 1;
            S = lib_succinct L;
            M = lib_mapper L;
            parser = path_parse (lib_phrase_parse L) (lib_int L)
        in if cmd = ''nop_stream'' then exit_ok (nop_stream w)
           else if cmd = ''naive_parse_stream'' then
             bind_outcome (arg argv 2) (\<lambda>paths_spec.
               print_result (w\<lparr>w_stdin := []\<rparr>)
                 (naive_parse_stream (lib_doubles L) (parse_arg parser paths_spec) [] (w_stdin w)))
           else if cmd = ''si_parse_stream'' then
             bind_outcome (arg argv 2) (\<lambda>paths_spec.
               print_result (w\<lparr>w_stdin := []\<rparr>)
                 (si_parse_stream S (parse_arg parser paths_spec) [] (w_stdin w)))
           else if cmd = ''si_save'' then
             bind_outcome (arg argv 2) (\<lambda>index_file.
               bind_outcome (Some (si_save S M (w_stdin w))) (\<lambda>s.
                 bind_outcome (Some (pointee index_file)) (\<lambda>name.
                   exit_ok (write_file (w\<lparr>w_stdin := []\<rparr>) name s))))
           else if cmd = ''saved_si_parse_stream'' then
             bind_outcome (arg argv 2) (\<lambda>index_file. bind_outcome (arg argv 3) (\<lambda>paths_spec.
               bind_outcome (map_file w index_file) (\<lambda>index.
                 print_result (w\<lparr>w_stdin := []\<rparr>)
                   (saved_si_parse_stream S M (parse_arg parser paths_spec) index [] (w_stdin w)))))
           else if cmd = ''saved_si_parse_mapped'' then
             bind_outcome (arg argv 2) (\<lambda>json_file. bind_outcome (arg argv 3) (\<lambda>index_file.
               bind_outcome (arg argv 4) (\<lambda>paths_spec.
                 bind_outcome (map_file w json_file) (\<lambda>json.
                   bind_outcome (map_file w index_file) (\<lambda>index.
                     print_result w
                       (saved_si_parse_mapped S M (parse_arg parser paths_spec) json index []))))))
           else if cmd = ''compress_file'' then
             bind_outcome (arg argv 2) (\<lambda>in_file. bind_outcome (arg argv 3) (\<lambda>out_file.
               bind_outcome (Some (pointee in_file)) (\<lambda>in_name.
                 bind_outcome (Some (pointee out_file)) (\<lambda>out_name.
                   case compress (lib_zlib L) (lib_zmapper L)
                       (read_stream (write_file w out_name []) in_name) of
                     None \<Rightarrow> None
                   | Some s \<Rightarrow> exit_ok (write_file w out_name s)))))
           else if cmd = ''saved_si_parse_compressed'' then
             bind_outcome (arg argv 2) (\<lambda>json_file. bind_outcome (arg argv 3) (\<lambda>index_file.
               bind_outcome (arg argv 4) (\<lambda>paths_spec.
                 bind_outcome (map_file w json_file) (\<lambda>json.
                   bind_outcome (map_file w index_file) (\<lambda>index.
                     print_result w
                       (saved_si_parse_compressed S M (lib_zlib L) (lib_zmapper L)
                          (parse_arg parser paths_spec) json index []))))))
           else if cmd = ''bson_save'' then
             bind_outcome (arg argv 2) (\<lambda>output_file.
               bind_outcome (Some (pointee output_file)) (\<lambda>name.
                 bind_outcome (Some (bson_save (lib_classic_parse L) (lib_numbers L)
                     (map (lib_trim_newline L) (w_stdin w)))) (\<lambda>s.
                   exit_ok (write_file (w\<lparr>w_stdin := []\<rparr>) name s))))
           else if cmd = ''bson_parse_mapped'' then
             bind_outcome (arg argv 2) (\<lambda>bson_file. bind_outcome (arg argv 3) (\<lambda>paths_spec.
               bind_outcome (map_file w bson_file) (\<lambda>bson.
                 print_result w (bson_parse_mapped (lib_ctime L) (parse_arg parser paths_spec) bson []))))
           else fail_with w (''Unknown command: '' @ cmd))"

section \<open>Runs\<close>

text \<open>Running the program several times, one process after the other; the status is the last one's.\<close>

fun runs ::
  "('bvb, 'ef, 'bp, 'z, 'd) libraries \<Rightarrow>
   string list list \<Rightarrow> nat \<times> world \<Rightarrow> (nat \<times> world) outcome" where
  "runs L [] r = Some (Inr r)"
| "runs L (argv # rest) r =
     bind_outcome (main L argv (snd r)) (runs L rest)"

text \<open>
  The paths of a command line: a nonempty list of groups \<^verbatim>\<open>key[i]\<close> that the grammar reads back,
  with keys that contain no quote.
\<close>

definition paths_arg :: "(string \<times> int option) list list \<Rightarrow> bool" where
  "paths_arg gss \<longleftrightarrow> gss \<noteq> [] \<and> list_all (list_all good_group) gss \<and>
     list_all plain_keys (map groups_path gss)"

lemmas run_simps = main_def arg_def pointee_def map_file_def print_result_def exit_ok_def

locale linked =
  fixes L :: "('bvb, 'ef, 'bp, 'z, 'd) libraries" and bits :: "'bvb \<Rightarrow> bool list" and flushed :: "'z \<Rightarrow> bool"
  assumes linked_succinct: "succinct_spec (lib_succinct L) bits"
    and linked_mapper: "mapper_spec (lib_mapper L)"
    and linked_zlib: "zlib_spec (lib_zlib L) flushed"
    and linked_zmapper: "zmapper_spec (lib_zmapper L)"
    and linked_spirit: "spirit_spec (lib_phrase_parse L)"
    and linked_int: "int_spec (lib_int L)"
    and linked_classic: "classic_spec (lib_classic_parse L)"
    and linked_numbers: "number_parsers_spec (lib_numbers L)"
    and linked_trim: "lib_trim_newline L (line @ [CHR 0x0A]) = line"
begin

lemma parse_arg_groups:
  assumes "paths_arg gss"
  shows "parse_arg (path_parse (lib_phrase_parse L) (lib_int L)) (Some (show_paths gss)) x =
    Inr (map groups_path gss)"
  using path_parse_groups [OF linked_spirit linked_int, of gss] assms
  by (simp add: parse_arg_def pointee_def paths_arg_def)

lemma run_save:
  assumes "queryable ts" and "w_stdin w = map json_text ts"
  shows "\<exists>s. si_save (lib_succinct L) (lib_mapper L) (map json_text ts) = Inr s \<and>
    main L [prog, ''si_save'', index_file] w =
      exit_ok (write_file (w\<lparr>w_stdin := []\<rparr>) index_file s)"
  using si_save_returns [OF linked_succinct assms(1), of "lib_mapper L"] assms(2)
  by (auto simp: run_simps)

lemma run_compress:
  assumes "in_file \<noteq> out_file"
  shows "\<exists>s. compress (lib_zlib L) (lib_zmapper L) (read_stream w in_file) = Some s \<and>
    main L [prog, ''compress_file'', in_file, out_file] w = exit_ok (write_file w out_file s)"
  using compress_returns [OF linked_zlib, of "lib_zmapper L" "read_stream w in_file"] assms
  by (auto simp: run_simps read_stream_def write_file_def)

lemma run_mapped:
  assumes "queryable ts" and "ts \<noteq> []" and "paths_arg gss"
    and "w_files w json_file = Some (concat (map json_text ts))" and "w_files w index_file = Some s"
    and "si_save (lib_succinct L) (lib_mapper L) (map json_text ts) = Inr s"
  shows "main L [prog, ''saved_si_parse_mapped'', json_file, index_file, show_paths gss] w =
    exit_ok (w\<lparr>w_stdout := w_stdout w @ expected_output (map groups_path gss) ts\<rparr>)"
  using mapped_prints [where spec = "[]" and
      path_parse = "parse_arg (path_parse (lib_phrase_parse L) (lib_int L)) (Some (show_paths gss))",
      OF linked_succinct linked_mapper assms(1,2) parse_arg_groups [OF assms(3)] _
      assms(6)] assms(3,4,5)
  by (simp add: run_simps paths_arg_def)

lemma run_compressed:
  assumes "queryable ts" and "ts \<noteq> []" and "paths_arg gss"
    and "w_files w json_file = Some file" and "w_files w index_file = Some s"
    and "si_save (lib_succinct L) (lib_mapper L) (map json_text ts) = Inr s"
    and "compress (lib_zlib L) (lib_zmapper L) (concat (map json_text ts)) = Some file"
    and "length file < 2 ^ 32" and "length (concat (map json_text ts)) < 2 ^ 63"
  shows "main L [prog, ''saved_si_parse_compressed'', json_file, index_file, show_paths gss] w =
    exit_ok (w\<lparr>w_stdout := w_stdout w @ expected_output (map groups_path gss) ts\<rparr>)"
  using compressed_prints [where spec = "[]" and
      path_parse = "parse_arg (path_parse (lib_phrase_parse L) (lib_int L)) (Some (show_paths gss))",
      OF linked_succinct linked_mapper linked_zlib linked_zmapper assms(1,2)
      parse_arg_groups [OF assms(3)] _ assms(6-9)] assms(3,4,5)
  by (simp add: run_simps paths_arg_def)

lemma run_stream:
  assumes "queryable ts" and "list_all (\<lambda>t. before t = []) ts" and "paths_arg gss"
    and "w_stdin w = map json_text ts"
  shows "main L [prog, ''si_parse_stream'', show_paths gss] w =
    exit_ok (w\<lparr>w_stdin := [], w_stdout := w_stdout w @ expected_output (map groups_path gss) ts\<rparr>)"
  using stream_prints [where spec = "[]" and
      path_parse = "parse_arg (path_parse (lib_phrase_parse L) (lib_int L)) (Some (show_paths gss))",
      OF linked_succinct assms(1,2) parse_arg_groups [OF assms(3)]] assms(3,4)
  by (simp add: run_simps paths_arg_def)

lemma run_saved_stream:
  assumes "queryable ts" and "ts \<noteq> []" and "list_all (\<lambda>t. before t = []) ts" and "paths_arg gss"
    and "w_stdin w = map json_text ts" and "w_files w index_file = Some s"
    and "si_save (lib_succinct L) (lib_mapper L) (map json_text ts) = Inr s"
  shows "main L [prog, ''saved_si_parse_stream'', index_file, show_paths gss] w =
    exit_ok (w\<lparr>w_stdin := [], w_stdout := w_stdout w @ expected_output (map groups_path gss) ts\<rparr>)"
  using saved_stream_prints [where spec = "[]" and
      path_parse = "parse_arg (path_parse (lib_phrase_parse L) (lib_int L)) (Some (show_paths gss))",
      OF linked_succinct linked_mapper assms(1-3)
      parse_arg_groups [OF assms(4)] _ assms(7), of "[]"] assms(4-6)
  by (simp add: run_simps paths_arg_def)

end

text \<open>The program linked with the executable instances of the libraries.\<close>

definition reference_libraries ::
  "(bool list, bool list, bool list, string option, int) libraries" where
  "reference_libraries = \<lparr>lib_succinct = list_succinct, lib_mapper = list_mapper,
     lib_zlib = stored_zlib, lib_zmapper = word_zmapper, lib_phrase_parse = phrase_parse_ref,
     lib_int = int_ref, lib_doubles = whole_doubles,
     lib_classic_parse = classic_parse_ref, lib_numbers = number_parsers_ref, lib_ctime = (\<lambda>d. []),
     lib_trim_newline = (\<lambda>s. if s \<noteq> [] \<and> last s = CHR 0x0A then butlast s else s)\<rparr>"

interpretation ref: linked reference_libraries "\<lambda>b. b" "\<lambda>z. z = None"
  by (rule linked.intro)
    (simp_all add: reference_libraries_def list_succ.succinct_spec_axioms
      list_map.mapper_spec_axioms stored.zlib_spec_axioms words.zmapper_spec_axioms
      spirit_ref.spirit_spec_axioms int_ref.int_spec_axioms classic_ref.classic_spec_axioms
      ref_numbers.number_parsers_spec_axioms)

definition example_groups :: "(string \<times> int option) list list" where
  "example_groups = [[(''b'', Some (-1))], [(''a'', None)]]"

lemma example_groups_facts:
  "paths_arg example_groups" "show_paths example_groups = ''b[-1],a''"
  "map groups_path example_groups = example_paths"
  by code_simp+

definition example_world :: world where
  "example_world = \<lparr>w_stdin = map json_text example_docs,
     w_files = [''d.json'' \<mapsto> concat (map json_text example_docs)], w_stdout = [], w_stderr = []\<rparr>"

section \<open>A collection through the program\<close>

text \<open>
  C19. Two runs of the program: \<^verbatim>\<open>si_save\<close> on the collection, then \<^verbatim>\<open>saved_si_parse_mapped\<close> on
  the collection's file and the index written by the first. Both exit with status 0; the only
  file written is the index, and standard output receives exactly the selected texts of the
  paths on the command line.
\<close>

theorem save_then_query:
  assumes "linked L bits flushed" and "queryable ts" and "ts \<noteq> []" and "paths_arg gss"
    and "w_stdin w = map json_text ts" and "w_files w json_file = Some (concat (w_stdin w))"
    and "json_file \<noteq> index_file"
  shows "\<exists>s. runs L
      [[prog, ''si_save'', index_file],
       [prog, ''saved_si_parse_mapped'', json_file, index_file, show_paths gss]] (status, w) =
    Some (Inr (0, w\<lparr>w_stdin := [], w_files := (w_files w)(index_file \<mapsto> s),
      w_stdout := w_stdout w @ expected_output (map groups_path gss) ts\<rparr>))"
proof -
  obtain s where s: "si_save (lib_succinct L) (lib_mapper L) (map json_text ts) = Inr s"
    "main L [prog, ''si_save'', index_file] w =
      exit_ok (write_file (w\<lparr>w_stdin := []\<rparr>) index_file s)"
    using linked.run_save [OF assms(1,2,5)] by blast
  with linked.run_mapped [OF assms(1-4) _ _ s(1), of "write_file (w\<lparr>w_stdin := []\<rparr>) index_file s"
      json_file index_file prog] assms(5-7)
  show ?thesis by (auto simp: exit_ok_def write_file_def intro!: exI [of _ s])
qed

theorem save_then_query_witness:
  "\<exists>s. runs reference_libraries
      [[''json_select'', ''si_save'', ''d.si''],
       [''json_select'', ''saved_si_parse_mapped'', ''d.json'', ''d.si'', ''b[-1],a'']] (0, example_world) =
    Some (Inr (0, example_world\<lparr>w_stdin := [], w_files := (w_files example_world)(''d.si'' \<mapsto> s),
      w_stdout := ''[ 8, 1]'' @ [CHR 0x0A] @ ''[null,null]'' @ [CHR 0x0A]\<rparr>))"
  using save_then_query [OF ref.linked_axioms example_facts(1,2) example_groups_facts(1),
      of example_world "''d.json''" "''d.si''" "''json_select''" 0]
  by (simp add: example_world_def example_groups_facts example_facts del: runs.simps)



text \<open>
  C21. With the index of its standard input saved in a file, the program behaves the same with
  \<^verbatim>\<open>saved_si_parse_stream\<close> as with \<^verbatim>\<open>si_parse_stream\<close>, which builds an index of every line anew:
  status, output and files are equal.
\<close>

theorem stream_commands_agree:
  assumes "linked L bits flushed" and "queryable ts" and "ts \<noteq> []"
    and "list_all (\<lambda>t. before t = []) ts" and "paths_arg gss" and "w_stdin w = map json_text ts"
    and "si_save (lib_succinct L) (lib_mapper L) (w_stdin w) = Inr s"
    and "w_files w index_file = Some s"
  shows "main L [prog, ''saved_si_parse_stream'', index_file, show_paths gss] w =
    main L [prog, ''si_parse_stream'', show_paths gss] w"
  using linked.run_stream [OF assms(1,2,4-6)] linked.run_saved_stream [OF assms(1-6) assms(8)] assms(6,7)
  by simp

theorem stream_commands_agree_witness:
  "\<exists>s. si_save list_succinct list_mapper (map json_text example_docs) = Inr s \<and>
    main reference_libraries
      [''json_select'', ''saved_si_parse_stream'', ''d.si'', ''b[-1],a''] (write_file example_world ''d.si'' s) =
    main reference_libraries
      [''json_select'', ''si_parse_stream'', ''b[-1],a''] (write_file example_world ''d.si'' s)"
proof -
  obtain s where s: "si_save list_succinct list_mapper (map json_text example_docs) = Inr s"
    using si_save_returns [OF list_succ.succinct_spec_axioms example_facts(1)] by blast
  then have "si_save (lib_succinct reference_libraries) (lib_mapper reference_libraries)
      (w_stdin (write_file example_world ''d.si'' s)) = Inr s"
    by (simp add: reference_libraries_def write_file_def example_world_def)
  from stream_commands_agree [OF ref.linked_axioms example_facts(1,2,4) example_groups_facts(1) _ this,
      of "''d.si''" "''json_select''"] s
  show ?thesis by (auto simp: write_file_def example_world_def example_groups_facts)
qed

section \<open>The BSON baselines through the program\<close>

text \<open>
  C22. Two runs of the program: \<^verbatim>\<open>bson_save\<close> on a collection printed by \<^verbatim>\<open>jsonString\<close>, then
  \<^verbatim>\<open>bson_parse_mapped\<close> on the file it wrote. The file is the BSON of the documents in their normal
  form, and for every document and path the second prints the element that the path selects in it, null
  where there is none. The elements are printed with their names.
\<close>

theorem bson_save_then_parse:
  assumes "linked L bits flushed" and "list_all (save_ok (lib_numbers L)) fss" and "fss \<noteq> []" and "paths_arg gss"
    and "w_stdin w = map (\<lambda>fs. value_text ctime Strict 0 (B_Object fs) @ [CHR 0x0A]) fss"
    and "\<forall>fs \<in> set fss. \<forall>p \<in> set (map groups_path gss). plain_path p \<and>
      length (selected_json (lib_ctime L) (normal_fields fs) p) \<le> 2 ^ 28"
  shows "runs L
      [[prog, ''bson_save'', bson_file], [prog, ''bson_parse_mapped'', bson_file, show_paths gss]] (status, w) =
    Some (Inr (0, w\<lparr>w_stdin := [],
      w_files := (w_files w)(bson_file \<mapsto> concat (map encode_doc (map normal_fields fss))),
      w_stdout := w_stdout w @ concat (map (bson_line (lib_ctime L) (map groups_path gss)) (map normal_fields fss))\<rparr>))"
proof -
  let ?file = "concat (map encode_doc (map normal_fields fss))"
  have lines: "map (lib_trim_newline L) (w_stdin w) = map (\<lambda>fs. value_text ctime Strict 0 (B_Object fs)) fss"
    using linked.linked_trim [OF assms(1)] assms(5) by (simp del: value_text.simps)
  have "bson_save (lib_classic_parse L) (lib_numbers L) (map (lib_trim_newline L) (w_stdin w)) = Inr ?file"
    unfolding lines by (rule bson_save_writes [OF linked.linked_classic [OF assms(1)] linked.linked_numbers [OF assms(1)] assms(2)])
  then have save: "main L [prog, ''bson_save'', bson_file] w = exit_ok (write_file (w\<lparr>w_stdin := []\<rparr>) bson_file ?file)"
    by (simp add: run_simps)
  have "list_all (query_ok (lib_ctime L) (map groups_path gss)) (map normal_fields fss)"
    using assms(2,6) normal_query_ok by (fastforce simp: list_all_iff)
  from bson_parse_mapped_output [where spec = "[]" and
      path_parse = "parse_arg (path_parse (lib_phrase_parse L) (lib_int L)) (Some (show_paths gss))",
      OF linked.parse_arg_groups [OF assms(1,4)] this]
  have "main L [prog, ''bson_parse_mapped'', bson_file, show_paths gss] (write_file (w\<lparr>w_stdin := []\<rparr>) bson_file ?file) =
      exit_ok (write_file (w\<lparr>w_stdin := []\<rparr>) bson_file ?file\<lparr>w_stdout := w_stdout w @
        concat (map (bson_line (lib_ctime L) (map groups_path gss)) (map normal_fields fss))\<rparr>)"
    by (simp add: run_simps write_file_def)
  with save show ?thesis by (simp add: exit_ok_def write_file_def)
qed

theorem bson_save_then_parse_witness:
  "runs reference_libraries
      [[''json_select'', ''bson_save'', ''d.bson''], [''json_select'', ''bson_parse_mapped'', ''d.bson'', ''b[-1],a'']]
      (0, \<lparr>w_stdin = [value_text (\<lambda>d. []) Strict 0 (B_Object mixed_doc) @ [CHR 0x0A]], w_files = (\<lambda>f. None),
        w_stdout = [], w_stderr = []\<rparr>) =
    Some (Inr (0, \<lparr>w_stdin = [], w_files = [''d.bson'' \<mapsto> encode_doc (normal_fields mixed_doc)],
      w_stdout = ''['' @ quoted_text ''1'' @ '' : null,'' @ quoted_text ''a'' @ '' : 7]'' @ [CHR 0x0A], w_stderr = []\<rparr>))"
proof -
  let ?w = "\<lparr>w_stdin = [value_text (\<lambda>d. []) Strict 0 (B_Object mixed_doc) @ [CHR 0x0A]], w_files = (\<lambda>f. None),
    w_stdout = [], w_stderr = []\<rparr>"
  have shown: "show_int 7 = ''7''" by code_simp
  have paths: "map groups_path example_groups = [[Key ''b'', Index (- 1)], [Key ''a'']]"
    by (simp add: example_groups_facts example_paths_def)
  have texts: "selected_json c (normal_fields mixed_doc) [Key ''b'', Index (- 1)] = quoted_text ''1'' @ '' : null''"
    "selected_json c (normal_fields mixed_doc) [Key ''a''] = quoted_text ''a'' @ '' : 7''" for c
    using shown
    by (simp_all add: mixed_normal selected_json_def bson_child_def elem_text_def escaped_text_def escape_writes_def byte_def Let_def)
  have ok: "list_all (save_ok (lib_numbers reference_libraries)) [mixed_doc]"
    using mixed_sizes(2) by (simp add: save_ok_def reference_libraries_def mixed_readable)
  have plain: "\<forall>fs \<in> set [mixed_doc]. \<forall>p \<in> set (map groups_path example_groups). plain_path p \<and>
      length (selected_json (lib_ctime reference_libraries) (normal_fields fs) p) \<le> 2 ^ 28"
    unfolding paths by (simp add: texts plain_path_def quoted_text_def)
  from bson_save_then_parse [OF ref.linked_axioms ok _ example_groups_facts(1) _ plain,
      of ?w "\<lambda>d. []" "''json_select''" "''d.bson''" 0]
  show ?thesis unfolding paths
    by (simp add: example_groups_facts texts bson_line_def reference_libraries_def del: runs.simps value_text.simps)
qed

text \<open>The files a command line makes the program write.\<close>

definition output_files :: "string list \<Rightarrow> string set" where
  "output_files argv =
     (if length argv < 2 then {}
      else if argv ! 1 = ''si_save'' \<or> argv ! 1 = ''bson_save'' then {argv ! 2}
      else if argv ! 1 = ''compress_file'' then {argv ! 3}
      else {})"

lemma print_result_Inr:
  "print_result w r = Some (Inr (status, w')) \<longleftrightarrow>
     (\<exists>out. r = Some (Inr out) \<and> status = 0 \<and> w' = w\<lparr>w_stdout := w_stdout w @ out\<rparr>)"
  by (auto simp: print_result_def exit_ok_def bind_outcome_Inr)

lemma pointer_arg:
  "arg argv n = Some (Inr p) \<Longrightarrow> pointee p = Inr name \<Longrightarrow> name = argv ! n"
  by (auto simp: arg_def pointee_def split: if_splits option.splits)



end
