(* ===== verification/Json_Parser.thy ===== *)
theory Json_Parser
  imports Json_Tree Path_Parser
begin

text \<open>
  The JSON parser, \<^verbatim>\<open>json::parser::parse\<close> in \<^verbatim>\<open>semi_index/json_spirit_parser.cpp\<close>: the values,
  the custom parser \<^verbatim>\<open>quoted_string\<close> for the body of a string literal, the grammar as data for
  Spirit, and the two entry points. \<^verbatim>\<open>phrase_parse\<close> and the number parser
  \<^verbatim>\<open>qi::double_\<close> are arguments; the type of numbers is a type parameter.

  \<open>denotes\<close> relates the layout trees of \<open>Json_Tree\<close> to values; the parser returns the
  value that a document denotes. An escape at the very end of the input makes
  \<open>quoted_string\<close> read past the end.
\<close>

section \<open>Values\<close>

datatype 'd jvalue =
    Null
  | Bool bool
  | String string
  | Double 'd
  | Object "(string \<times> 'd jvalue) list"
  | Array "'d jvalue list"

text \<open>
  An object is an \<^verbatim>\<open>unordered_map\<close>, here an association list without repeated keys:
  \<^verbatim>\<open>(*this)[k]\<close> finds the entry of the key or inserts one.
\<close>

fun object_steal_append ::
  "(string \<times> 'd jvalue) list \<Rightarrow> string \<Rightarrow> 'd jvalue \<Rightarrow> (string \<times> 'd jvalue) list" where
  "object_steal_append [] k v = [(k, v)]"
| "object_steal_append ((k', v') # es) k v =
     (if k = k' then (k, v) # es else (k', v') # object_steal_append es k v)"

definition array_steal_append :: "'d jvalue list \<Rightarrow> 'd jvalue \<Rightarrow> 'd jvalue list" where
  "array_steal_append vs v = vs @ [v]"

section \<open>The string parser\<close>

text \<open>\<^verbatim>\<open>quoted_string_parser::parse\<close>: whether it succeeded, the attribute, and the rest.\<close>

fun quoted_string :: "string \<Rightarrow> string \<Rightarrow> (bool \<times> string \<times> string) result" where
  "quoted_string attr [] = Inr (False, attr, [])"
| "quoted_string attr (c # cs) =
     (if c = quote then Inr (True, attr, cs)
      else if c = backslash then
        (case cs of
           [] \<Rightarrow> Inl Out_Of_Bounds
         | d # ds \<Rightarrow> quoted_string (attr @ [unescape_char d]) ds)
      else quoted_string (attr @ [c]) cs)"

section \<open>The grammar\<close>

datatype json_rule =
  Value_Rule | Object_Rule | Array_Rule | Number_Rule | String_Rule | Bool_Rule | Null_Rule

datatype 'd json_attr =
    J_Value "'d jvalue"
  | J_Object "(string \<times> 'd jvalue) list"
  | J_Array "'d jvalue list"
  | J_Double 'd
  | J_String string
  | J_Bool bool
  | J_Null

text \<open>The semantic actions: assignment to \<^verbatim>\<open>_val\<close>, \<^verbatim>\<open>steal_append\<close>, and moving into a variant.\<close>

fun assign :: "'d json_attr list \<Rightarrow> 'd json_attr \<Rightarrow> 'd json_attr" where
  "assign [x] v = x"
| "assign xs v = v"

fun steal_member :: "'d json_attr list \<Rightarrow> 'd json_attr \<Rightarrow> 'd json_attr" where
  "steal_member [J_String k, J_Value x] (J_Object es) = J_Object (object_steal_append es k x)"
| "steal_member xs v = v"

fun steal_element :: "'d json_attr list \<Rightarrow> 'd json_attr \<Rightarrow> 'd json_attr" where
  "steal_element [J_Value x] (J_Array vs) = J_Array (array_steal_append vs x)"
| "steal_element xs v = v"

fun move_into :: "'d json_attr list \<Rightarrow> 'd json_attr \<Rightarrow> 'd json_attr" where
  "move_into [J_String s] v = J_Value (String s)"
| "move_into [J_Double x] v = J_Value (Double x)"
| "move_into [J_Object es] v = J_Value (Object es)"
| "move_into [J_Array vs] v = J_Value (Array vs)"
| "move_into [J_Bool b] v = J_Value (Bool b)"
| "move_into [J_Null] v = J_Value Null"
| "move_into xs v = v"

abbreviation member_p :: "(json_rule, 'd json_attr) qi" where
  "member_p \<equiv> Act (Seq (Rule String_Rule) (Seq (Lit (CHR '':'')) (Rule Value_Rule))) steal_member"

abbreviation element_p :: "(json_rule, 'd json_attr) qi" where
  "element_p \<equiv> Act (Rule Value_Rule) steal_element"

definition json_grammar ::
  "(string \<Rightarrow> ('d \<times> string) option) \<Rightarrow> (json_rule, 'd json_attr) grammar" where
  "json_grammar double_p r =
     (case r of
        Number_Rule \<Rightarrow>
          (J_Null, Act (Num (\<lambda>s. map_option (\<lambda>(x, t). (J_Double x, t)) (double_p s))) assign)
      | String_Rule \<Rightarrow>
          (J_String [],
           Seq (Lit quote)
             (Act (Prim (\<lambda>s. bind_result (quoted_string [] s)
                     (\<lambda>r. Inr (fst r, J_String (fst (snd r)), snd (snd r))))) assign))
      | Null_Rule \<Rightarrow> (J_Null, Act (Str ''null'' J_String) (\<lambda>xs v. J_Null))
      | Bool_Rule \<Rightarrow>
          (J_Bool False,
           Alt (Act (Str ''true'' J_String) (\<lambda>xs v. J_Bool True))
               (Act (Str ''false'' J_String) (\<lambda>xs v. J_Bool False)))
      | Object_Rule \<Rightarrow>
          (J_Object [],
           Seq (Lit (CHR ''{'')) (Seq (Opt (List_Of member_p (Lit (CHR '','')))) (Lit (CHR ''}''))))
      | Array_Rule \<Rightarrow>
          (J_Array [],
           Seq (Lit (CHR ''['')) (Seq (Opt (List_Of element_p (Lit (CHR '','')))) (Lit (CHR '']''))))
      | Value_Rule \<Rightarrow>
          (J_Value Null,
           Alt (Act (Rule String_Rule) move_into)
          (Alt (Act (Rule Number_Rule) move_into)
          (Alt (Act (Rule Object_Rule) move_into)
          (Alt (Act (Rule Array_Rule) move_into)
          (Alt (Act (Rule Bool_Rule) move_into)
               (Act (Rule Null_Rule) move_into)))))))"

text \<open>\<^verbatim>\<open>parse\<close>: \<open>None\<close> when it returns \<^verbatim>\<open>false\<close>. What follows the value is not looked at.\<close>

definition json_parse ::
  "(json_rule, 'd json_attr) phrase_parser \<Rightarrow> (string \<Rightarrow> ('d \<times> string) option) \<Rightarrow> string \<Rightarrow>
   'd jvalue option result" where
  "json_parse phrase_parse double_p s =
     bind_result (phrase_parse (json_grammar double_p) Value_Rule s)
       (\<lambda>r. Inr (if fst r then (case fst (snd r) of J_Value x \<Rightarrow> Some x | _ \<Rightarrow> None) else None))"

section \<open>Numbers\<close>

text \<open>
  What \<^verbatim>\<open>qi::double_\<close> documents, as far as the grammar relies on it: \<open>number s = Some x\<close> says
  that \<open>s\<close> is the text of the number \<open>x\<close>; such a text is read when nothing that could
  continue it follows; and no number starts like a string, a container or a keyword.
\<close>

definition ends_number :: "string \<Rightarrow> bool" where
  "ends_number s \<longleftrightarrow> s = [] \<or> ascii_space (hd s) \<or> hd s \<in> set '',]}''"

locale double_spec =
  fixes double_p :: "string \<Rightarrow> ('d \<times> string) option" and number :: "string \<Rightarrow> 'd option"
  assumes double_reads: "number s = Some x \<Longrightarrow> ends_number rest \<Longrightarrow> double_p (s @ rest) = Some (x, rest)"
    and number_first: "number s = Some x \<Longrightarrow> s \<noteq> [] \<and> (hd s \<in> set ''+-.'' \<or> digit (hd s))"
    and double_fails: "s \<noteq> [] \<Longrightarrow> hd s \<in> set (quote # ''{[]tf'') \<or> take 2 s = ''nu'' \<Longrightarrow> double_p s = None"

text \<open>An executable instance, on integers.\<close>

definition int_number :: "string \<Rightarrow> int option" where
  "int_number s =
     (case int_ref s of
        Some (i, t) \<Rightarrow> if t = [] \<and> show_int i = s then Some i else None
      | None \<Rightarrow> None)"

interpretation int_double: double_spec int_ref int_number
proof
  fix s rest and x :: int
  assume "int_number s = Some x" and rest: "ends_number rest"
  then have x: "s = show_int x" "int_range x"
    by (auto simp: int_number_def int_ref_def Let_def split: option.splits if_splits)
  have "\<not> digit c" if "rest = c # t" for c t
    using rest that by (auto simp: ends_number_def digit_def ascii_space_def)
  from int_ref.int_reads [OF x(2) this] x(1) show "int_ref (s @ rest) = Some (x, rest)" by simp
next
  fix s and x :: int
  assume "int_number s = Some x"
  then have s: "s = show_int x"
    by (auto simp: int_number_def split: option.splits if_splits)
  have "digit (hd (show_nat n))" for n
    using show_nat_digits [of n] show_nat_not_Nil [of n] by auto
  with s show_nat_not_Nil show "s \<noteq> [] \<and> (hd s \<in> set ''+-.'' \<or> digit (hd s))"
    by (auto simp: show_int_def)
next
  fix s :: string
  assume "s \<noteq> []" and "hd s \<in> set (quote # ''{[]tf'') \<or> take 2 s = ''nu''"
  then obtain c t where "s = c # t" "c \<in> set (quote # ''{[]tfn'')"
    by (cases s) (auto simp: numeral_2_eq_2)
  then show "int_ref s = None" by (auto simp: int_ref_def digit_def)
qed

section \<open>What a document denotes\<close>

inductive denotes :: "(string \<Rightarrow> 'd option) \<Rightarrow> jtree \<Rightarrow> 'd jvalue \<Rightarrow> bool"
  for number :: "string \<Rightarrow> 'd option" where
  denotes_string: "gap w \<Longrightarrow> gap w' \<Longrightarrow> literal_body b \<Longrightarrow>
    denotes number (Atom (w @ quote # b @ quote # w')) (String (unescape b))"
| denotes_number: "gap w \<Longrightarrow> gap w' \<Longrightarrow> number s = Some x \<Longrightarrow>
    denotes number (Atom (w @ s @ w')) (Double x)"
| denotes_true: "gap w \<Longrightarrow> gap w' \<Longrightarrow> denotes number (Atom (w @ ''true'' @ w')) (Bool True)"
| denotes_false: "gap w \<Longrightarrow> gap w' \<Longrightarrow> denotes number (Atom (w @ ''false'' @ w')) (Bool False)"
| denotes_null: "gap w \<Longrightarrow> gap w' \<Longrightarrow> denotes number (Atom (w @ ''null'' @ w')) Null"
| denotes_array: "gap p \<Longrightarrow> gap q \<Longrightarrow> list_all2 (denotes number) es vs \<Longrightarrow>
    denotes number (Arr p es q) (Array vs)"
| denotes_object: "gap p \<Longrightarrow> gap q \<Longrightarrow>
    list_all2 (\<lambda>m kv. gap (fst m) \<and> literal_body (fst (snd m)) \<and> gap (fst (snd (snd m))) \<and>
      fst kv = unescape (fst (snd m)) \<and> denotes number (snd (snd (snd m))) (snd kv)) ms kvs \<Longrightarrow>
    denotes number (Obj p ms q) (Object (fold (\<lambda>kv es. object_steal_append es (fst kv) (snd kv)) kvs []))"

section \<open>Parsing what a document denotes\<close>

abbreviation skips :: "string \<Rightarrow> string" where
  "skips s \<equiv> pre_skip True s"

definition ends_value :: "string \<Rightarrow> bool" where
  "ends_value s \<longleftrightarrow> skips s = [] \<or> hd (skips s) \<in> set '',]}''"

lemma skips_gap: "gap w \<Longrightarrow> skips (w @ s) = skips s"
  by (induction w) (auto simp: gap_def pre_skip_def ascii_space_def)

lemma skips_Cons: "\<not> ascii_space c \<Longrightarrow> skips (c # s) = c # s"
  by simp

lemma json_chars_not_space [simp]:
  "\<not> ascii_space quote" "\<not> ascii_space (CHR ''{'')" "\<not> ascii_space (CHR ''}'')"
  "\<not> ascii_space (CHR '':'')" "\<not> ascii_space (CHR ''t'')" "\<not> ascii_space (CHR ''f'')"
  "\<not> ascii_space (CHR ''n'')"
  by (simp_all add: ascii_space_def)

lemma lit_skips: "skips s = c # t \<Longrightarrow> yields G True (Lit c) v s (Matched [] v t)"
  using yields_prims(1) [of G True c v s] by (simp add: parse_lit_def)

lemma lit_other: "skips s = d # t \<Longrightarrow> d \<noteq> c \<Longrightarrow> yields G True (Lit c) v s (Failed v)"
  using yields_prims(1) [of G True c v s] by (simp add: parse_lit_def)

lemma ends_value_number:
  assumes "ends_value s" and "gap w"
  shows "ends_number (w @ s)"
proof (cases w)
  case Nil
  with assms(1) show ?thesis
    by (cases s) (auto simp: ends_value_def ends_number_def pre_skip_def split: if_splits)
next
  case (Cons c w')
  with assms(2) have "c \<in> {CHR '' '', CHR 0x09, CHR 0x0A, CHR 0x0D}" by (auto simp: gap_def)
  then have "ascii_space c" by (elim insertE) (simp_all add: ascii_space_def)
  with Cons show ?thesis by (simp add: ends_number_def)
qed

lemma quoted_string_body:
  "literal_body b \<Longrightarrow> quoted_string attr (b @ quote # s) = Inr (True, attr @ unescape b, s)"
  by (induction b arbitrary: attr rule: literal_body_induct) auto

lemma json_grammar_rules:
  "json_grammar double_p Number_Rule =
     (J_Null, Act (Num (\<lambda>s. map_option (\<lambda>(x, t). (J_Double x, t)) (double_p s))) assign)"
  "json_grammar double_p String_Rule =
     (J_String [],
      Seq (Lit quote)
        (Act (Prim (\<lambda>s. bind_result (quoted_string [] s)
                (\<lambda>r. Inr (fst r, J_String (fst (snd r)), snd (snd r))))) assign))"
  "json_grammar double_p Null_Rule = (J_Null, Act (Str ''null'' J_String) (\<lambda>xs v. J_Null))"
  "json_grammar double_p Bool_Rule =
     (J_Bool False,
      Alt (Act (Str ''true'' J_String) (\<lambda>xs v. J_Bool True))
          (Act (Str ''false'' J_String) (\<lambda>xs v. J_Bool False)))"
  "json_grammar double_p Object_Rule =
     (J_Object [],
      Seq (Lit (CHR ''{''))
        (Seq (Opt (Seq member_p (Star (Seq (Lit (CHR '','')) member_p)))) (Lit (CHR ''}''))))"
  "json_grammar double_p Array_Rule =
     (J_Array [],
      Seq (Lit (CHR ''[''))
        (Seq (Opt (Seq element_p (Star (Seq (Lit (CHR '','')) element_p)))) (Lit (CHR '']''))))"
  "json_grammar double_p Value_Rule =
     (J_Value Null,
      Alt (Act (Rule String_Rule) move_into)
     (Alt (Act (Rule Number_Rule) move_into)
     (Alt (Act (Rule Object_Rule) move_into)
     (Alt (Act (Rule Array_Rule) move_into)
     (Alt (Act (Rule Bool_Rule) move_into)
          (Act (Rule Null_Rule) move_into))))))"
  by (simp_all add: json_grammar_def List_Of_def)

lemmas json_rules = json_grammar_rules fst_conv snd_conv

context double_spec
begin

abbreviation G :: "(json_rule, 'd json_attr) grammar" where
  "G \<equiv> json_grammar double_p"

lemma rule_matches:
  assumes "yields G True (snd (G r)) (fst (G r)) s (Matched xs w s')"
  shows "yields G True (Rule r) v s (Matched [w] v s')"
  using yields_Rule [of G, OF assms, of v] by simp

lemma rule_fails:
  assumes "yields G True (snd (G r)) (fst (G r)) s (Failed w)"
  shows "yields G True (Rule r) v s (Failed v)"
  using yields_Rule [of G, OF assms, of v] by simp

lemma string_matches:
  assumes "skips s = quote # b @ quote # t" and "literal_body b"
  shows "yields G True (Rule String_Rule) v s (Matched [J_String (unescape b)] v t)"
proof (rule rule_matches)
  let ?p = "\<lambda>s. bind_result (quoted_string [] s)
    (\<lambda>r. Inr (fst r, J_String (fst (snd r)), snd (snd r)) :: (bool \<times> 'd json_attr \<times> string) result)"
  have "yields G True (Prim ?p) (J_String []) (b @ quote # t)
      (Matched [J_String (unescape b)] (J_String []) t)"
    using yields_prims(5) [of G True ?p "J_String []" "b @ quote # t"] assms(2)
    by (simp add: parse_prim_def quoted_string_body)
  from yields_Seq [OF lit_skips [OF assms(1)] yields_Act [OF this, of assign]]
  show "yields G True (snd (G String_Rule)) (fst (G String_Rule)) s
      (Matched ([] @ [J_String (unescape b)]) (J_String (unescape b)) t)"
    by (simp add: json_rules)
qed

lemma first_fails:
  assumes "skips s = c # t"
  shows "c \<noteq> quote \<Longrightarrow> yields G True (Rule String_Rule) v s (Failed v)"
    and "c \<noteq> CHR ''{'' \<Longrightarrow> yields G True (Rule Object_Rule) v s (Failed v)"
    and "c \<noteq> CHR ''['' \<Longrightarrow> yields G True (Rule Array_Rule) v s (Failed v)"
    and "double_p (c # t) = None \<Longrightarrow> yields G True (Rule Number_Rule) v s (Failed v)"
    and "c \<noteq> CHR ''t'' \<Longrightarrow> c \<noteq> CHR ''f'' \<Longrightarrow> yields G True (Rule Bool_Rule) v s (Failed v)"
proof -
  show "c \<noteq> quote \<Longrightarrow> yields G True (Rule String_Rule) v s (Failed v)"
    by (intro rule_fails [where w = "J_String []"]) (auto simp: json_rules intro!: yields_Seq_fail1 lit_other [OF assms])
  show "c \<noteq> CHR ''{'' \<Longrightarrow> yields G True (Rule Object_Rule) v s (Failed v)"
    by (intro rule_fails [where w = "J_Object []"]) (auto simp: json_rules intro!: yields_Seq_fail1 lit_other [OF assms])
  show "c \<noteq> CHR ''['' \<Longrightarrow> yields G True (Rule Array_Rule) v s (Failed v)"
    by (intro rule_fails [where w = "J_Array []"]) (auto simp: json_rules intro!: yields_Seq_fail1 lit_other [OF assms])
  show "yields G True (Rule Number_Rule) v s (Failed v)" if "double_p (c # t) = None"
  proof (rule rule_fails)
    let ?f = "\<lambda>s. map_option (\<lambda>(x, t). (J_Double x, t)) (double_p s)"
    have "yields G True (Num ?f) J_Null s (Failed J_Null)"
      using yields_prims(4) [of G True ?f J_Null s] that by (simp add: parse_num_def assms)
    then show "yields G True (snd (G Number_Rule)) (fst (G Number_Rule)) s (Failed J_Null)"
      by (auto simp: json_rules intro!: yields_Act_fail)
  qed
  show "yields G True (Rule Bool_Rule) v s (Failed v)" if "c \<noteq> CHR ''t''" "c \<noteq> CHR ''f''"
  proof (rule rule_fails)
    have "yields G True (Str ''true'' J_String) (J_Bool False) s (Failed (J_Bool False))"
      "yields G True (Str ''false'' J_String) (J_Bool False) s (Failed (J_Bool False))"
      using yields_prims(3) [of G True "''true''" J_String "J_Bool False" s]
        yields_prims(3) [of G True "''false''" J_String "J_Bool False" s] that
      by (simp_all add: parse_str_def assms)
    then show "yields G True (snd (G Bool_Rule)) (fst (G Bool_Rule)) s (Failed (J_Bool False))"
      unfolding json_rules by (intro yields_Alt2 yields_Act_fail)
  qed
qed

text \<open>The alternatives of a value.\<close>

lemma value_matches:
  assumes "\<And>v. yields G True (Rule r) v s (Matched [x] v t)"
    and "r = String_Rule \<or>
      (\<forall>v. yields G True (Rule String_Rule) v s (Failed v)) \<and> (r = Number_Rule \<or>
      (\<forall>v. yields G True (Rule Number_Rule) v s (Failed v)) \<and> (r = Object_Rule \<or>
      (\<forall>v. yields G True (Rule Object_Rule) v s (Failed v)) \<and> (r = Array_Rule \<or>
      (\<forall>v. yields G True (Rule Array_Rule) v s (Failed v)) \<and> (r = Bool_Rule \<or>
      (\<forall>v. yields G True (Rule Bool_Rule) v s (Failed v)) \<and> r = Null_Rule))))"
  shows "yields G True (Rule Value_Rule) v s (Matched [move_into [x] (J_Value Null)] v t)"
proof (rule rule_matches)
  note m = yields_Act [OF assms(1), of move_into]
  show "yields G True (snd (G Value_Rule)) (fst (G Value_Rule)) s
      (Matched [x] (move_into [x] (J_Value Null)) t)"
    unfolding json_rules using assms(2) m
    by (elim disjE conjE) (fast intro: yields_Alt1 yields_Alt2 yields_Act_fail)+
qed

lemma value_string:
  assumes "skips s = quote # b @ quote # t" and "literal_body b"
  shows "yields G True (Rule Value_Rule) v s (Matched [J_Value (String (unescape b))] v t)"
  using value_matches [OF string_matches [OF assms]] by simp

lemma value_number:
  assumes "skips s = num @ t" and "number num = Some x" and "ends_number t"
  shows "yields G True (Rule Value_Rule) v s (Matched [J_Value (Double x)] v t)"
proof -
  let ?f = "\<lambda>s. map_option (\<lambda>(x, t). (J_Double x, t)) (double_p s)"
  have "\<not> digit quote" by (simp add: digit_def)
  with number_first [OF assms(2)] obtain c u where c: "skips s = c # u" "c \<noteq> quote"
    using assms(1) by (cases num) auto
  have "yields G True (Num ?f) J_Null s (Matched [J_Double x] J_Null t)"
    using yields_prims(4) [of G True ?f J_Null s] double_reads [OF assms(2,3)]
    by (simp add: parse_num_def assms(1))
  then have "yields G True (Rule Number_Rule) v' s (Matched [J_Double x] v' t)" for v'
    using yields_Act [of G True "Num ?f" J_Null s "[J_Double x]" J_Null t assign]
    by (intro rule_matches [where xs = "[J_Double x]"]) (simp add: json_rules)
  from value_matches [OF this] first_fails(1) [OF c] show ?thesis by simp
qed

lemma value_keyword:
  assumes "skips s = kw @ t"
    and "kw = ''true'' \<and> x = Bool True \<or> kw = ''false'' \<and> x = Bool False \<or> kw = ''null'' \<and> x = Null"
  shows "yields G True (Rule Value_Rule) v s (Matched [J_Value x] v t)"
proof -
  have "double_p (skips s) = None" using assms by (intro double_fails) auto
  then have fails: "yields G True (Rule String_Rule) v' s (Failed v')"
    "yields G True (Rule Number_Rule) v' s (Failed v')"
    "yields G True (Rule Object_Rule) v' s (Failed v')"
    "yields G True (Rule Array_Rule) v' s (Failed v')" for v'
    using assms first_fails [of s] by auto
  have strs: "yields G True (Str k J_String) v' s
      (case strip_prefix k (kw @ t) of None \<Rightarrow> Failed v' | Some u \<Rightarrow> Matched [J_String k] v' u)" for k v'
    using yields_prims(3) [of G True k J_String v' s] by (simp add: parse_str_def assms(1))
  consider "kw = ''true''" "x = Bool True" | "kw = ''false''" "x = Bool False" | "kw = ''null''" "x = Null"
    using assms(2) by blast
  then show ?thesis
  proof cases
    case 1
    from yields_Alt1 [OF yields_Act [of G True _ "J_Bool False" s "[J_String ''true'']" "J_Bool False" t]]
      strs [of "''true''" "J_Bool False"] 1
    have "yields G True (Rule Bool_Rule) v' s (Matched [J_Bool True] v' t)" for v'
      by (intro rule_matches [where xs = "[J_String ''true'']"]) (simp add: json_rules)
    from value_matches [OF this] fails 1 show ?thesis by simp
  next
    case 2
    from yields_Alt2 [OF yields_Act_fail [of G True _ "J_Bool False" s "J_Bool False"]
        yields_Act [of G True _ "J_Bool False" s "[J_String ''false'']" "J_Bool False" t]]
      strs [of "''true''" "J_Bool False"] strs [of "''false''" "J_Bool False"] 2
    have "yields G True (Rule Bool_Rule) v' s (Matched [J_Bool False] v' t)" for v'
      by (intro rule_matches [where xs = "[J_String ''false'']"]) (simp add: json_rules)
    from value_matches [OF this] fails 2 show ?thesis by simp
  next
    case 3
    from yields_Act [of G True _ J_Null s "[J_String ''null'']" J_Null t]
      strs [of "''null''" J_Null] 3
    have "yields G True (Rule Null_Rule) v' s (Matched [J_Null] v' t)" for v'
      by (intro rule_matches [where xs = "[J_String ''null'']"]) (simp add: json_rules)
    from value_matches [OF this] fails first_fails(5) [of s] assms(1) 3 show ?thesis by simp
  qed
qed

text \<open>The elements of an array and the members of an object.\<close>

definition parses :: "jtree \<Rightarrow> 'd jvalue \<Rightarrow> bool" where
  "parses t x \<longleftrightarrow>
     (\<forall>s s0 v. ends_value s \<longrightarrow> skips s0 = skips (json_text t @ s) \<longrightarrow>
        (\<exists>s'. yields G True (Rule Value_Rule) v s0 (Matched [J_Value x] v s') \<and> skips s' = skips s))"

lemma element_matches:
  assumes "parses t x" and "ends_value s" and "skips s0 = skips (json_text t @ s)"
  shows "\<exists>s'. yields G True element_p (J_Array vs) s0 (Matched [J_Value x] (J_Array (vs @ [x])) s') \<and>
    skips s' = skips s"
proof -
  from assms obtain s' where "yields G True (Rule Value_Rule) (J_Array vs) s0
      (Matched [J_Value x] (J_Array vs) s')" "skips s' = skips s" unfolding parses_def by blast
  with yields_Act [OF this(1), of steal_element] show ?thesis by (auto simp: array_steal_append_def)
qed

lemma elements_rest:
  "list_all2 parses es vs \<Longrightarrow>
   skips s0 = skips (concat (map (\<lambda>e. CHR '','' # json_text e) es) @ CHR '']'' # r) \<Longrightarrow>
   \<exists>xs s'. yields G True (Star (Seq (Lit (CHR '','')) element_p)) (J_Array acc) s0
     (Matched xs (J_Array (acc @ vs)) s') \<and> skips s' = CHR '']'' # r"
proof (induction arbitrary: s0 acc rule: list_all2_induct)
  case Nil
  then have "yields G True (Lit (CHR '','')) (J_Array acc) s0 (Failed (J_Array acc))"
    by (intro lit_other [of _ "CHR '']''" r]) simp_all
  from yields_Star_stop [OF yields_Seq_fail1 [OF this]] Nil show ?case by auto
next
  case (Cons e es x vs)
  let ?t = "concat (map (\<lambda>e. CHR '','' # json_text e) es) @ CHR '']'' # r"
  have comma: "yields G True (Lit (CHR '','')) (J_Array acc) s0 (Matched [] (J_Array acc) (json_text e @ ?t))"
    using Cons.prems by (intro lit_skips) simp
  have "ends_value ?t" by (cases es) (auto simp: ends_value_def)
  from element_matches [OF Cons.hyps(1) this refl, of acc] obtain s1 where
    s1: "yields G True element_p (J_Array acc) (json_text e @ ?t) (Matched [J_Value x] (J_Array (acc @ [x])) s1)"
    "skips s1 = skips ?t" by blast
  from Cons.IH [OF s1(2), of "acc @ [x]"] obtain xs s' where
    "yields G True (Star (Seq (Lit (CHR '','')) element_p)) (J_Array (acc @ [x])) s1
      (Matched xs (J_Array (acc @ x # vs)) s')" "skips s' = CHR '']'' # r" by auto
  from yields_Star_step [OF yields_Seq [OF comma s1(1)] this(1)] this(2) show ?case by blast
qed

lemma elems_text_Cons:
  "elems_text (e # es) = json_text e @ concat (map (\<lambda>e. CHR '','' # json_text e) es)"
  by (induction es arbitrary: e) auto

lemma value_fails:
  assumes "skips s = CHR '']'' # t"
  shows "yields G True (Rule Value_Rule) v s (Failed v)"
proof (rule rule_fails)
  have "double_p (CHR '']'' # t) = None" by (intro double_fails) simp_all
  note fails = first_fails [OF assms, simplified] first_fails(4) [OF assms this]
  have "yields G True (Str ''null'' J_String) J_Null s (Failed J_Null)"
    using yields_prims(3) [of G True "''null''" J_String J_Null s] by (simp add: parse_str_def assms)
  then have "yields G True (Rule Null_Rule) v s (Failed v)" for v
    by (intro rule_fails [where w = J_Null]) (auto simp: json_rules intro: yields_Act_fail)
  then show "yields G True (snd (G Value_Rule)) (fst (G Value_Rule)) s (Failed (J_Value Null))"
    unfolding json_rules using fails by (intro yields_Alt2 yields_Act_fail)
qed

lemma array_matches:
  assumes "skips s = CHR ''['' # elems_text es @ CHR '']'' # r" and "list_all2 parses es vs"
  shows "yields G True (Rule Array_Rule) v s (Matched [J_Array vs] v r)"
proof -
  let ?e = "Opt (Seq element_p (Star (Seq (Lit (CHR '','')) element_p)))"
  have "\<exists>xs s'. yields G True ?e (J_Array []) (elems_text es @ CHR '']'' # r)
      (Matched xs (J_Array vs) s') \<and> skips s' = CHR '']'' # r"
  proof (cases es)
    case Nil
    then have "yields G True (Rule Value_Rule) (J_Array []) (CHR '']'' # r) (Failed (J_Array []))"
      by (intro value_fails) simp
    from yields_Opt_none [OF yields_Seq_fail1 [OF yields_Act_fail [OF this]]] Nil assms(2)
    show ?thesis by (auto intro!: exI)
  next
    case (Cons e es')
    then obtain x vs' where vs: "vs = x # vs'" "parses e x" "list_all2 parses es' vs'"
      using assms(2) by (auto simp: list_all2_Cons1)
    let ?t = "concat (map (\<lambda>e. CHR '','' # json_text e) es') @ CHR '']'' # r"
    have "ends_value ?t" by (cases es') (auto simp: ends_value_def)
    from element_matches [OF vs(2) this refl, of "[]"] obtain s1 where
      s1: "yields G True element_p (J_Array []) (json_text e @ ?t) (Matched [J_Value x] (J_Array [x]) s1)"
      "skips s1 = skips ?t" by auto
    from elements_rest [OF vs(3) s1(2), of "[x]"] obtain xs s' where
      "yields G True (Star (Seq (Lit (CHR '','')) element_p)) (J_Array [x]) s1
        (Matched xs (J_Array ([x] @ vs')) s')" "skips s' = CHR '']'' # r" by blast
    with yields_Opt [OF yields_Seq [OF s1(1) this(1)]] Cons vs(1) show ?thesis
      by (auto simp: elems_text_Cons simp del: elems_text.simps)
  qed
  then obtain xs s' where "yields G True ?e (J_Array []) (elems_text es @ CHR '']'' # r)
      (Matched xs (J_Array vs) s')" "skips s' = CHR '']'' # r" by blast
  from yields_Seq [OF lit_skips [OF assms(1)] yields_Seq [OF this(1) lit_skips [OF this(2)]]]
  show ?thesis by (intro rule_matches) (simp add: json_rules)
qed

definition member_text :: "member \<Rightarrow> string" where
  "member_text m = fst m @ quote # fst (snd m) @ quote # fst (snd (snd m)) @ CHR '':'' #
     json_text (snd (snd (snd m)))"

definition member_parses :: "member \<Rightarrow> string \<times> 'd jvalue \<Rightarrow> bool" where
  "member_parses m kv \<longleftrightarrow>
     gap (fst m) \<and> literal_body (fst (snd m)) \<and> gap (fst (snd (snd m))) \<and>
     fst kv = unescape (fst (snd m)) \<and> parses (snd (snd (snd m))) (snd kv)"

abbreviation append_member ::
  "string \<times> 'd jvalue \<Rightarrow> (string \<times> 'd jvalue) list \<Rightarrow> (string \<times> 'd jvalue) list" where
  "append_member \<equiv> (\<lambda>kv es. object_steal_append es (fst kv) (snd kv))"

lemma member_matches:
  assumes "member_parses m kv" and "ends_value s" and "skips s0 = skips (member_text m @ s)"
  shows "\<exists>xs s'. yields G True member_p (J_Object es) s0
    (Matched xs (J_Object (append_member kv es)) s') \<and> skips s' = skips s"
proof -
  obtain w b w' t where m: "m = (w, b, w', t)" by (cases m) auto
  from assms(1) have mp: "gap w" "literal_body b" "gap w'" "fst kv = unescape b" "parses t (snd kv)"
    by (simp_all add: member_parses_def m)
  have "skips s0 = quote # b @ quote # (w' @ CHR '':'' # json_text t @ s)"
    using assms(3) skips_gap [OF mp(1)] by (simp add: m member_text_def)
  note k = string_matches [OF this mp(2), of "J_Object es"]
  have "skips (w' @ CHR '':'' # json_text t @ s) = CHR '':'' # json_text t @ s"
    using skips_gap [OF mp(3)] by simp
  note colon = lit_skips [OF this, of G "J_Object es"]
  from mp(5) assms(2) obtain s' where v: "yields G True (Rule Value_Rule) (J_Object es)
      (json_text t @ s) (Matched [J_Value (snd kv)] (J_Object es) s')" "skips s' = skips s"
    unfolding parses_def by blast
  from yields_Act [OF yields_Seq [OF k yields_Seq [OF colon v(1)]], of steal_member] v(2) mp(4)
  show ?thesis by auto
qed

lemma members_rest:
  "list_all2 member_parses ms kvs \<Longrightarrow>
   skips s0 = skips (concat (map (\<lambda>m. CHR '','' # member_text m) ms) @ CHR ''}'' # r) \<Longrightarrow>
   \<exists>xs s'. yields G True (Star (Seq (Lit (CHR '','')) member_p)) (J_Object acc) s0
     (Matched xs (J_Object (fold append_member kvs acc)) s') \<and> skips s' = CHR ''}'' # r"
proof (induction arbitrary: s0 acc rule: list_all2_induct)
  case Nil
  then have "yields G True (Lit (CHR '','')) (J_Object acc) s0 (Failed (J_Object acc))"
    by (intro lit_other [of _ "CHR ''}''" r]) simp_all
  from yields_Star_stop [OF yields_Seq_fail1 [OF this]] Nil show ?case by auto
next
  case (Cons m ms kv kvs)
  let ?t = "concat (map (\<lambda>m. CHR '','' # member_text m) ms) @ CHR ''}'' # r"
  have comma: "yields G True (Lit (CHR '','')) (J_Object acc) s0
      (Matched [] (J_Object acc) (member_text m @ ?t))"
    using Cons.prems by (intro lit_skips) simp
  have "ends_value ?t" by (cases ms) (auto simp: ends_value_def)
  from member_matches [OF Cons.hyps(1) this refl, of acc] obtain xs1 s1 where
    s1: "yields G True member_p (J_Object acc) (member_text m @ ?t)
      (Matched xs1 (J_Object (append_member kv acc)) s1)" "skips s1 = skips ?t" by blast
  from Cons.IH [OF s1(2), of "append_member kv acc"] obtain xs s' where
    "yields G True (Star (Seq (Lit (CHR '','')) member_p)) (J_Object (append_member kv acc)) s1
      (Matched xs (J_Object (fold append_member (kv # kvs) acc)) s')" "skips s' = CHR ''}'' # r" by auto
  from yields_Star_step [OF yields_Seq [OF comma s1(1)] this(1)] this(2) show ?case by blast
qed

lemma members_text_Cons:
  "members_text (m # ms) = member_text m @ concat (map (\<lambda>m. CHR '','' # member_text m) ms)"
  by (induction ms arbitrary: m) (auto simp: member_text_def)

lemma object_matches:
  assumes "skips s = CHR ''{'' # members_text ms @ CHR ''}'' # r" and "list_all2 member_parses ms kvs"
  shows "yields G True (Rule Object_Rule) v s (Matched [J_Object (fold append_member kvs [])] v r)"
proof -
  let ?e = "Opt (Seq member_p (Star (Seq (Lit (CHR '','')) member_p)))"
  have "\<exists>xs s'. yields G True ?e (J_Object []) (members_text ms @ CHR ''}'' # r)
      (Matched xs (J_Object (fold append_member kvs [])) s') \<and> skips s' = CHR ''}'' # r"
  proof (cases ms)
    case Nil
    have "yields G True (Rule String_Rule) (J_Object []) (CHR ''}'' # r) (Failed (J_Object []))"
      by (rule first_fails(1) [of _ "CHR ''}''" r]) simp_all
    from yields_Opt_none [OF yields_Seq_fail1 [OF yields_Act_fail [OF yields_Seq_fail1 [OF this]]]]
      Nil assms(2)
    show ?thesis by (auto intro!: exI)
  next
    case (Cons m ms')
    then obtain kv kvs' where kvs: "kvs = kv # kvs'" "member_parses m kv" "list_all2 member_parses ms' kvs'"
      using assms(2) by (auto simp: list_all2_Cons1)
    let ?t = "concat (map (\<lambda>m. CHR '','' # member_text m) ms') @ CHR ''}'' # r"
    have "ends_value ?t" by (cases ms') (auto simp: ends_value_def)
    from member_matches [OF kvs(2) this refl, of "[]"] obtain xs1 s1 where
      s1: "yields G True member_p (J_Object []) (member_text m @ ?t)
        (Matched xs1 (J_Object (append_member kv [])) s1)" "skips s1 = skips ?t" by blast
    from members_rest [OF kvs(3) s1(2), of "append_member kv []"] obtain xs s' where
      "yields G True (Star (Seq (Lit (CHR '','')) member_p)) (J_Object (append_member kv [])) s1
        (Matched xs (J_Object (fold append_member kvs [])) s')" "skips s' = CHR ''}'' # r"
      using kvs(1) by auto
    with yields_Opt [OF yields_Seq [OF s1(1) this(1)]] Cons show ?thesis
      by (auto simp: members_text_Cons simp del: members_text.simps)
  qed
  then obtain xs s' where "yields G True ?e (J_Object []) (members_text ms @ CHR ''}'' # r)
      (Matched xs (J_Object (fold append_member kvs [])) s')" "skips s' = CHR ''}'' # r" by blast
  from yields_Seq [OF lit_skips [OF assms(1)] yields_Seq [OF this(1) lit_skips [OF this(2)]]]
  show ?thesis by (intro rule_matches) (simp add: json_rules)
qed

lemma parsesI:
  assumes "\<And>s s0 v. ends_value s \<Longrightarrow> skips s0 = skips (json_text t @ s) \<Longrightarrow>
    \<exists>s'. yields G True (Rule Value_Rule) v s0 (Matched [J_Value x] v s') \<and> skips s' = skips s"
  shows "parses t x"
  using assms by (simp add: parses_def)

lemma keyword_parses:
  assumes "gap w" and "gap w'"
    and "kw = ''true'' \<and> x = Bool True \<or> kw = ''false'' \<and> x = Bool False \<or> kw = ''null'' \<and> x = Null"
  shows "parses (Atom (w @ kw @ w')) x"
proof (rule parsesI)
  fix s s0 v
  assume "skips s0 = skips (json_text (Atom (w @ kw @ w')) @ s)"
  then have "skips s0 = kw @ (w' @ s)" using skips_gap [OF assms(1)] assms(3) by auto
  from value_keyword [OF this assms(3)] skips_gap [OF assms(2)]
  show "\<exists>s'. yields G True (Rule Value_Rule) v s0 (Matched [J_Value x] v s') \<and> skips s' = skips s"
    by blast
qed

lemma denotes_parses: "denotes number t x \<Longrightarrow> parses t x"
proof (induction rule: denotes.induct)
  case (denotes_string w w' b)
  show ?case
  proof (rule parsesI)
    fix s s0 v
    assume "skips s0 = skips (json_text (Atom (w @ quote # b @ quote # w')) @ s)"
    then have "skips s0 = quote # b @ quote # (w' @ s)" using skips_gap [OF denotes_string(1)] by simp
    from value_string [OF this denotes_string(3)] skips_gap [OF denotes_string(2)]
    show "\<exists>s'. yields G True (Rule Value_Rule) v s0 (Matched [J_Value (String (unescape b))] v s') \<and>
        skips s' = skips s" by blast
  qed
next
  case (denotes_number w w' num x)
  show ?case
  proof (rule parsesI)
    fix s s0 v
    assume s: "ends_value s" and "skips s0 = skips (json_text (Atom (w @ num @ w')) @ s)"
    moreover obtain c u where c: "num = c # u" "c \<in> set ''+-.'' \<or> digit c"
      using number_first [OF denotes_number(3)] by (cases num) auto
    moreover have "\<not> ascii_space c"
    proof (cases "digit c")
      case True
      then show ?thesis by (auto simp: ascii_space_def digit_def)
    next
      case False
      with c(2) have "c \<in> {CHR ''+'', CHR ''-'', CHR ''.''}" by simp
      then show ?thesis by (elim insertE) (simp_all add: ascii_space_def)
    qed
    ultimately have "skips s0 = num @ (w' @ s)" using skips_gap [OF denotes_number(1)] by simp
    from value_number [OF this denotes_number(3) ends_value_number [OF s denotes_number(2)]]
      skips_gap [OF denotes_number(2)]
    show "\<exists>s'. yields G True (Rule Value_Rule) v s0 (Matched [J_Value (Double x)] v s') \<and>
        skips s' = skips s" by blast
  qed
next
  case (denotes_true w w')
  then show ?case by (intro keyword_parses) simp_all
next
  case (denotes_false w w')
  then show ?case by (intro keyword_parses) simp_all
next
  case (denotes_null w w')
  then show ?case by (intro keyword_parses) simp_all
next
  case (denotes_array p q es vs)
  then have es: "list_all2 parses es vs" by (auto elim: list_all2_mono)
  show ?case
  proof (rule parsesI)
    fix s s0 v
    assume "skips s0 = skips (json_text (Arr p es q) @ s)"
    then have s0: "skips s0 = CHR ''['' # elems_text es @ CHR '']'' # (q @ s)"
      using skips_gap [OF denotes_array(1)] by simp
    have "double_p (skips s0) = None" unfolding s0 by (intro double_fails) simp_all
    with value_matches [OF array_matches [OF s0 es]] first_fails [OF s0] s0
      skips_gap [OF denotes_array(2)]
    show "\<exists>s'. yields G True (Rule Value_Rule) v s0 (Matched [J_Value (Array vs)] v s') \<and>
        skips s' = skips s" by fastforce
  qed
next
  case (denotes_object p q ms kvs)
  then have ms: "list_all2 member_parses ms kvs" by (auto simp: member_parses_def elim: list_all2_mono)
  show ?case
  proof (rule parsesI)
    fix s s0 v
    assume "skips s0 = skips (json_text (Obj p ms q) @ s)"
    then have s0: "skips s0 = CHR ''{'' # members_text ms @ CHR ''}'' # (q @ s)"
      using skips_gap [OF denotes_object(1)] by simp
    have "double_p (skips s0) = None" unfolding s0 by (intro double_fails) simp_all
    with value_matches [OF object_matches [OF s0 ms]] first_fails [OF s0] s0
      skips_gap [OF denotes_object(2)]
    show "\<exists>s'. yields G True (Rule Value_Rule) v s0
        (Matched [J_Value (Object (fold append_member kvs []))] v s') \<and> skips s' = skips s" by fastforce
  qed
qed

end

lemma json_parse_prefix:
  assumes "spirit_spec phrase_parse" and "double_spec double_p number" and "denotes number t x"
    and "ends_value rest"
  shows "json_parse phrase_parse double_p (json_text t @ rest) = Inr (Some x)"
proof -
  from double_spec.denotes_parses [OF assms(2,3)] assms(4) obtain s' where
    "yields (json_grammar double_p) True (Rule Value_Rule) (J_Value Null) (json_text t @ rest)
      (Matched [J_Value x] (J_Value Null) s')"
    unfolding double_spec.parses_def [OF assms(2)] by blast
  from spirit_spec.phrase_matched [OF assms(1) this] show ?thesis by (simp add: json_parse_def)
qed

lemma denotes_core: "denotes number t x \<Longrightarrow> \<exists>u. denotes number u x \<and> json_text u = core_text t"
proof (induction rule: denotes.cases)
  case (denotes_array p q es vs)
  then have "denotes number (Arr [] es []) (Array vs)" by (intro denotes.denotes_array) auto
  with denotes_array show ?case by (intro exI [of _ "Arr [] es []"]) simp
next
  case (denotes_object p q ms kvs)
  then show ?case by (intro exI [of _ "Obj [] ms []"]) (auto intro!: denotes.denotes_object)
qed (auto intro: denotes.intros)

section \<open>Properties\<close>


lemma example_denotes:
  "denotes int_number
     (Obj [] [([], ''a'', [], Atom '' 1''), ('' '', ''b'', [], Arr '' '' [Atom ''true''] []),
              ([], ''a'', [], Atom ''null'')] [])
     (Object [(''a'', Null), (''b'', Array [Bool True])])"
proof -
  have 1: "denotes int_number (Atom ('' '' @ ''1'' @ [])) (Double 1)"
    by (rule denotes_number) code_simp+
  have 2: "denotes int_number (Atom ([] @ ''true'' @ [])) (Bool True)"
    by (rule denotes_true) simp_all
  have 3: "denotes int_number (Atom ([] @ ''null'' @ [])) Null"
    by (rule denotes_null) simp_all
  have 4: "denotes int_number (Arr '' '' [Atom ''true''] []) (Array [Bool True])"
    using 2 by (intro denotes_array) (simp_all add: gap_def)
  have "literal_body ''a''" "literal_body ''b''" "unescape ''a'' = ''a''" "unescape ''b'' = ''b''"
    by code_simp+
  with 1 3 4 denotes_object [of "[]" "[]" int_number
      "[([], ''a'', [], Atom '' 1''), ('' '', ''b'', [], Arr '' '' [Atom ''true''] []),
        ([], ''a'', [], Atom ''null'')]"
      "[(''a'', Double 1), (''b'', Array [Bool True]), (''a'', Null)]"]
  show ?thesis by (simp add: gap_def)
qed


text \<open>
  A string literal that is cut off after a backslash makes the string parser read past the
  end of its input, whatever the literal's beginning.
\<close>

theorem json_parse_overread:
  assumes "spirit_spec phrase_parse" and "literal_body b"
  shows "json_parse phrase_parse double_p (quote # b @ [backslash]) = Inl Out_Of_Bounds"
proof -
  let ?G = "json_grammar double_p" and ?s = "quote # b @ [backslash]"
  let ?p = "\<lambda>s. bind_result (quoted_string [] s)
    (\<lambda>r. Inr (fst r, J_String (fst (snd r)), snd (snd r)) :: (bool \<times> 'a json_attr \<times> string) result)"
  have "quoted_string attr (b @ [backslash]) = Inl Out_Of_Bounds" for attr
    using assms(2) by (induction b arbitrary: attr rule: literal_body_induct) auto
  then have "?p (b @ [backslash]) = Inl Out_Of_Bounds" by simp
  then have "yields ?G True (Prim ?p) (J_String []) (b @ [backslash]) (Faulted Out_Of_Bounds)"
    using yields_prims(5) [of ?G True ?p "J_String []" "b @ [backslash]"]
    by (simp only: parse_prim_def sum.case)
  moreover have "yields ?G True (Lit quote) (J_String []) ?s (Matched [] (J_String []) (b @ [backslash]))"
    by (rule lit_skips) simp
  ultimately have "yields ?G True (snd (?G String_Rule)) (fst (?G String_Rule)) ?s (Faulted Out_Of_Bounds)"
    unfolding json_rules by (intro yields_faults)
  from yields_Rule [of ?G, OF this] have str: "yields ?G True (Rule String_Rule) v ?s (Faulted Out_Of_Bounds)" for v
    by simp
  have "yields ?G True (snd (?G Value_Rule)) (fst (?G Value_Rule)) ?s (Faulted Out_Of_Bounds)"
    unfolding json_rules by (intro yields_faults str)
  from yields_Rule [of ?G, OF this, of "J_Value Null"]
    spirit_spec.phrase_faulted [OF assms(1), of ?G Value_Rule "J_Value Null" ?s]
  show ?thesis by (simp add: json_parse_def)
qed

theorem json_parse_overread_witness:
  "json_parse phrase_parse_ref int_ref [quote, CHR ''a'', backslash] = Inl Out_Of_Bounds"
  using json_parse_overread [OF spirit_ref.spirit_spec_axioms, of "''a''" int_ref] by simp

end
