(* ===== verification/Jsoncpp_Value_Laws.thy ===== *)
theory Jsoncpp_Value_Laws
  imports Jsoncpp_Container
begin

text \<open>
  Laws of jsoncpp values: when \<^verbatim>\<open>resize\<close> succeeds, when a value converts, what an iteration
  visits, and how the comparison operators relate.
\<close>

section \<open>Resizing\<close>

lemma fold_erase:
  "sorted_keys m \<Longrightarrow> fold (\<lambda>i. map_erase (f i)) is m = filter (\<lambda>kv. fst kv \<notin> f ` set is) m"
  by (induction "is" arbitrary: m)
    (auto simp: map_erase_filter sorted_keys_filter intro!: filter_cong)

lemma size_of_array: "m \<noteq> [] \<Longrightarrow> size_of (Value (V_array m) c) = word_of_int (cz_index (fst (last m)) + 1)"
  by (simp add: size_of_def)

definition forward_keys :: "'d members \<Rightarrow> bool" where
  "forward_keys m \<longleftrightarrow> list_all (\<lambda>kv. \<exists>i. fst kv = CZ_Index i \<and> 0 \<le> i \<and> i < 2 ^ 31) m"

lemma sorted_last: "sorted_keys m \<Longrightarrow> kv \<in> set m \<Longrightarrow> fst kv \<le> fst (last m)"
  by (induction m) (auto simp: less_le)

lemma sint_small [simp]: "0 \<le> i \<Longrightarrow> i < 2 ^ 31 \<Longrightarrow> sint (word_of_int i :: 32 word) = i"
  by (simp add: int_word_sint)

lemma uint_small [simp]: "0 \<le> i \<Longrightarrow> i < 2 ^ 32 \<Longrightarrow> uint (word_of_int i :: 32 word) = i"
  by (simp add: uint_word_of_int)

lemma word_of_int_inj_small:
  "0 \<le> a \<Longrightarrow> a < 2 ^ 32 \<Longrightarrow> 0 \<le> b \<Longrightarrow> b < 2 ^ 32 \<Longrightarrow>
   (word_of_int a :: 32 word) = word_of_int b \<longleftrightarrow> a = b"
  by (metis uint_small)

lemma index_key_nat: "j < 2 ^ 31 \<Longrightarrow> index_key (word_of_nat j) = CZ_Index (int j)"
  using sint_small [of "int j"] by (simp add: index_key_def)

lemma index_key_range_image:
  assumes "0 \<le> i" and "b \<le> 2 ^ 31"
  shows "CZ_Index i \<in> (\<lambda>j. index_key (word_of_nat j)) ` set [a ..< b] \<longleftrightarrow> int a \<le> i \<and> i < int b"
proof
  assume "int a \<le> i \<and> i < int b"
  then have "nat i \<in> set [a ..< b]" "index_key (word_of_nat (nat i)) = CZ_Index i"
    using assms index_key_nat [of "nat i"] by (auto simp: nat_less_iff)
  then show "CZ_Index i \<in> (\<lambda>j. index_key (word_of_nat j)) ` set [a ..< b]" by (metis imageI)
qed (use assms in \<open>auto simp: index_key_nat\<close>)

lemma last_filter_below:
  assumes "sorted_keys m" and "forward_keys m" and "0 < n" and "n \<le> 2 ^ 31"
  shows "size_of (Value (V_array (filter (\<lambda>kv. cz_index (fst kv) < n) m)) c) = word_of_int n \<longleftrightarrow>
    map_of m (CZ_Index (n - 1)) \<noteq> None"
proof (cases "filter (\<lambda>kv. cz_index (fst kv) < n) m = []")
  case True
  then have "map_of m (CZ_Index (n - 1)) = None"
    by (force simp: filter_empty_conv map_of_eq_None_iff)
  moreover have "(0 :: 32 word) \<noteq> word_of_int n"
    using word_of_int_inj_small [of 0 n] assms(3,4) by simp
  ultimately show ?thesis using True by (simp add: size_of_def)
next
  case False
  let ?f = "filter (\<lambda>kv. cz_index (fst kv) < n) m"
  have "last ?f \<in> set ?f" using False by (rule last_in_set)
  then obtain l where l: "fst (last ?f) = CZ_Index l" "0 \<le> l" "l < n"
    using assms(2) by (auto simp: forward_keys_def list_all_iff)
  have "l + 1 = n \<longleftrightarrow> map_of m (CZ_Index (n - 1)) \<noteq> None"
  proof
    assume "l + 1 = n"
    then have "fst (last ?f) = CZ_Index (n - 1)" using l by simp
    with \<open>last ?f \<in> set ?f\<close> have "CZ_Index (n - 1) \<in> fst ` set m" by (metis filter_is_subset image_eqI subsetD)
    then show "map_of m (CZ_Index (n - 1)) \<noteq> None" by (simp add: map_of_eq_None_iff)
  next
    assume "map_of m (CZ_Index (n - 1)) \<noteq> None"
    then obtain w where "(CZ_Index (n - 1), w) \<in> set ?f" by (auto dest: map_of_SomeD)
    from sorted_last [OF sorted_keys_filter [OF assms(1)] this] l
    show "l + 1 = n" by (auto simp: less_eq_czstring_def)
  qed
  moreover have "word_of_int (l + 1) = (word_of_int n :: 32 word) \<longleftrightarrow> l + 1 = n"
    using l assms(4) by (intro word_of_int_inj_small) auto
  ultimately show ?thesis using l False by (simp add: size_of_def del: of_int_add)
qed

lemma resize_shrinks_int:
  assumes "sorted_keys m" and "forward_keys m" and "value_of v = V_array m"
    and "0 < uint n" and "n \<le> size_of v"
  shows "resize v n =
    (if map_of m (index_key (n - 1)) = None then Inl Assertion_Failed
     else Inr (Value (V_array (filter (\<lambda>kv. cz_index (fst kv) < uint n) m)) (comments_of v)))"
proof -
  have ne: "m \<noteq> []" using assms(3-5) by (auto simp: size_of_def word_le_def split: if_splits)
  then obtain L where L: "fst (last m) = CZ_Index L" "0 \<le> L" "L < 2 ^ 31"
    using assms(2) last_in_set [OF ne] by (fastforce simp: forward_keys_def list_all_iff)
  have size: "size_of (Value (V_array m) (comments_of v)) = size_of v" "uint (size_of v) = L + 1"
    using L ne assms(3) by (simp_all add: size_of_def del: of_int_add)
  have n: "uint n \<le> L + 1" "index_key (n - 1) = CZ_Index (uint n - 1)"
    using assms(4,5) size L sint_small [of "uint n - 1"]
    by (auto simp: word_le_def index_key_def simp del: sint_small)
  have "fst kv \<notin> (\<lambda>j. index_key (word_of_nat j)) ` set [unat n ..< unat (size_of v)] \<longleftrightarrow>
      cz_index (fst kv) < uint n" if kv: "kv \<in> set m" for kv
  proof -
    obtain i where i: "fst kv = CZ_Index i" "0 \<le> i" using assms(2) kv
      by (auto simp: forward_keys_def list_all_iff)
    have "i \<le> L" using sorted_last [OF assms(1) kv] i L by (auto simp: less_eq_czstring_def)
    moreover have "int (unat (size_of v)) = L + 1" "int (unat n) = uint n" using size by simp_all
    moreover have "unat (size_of v) \<le> 2 ^ 31"
      using L size by (subst of_nat_le_iff [where 'a = int, symmetric]) simp
    ultimately show ?thesis
      using i index_key_range_image [OF i(2), of "unat (size_of v)" "unat n"] by (simp add: not_le del: set_upt)
  qed
  then have "fold (\<lambda>i. map_erase (index_key (word_of_nat i))) [unat n ..< unat (size_of v)] m =
      filter (\<lambda>kv. cz_index (fst kv) < uint n) m"
    by (subst fold_erase [OF assms(1)]) (rule filter_cong [OF refl])
  moreover have "n \<noteq> 0" "\<not> size_of v < n" using assms(4,5) by auto
  moreover have "size_of (Value (V_array (filter (\<lambda>kv. cz_index (fst kv) < uint n) m)) (comments_of v)) = n
      \<longleftrightarrow> map_of m (CZ_Index (uint n - 1)) \<noteq> None"
    using last_filter_below [OF assms(1,2,4), of "comments_of v"] n(1) L by simp
  ultimately show ?thesis
    by (simp add: resize_def array_map_def assms(3) Let_def size n(2) del: upt.simps)
qed

lemma asInt_convertible:
  "(\<exists>i. asInt D v = Inr i) \<longleftrightarrow> isConvertibleTo D v intValue \<and> value_of v \<noteq> V_uint maxInt"
  by (auto simp: asInt_def isConvertibleTo_def word_le_less_eq split: payload.splits)

lemma asString_convertible:
  "(\<exists>s. asString v = Inr s) \<longleftrightarrow> type_of v \<in> {nullValue, stringValue, booleanValue}"
  by (cases v rule: type_of.cases) (auto simp: asString_def)

lemma distance_loop_forward:
  "i \<le> j \<Longrightarrow> j \<le> length (children v) \<Longrightarrow> distance_loop v i j n = Inr (n + int (j - i))"
proof (induction "j - i" arbitrary: i n)
  case 0
  then show ?case by (subst distance_loop.simps) simp
next
  case (Suc d)
  then have "distance_loop v (i + 1) j (n + 1) = Inr (n + 1 + int (j - (i + 1)))" by simp
  with Suc.prems Suc.hyps(2) show ?case by (subst distance_loop.simps) auto
qed

lemma distance_loop_backward: "j < i \<Longrightarrow> distance_loop v i j n = Inl Out_Of_Bounds"
  by (induction v i j n rule: distance_loop.induct) (subst distance_loop.simps, simp)

fun iterate :: "nat \<Rightarrow> 'd cvalue \<Rightarrow> value_iterator \<Rightarrow> value_iterator result" where
  "iterate 0 v it = Inr it"
| "iterate (Suc n) v it = bind_result (iterator_increment v it) (iterate n v)"

lemma iterate_at:
  "iterate n v \<lparr>it_current = i, it_null = b\<rparr> =
     (if n = 0 \<or> i + n \<le> length (children v) then Inr \<lparr>it_current = i + n, it_null = b\<rparr>
      else Inl Out_Of_Bounds)"
  by (induction n arbitrary: i) (auto simp: iterator_increment_def)

lemma children_none: "type_of v \<noteq> arrayValue \<Longrightarrow> type_of v \<noteq> objectValue \<Longrightarrow> children v = []"
  by (cases v rule: type_of.cases) (auto simp: children_def)

lemma iterator_visits:
  "(\<forall>n < length (children v). \<exists>it. iterate n v (value_begin v) = Inr it \<and>
      \<not> iterator_equal it (value_end v) \<and> iterator_deref v it = Inr (snd (children v ! n))) \<and>
   (\<exists>it. iterate (length (children v)) v (value_begin v) = Inr it \<and> iterator_equal it (value_end v)) \<and>
   computeDistance v (value_begin v) (value_end v) = Inr (int (length (children v)))"
proof (cases "type_of v = arrayValue \<or> type_of v = objectValue")
  case True
  then show ?thesis
    by (auto simp: value_begin_def value_end_def iterator_at_def iterate_at iterator_equal_def
        iterator_deref_def deref_def computeDistance_def distance_loop_forward)
next
  case False
  then show ?thesis
    by (auto simp: children_none value_begin_def value_end_def iterator_default_def iterator_equal_def
        computeDistance_def)
qed

text \<open>
  Assigning an iterator to a default-constructed one leaves it marked as null, so it is never
  equal to the end: a loop from \<^verbatim>\<open>begin\<close> to \<^verbatim>\<open>end\<close> over such an iterator runs past the last child.
\<close>

theorem iterator_assigned_default:
  assumes "type_of v = arrayValue \<or> type_of v = objectValue"
  shows "(\<forall>n it. iterate n v (iterator_assign iterator_default (value_begin v)) = Inr it \<longrightarrow>
      \<not> iterator_equal it (value_end v)) \<and>
    iterate (Suc (length (children v))) v (iterator_assign iterator_default (value_begin v)) =
      Inl Out_Of_Bounds"
  using assms
  by (auto simp: value_begin_def value_end_def iterator_assign_def iterator_default_def
      iterator_at_def iterate_at iterator_equal_def split: if_splits)

theorem iterator_assigned_default_witness:
  "iterate 1 (plain (V_array []) :: int cvalue)
     (iterator_assign iterator_default (value_begin (plain (V_array []) :: int cvalue))) = Inl Out_Of_Bounds"
  using iterator_assigned_default [of "plain (V_array []) :: int cvalue"] by (simp add: children_def)

lemma le_is_ge: "value_less_equal D v w \<longleftrightarrow> value_greater_equal D v w"
  by (simp add: value_less_equal_def value_greater_def value_greater_equal_def)

lemma type_of_Value: "type_of (Value p c) = type_of (plain p)"
  by (cases p) auto

text \<open>Comparison is a total preorder\<close>

fun small_maps :: "'d cvalue \<Rightarrow> bool"
  and small_payload :: "'d payload \<Rightarrow> bool"
  and small_children :: "'d members \<Rightarrow> bool" where
  "small_maps (Value p c) \<longleftrightarrow> small_payload p"
| "small_payload V_null \<longleftrightarrow> True"
| "small_payload (V_int i) \<longleftrightarrow> True"
| "small_payload (V_uint u) \<longleftrightarrow> True"
| "small_payload (V_real d) \<longleftrightarrow> True"
| "small_payload (V_bool b) \<longleftrightarrow> True"
| "small_payload (V_string s) \<longleftrightarrow> True"
| "small_payload (V_array m) \<longleftrightarrow> length m < 2 ^ 31 \<and> small_children m"
| "small_payload (V_object m) \<longleftrightarrow> length m < 2 ^ 31 \<and> small_children m"
| "small_children [] \<longleftrightarrow> True"
| "small_children ((k, v) # m) \<longleftrightarrow> small_maps v \<and> small_children m"

lemma size_delta_small:
  assumes "length m < 2 ^ 31" and "length n < 2 ^ 31"
  shows "size_delta m n = int (length m) - int (length n)"
proof -
  let ?x = "int (length m) - int (length n)"
  have "(?x + 2 ^ 31) mod 2 ^ 32 = ?x + 2 ^ 31" using assms by (intro mod_pos_pos_trivial) auto
  then show ?thesis by (simp add: size_delta_def int_word_sint del: of_int_diff)
qed

lemma less_equal_trichotomy:
  fixes v w :: "'d cvalue" and p q :: "'d payload" and m n :: "'d members"
  assumes D: "\<And>a b. d_equal D a b \<longleftrightarrow> \<not> d_less D a b \<and> \<not> d_less D b a"
  shows "small_maps v \<Longrightarrow> small_maps w \<Longrightarrow>
      value_equal D v w \<longleftrightarrow> \<not> value_less D v w \<and> \<not> value_less D w v"
    and "small_payload p \<Longrightarrow> small_payload q \<Longrightarrow> type_of (plain p) = type_of (plain q) \<Longrightarrow>
      payload_equal D p q \<longleftrightarrow> \<not> payload_less D p q \<and> \<not> payload_less D q p"
    and "small_children m \<Longrightarrow> small_children n \<Longrightarrow> length m = length n \<Longrightarrow>
      members_equal D m n \<longleftrightarrow> \<not> members_less D m n \<and> \<not> members_less D n m"
proof (induction v and p and m arbitrary: w and q and n rule: small_maps_small_payload_small_children.induct)
  case (1 p c)
  obtain q c' where w: "w = Value q c'" by (cases w)
  show ?case
  proof (cases "type_of (plain p) = type_of (plain q)")
    case True
    then show ?thesis using 1 by (simp add: w Let_def type_of_Value [of _ c] type_of_Value [of _ c'])
  next
    case False
    then have "type_number (type_of (plain p)) \<noteq> type_number (type_of (plain q))" by simp
    with False show ?thesis
      by (auto simp: w Let_def type_of_Value [of _ c] type_of_Value [of _ c'] simp del: type_number_inj)
  qed
next
  case (7 s)
  then show ?case by (cases q) (auto simp: strcmp_eq strcmp_less split: option.splits)
next
  case (8 m)
  then show ?case by (cases q) (auto simp: size_delta_small)
next
  case (9 m)
  then show ?case by (cases q) (auto simp: size_delta_small)
next
  case (11 k v m)
  then show ?case by (cases n) (auto split: if_splits)
next
  case 2
  then show ?case by (cases q) auto
next
  case (3 i)
  then show ?case by (cases q) (auto simp: not_less dest!: signed_word_eqI)
next
  case (4 u)
  then show ?case by (cases q) (auto simp: not_less)
next
  case (5 d)
  then show ?case by (cases q) (auto simp: D)
next
  case (6 b)
  then show ?case by (cases q) auto
next
  case 10
  then show ?case by simp
qed

text \<open>
  The comparison operators of values: two values are equal exactly when neither is less
  than the other, for doubles whose comparison has that property and maps below \<open>2 ^ 31\<close>
  entries; but \<^verbatim>\<open>operator<=\<close> negates the wrong comparison and is \<^verbatim>\<open>operator>=\<close>.
\<close>

theorem value_comparison:
  assumes "\<And>a b. d_equal D a b \<longleftrightarrow> \<not> d_less D a b \<and> \<not> d_less D b a"
    and "small_maps v" and "small_maps w"
  shows "(value_equal D v w \<longleftrightarrow> \<not> value_less D v w \<and> \<not> value_greater D v w) \<and>
    (value_less_equal D v w \<longleftrightarrow> value_greater_equal D v w)"
  using less_equal_trichotomy(1) [OF assms] by (simp add: value_greater_def le_is_ge)

lemma whole_doubles_linear:
  "d_equal whole_doubles a b \<longleftrightarrow> \<not> d_less whole_doubles a b \<and> \<not> d_less whole_doubles b a"
  by (auto simp: whole_doubles_def)

theorem value_comparison_witness:
  "value_less_equal whole_doubles (value_int 2) (value_int 1) \<and>
   \<not> value_less_equal whole_doubles (value_int 1) (value_int 2) \<and>
   \<not> value_equal whole_doubles (value_int 1) (value_int 2)"
  using value_comparison [OF whole_doubles_linear, of "value_int 2" "value_int 1"]
    value_comparison [OF whole_doubles_linear, of "value_int 1" "value_int 2"]
  by (auto simp: value_int_def value_greater_equal_def value_greater_def)

text \<open>
  C30. Shrinking an array: \<^verbatim>\<open>resize\<close> succeeds exactly when the array has an element at the new
  last index, and then keeps the elements below the new size; otherwise its assertion on the
  size fails. Growing creates the last element only, so shrinking a grown array fails.
\<close>

theorem resize_shrinks:
  assumes "wf_value v" and "value_of v = V_array m" and "forward_keys m" and "0 < n" and "n \<le> size_of v"
  shows "resize v n =
    (if map_of m (index_key (n - 1)) = None then Inl Assertion_Failed
     else Inr (Value (V_array (filter (\<lambda>kv. cz_index (fst kv) < uint n) m)) (comments_of v)))"
proof (rule resize_shrinks_int [OF _ assms(3,2) _ assms(5)])
  show "sorted_keys m" using assms(1,2) by (cases v) simp
  show "0 < uint n" using assms(4) by (simp add: word_less_def)
qed

definition two_elements :: "int cvalue" where
  "two_elements = plain (V_array [(CZ_Index 0, value_int 5), (CZ_Index 1, value_int 7)])"

definition grown :: "int cvalue" where
  "grown = plain (V_array [(CZ_Index 3, null_value)])"

theorem resize_shrinks_witness:
  "resize two_elements 1 = Inr (plain (V_array [(CZ_Index 0, value_int 5)])) \<and>
   resize null_value 4 = Inr grown \<and> resize grown 2 = Inl Assertion_Failed"
proof -
  have f: "forward_keys (children two_elements)" "forward_keys (children grown)"
    by (simp_all add: forward_keys_def children_def two_elements_def grown_def)
  have v: "value_of two_elements = V_array (children two_elements)"
    "value_of grown = V_array (children grown)" by (simp_all add: two_elements_def grown_def children_def)
  have w: "wf_value two_elements" "wf_value grown" "(1 :: 32 word) \<le> size_of two_elements"
    "(2 :: 32 word) \<le> size_of grown" "resize null_value 4 = Inr grown" by code_simp+
  show ?thesis
    using resize_shrinks [OF w(1) v(1) f(1) _ w(3)] resize_shrinks [OF w(2) v(2) f(2) _ w(4)] w(5)
    by (simp add: two_elements_def grown_def index_key_def children_def)
qed

end
