(* ===== verification/Jsoncpp_Path.thy ===== *)
theory Jsoncpp_Path
  imports Jsoncpp_Value_Laws
begin

text \<open>
  The classes \<^verbatim>\<open>PathArgument\<close> and \<^verbatim>\<open>Path\<close> of \<^verbatim>\<open>json_value.cpp\<close>: a path is parsed from a text
  such as \<^verbatim>\<open>.settings.tabs[2]\<close>, and then resolved in a value or created in it. The loop of
  \<^verbatim>\<open>makePath\<close> does not advance on a NUL character, so it is a \<open>partial_function\<close>.
\<close>

section \<open>Parsing\<close>

datatype path_kind = kindNone | kindIndex | kindKey

datatype path_argument = Arg_None | Arg_Index "32 word" | Arg_Key string

fun arg_kind :: "path_argument \<Rightarrow> path_kind" where
  "arg_kind Arg_None = kindNone"
| "arg_kind (Arg_Index i) = kindIndex"
| "arg_kind (Arg_Key k) = kindKey"

text \<open>\<open>itInArg\<close> is never advanced: it stays at the first argument.\<close>

definition addPathInArg ::
  "path_argument list \<Rightarrow> path_kind \<Rightarrow> path_argument list \<Rightarrow> path_argument list" where
  "addPathInArg ins kind args =
     (case ins of [] \<Rightarrow> args | a # _ \<Rightarrow> if arg_kind a \<noteq> kind then args else args @ [a])"

definition path_index :: "string \<Rightarrow> 32 word" where
  "path_index ds = foldl (\<lambda>index c. index * 10 + word_of_nat (of_char c - 48)) 0 ds"

text \<open>\<^verbatim>\<open>!strchr("[.", c)\<close>: \<^verbatim>\<open>strchr\<close> finds the terminating NUL too.\<close>

definition in_name :: "char \<Rightarrow> bool" where
  "in_name c \<longleftrightarrow> c \<noteq> CHR ''['' \<and> c \<noteq> CHR ''.'' \<and> c \<noteq> CHR 0x00"

partial_function (option) makePath ::
  "path_argument list \<Rightarrow> string \<Rightarrow> path_argument list \<Rightarrow> path_argument list option" where
  "makePath ins current args =
     (case current of
        [] \<Rightarrow> Some args
      | c # rest \<Rightarrow>
          if c = CHR ''['' then
            (let in_arg = (rest \<noteq> [] \<and> hd rest = CHR ''%'');
                 args' = (if in_arg then addPathInArg ins kindIndex args
                          else args @ [Arg_Index (path_index (takeWhile digit rest))]);
                 current' = (if in_arg then rest else dropWhile digit rest)
             in makePath ins (tl current') args')
          else if c = CHR ''%'' then makePath ins rest (addPathInArg ins kindKey args)
          else if c = CHR ''.'' then makePath ins rest args
          else makePath ins (dropWhile in_name current) (args @ [Arg_Key (takeWhile in_name current)]))"

text \<open>The constructor: the path's text and five arguments.\<close>

definition path_new ::
  "string \<Rightarrow> path_argument \<Rightarrow> path_argument \<Rightarrow> path_argument \<Rightarrow> path_argument \<Rightarrow> path_argument \<Rightarrow>
   path_argument list option" where
  "path_new path a1 a2 a3 a4 a5 = makePath [a1, a2, a3, a4, a5] path []"

section \<open>Resolving\<close>

fun path_resolve :: "path_argument list \<Rightarrow> 'd cvalue \<Rightarrow> 'd cvalue result" where
  "path_resolve [] node = Inr node"
| "path_resolve (Arg_Index i # args) node =
     bind_result (index_const node i) (\<lambda>r. path_resolve args (ref_value r))"
| "path_resolve (Arg_Key k # args) node =
     bind_result (key_const node k) (\<lambda>r. path_resolve args (ref_value r))"
| "path_resolve (Arg_None # args) node = path_resolve args node"

fun path_resolve_default :: "path_argument list \<Rightarrow> 'd cvalue \<Rightarrow> 'd cvalue \<Rightarrow> 'd cvalue result" where
  "path_resolve_default [] node defaultValue = copy_value node"
| "path_resolve_default (Arg_Index i # args) node defaultValue =
     (if \<not> isArray node \<or> isValidIndex node i then copy_value defaultValue
      else bind_result (index_const node i)
        (\<lambda>r. path_resolve_default args (ref_value r) defaultValue))"
| "path_resolve_default (Arg_Key k # args) node defaultValue =
     (if \<not> isObject node then copy_value defaultValue
      else bind_result (key_const node k)
        (\<lambda>r. case r of
            None \<Rightarrow> copy_value defaultValue
          | Some v \<Rightarrow> path_resolve_default args v defaultValue))"
| "path_resolve_default (Arg_None # args) node defaultValue = path_resolve_default args node defaultValue"

text \<open>\<^verbatim>\<open>make\<close> creates what is missing and returns a pointer to the last node.\<close>

fun path_make :: "path_argument list \<Rightarrow> 'd cvalue \<Rightarrow> ('d cvalue \<times> czstring list) result" where
  "path_make [] node = Inr (node, [])"
| "path_make (Arg_Index i # args) node =
     bind_result (index_ref node i) (\<lambda>node'.
       bind_result (path_make args (ref_value (map_of (children node') (index_key i)))) (\<lambda>(child, p).
         bind_result (update_path [index_key i] (\<lambda>_. Inr child) node') (\<lambda>node''.
           Inr (node'', index_key i # p))))"
| "path_make (Arg_Key k # args) node =
     bind_result (resolveReference node k) (\<lambda>node'.
       bind_result (path_make args (ref_value (map_of (children node') (name_key k)))) (\<lambda>(child, p).
         bind_result (update_path [name_key k] (\<lambda>_. Inr child) node') (\<lambda>node''.
           Inr (node'', name_key k # p))))"
| "path_make (Arg_None # args) node = path_make args node"

section \<open>What a path's text means\<close>

text \<open>\<open>show_args\<close> is the notation of a path; \<open>shown_arg\<close>: the arguments that have one.\<close>

fun show_arg :: "path_argument \<Rightarrow> string" where
  "show_arg Arg_None = []"
| "show_arg (Arg_Index i) = CHR ''['' # show_nat (unat i) @ [CHR '']'']"
| "show_arg (Arg_Key k) = CHR ''.'' # k"

fun shown_arg :: "path_argument \<Rightarrow> bool" where
  "shown_arg Arg_None \<longleftrightarrow> False"
| "shown_arg (Arg_Index i) \<longleftrightarrow> True"
| "shown_arg (Arg_Key k) \<longleftrightarrow> k \<noteq> [] \<and> list_all in_name k \<and> hd k \<noteq> CHR ''%''"

definition show_args :: "path_argument list \<Rightarrow> string" where
  "show_args args = concat (map show_arg args)"

lemma path_index_digits: "path_index ds = word_of_nat (read_digits ds)"
proof -
  have "foldl (\<lambda>index c. index * 10 + word_of_nat (of_char c - 48)) (word_of_nat n) ds =
      (word_of_nat (foldl (\<lambda>n c. 10 * n + (of_char c - 48)) n ds) :: 32 word)" for n
  proof (induction ds arbitrary: n)
    case (Cons c ds)
    from Cons [of "10 * n + (of_char c - 48)"] show ?case by (simp add: mult.commute)
  qed simp
  from this [of 0] show ?thesis by (simp add: path_index_def read_digits_def)
qed

lemma makePath_index:
  "makePath ins (CHR ''['' # show_nat (unat i) @ CHR '']'' # rest) args = makePath ins rest (args @ [Arg_Index i])"
proof -
  have "hd (show_nat (unat i)) \<noteq> CHR ''%''"
    using show_nat_digits [of "unat i"] show_nat_not_Nil [of "unat i"]
    by (cases "show_nat (unat i)") (auto simp: digit_def)
  moreover note digit_span [OF show_nat_digits, of "CHR '']'' # rest" "unat i"]
  ultimately show ?thesis
    using show_nat_not_Nil [of "unat i"]
    by (subst makePath.simps) (simp add: Let_def digit_def path_index_digits read_show_nat)
qed

lemma makePath_key:
  assumes "shown_arg (Arg_Key k)" and "rest = [] \<or> hd rest = CHR ''['' \<or> hd rest = CHR ''.''"
  shows "makePath ins (CHR ''.'' # k @ rest) args = makePath ins rest (args @ [Arg_Key k])"
proof -
  obtain c t where k: "k = c # t" "in_name c" "list_all in_name t" "c \<noteq> CHR ''%''"
    using assms(1) by (cases k) auto
  have "takeWhile in_name (k @ rest) = k \<and> dropWhile in_name (k @ rest) = rest"
    using assms(2) k by (cases rest) (auto simp: takeWhile_append2 list_all_iff in_name_def)
  then have "makePath ins (k @ rest) args = makePath ins rest (args @ [Arg_Key k])"
    using k by (subst makePath.simps) (auto simp: in_name_def)
  then show ?thesis by (subst makePath.simps) simp
qed

lemma makePath_shown:
  "list_all shown_arg as \<Longrightarrow> makePath ins (show_args as) args = Some (args @ as)"
proof (induction as arbitrary: args)
  case Nil
  show ?case by (subst makePath.simps) (simp add: show_args_def)
next
  case (Cons a as)
  have sep: "show_args as = [] \<or> hd (show_args as) = CHR ''['' \<or> hd (show_args as) = CHR ''.''"
    using Cons.prems by (cases as; cases "hd as") (auto simp: show_args_def)
  show ?case
  proof (cases a)
    case (Arg_Index i)
    with makePath_index [of ins i "show_args as" args] Cons show ?thesis by (simp add: show_args_def)
  next
    case (Arg_Key k)
    with makePath_key [OF _ sep, of k ins args] Cons show ?thesis by (simp add: show_args_def)
  qed (use Cons.prems in simp)
qed

lemma makePath_terminates: "CHR 0x00 \<notin> set s \<Longrightarrow> \<exists>as. makePath ins s args = Some as"
proof (induction "length s" arbitrary: s args rule: less_induct)
  case less
  show ?case
  proof (cases s)
    case Nil
    then show ?thesis by (subst makePath.simps) simp
  next
    case (Cons c rest)
    have sub: "\<exists>as. makePath ins t args' = Some as" if "suffix t rest" for t args'
      using less(1) [of t] less(2) suffix_length_le [OF that] set_mono_suffix [OF that] Cons by auto
    have steps: "suffix rest rest" "suffix (tl rest) rest" "suffix (dropWhile p rest) rest"
      "suffix (tl (dropWhile p rest)) rest" for p
      by (auto intro: suffix_tl suffix_dropWhile suffix_order.trans)
    show ?thesis
    proof (cases "c \<in> {CHR ''['', CHR ''%'', CHR ''.''}")
      case True
      then show ?thesis using Cons sub steps by (subst makePath.simps) (auto simp: Let_def)
    next
      case False
      then have "in_name c" using less(2) Cons by (auto simp: in_name_def)
      with False show ?thesis using Cons sub steps by (subst makePath.simps) auto
    qed
  qed
qed

lemma makePath_returns_no_nul:
  assumes "makePath ins t args = Some as"
  shows "t = [] \<or> hd t \<noteq> CHR 0x00"
proof (rule makePath.raw_induct [OF _ assms, where P = "\<lambda>ins t args as. t = [] \<or> hd t \<noteq> CHR 0x00"])
  fix loop ins args as and current :: string
  assume IH: "\<And>ins current args as. loop ins current args = Some as \<Longrightarrow> current = [] \<or> hd current \<noteq> CHR 0x00"
    and run: "(case current of
        [] \<Rightarrow> Some args
      | c # rest \<Rightarrow>
          if c = CHR ''['' then
            (let in_arg = (rest \<noteq> [] \<and> hd rest = CHR ''%'');
                 args' = (if in_arg then addPathInArg ins kindIndex args
                          else args @ [Arg_Index (path_index (takeWhile digit rest))]);
                 current' = (if in_arg then rest else dropWhile digit rest)
             in loop ins (tl current') args')
          else if c = CHR ''%'' then loop ins rest (addPathInArg ins kindKey args)
          else if c = CHR ''.'' then loop ins rest args
          else loop ins (dropWhile in_name current) (args @ [Arg_Key (takeWhile in_name current)])) = Some as"
  show "current = [] \<or> hd current \<noteq> CHR 0x00"
  proof (cases current)
    case (Cons c rest)
    have False if "c = CHR 0x00"
      using run Cons that IH [of ins "CHR 0x00 # rest" "args @ [Arg_Key []]" as]
      by (simp add: in_name_def)
    with Cons show ?thesis by auto
  qed simp
qed

lemma makePath_diverges: "makePath ins (CHR 0x00 # s) args = None"
  using makePath_returns_no_nul [of ins "CHR 0x00 # s" args] by (cases "makePath ins (CHR 0x00 # s) args") auto

lemma path_make_resolve:
  assumes "path_make args v = Inr (v', p)" and "wf_value v"
  shows "wf_value v' \<and> (\<exists>w. at_path p v' = Some w \<and> path_resolve args v' = Inr w)"
  using assms
proof (induction args v arbitrary: v' p rule: path_make.induct)
  case (2 i args node)
  then obtain node' child q where
    n: "index_ref node i = Inr node'"
    "path_make args (ref_value (map_of (children node') (index_key i))) = Inr (child, q)"
    "update_path [index_key i] (\<lambda>_. Inr child) node' = Inr v'" "p = index_key i # q"
    by (fastforce simp: bind_result_Inr)
  obtain c where c: "map_of (children node') (index_key i) = Some c" "wf_value c"
    "type_of node' = arrayValue" "wf_value node'"
    using index_ref_child [OF n(1) 2(3)] wf_ref(1) [OF 2(3) n(1)] by blast
  from 2(1) [OF n(1,2)] c obtain w where w: "wf_value child" "at_path q child = Some w"
    "path_resolve args child = Inr w" by (auto simp: ref_value_def)
  note r = child_replaced [OF n(3) c(1,4) w(1)]
  then show ?case using w n(4) c(3) by (simp add: const_of_type ref_value_def)
next
  case (3 k args node)
  then obtain node' child q where
    n: "resolveReference node k = Inr node'"
    "path_make args (ref_value (map_of (children node') (name_key k))) = Inr (child, q)"
    "update_path [name_key k] (\<lambda>_. Inr child) node' = Inr v'" "p = name_key k # q"
    by (fastforce simp: bind_result_Inr)
  obtain c where c: "map_of (children node') (name_key k) = Some c" "wf_value c"
    "type_of node' = objectValue" "wf_value node'"
    using resolveReference_child [OF n(1) 3(3)] wf_ref(2) [OF 3(3) n(1)] by blast
  from 3(1) [OF n(1,2)] c obtain w where w: "wf_value child" "at_path q child = Some w"
    "path_resolve args child = Inr w" by (auto simp: ref_value_def)
  note r = child_replaced [OF n(3) c(1,4) w(1)]
  then show ?case using w n(4) c(3) by (simp add: const_of_type ref_value_def)
qed simp_all

lemma resolve_default_valid_index:
  "isValidIndex v i \<Longrightarrow> path_resolve_default (Arg_Index i # args) v defaultValue = copy_value defaultValue"
  by simp

section \<open>Properties of paths\<close>

text \<open>
  C39. Parsing the notation of a path gives its arguments back, whatever the five in-arguments
  are; parsing terminates on every text without NUL, and a NUL where a name is expected makes
  the loop run forever.
\<close>

theorem path_new_parses:
  "(list_all shown_arg as \<longrightarrow> path_new (show_args as) a1 a2 a3 a4 a5 = Some as) \<and>
   (CHR 0x00 \<notin> set path \<longrightarrow> (\<exists>args. path_new path a1 a2 a3 a4 a5 = Some args)) \<and>
   path_new (CHR 0x00 # path) a1 a2 a3 a4 a5 = None"
  by (simp add: path_new_def makePath_shown makePath_terminates makePath_diverges)

theorem path_new_parses_witness:
  "path_new ''.settings.tabs[2]'' Arg_None Arg_None Arg_None Arg_None Arg_None =
     Some [Arg_Key ''settings'', Arg_Key ''tabs'', Arg_Index 2]"
proof -
  let ?as = "[Arg_Key ''settings'', Arg_Key ''tabs'', Arg_Index 2]"
  have "list_all shown_arg ?as" "show_args ?as = ''.settings.tabs[2]''" by code_simp+
  with path_new_parses [of ?as Arg_None Arg_None Arg_None Arg_None Arg_None "[]"] show ?thesis by simp
qed

text \<open>
  C28. \<^verbatim>\<open>make\<close> creates the nodes of a path: the pointer it returns is valid in the new document,
  the document stays well-formed, and \<^verbatim>\<open>resolve\<close> then finds that node.
\<close>

theorem make_then_resolve:
  assumes "path_make args v = Inr (v', p)" and "wf_value v"
  shows "wf_value v' \<and> (\<exists>w. at_path p v' = Some w \<and> path_resolve args v' = Inr w)"
  by (rule path_make_resolve [OF assms])

theorem make_then_resolve_witness:
  "\<exists>w. at_path [CZ_Name ''a'', CZ_Index 1]
      (plain (V_object [(CZ_Name ''a'', plain (V_array [(CZ_Index 1, null_value)]))]) :: int cvalue) = Some w \<and>
    path_resolve [Arg_Key ''a'', Arg_Index 1]
      (plain (V_object [(CZ_Name ''a'', plain (V_array [(CZ_Index 1, null_value)]))])) = Inr w"
proof -
  have "path_make [Arg_Key ''a'', Arg_Index 1] (null_value :: int cvalue) =
      Inr (plain (V_object [(CZ_Name ''a'', plain (V_array [(CZ_Index 1, null_value)]))]),
        [CZ_Name ''a'', CZ_Index 1])" by code_simp
  from make_then_resolve [OF this] show ?thesis by (simp add: wf_comments_def)
qed

end
