(* ===== verification/Bson_Compare.thy ===== *)
theory Bson_Compare
  imports Bson_Json
begin

text \<open>
  The order of BSON: \<^verbatim>\<open>compareElementValues\<close> and the \<^verbatim>\<open>woCompare\<close> functions of \<^verbatim>\<open>db/jsobj.cpp\<close>, with
  \<^verbatim>\<open>Ordering\<close>. Of \<^verbatim>\<open>strcmp\<close> and \<^verbatim>\<open>memcmp\<close> only the sign is documented; here they return -1, 0 or 1.
  The theorems relate the comparison of documents in memory to an order on documents, and say
  where that is one.
\<close>

section \<open>Comparing memory\<close>

definition char_order :: "char \<Rightarrow> char \<Rightarrow> int" where
  "char_order c d = sgn (int (of_char c) - int (of_char d))"

fun c_strcmp :: "string \<Rightarrow> string \<Rightarrow> int result" where
  "c_strcmp (c # p) (d # q) = (if c \<noteq> d then Inr (char_order c d) else if c = nul then Inr 0 else c_strcmp p q)"
| "c_strcmp p q = Inl Out_Of_Bounds"

fun byte_order :: "string \<Rightarrow> string \<Rightarrow> int" where
  "byte_order (c # p) (d # q) = (if c \<noteq> d then char_order c d else byte_order p q)"
| "byte_order p q = 0"

definition memcmp :: "string \<Rightarrow> string \<Rightarrow> int \<Rightarrow> int result" where
  "memcmp p q n =
     (if n < 0 then Inl Out_Of_Bounds
      else bind_result (read_bytes p n) (\<lambda>x. bind_result (read_bytes q n) (\<lambda>y. Inr (byte_order x y))))"

section \<open>Comparing doubles\<close>

text \<open>
  The difference of two finite doubles is zero exactly when they are equal, and has the sign of
  the exact difference. Their order is that of their bits, read as a sign and a magnitude.
\<close>

definition double_key :: "64 word \<Rightarrow> int" where
  "double_key d = (if negative d then - int (unat d mod 2 ^ 63) else int (unat d mod 2 ^ 63))"

definition compare_doubles :: "64 word \<Rightarrow> 64 word \<Rightarrow> int" where
  "compare_doubles left right =
     (let lNan = \<not> finite_double left; rNan = \<not> finite_double right
      in if lNan then (if rNan then 0 else - 1)
         else if rNan then 1
         else sgn (double_key left - double_key right))"

text \<open>\<^verbatim>\<open>x < 0\<close>\<close>

definition double_negative :: "64 word \<Rightarrow> bool" where
  "double_negative d \<longleftrightarrow> negative d \<and> unat d mod 2 ^ 63 \<noteq> 0 \<and> (finite_double d \<or> mantissa_bits d = 0)"

text \<open>The conversion from \<^verbatim>\<open>long long\<close> rounds to nearest, ties to even.\<close>

definition long_double_bits :: "nat \<Rightarrow> nat" where
  "long_double_bits a =
     (if a = 0 then 0
      else (log2 a + 1023) * 2 ^ 52 +
        ((if log2 a \<le> 52 then a * 2 ^ (52 - log2 a) else div_round a (2 ^ (log2 a - 52))) - 2 ^ 52))"

definition double_of_long :: "64 word \<Rightarrow> 64 word" where
  "double_of_long i = word_of_nat ((if sint i < 0 then 2 ^ 63 else 0) + long_double_bits (nat \<bar>sint i\<bar>))"

definition numberDouble :: "string \<Rightarrow> 64 word result" where
  "numberDouble e =
     bind_result (e_type e) (\<lambda>t.
       if t = NumberDouble then numberLong_raw e
       else if t = NumberInt then bind_result (numberInt_raw e) (\<lambda>i. Inr (double_of_int i))
       else if t = NumberLong then bind_result (numberLong_raw e) (\<lambda>i. Inr (double_of_long i))
       else Inr 0)"

section \<open>Comparing elements\<close>

fun canonical_of :: "bson_type \<Rightarrow> int result" where
  "canonical_of MinKey = Inr (- 1)"
| "canonical_of MaxKey = Inr 127"
| "canonical_of EOO = Inr 0"
| "canonical_of Undefined = Inr 0"
| "canonical_of jstNULL = Inr 5"
| "canonical_of NumberDouble = Inr 10"
| "canonical_of NumberInt = Inr 10"
| "canonical_of NumberLong = Inr 10"
| "canonical_of BString = Inr 15"
| "canonical_of BSymbol = Inr 15"
| "canonical_of BObject = Inr 20"
| "canonical_of BArray = Inr 25"
| "canonical_of BinData = Inr 30"
| "canonical_of jstOID = Inr 35"
| "canonical_of BBool = Inr 40"
| "canonical_of BDate = Inr 45"
| "canonical_of Timestamp = Inr 45"
| "canonical_of RegEx = Inr 50"
| "canonical_of DBRef = Inr 55"
| "canonical_of BCode = Inr 60"
| "canonical_of CodeWScope = Inr 65"
| "canonical_of (Other_Type n) = Inl Assertion_Failed"

definition canonicalType :: "string \<Rightarrow> int result" where
  "canonicalType e = bind_result (e_type e) canonical_of"

definition valuesize :: "string \<Rightarrow> int result" where
  "valuesize e =
     bind_result (element_size e (- 1)) (\<lambda>n. bind_result (fieldNameSize e) (\<lambda>k. Inr (n - k - 1)))"

definition regex :: "string \<Rightarrow> string result" where
  "regex e = bind_result (e_type e) (\<lambda>t. if t = RegEx then e_value e else Inl Assertion_Failed)"

text \<open>\<^verbatim>\<open>regexFlags\<close> and \<^verbatim>\<open>codeWScopeScopeData\<close>: what follows a C string.\<close>

definition after_c_string :: "string \<Rightarrow> string result" where
  "after_c_string p = bind_result (strlen p) (\<lambda>n. offset_ptr p (int n + 1))"

definition both :: "(string \<Rightarrow> 'a result) \<Rightarrow> string \<Rightarrow> string \<Rightarrow> ('a \<Rightarrow> 'a \<Rightarrow> 'b result) \<Rightarrow> 'b result" where
  "both f l r k = bind_result (f l) (\<lambda>x. bind_result (f r) (k x))"

definition compare_canonical :: "string \<Rightarrow> string \<Rightarrow> int result" where
  "compare_canonical l r = both canonicalType l r (\<lambda>x y. Inr (x - y))"

definition compare_numbers :: "string \<Rightarrow> string \<Rightarrow> int result" where
  "compare_numbers l r =
     bind_result (e_type l) (\<lambda>tl. bind_result (e_type r) (\<lambda>tr.
       if tl = NumberLong \<and> tr = NumberLong then both numberLong_raw l r (\<lambda>x y. Inr (sgn (sint x - sint y)))
       else both numberDouble l r (\<lambda>x y. Inr (compare_doubles x y))))"

definition compare_sized :: "(string \<Rightarrow> int result) \<Rightarrow> int \<Rightarrow> int \<Rightarrow> string \<Rightarrow> string \<Rightarrow> int result" where
  "compare_sized sz offset extra l r =
     both sz l r (\<lambda>lsz rsz.
       if lsz - rsz \<noteq> 0 then Inr (lsz - rsz)
       else both (\<lambda>e. value_at e offset) l r (\<lambda>p q. memcmp p q (lsz + extra)))"

definition compare_regex :: "string \<Rightarrow> string \<Rightarrow> int result" where
  "compare_regex l r =
     both regex l r (\<lambda>p q. bind_result (c_strcmp p q) (\<lambda>c.
       if c \<noteq> 0 then Inr c else both after_c_string p q c_strcmp))"

definition compare_scope :: "string \<Rightarrow> string \<Rightarrow> int result" where
  "compare_scope l r =
     bind_result (compare_canonical l r) (\<lambda>f.
       if f \<noteq> 0 then Inr f
       else both (\<lambda>e. value_at e 8) l r (\<lambda>p q. bind_result (c_strcmp p q) (\<lambda>c.
         if c \<noteq> 0 then Inr c else both after_c_string p q c_strcmp)))"

text \<open>\<open>P\<close> compares embedded objects.\<close>

definition compareElementValues :: "(string \<Rightarrow> string \<Rightarrow> int outcome) \<Rightarrow> string \<Rightarrow> string \<Rightarrow> int outcome" where
  "compareElementValues P l r =
     bind_outcome (Some (e_type l)) (\<lambda>t.
       case t of
         EOO \<Rightarrow> Some (bind_result (compare_canonical l r) (\<lambda>f. Inr (sgn f)))
       | Undefined \<Rightarrow> Some (bind_result (compare_canonical l r) (\<lambda>f. Inr (sgn f)))
       | jstNULL \<Rightarrow> Some (bind_result (compare_canonical l r) (\<lambda>f. Inr (sgn f)))
       | MaxKey \<Rightarrow> Some (bind_result (compare_canonical l r) (\<lambda>f. Inr (sgn f)))
       | MinKey \<Rightarrow> Some (bind_result (compare_canonical l r) (\<lambda>f. Inr (sgn f)))
       | BBool \<Rightarrow> Some (both e_value l r (\<lambda>p q. both (\<lambda>x. deref x 0) p q (\<lambda>c d. Inr (sint (byte c) - sint (byte d)))))
       | Timestamp \<Rightarrow> Some (both numberLong_raw l r (\<lambda>x y. Inr (sgn (int (unat x) - int (unat y)))))
       | BDate \<Rightarrow> Some (both numberLong_raw l r (\<lambda>x y. Inr (sgn (int (unat x) - int (unat y)))))
       | NumberLong \<Rightarrow> Some (compare_numbers l r)
       | NumberInt \<Rightarrow> Some (compare_numbers l r)
       | NumberDouble \<Rightarrow> Some (compare_numbers l r)
       | jstOID \<Rightarrow> Some (both e_value l r (\<lambda>p q. memcmp p q 12))
       | BCode \<Rightarrow> Some (both (\<lambda>e. value_at e 4) l r c_strcmp)
       | BSymbol \<Rightarrow> Some (both (\<lambda>e. value_at e 4) l r c_strcmp)
       | BString \<Rightarrow> Some (both (\<lambda>e. value_at e 4) l r c_strcmp)
       | BObject \<Rightarrow> bind_outcome (Some (embeddedObject l)) (\<lambda>x. bind_outcome (Some (embeddedObject r)) (P x))
       | BArray \<Rightarrow> bind_outcome (Some (embeddedObject l)) (\<lambda>x. bind_outcome (Some (embeddedObject r)) (P x))
       | DBRef \<Rightarrow> Some (compare_sized valuesize 0 0 l r)
       | BinData \<Rightarrow> Some (compare_sized valuestrsize 4 1 l r)
       | RegEx \<Rightarrow> Some (compare_regex l r)
       | CodeWScope \<Rightarrow> Some (compare_scope l r)
       | Other_Type n \<Rightarrow> Some (Inl Assertion_Failed))"

definition elem_woCompare ::
  "(string \<Rightarrow> string \<Rightarrow> int outcome) \<Rightarrow> bool \<Rightarrow> string \<Rightarrow> string \<Rightarrow> int outcome" where
  "elem_woCompare P considerFieldName l r =
     bind_outcome (Some (compare_canonical l r)) (\<lambda>x. bind_outcome (Some (isNumber l)) (\<lambda>nl.
       bind_outcome (Some (isNumber r)) (\<lambda>nr.
         if x \<noteq> 0 \<and> (\<not> nl \<or> \<not> nr) then Some (Inr x)
         else bind_outcome
           (Some (if considerFieldName then both fieldName l r (\<lambda>n m. c_strcmp (n @ [nul]) (m @ [nul])) else Inr 0)) (\<lambda>x.
             if x \<noteq> 0 then Some (Inr x) else compareElementValues P l r))))"

text \<open>\<^verbatim>\<open>operator<\<close> of elements, which leaves the names out.\<close>

definition elem_less :: "(string \<Rightarrow> string \<Rightarrow> int outcome) \<Rightarrow> string \<Rightarrow> string \<Rightarrow> bool outcome" where
  "elem_less P l r =
     bind_outcome (Some (compare_canonical l r)) (\<lambda>x.
       if x < 0 then Some (Inr True)
       else if 0 < x then Some (Inr False)
       else bind_outcome (compareElementValues P l r) (\<lambda>c. Some (Inr (c < 0))))"

section \<open>Comparing objects\<close>

text \<open>
  The two functions differ in where the direction of a field comes from: a state \<open>k\<close> and the
  function \<open>D\<close>, which gives the direction and the next state.
\<close>

type_synonym 'k directions = "'k \<Rightarrow> (bool result \<times> 'k) result"

fun compare_loop ::
  "'k directions \<Rightarrow> (string \<Rightarrow> string \<Rightarrow> int outcome) \<Rightarrow> nat \<Rightarrow> 'k \<Rightarrow> bson_iterator \<Rightarrow> bson_iterator \<Rightarrow> int outcome" where
  "compare_loop D E 0 k i j = None"
| "compare_loop D E (Suc n) k i j =
     bind_outcome (Some (it_next False i)) (\<lambda>(l, i). bind_outcome (Some (it_next False j)) (\<lambda>(r, j).
       bind_outcome (Some (D k)) (\<lambda>(desc, k).
         bind_outcome (Some (e_eoo l)) (\<lambda>le. bind_outcome (Some (e_eoo r)) (\<lambda>re.
           if le then Some (Inr (if re then 0 else - 1))
           else if re then Some (Inr 1)
           else bind_outcome (E l r) (\<lambda>x. bind_outcome (Some desc) (\<lambda>desc.
             let x = (if desc then - x else x)
             in if x \<noteq> 0 then Some (Inr x) else compare_loop D E n k i j)))))))"

definition compare_objects ::
  "'k directions \<Rightarrow> (string \<Rightarrow> string \<Rightarrow> int outcome) \<Rightarrow> nat \<Rightarrow> 'k result \<Rightarrow> string \<Rightarrow> string \<Rightarrow> int outcome" where
  "compare_objects D E n K l r =
     bind_outcome (Some (obj_isEmpty l)) (\<lambda>le. bind_outcome (Some (obj_isEmpty r)) (\<lambda>re.
       if le then Some (Inr (if re then 0 else - 1))
       else if re then Some (Inr 1)
       else bind_outcome (Some (iterator_new l)) (\<lambda>i. bind_outcome (Some (iterator_new r)) (\<lambda>j.
         bind_outcome (Some K) (\<lambda>k. compare_loop D E n k i j)))))"

text \<open>With a key: the fields of the key are read in step; no key, no direction.\<close>

definition key_direction :: "bson_iterator option directions" where
  "key_direction k =
     (case k of
        None \<Rightarrow> Inr (Inr False, None)
      | Some it \<Rightarrow> bind_result (it_next False it) (\<lambda>(o', it).
          Inr (bind_result (numberDouble o') (\<lambda>d. Inr (double_negative d)), Some it)))"

fun obj_compare :: "nat \<Rightarrow> string \<Rightarrow> string \<Rightarrow> int outcome" where
  "obj_compare 0 l r = None"
| "obj_compare (Suc n) l r = compare_objects key_direction (elem_woCompare (obj_compare n) True) n (Inr None) l r"

definition key_iterator :: "string \<Rightarrow> bson_iterator option result" where
  "key_iterator idxKey =
     bind_result (obj_isEmpty idxKey) (\<lambda>empty. bind_result (iterator_new idxKey) (\<lambda>k.
       Inr (if empty then None else Some k)))"

definition obj_woCompare :: "nat \<Rightarrow> string \<Rightarrow> string \<Rightarrow> string \<Rightarrow> bool \<Rightarrow> int outcome" where
  "obj_woCompare n l r idxKey considerFieldName =
     compare_objects key_direction (elem_woCompare (obj_compare n) considerFieldName) n (key_iterator idxKey) l r"

text \<open>\<^verbatim>\<open>Ordering\<close>: a bit per field, set for a descending one.\<close>

partial_function (option) ordering_loop :: "32 word \<Rightarrow> nat \<Rightarrow> bson_iterator \<Rightarrow> 32 word outcome" where
  "ordering_loop b n k =
     bind_outcome (Some (it_next False k)) (\<lambda>r. bind_outcome (Some (e_eoo (fst r))) (\<lambda>eoo.
       if eoo then Some (Inr b)
       else if 31 < n then Some (Inl (Runtime_Error ''too many compound keys''))
       else bind_outcome (Some (numberDouble (fst r))) (\<lambda>d.
         ordering_loop (if double_negative d then b OR push_bit n 1 else b) (n + 1) (snd r))))"

definition ordering_make :: "string \<Rightarrow> 32 word outcome" where
  "ordering_make obj = bind_outcome (Some (iterator_new obj)) (ordering_loop 0 0)"

definition mask_direction :: "32 word \<Rightarrow> 32 word directions" where
  "mask_direction bits m = Inr (Inr (bits AND m \<noteq> 0), push_bit 1 m)"

definition obj_woCompare_ordering :: "nat \<Rightarrow> string \<Rightarrow> string \<Rightarrow> 32 word \<Rightarrow> bool \<Rightarrow> int outcome" where
  "obj_woCompare_ordering n l r bits considerFieldName =
     compare_objects (mask_direction bits) (elem_woCompare (obj_compare n) considerFieldName) n (Inr 1) l r"

text \<open>\<^verbatim>\<open>woEqual\<close>: the bytes.\<close>

definition obj_woEqual :: "string \<Rightarrow> string \<Rightarrow> bool result" where
  "obj_woEqual l r =
     both objsize l r (\<lambda>os rs.
       if os = rs then if os = 0 then Inr True else bind_result (memcmp l r os) (\<lambda>c. Inr (c = 0)) else Inr False)"

section \<open>An order on documents\<close>

definition codes :: "string \<Rightarrow> int list" where
  "codes = map (\<lambda>c. int (of_char c))"

definition cstr :: "string \<Rightarrow> string" where
  "cstr = takeWhile (\<lambda>c. c \<noteq> nul)"

fun list_order :: "int list \<Rightarrow> int list \<Rightarrow> int" where
  "list_order [] [] = 0"
| "list_order [] (y # ys) = - 1"
| "list_order (x # xs) [] = 1"
| "list_order (x # xs) (y # ys) = (if x = y then list_order xs ys else sgn (x - y))"

definition lexi :: "int \<Rightarrow> int \<Rightarrow> int" where
  "lexi a b = (if a \<noteq> 0 then a else b)"

definition canon :: "bson \<Rightarrow> int" where
  "canon v = projr (canonical_of (type_of_bson v))"

fun number_bits :: "bson \<Rightarrow> 64 word" where
  "number_bits (B_Double d) = d"
| "number_bits (B_Int i) = double_of_int i"
| "number_bits (B_Long i) = double_of_long i"
| "number_bits v = 0"

definition number_key :: "64 word \<Rightarrow> int list" where
  "number_key d = (if finite_double d then [1, double_key d] else [0])"

text \<open>
  What a value without fields is ordered by. Strings end at their first NUL, and the scope of
  code is taken for a string too. The size of a reference comes first, and that of binary data.
\<close>

fun scalar_key :: "bson \<Rightarrow> int list" where
  "scalar_key (B_String s) = codes (cstr s)"
| "scalar_key (B_Symbol s) = codes (cstr s)"
| "scalar_key (B_Code s) = codes (cstr s)"
| "scalar_key (B_BinData t s) = int (length s) # codes (t # s)"
| "scalar_key (B_OID s) = codes s"
| "scalar_key (B_Bool b) = [of_bool b]"
| "scalar_key (B_Date d) = [int (unat d)]"
| "scalar_key (B_Timestamp d) = [int (unat d)]"
| "scalar_key (B_RegEx r opts) = codes r @ 0 # codes opts"
| "scalar_key (B_DBRef ns i) = int (length ns) # codes (encode_value (B_DBRef ns i))"
| "scalar_key (B_CodeWScope s fs) = codes s @ 0 # codes (cstr (encode_doc fs))"
| "scalar_key (B_Double d) = number_key d"
| "scalar_key (B_Int i) = number_key (double_of_int i)"
| "scalar_key (B_Long i) = number_key (double_of_long i)"
| "scalar_key v = []"

definition cmp_scalar :: "bson \<Rightarrow> bson \<Rightarrow> int" where
  "cmp_scalar v w =
     (case (v, w) of
        (B_Long i, B_Long j) \<Rightarrow> sgn (sint i - sint j)
      | _ \<Rightarrow> list_order (scalar_key v) (scalar_key w))"

fun sub_fields :: "bson \<Rightarrow> fields" where
  "sub_fields (B_Object fs) = fs"
| "sub_fields (B_Array fs) = fs"
| "sub_fields v = []"

text \<open>Fields are ordered by the kind of their value, then their name, then the value.\<close>

fun cmp_value :: "bson \<Rightarrow> bson \<Rightarrow> int" and cmp_fields :: "fields \<Rightarrow> fields \<Rightarrow> int" where
  "cmp_value (B_Object fs) w = cmp_fields fs (sub_fields w)"
| "cmp_value (B_Array fs) w = cmp_fields fs (sub_fields w)"
| "cmp_value v w = cmp_scalar v w"
| "cmp_fields [] gs = (if gs = [] then 0 else - 1)"
| "cmp_fields ((n, v) # fs) gs =
     (case gs of
        [] \<Rightarrow> 1
      | (m, w) # hs \<Rightarrow>
          lexi (lexi (sgn (canon v - canon w)) (lexi (list_order (codes n) (codes m)) (cmp_value v w))) (cmp_fields fs hs))"

definition cmp_elem :: "bool \<Rightarrow> string \<times> bson \<Rightarrow> string \<times> bson \<Rightarrow> int" where
  "cmp_elem names f g =
     lexi (sgn (canon (snd f) - canon (snd g)))
       (lexi (if names then list_order (codes (fst f)) (codes (fst g)) else 0) (cmp_value (snd f) (snd g)))"

text \<open>\<open>dirs\<close> says which fields are descending.\<close>

fun cmp_doc :: "bool \<Rightarrow> bool list \<Rightarrow> fields \<Rightarrow> fields \<Rightarrow> int" where
  "cmp_doc names dirs [] gs = (if gs = [] then 0 else - 1)"
| "cmp_doc names dirs (f # fs) [] = 1"
| "cmp_doc names dirs (f # fs) (g # gs) =
     lexi (if dirs \<noteq> [] \<and> hd dirs then - cmp_elem names f g else cmp_elem names f g) (cmp_doc names (tl dirs) fs gs)"

lemma cmp_fields_doc: "cmp_fields fs gs = cmp_doc True [] fs gs"
proof (induction fs arbitrary: gs)
  case (Cons f fs)
  then show ?case by (cases f; cases gs) (auto simp: cmp_elem_def)
qed simp

section \<open>Memory and the order\<close>

lemma canonical_canon: "canonical_of (type_of_bson v) = Inr (canon v)"
  by (cases v) (simp_all add: canon_def)

lemma elem_canonical: "elem_at e name v \<Longrightarrow> canonicalType e = Inr (canon v)"
  by (simp add: canonicalType_def elem_type canonical_canon)

lemma char_order_code: "char_order c d = sgn (int (of_char c) - int (of_char d))"
  by (rule char_order_def)

lemma code_eq: "int (of_char c) = int (of_char d) \<longleftrightarrow> c = d"
  by simp

lemma codes_simps [simp]: "codes [] = []" "codes (c # s) = int (of_char c) # codes s" "codes (s @ t) = codes s @ codes t"
  by (simp_all add: codes_def)

lemma cstr_simps [simp]: "cstr [] = []" "cstr (c # s) = (if c = nul then [] else c # cstr s)"
  by (simp_all add: cstr_def)

lemma nul_code: "c \<noteq> nul \<Longrightarrow> 0 < (of_char c :: nat)"
proof (rule ccontr)
  assume "c \<noteq> nul" and "\<not> 0 < (of_char c :: nat)"
  then have "(of_char c :: nat) = of_char nul" by simp
  then show False using \<open>c \<noteq> nul\<close> by (simp only: of_char_eq_iff)
qed

lemma strcmp_text: "c_strcmp (s @ nul # p) (t @ nul # q) = Inr (list_order (codes (cstr s)) (codes (cstr t)))"
proof (induction s arbitrary: t)
  case Nil
  show ?case
  proof (cases t)
    case (Cons d t')
    then show ?thesis using nul_code [of d] by (cases "d = nul") (simp_all add: char_order_def)
  qed simp
next
  case (Cons c s)
  show ?case
  proof (cases t)
    case Nil
    then show ?thesis using nul_code [of c] by (cases "c = nul") (simp_all add: char_order_def)
  next
    case (Cons d t')
    then show ?thesis using Cons.IH [of t'] nul_code [of c] nul_code [of d]
      by (cases "c = d"; cases "c = nul"; cases "d = nul") (simp_all add: char_order_def)
  qed
qed

lemma byte_order_codes: "length x = length y \<Longrightarrow> byte_order x y = list_order (codes x) (codes y)"
proof (induction x arbitrary: y)
  case (Cons c x)
  then show ?case by (cases y) (auto simp: char_order_def)
qed simp

lemma memcmp_text:
  assumes "length x = n" and "length y = n"
  shows "memcmp (x @ p) (y @ q) (int n) = Inr (list_order (codes x) (codes y))"
  using assms by (simp add: memcmp_def read_bytes_def byte_order_codes)

lemma list_order_sgn [simp]: "sgn (list_order xs ys) = list_order xs ys"
  by (induction xs ys rule: list_order.induct) simp_all

lemma lexi_simps [simp]: "lexi 0 b = b" "a \<noteq> 0 \<Longrightarrow> lexi a b = a"
  by (simp_all add: lexi_def)

lemma sgn_lexi [simp]: "sgn (lexi a b) = lexi (sgn a) (sgn b)"
  by (simp add: lexi_def sgn_if)

lemma cstr_plain: "nul \<notin> set s \<Longrightarrow> cstr s = s"
  by (auto simp: cstr_def takeWhile_eq_all_conv)

lemma terminated_order:
  assumes "nul \<notin> set r" and "nul \<notin> set s"
  shows "list_order (codes r @ 0 # x) (codes s @ 0 # y) = lexi (list_order (codes r) (codes s)) (list_order x y)"
  using assms
proof (induction r arbitrary: s)
  case Nil
  show ?case
  proof (cases s)
    case (Cons d s')
    then have "d \<noteq> nul" using Nil(2) by auto
    then show ?thesis using Cons nul_code [of d] by simp
  qed simp
next
  case (Cons c r)
  show ?case
  proof (cases s)
    case Nil
    have "c \<noteq> nul" using Cons.prems(1) by auto
    then show ?thesis using Nil nul_code [of c] by simp
  next
    case s: (Cons d s')
    then show ?thesis using Cons.IH [of s'] Cons.prems by (cases "c = d") (simp_all add: lexi_def sgn_if)
  qed
qed

lemma after_c_string_text: "nul \<notin> set s \<Longrightarrow> after_c_string (s @ nul # p) = Inr p"
  by (simp add: after_c_string_def strlen_def offset_ptr_def nat_add_distrib)

lemma number_key_order: "list_order (number_key c) (number_key d) = compare_doubles c d"
  by (simp add: number_key_def compare_doubles_def Let_def)

lemma elem_number:
  assumes "elem_at e name v"
  shows "numberDouble e = Inr (number_bits v)"
proof -
  obtain rest where "e_value e = Inr (encode_value v @ rest)" using elem_value [OF assms] by blast
  then show ?thesis using elem_type [OF assms] read_words
    by (cases v) (simp_all add: numberDouble_def numberLong_raw_def numberInt_raw_def)
qed

lemma canon_cases:
  "canon v = 10 \<Longrightarrow> (\<exists>d. v = B_Double d) \<or> (\<exists>i. v = B_Int i) \<or> (\<exists>i. v = B_Long i)"
  "canon v = 15 \<Longrightarrow> \<exists>s. v = B_String s \<or> v = B_Symbol s"
  "canon v = 20 \<Longrightarrow> \<exists>fs. v = B_Object fs"
  "canon v = 25 \<Longrightarrow> \<exists>fs. v = B_Array fs"
  "canon v = 30 \<Longrightarrow> \<exists>t s. v = B_BinData t s"
  "canon v = 35 \<Longrightarrow> \<exists>s. v = B_OID s"
  "canon v = 40 \<Longrightarrow> \<exists>b. v = B_Bool b"
  "canon v = 45 \<Longrightarrow> \<exists>d. v = B_Date d \<or> v = B_Timestamp d"
  "canon v = 50 \<Longrightarrow> \<exists>r opts. v = B_RegEx r opts"
  "canon v = 55 \<Longrightarrow> \<exists>ns i. v = B_DBRef ns i"
  "canon v = 60 \<Longrightarrow> \<exists>s. v = B_Code s"
  "canon v = 65 \<Longrightarrow> \<exists>s fs. v = B_CodeWScope s fs"
  "canon v \<in> {- 1, 0, 5, 127} \<Longrightarrow> v \<in> {B_MinKey, B_Undefined, B_Null, B_MaxKey}"
  by (cases v; simp add: canon_def)+

lemma both_Inr [simp]: "f l = Inr x \<Longrightarrow> f r = Inr y \<Longrightarrow> both f l r k = k x y"
  by (simp add: both_def)

text \<open>\<open>compared v w c\<close>: \<open>compareElementValues\<close> returns, with the sign \<open>c\<close>, on elements with these values.\<close>

definition compared :: "(string \<Rightarrow> string \<Rightarrow> int outcome) \<Rightarrow> string \<Rightarrow> string \<Rightarrow> int \<Rightarrow> bool" where
  "compared P l r c \<longleftrightarrow> (\<exists>x. compareElementValues P l r = Some (Inr x) \<and> sgn x = c)"

lemma numbers_compared:
  assumes "elem_at l n v" and "elem_at r m w" and "canon v = 10" and "canon w = 10"
  shows "compared P l r (cmp_scalar v w)"
proof -
  have type: "type_of_bson u \<in> {NumberDouble, NumberInt, NumberLong}" if "canon u = 10" for u
    using canon_cases(1) [OF that] by auto
  have go: "compareElementValues P l r = Some (compare_numbers l r)"
    using type [OF assms(3)] elem_type [OF assms(1)] by (auto simp: compareElementValues_def)
  show ?thesis
  proof (cases "\<exists>i j. v = B_Long i \<and> w = B_Long j")
    case True
    then obtain i j where v: "v = B_Long i" "w = B_Long j" by blast
    obtain p where "e_value l = Inr (encode_value v @ p)" using elem_value [OF assms(1)] by blast
    moreover obtain q where "e_value r = Inr (encode_value w @ q)" using elem_value [OF assms(2)] by blast
    ultimately have "numberLong_raw l = Inr i" "numberLong_raw r = Inr j" using v read_words by (simp_all add: numberLong_raw_def)
    then show ?thesis using go elem_type [OF assms(1)] elem_type [OF assms(2)] v
      by (simp add: compared_def compare_numbers_def cmp_scalar_def)
  next
    case False
    then have "\<not> (type_of_bson v = NumberLong \<and> type_of_bson w = NumberLong)"
      using canon_cases(1) [OF assms(3)] canon_cases(1) [OF assms(4)] by auto
    then have "compare_numbers l r = Inr (compare_doubles (number_bits v) (number_bits w))"
      using elem_type [OF assms(1)] elem_type [OF assms(2)] elem_number [OF assms(1)] elem_number [OF assms(2)]
      by (auto simp: compare_numbers_def)
    moreover have "cmp_scalar v w = compare_doubles (number_bits v) (number_bits w)"
      using False canon_cases(1) [OF assms(3)] canon_cases(1) [OF assms(4)]
      by (auto simp: cmp_scalar_def number_key_order)
    ultimately show ?thesis using go list_order_sgn [of "number_key (number_bits v)" "number_key (number_bits w)"]
      by (simp add: compared_def number_key_order)
  qed
qed

lemma texts_compared:
  assumes l: "elem_at l n v" and r: "elem_at r m w" and v: "type_of_bson v \<in> {BString, BSymbol, BCode}"
    and s: "encode_value v = sized_string s" "encode_value w = sized_string t"
  shows "compared P l r (list_order (codes (cstr s)) (codes (cstr t)))"
proof -
  obtain p where p: "value_at l 4 = Inr (s @ nul # p)" using string_valid(2) [OF l, of s "[]"] s by auto
  obtain q where q: "value_at r 4 = Inr (t @ nul # q)" using string_valid(2) [OF r, of t "[]"] s by auto
  have "compareElementValues P l r = Some (both (\<lambda>e. value_at e 4) l r c_strcmp)"
    using v elem_type [OF l] by (auto simp: compareElementValues_def)
  then show ?thesis using p q by (simp add: compared_def strcmp_text)
qed

lemma words_compared:
  assumes l: "elem_at l n v" and r: "elem_at r m w" and v: "v = B_Date x \<or> v = B_Timestamp x" and w: "w = B_Date y \<or> w = B_Timestamp y"
  shows "compared P l r (sgn (int (unat x) - int (unat y)))"
proof -
  obtain p where "e_value l = Inr (encode_value v @ p)" using elem_value [OF l] by blast
  moreover obtain q where "e_value r = Inr (encode_value w @ q)" using elem_value [OF r] by blast
  ultimately have "numberLong_raw l = Inr x" "numberLong_raw r = Inr y"
    using v w read_words by (auto simp: numberLong_raw_def)
  then show ?thesis using elem_type [OF l] v by (auto simp: compared_def compareElementValues_def)
qed

lemma sized_compared:
  assumes "sz l = Inr (int a)" and "sz r = Inr (int b)" and "value_at l k = Inr (x @ p)" and "value_at r k = Inr (y @ q)"
    and "length x = a + e" and "length y = b + e"
  shows "\<exists>c. compare_sized sz k (int e) l r = Inr c \<and> sgn c = list_order (int a # codes x) (int b # codes y)"
proof (cases "a = b")
  case True
  then show ?thesis using assms memcmp_text [of x "a + e" y p q] by (simp add: compare_sized_def)
qed (use assms in \<open>simp add: compare_sized_def\<close>)

lemma sized_key: "list_order ((x + k) # xs) ((y + k) # ys) = list_order (x # xs) (y # ys)"
  by simp

lemma dbref_compared:
  assumes l: "elem_at l n (B_DBRef ns i)" and r: "elem_at r m (B_DBRef ms j)"
  shows "compared P l r (cmp_scalar (B_DBRef ns i) (B_DBRef ms j))"
proof -
  let ?x = "encode_value (B_DBRef ns i)" and ?y = "encode_value (B_DBRef ms j)"
  have len: "length ?x = length ns + 17" "length ?y = length ms + 17"
    using l r by (auto simp: elem_at_def sized_string_def)
  have "valuesize e = Inr (int (length (encode_value v)))" if "elem_at e k v" for e k v
    using elem_size(1) [OF that, of "- 1"] elem_name_size [OF that] by (simp add: valuesize_def field_bytes_length)
  note size = this [OF l] this [OF r]
  obtain p where "e_value l = Inr (?x @ p)" using elem_value [OF l] by blast
  moreover obtain q where "e_value r = Inr (?y @ q)" using elem_value [OF r] by blast
  ultimately have val: "value_at l 0 = Inr (?x @ p)" "value_at r 0 = Inr (?y @ q)" by (simp_all add: value_at_def offset_ptr_def)
  obtain c where c: "compare_sized valuesize 0 (int 0) l r = Inr c"
    "sgn c = list_order (int (length ?x) # codes ?x) (int (length ?y) # codes ?y)"
    using sized_compared [OF size val, of 0] by auto
  have "list_order (int (length ?x) # codes ?x) (int (length ?y) # codes ?y) = cmp_scalar (B_DBRef ns i) (B_DBRef ms j)"
    using len by (simp add: cmp_scalar_def)
  then show ?thesis using c elem_type [OF l] by (auto simp: compared_def compareElementValues_def)
qed

lemma bindata_compared:
  assumes l: "elem_at l n (B_BinData t x)" and r: "elem_at r m (B_BinData u y)"
  shows "compared P l r (cmp_scalar (B_BinData t x) (B_BinData u y))"
proof -
  have at: "valuestrsize e = Inr (int (length s)) \<and> (\<exists>p. value_at e 4 = Inr ((a # s) @ p))" if e: "elem_at e k (B_BinData a s)" for e k a s
  proof -
    obtain p where val: "e_value e = Inr (int32 (length s) @ (a # s) @ p)" using elem_value [OF e] by auto
    have "length s < 2 ^ 31" using e by (auto simp: elem_at_def BSONObjMaxInternalSize_def)
    then have "valuestrsize e = Inr (int (length s))" by (simp only: valuestrsize_def val bind_result_simps read32_int32 sint_size)
    moreover have "value_at e 4 = Inr ((a # s) @ p)" by (simp add: value_at_def val offset_ptr_def)
    ultimately show ?thesis by blast
  qed
  obtain p q where pq: "value_at l 4 = Inr ((t # x) @ p)" "value_at r 4 = Inr ((u # y) @ q)" using at [OF l] at [OF r] by blast
  obtain c where "compare_sized valuestrsize 4 (int 1) l r = Inr c"
    "sgn c = list_order (int (length x) # codes (t # x)) (int (length y) # codes (u # y))"
    using sized_compared [of valuestrsize, OF _ _ pq, of "length x" "length y" 1] at [OF l] at [OF r] by auto
  then show ?thesis using elem_type [OF l] by (auto simp: compared_def compareElementValues_def cmp_scalar_def)
qed

lemma two_strings_order:
  assumes "nul \<notin> set x" and "nul \<notin> set y" and "c = list_order (codes x) (codes y)" and "d = list_order (codes (cstr a)) (codes (cstr b))"
  shows "(if c \<noteq> 0 then c else d) = list_order (codes x @ 0 # codes (cstr a)) (codes y @ 0 # codes (cstr b))"
  using assms by (simp add: terminated_order lexi_def)

lemma regex_compared:
  assumes l: "elem_at l n (B_RegEx x a)" and r: "elem_at r m (B_RegEx y b)"
  shows "compared P l r (cmp_scalar (B_RegEx x a) (B_RegEx y b))"
proof -
  have nul: "nul \<notin> set x" "nul \<notin> set a" "nul \<notin> set y" "nul \<notin> set b" using l r by (auto simp: elem_at_def)
  have at: "\<exists>p. regex e = Inr (s @ nul # o' @ nul # p)" if e: "elem_at e k (B_RegEx s o')" for e k s o'
  proof -
    obtain p where "e_value e = Inr (s @ nul # o' @ nul # p)" using elem_value [OF e] by auto
    then show ?thesis using elem_type [OF e] by (simp add: regex_def)
  qed
  obtain p where p: "regex l = Inr (x @ nul # a @ nul # p)" using at [OF l] by blast
  obtain q where q: "regex r = Inr (y @ nul # b @ nul # q)" using at [OF r] by blast
  have "compare_regex l r = Inr (cmp_scalar (B_RegEx x a) (B_RegEx y b))"
    using p q nul two_strings_order [OF nul(1,3) refl refl, of a b]
    by (simp add: compare_regex_def strcmp_text after_c_string_text cstr_plain cmp_scalar_def split: if_splits)
  then show ?thesis using elem_type [OF l] list_order_sgn [of "codes x @ 0 # codes a" "codes y @ 0 # codes b"]
    by (auto simp: compared_def compareElementValues_def cmp_scalar_def)
qed

lemma doc_terminated: "encode_doc fs = butlast (encode_doc fs) @ [nul]"
  by (simp add: encode_doc_def doc_of_def butlast_append)

lemma cstr_terminated: "cstr (s @ [nul]) = cstr s"
  by (induction s) simp_all

lemma scope_compared:
  assumes l: "elem_at l n (B_CodeWScope x fs)" and r: "elem_at r m (B_CodeWScope y gs)"
  shows "compared P l r (cmp_scalar (B_CodeWScope x fs) (B_CodeWScope y gs))"
proof -
  let ?d = "\<lambda>fs. butlast (encode_doc fs)"
  have nul: "nul \<notin> set x" "nul \<notin> set y" using l r by (auto simp: elem_at_def)
  have at: "\<exists>p. value_at e 8 = Inr (s @ nul # ?d hs @ nul # p)" if e: "elem_at e k (B_CodeWScope s hs)" for e k s hs
  proof -
    obtain p where val: "e_value e = Inr ((int32 (4 + length (sized_string s @ encode_doc hs)) @ int32 (length s + 1)) @
        s @ nul # encode_doc hs @ p)"
      using elem_value [OF e] by (auto simp: sized_string_def encode_doc_def Let_def)
    then have "value_at e 8 = Inr (s @ nul # encode_doc hs @ p)" by (simp add: value_at_def offset_ptr_def)
    then show ?thesis using doc_terminated [of hs] by (metis append_assoc append_Cons append_Nil)
  qed
  obtain p where p: "value_at l 8 = Inr (x @ nul # ?d fs @ nul # p)" using at [OF l] by blast
  obtain q where q: "value_at r 8 = Inr (y @ nul # ?d gs @ nul # q)" using at [OF r] by blast
  have cstr: "cstr (encode_doc hs) = cstr (?d hs)" for hs by (subst doc_terminated) (rule cstr_terminated)
  have canon: "compare_canonical l r = Inr 0"
    using elem_canonical [OF l] elem_canonical [OF r] by (simp add: compare_canonical_def canon_def)
  have "compare_scope l r = Inr (cmp_scalar (B_CodeWScope x fs) (B_CodeWScope y gs))"
    using p q nul canon two_strings_order [OF nul refl refl, of "?d fs" "?d gs"]
    by (simp add: compare_scope_def strcmp_text after_c_string_text cstr_plain cmp_scalar_def cstr split: if_splits)
  then show ?thesis using elem_type [OF l]
      list_order_sgn [of "codes x @ 0 # codes (cstr (encode_doc fs))" "codes y @ 0 # codes (cstr (encode_doc gs))"]
    by (auto simp: compared_def compareElementValues_def cmp_scalar_def)
qed

lemma bytes_compared:
  assumes l: "elem_at l n v" and r: "elem_at r m w"
  shows "v = B_OID x \<Longrightarrow> w = B_OID y \<Longrightarrow> compared P l r (cmp_scalar v w)"
    and "v = B_Bool a \<Longrightarrow> w = B_Bool b \<Longrightarrow> compared P l r (cmp_scalar v w)"
proof -
  obtain p where p: "e_value l = Inr (encode_value v @ p)" using elem_value [OF l] by blast
  obtain q where q: "e_value r = Inr (encode_value w @ q)" using elem_value [OF r] by blast
  show "compared P l r (cmp_scalar v w)" if "v = B_OID x" "w = B_OID y"
  proof -
    have "length x = 12" "length y = 12" using l r that by (auto simp: elem_at_def)
    then have "memcmp (x @ p) (y @ q) 12 = Inr (list_order (codes x) (codes y))" using memcmp_text [of x 12 y p q] by simp
    then show ?thesis using p q that elem_type [OF l] by (simp add: compared_def compareElementValues_def cmp_scalar_def)
  qed
  show "compared P l r (cmp_scalar v w)" if "v = B_Bool a" "w = B_Bool b"
  proof -
    have "sint (byte nul) = 0" "sint (byte (CHR 0x01)) = 1" by (simp_all add: byte_def)
    then show ?thesis using p q that elem_type [OF l]
      by (cases a; cases b) (simp_all add: compared_def compareElementValues_def cmp_scalar_def both_def deref_def)
  qed
qed

lemma scalars_compared:
  assumes l: "elem_at l n v" and r: "elem_at r m w" and c: "canon v = canon w" and v: "type_of_bson v \<notin> {BObject, BArray}"
  shows "compared P l r (cmp_scalar v w)"
proof -
  consider "canon v \<in> {- 1, 0, 5, 127}" | "canon v = 10" | "canon v = 15" | "canon v = 30" | "canon v = 35" | "canon v = 40"
    | "canon v = 45" | "canon v = 50" | "canon v = 55" | "canon v = 60" | "canon v = 65"
    using v by (cases v) (simp_all add: canon_def)
  then show ?thesis
  proof cases
    case 1
    then have "v \<in> {B_MinKey, B_Undefined, B_Null, B_MaxKey}" "w \<in> {B_MinKey, B_Undefined, B_Null, B_MaxKey}"
      using c canon_cases(13) [of v] canon_cases(13) [of w] by simp_all
    then show ?thesis using elem_canonical [OF l] elem_canonical [OF r] elem_type [OF l] c
      by (auto simp: compared_def compareElementValues_def compare_canonical_def cmp_scalar_def)
  next
    case 2
    then show ?thesis using numbers_compared [OF l r] c by simp
  next
    case 3
    then obtain s t where st: "v = B_String s \<or> v = B_Symbol s" "w = B_String t \<or> w = B_Symbol t"
      using canon_cases(2) [of v] canon_cases(2) [of w] c by auto
    then have "cmp_scalar v w = list_order (codes (cstr s)) (codes (cstr t))" by (auto simp: cmp_scalar_def)
    then show ?thesis using texts_compared [OF l r, of s t P] st by auto
  next
    case 4
    then show ?thesis using canon_cases(5) [of v] canon_cases(5) [of w] c l r bindata_compared by metis
  next
    case 5
    then show ?thesis using canon_cases(6) [of v] canon_cases(6) [of w] c bytes_compared(1) [OF l r] by auto
  next
    case 6
    then show ?thesis using canon_cases(7) [of v] canon_cases(7) [of w] c bytes_compared(2) [OF l r] by auto
  next
    case 7
    then obtain x y where xy: "v = B_Date x \<or> v = B_Timestamp x" "w = B_Date y \<or> w = B_Timestamp y"
      using canon_cases(8) [of v] canon_cases(8) [of w] c by auto
    then have "cmp_scalar v w = sgn (int (unat x) - int (unat y))" by (auto simp: cmp_scalar_def)
    then show ?thesis using words_compared [OF l r xy, of P] by simp
  next
    case 8
    then show ?thesis using canon_cases(9) [of v] canon_cases(9) [of w] c l r regex_compared by metis
  next
    case 9
    then show ?thesis using canon_cases(10) [of v] canon_cases(10) [of w] c l r dbref_compared by metis
  next
    case 10
    then obtain s t where st: "v = B_Code s" "w = B_Code t" using canon_cases(11) [of v] canon_cases(11) [of w] c by auto
    then show ?thesis using texts_compared [OF l r, of s t P] by (simp add: cmp_scalar_def)
  next
    case 11
    then show ?thesis using canon_cases(12) [of v] canon_cases(12) [of w] c l r scope_compared by metis
  qed
qed

text \<open>Comparing two embedded objects gives their order.\<close>

definition objects_compared :: "(string \<Rightarrow> string \<Rightarrow> int outcome) \<Rightarrow> fields \<Rightarrow> fields \<Rightarrow> bool" where
  "objects_compared P fs gs \<longleftrightarrow>
     (\<forall>l r. obj_at l fs \<longrightarrow> obj_at r gs \<longrightarrow> (\<exists>x. P l r = Some (Inr x) \<and> sgn x = cmp_fields fs gs))"

lemma values_compared:
  assumes l: "elem_at l n v" and r: "elem_at r m w" and c: "canon v = canon w"
    and sub: "type_of_bson v \<in> {BObject, BArray} \<Longrightarrow> objects_compared P (sub_fields v) (sub_fields w)"
  shows "compared P l r (cmp_value v w)"
proof (cases "type_of_bson v \<in> {BObject, BArray}")
  case True
  obtain fs gs where v: "v = B_Object fs \<and> w = B_Object gs \<or> v = B_Array fs \<and> w = B_Array gs"
    using True c canon_cases(3) [of w] canon_cases(4) [of w] by (cases v) (auto simp: canon_def)
  obtain x where x: "embeddedObject l = Inr x" "obj_at x fs" using embedded_at(1) [of l n fs] l v by auto
  obtain y where y: "embeddedObject r = Inr y" "obj_at y gs" using embedded_at(1) [of r m gs] r v by auto
  have "objects_compared P fs gs" "cmp_value v w = cmp_fields fs gs" using sub v by auto
  then show ?thesis using x y True elem_type [OF l] by (auto simp: compared_def compareElementValues_def objects_compared_def)
next
  case False
  then have "cmp_value v w = cmp_scalar v w" by (cases v) simp_all
  then show ?thesis using scalars_compared [OF l r c False] by simp
qed

lemma number_canon: "type_of_bson v \<in> {NumberLong, NumberDouble, NumberInt} \<Longrightarrow> canon v = 10"
  by (cases v) (simp_all add: canon_def)

lemma elem_compared:
  assumes l: "elem_at l n v" and r: "elem_at r m w"
    and sub: "type_of_bson v \<in> {BObject, BArray} \<Longrightarrow> objects_compared P (sub_fields v) (sub_fields w)"
  shows "\<exists>x. elem_woCompare P names l r = Some (Inr x) \<and> sgn x = cmp_elem names (n, v) (m, w)"
proof -
  have canon: "compare_canonical l r = Inr (canon v - canon w)"
    using elem_canonical [OF l] elem_canonical [OF r] by (simp add: compare_canonical_def)
  have number: "isNumber l = Inr (type_of_bson v \<in> {NumberLong, NumberDouble, NumberInt})"
    "isNumber r = Inr (type_of_bson w \<in> {NumberLong, NumberDouble, NumberInt})"
    using elem_type [OF l] elem_type [OF r] by (simp_all add: isNumber_def)
  show ?thesis
  proof (cases "canon v = canon w")
    case False
    then have "\<not> (type_of_bson v \<in> {NumberLong, NumberDouble, NumberInt} \<and> type_of_bson w \<in> {NumberLong, NumberDouble, NumberInt})"
      using number_canon [of v] number_canon [of w] by auto
    then have "elem_woCompare P names l r = Some (Inr (canon v - canon w))"
      using False unfolding elem_woCompare_def canon number by auto
    then show ?thesis using False by (simp add: cmp_elem_def sgn_if lexi_def)
  next
    case True
    let ?n = "if names then list_order (codes n) (codes m) else 0"
    have "nul \<notin> set n" "nul \<notin> set m" using l r by (auto simp: elem_at_def)
    then have "(if names then both fieldName l r (\<lambda>n m. c_strcmp (n @ [nul]) (m @ [nul])) else Inr 0) = Inr ?n"
      using elem_name [OF l] elem_name [OF r] strcmp_text [of n "[]" m "[]"] by (simp add: cstr_plain)
    then have go: "elem_woCompare P names l r = (if ?n \<noteq> 0 then Some (Inr ?n) else compareElementValues P l r)"
      unfolding elem_woCompare_def canon number using True by simp
    obtain x where "compareElementValues P l r = Some (Inr x)" "sgn x = cmp_value v w"
      using values_compared [OF l r True sub] by (auto simp: compared_def)
    then show ?thesis unfolding go using True by (auto simp: cmp_elem_def lexi_def)
  qed
qed

fun directed :: "'k directions \<Rightarrow> 'k \<Rightarrow> bool list \<Rightarrow> bool" where
  "directed D k [] = True"
| "directed D k (d # ds) = (\<exists>k'. D k = Inr (Inr d, k') \<and> directed D k' ds)"

lemma loop_compares:
  assumes "it_at i fs" and "it_at j gs" and "directed D k dirs" and "min (length fs) (length gs) < length dirs"
    and "length fs < n"
    and "\<And>f g l r. f \<in> set fs \<Longrightarrow> g \<in> set gs \<Longrightarrow> elem_at l (fst f) (snd f) \<Longrightarrow> elem_at r (fst g) (snd g) \<Longrightarrow>
      \<exists>x. E l r = Some (Inr x) \<and> sgn x = cmp_elem names f g"
  shows "\<exists>x. compare_loop D E n k i j = Some (Inr x) \<and> sgn x = cmp_doc names dirs fs gs"
  using assms
proof (induction n arbitrary: i j k fs gs dirs)
  case (Suc n)
  obtain d ds where dirs: "dirs = d # ds" using Suc.prems(4) by (cases dirs) auto
  obtain k' where k: "D k = Inr (Inr d, k')" "directed D k' ds" using Suc.prems(3) dirs by auto
  obtain l where l: "it_next False i = Inr l" "e_eoo (fst l) = Inr (fs = [])"
    "\<And>name v fs'. fs = (name, v) # fs' \<Longrightarrow> elem_at (fst l) name v \<and> it_at (snd l) fs'"
    using it_step [OF Suc.prems(1)] by blast
  obtain r where r: "it_next False j = Inr r" "e_eoo (fst r) = Inr (gs = [])"
    "\<And>name v gs'. gs = (name, v) # gs' \<Longrightarrow> elem_at (fst r) name v \<and> it_at (snd r) gs'"
    using it_step [OF Suc.prems(2)] by blast
  show ?case
  proof (cases "fs = [] \<or> gs = []")
    case True
    then show ?thesis using l(1,2) r(1,2) k(1)
      by (cases fs) (auto simp: split_def)
  next
    case False
    then obtain f fs' g gs' where fg: "fs = f # fs'" "gs = g # gs'" by (cases fs; cases gs) auto
    have at: "elem_at (fst l) (fst f) (snd f)" "it_at (snd l) fs'" "elem_at (fst r) (fst g) (snd g)" "it_at (snd r) gs'"
      using l(3) [of "fst f" "snd f" fs'] r(3) [of "fst g" "snd g" gs'] fg by simp_all
    obtain x where x: "E (fst l) (fst r) = Some (Inr x)" "sgn x = cmp_elem names f g"
      using Suc.prems(6) [of f g "fst l" "fst r"] at fg by auto
    let ?x = "if d then - x else x"
    have s: "sgn ?x = (if d then - cmp_elem names f g else cmp_elem names f g)" using x(2) by (simp add: sgn_minus)
    have go: "compare_loop D E (Suc n) k i j = (if ?x \<noteq> 0 then Some (Inr ?x) else compare_loop D E n k' (snd l) (snd r))"
      using l(1,2) r(1,2) k(1) x(1) False by (simp add: split_def Let_def)
    have "\<exists>y. compare_loop D E n k' (snd l) (snd r) = Some (Inr y) \<and> sgn y = cmp_doc names ds fs' gs'"
      by (rule Suc.IH [OF at(2,4) k(2)]) (use Suc.prems(4-6) fg dirs in auto)
    then show ?thesis unfolding go using s fg dirs by (auto simp: lexi_def sgn_0_0)
  qed
qed simp

lemma objects_compare:
  assumes "obj_at l fs" and "obj_at r gs" and "directed D k dirs" and "min (length fs) (length gs) < length dirs"
    and "length fs < n"
    and "\<And>f g l r. f \<in> set fs \<Longrightarrow> g \<in> set gs \<Longrightarrow> elem_at l (fst f) (snd f) \<Longrightarrow> elem_at r (fst g) (snd g) \<Longrightarrow>
      \<exists>x. E l r = Some (Inr x) \<and> sgn x = cmp_elem names f g"
  shows "\<exists>x. compare_objects D E n (Inr k) l r = Some (Inr x) \<and> sgn x = cmp_doc names dirs fs gs"
proof -
  obtain i where i: "iterator_new l = Inr i" "it_at i fs" by (rule obj_at_iterator [OF assms(1)])
  obtain j where j: "iterator_new r = Inr j" "it_at j gs" by (rule obj_at_iterator [OF assms(2)])
  have "\<exists>x. compare_loop D E n k i j = Some (Inr x) \<and> sgn x = cmp_doc names dirs fs gs"
    by (rule loop_compares [OF i(2) j(2) assms(3-6)])
  then show ?thesis using i(1) j(1) obj_at_empty [OF assms(1)] obj_at_empty [OF assms(2)]
    by (cases "fs = []"; cases "gs = []"; cases fs; cases gs) (auto simp: compare_objects_def)
qed

lemma no_directions: "\<forall>d \<in> set dirs. \<not> d \<Longrightarrow> cmp_doc names dirs fs gs = cmp_doc names [] fs gs"
proof (induction names dirs fs gs rule: cmp_doc.induct)
  case (3 names dirs f fs g gs)
  then show ?case by (cases dirs) auto
qed auto

lemma undirected: "directed key_direction None (replicate n False)"
  by (induction n) (simp_all add: key_direction_def)

lemma sub_encoded: "type_of_bson v \<in> {BObject, BArray} \<Longrightarrow> length (encode_fields (sub_fields v)) < length (encode_value v)"
  by (cases v) (simp_all add: doc_of_def)

lemma obj_compare_step:
  assumes sub: "\<And>f (g :: string \<times> bson). f \<in> set fs \<Longrightarrow> type_of_bson (snd f) \<in> {BObject, BArray} \<Longrightarrow>
      objects_compared (obj_compare n) (sub_fields (snd f)) (sub_fields (snd g))"
    and directed: "directed key_direction k dirs" and len: "min (length fs) (length gs) < length dirs" and n: "length fs < n"
    and l: "obj_at l fs" and r: "obj_at r gs"
  shows "\<exists>x. compare_objects key_direction (elem_woCompare (obj_compare n) names) n (Inr k) l r = Some (Inr x) \<and>
      sgn x = cmp_doc names dirs fs gs"
proof (rule objects_compare [OF l r directed len n])
  fix f g l r assume f: "f \<in> set fs" and at: "elem_at l (fst f) (snd f)" "elem_at r (fst g) (snd g)"
  from elem_compared [OF at, of "obj_compare n" names] sub [OF f, of g]
  show "\<exists>x. elem_woCompare (obj_compare n) names l r = Some (Inr x) \<and> sgn x = cmp_elem names f g" by simp
qed

lemma field_count: "2 * length fs \<le> length (encode_fields fs)"
  by (induction fs) (auto simp: field_of_def)

lemma obj_compare_order:
  assumes "length (encode_fields fs) < n"
  shows "objects_compared (obj_compare n) fs gs"
  using assms
proof (induction n arbitrary: fs gs)
  case (Suc n fs gs)
  let ?dirs = "replicate (Suc (length fs)) False"
  have sub: "objects_compared (obj_compare n) (sub_fields (snd f)) (sub_fields (snd g))"
    if "f \<in> set fs" "type_of_bson (snd f) \<in> {BObject, BArray}" for f g
    using Suc.IH sub_encoded [OF that(2)] Suc.prems fields_bytes [of "fst f" "snd f" fs] that(1) by simp
  have "cmp_doc True ?dirs fs gs = cmp_fields fs gs"
    using no_directions [of ?dirs True fs gs] by (simp add: cmp_fields_doc)
  moreover have "\<exists>x. compare_objects key_direction (elem_woCompare (obj_compare n) True) n (Inr None) l r = Some (Inr x) \<and>
      sgn x = cmp_doc True ?dirs fs gs" if "obj_at l fs" "obj_at r gs" for l r
  proof (cases "fs = []")
    case True
    then show ?thesis using obj_at_empty [OF that(1)] obj_at_empty [OF that(2)] obj_at_iterator that
      by (cases gs) (auto simp: compare_objects_def)
  next
    case False
    then have "length fs < n" using field_count [of fs] Suc.prems by (cases fs) auto
    then show ?thesis by (intro obj_compare_step sub that undirected) simp_all
  qed
  ultimately show ?case unfolding objects_compared_def by simp
qed simp

end
