(* ===== verification/Bson_Order.thy ===== *)
theory Bson_Order
  imports Bson_Compare
begin

text \<open>
  The theorems on the order of BSON documents: \<^verbatim>\<open>woCompare\<close> with a key and with the
  \<^verbatim>\<open>Ordering\<close> of that key agree, and on documents whose 64-bit integers are doubles the order is
  a total preorder.
\<close>

section \<open>Keys and \<^verbatim>\<open>Ordering\<close>\<close>

definition descending_field :: "string \<times> bson \<Rightarrow> bool" where
  "descending_field f = double_negative (number_bits (snd f))"

lemma zero_not_negative: "\<not> double_negative 0"
  by (simp add: double_negative_def negative_def)

lemma eoo_number: "e_eoo e = Inr True \<Longrightarrow> numberDouble e = Inr 0"
  by (cases "e_type e") (simp_all add: e_eoo_def numberDouble_def)

text \<open>Past its last field a key gives one more direction, ascending.\<close>

lemma it_step_Cons:
  assumes "it_at i (f # fs)"
  obtains r where "it_next False i = Inr r" and "e_eoo (fst r) = Inr False" and "elem_at (fst r) (fst f) (snd f)"
    and "it_at (snd r) fs"
proof -
  obtain r where "it_next False i = Inr r" "e_eoo (fst r) = Inr (f # fs = [])"
    "\<And>name v fs'. f # fs = (name, v) # fs' \<Longrightarrow> elem_at (fst r) name v \<and> it_at (snd r) fs'"
    using it_step [OF assms] by blast
  then show thesis using that [of r] by (cases f) simp
qed

lemma key_directed: "it_at k ks \<Longrightarrow> directed key_direction (Some k) (map descending_field ks @ [False])"
proof (induction ks arbitrary: k)
  case Nil
  obtain r where "it_next False k = Inr r" "e_eoo (fst r) = Inr True" using it_step [OF Nil] by auto
  then show ?case using eoo_number [of "fst r"] zero_not_negative by (simp add: key_direction_def split_def)
next
  case (Cons f ks)
  obtain r where r: "it_next False k = Inr r" "elem_at (fst r) (fst f) (snd f)" "it_at (snd r) ks"
    by (rule it_step_Cons [OF Cons.prems])
  have "key_direction (Some k) = Inr (Inr (descending_field f), Some (snd r))"
    using r(1) elem_number [OF r(2)] by (simp add: key_direction_def split_def descending_field_def)
  then show ?case using Cons.IH [OF r(3)] by simp
qed

fun mask_bits :: "bool list \<Rightarrow> nat \<Rightarrow> 32 word \<Rightarrow> 32 word" where
  "mask_bits [] n b = b"
| "mask_bits (d # ds) n b = mask_bits ds (n + 1) (if d then b OR push_bit n 1 else b)"

lemma ordering_loop_bits:
  assumes "it_at k ks" and "n + length ks \<le> 32"
  shows "ordering_loop b n k = Some (Inr (mask_bits (map descending_field ks) n b))"
  using assms
proof (induction ks arbitrary: k n b)
  case Nil
  obtain r where "it_next False k = Inr r" "e_eoo (fst r) = Inr True" using it_step [OF Nil(1)] by auto
  then show ?case by (subst ordering_loop.simps) simp
next
  case (Cons f ks)
  obtain r where r: "it_next False k = Inr r" "e_eoo (fst r) = Inr False" "elem_at (fst r) (fst f) (snd f)" "it_at (snd r) ks"
    by (rule it_step_Cons [OF Cons.prems(1)])
  have d: "numberDouble (fst r) = Inr (number_bits (snd f))" by (rule elem_number [OF r(3)])
  then show ?case using Cons.IH [OF r(4), of "n + 1"] Cons.prems(2) r(1,2) descending_field_def [of f]
    by (subst ordering_loop.simps) simp
qed

lemma mask_bits_bit:
  assumes "i < 32" and "n + length ds \<le> 32"
  shows "bit (mask_bits ds n b) i \<longleftrightarrow> bit b i \<or> n \<le> i \<and> i - n < length ds \<and> ds ! (i - n)"
  using assms
proof (induction ds arbitrary: n b)
  case (Cons d ds)
  have "bit (push_bit n (1 :: 32 word)) i \<longleftrightarrow> i = n" using Cons.prems by (auto simp: bit_exp_iff push_bit_eq_mult)
  then have "bit (if d then b OR push_bit n 1 else b) i \<longleftrightarrow> bit b i \<or> d \<and> i = n" by (simp add: bit_or_iff)
  then have "bit (mask_bits (d # ds) n b) i \<longleftrightarrow>
      (bit b i \<or> d \<and> i = n) \<or> n + 1 \<le> i \<and> i - (n + 1) < length ds \<and> ds ! (i - (n + 1))"
    using Cons.IH [of "n + 1"] Cons.prems by simp
  note step = this
  consider "i < n" | "i = n" | j where "i = n + Suc j" using less_imp_Suc_add [of n i] by fastforce
  then show ?case unfolding step by cases simp_all
qed simp

lemma and_single: "n < 32 \<Longrightarrow> (b :: 32 word) AND push_bit n 1 \<noteq> 0 \<longleftrightarrow> bit b n"
  by (simp add: push_bit_eq_mult and_exp_eq_0_iff_not_bit)

lemma mask_directed_from:
  assumes "n + length ds \<le> 32" and "\<And>i. i < length ds \<Longrightarrow> bit b (n + i) = ds ! i"
    and "n + length ds < 32 \<Longrightarrow> \<not> bit b (n + length ds)"
  shows "directed (mask_direction b) (push_bit n 1) (ds @ [False])"
  using assms
proof (induction ds arbitrary: n)
  case Nil
  have "b AND push_bit n 1 = 0"
  proof (cases "n < 32")
    case True
    then show ?thesis using and_single [of n b] Nil(3) by simp
  next
    case False
    then have "(2 :: 32 word) ^ n = 0" by (simp add: exp_eq_zero_iff)
    then show ?thesis by (simp only: push_bit_eq_mult mult_1 and_zero_eq)
  qed
  then show ?case by (simp add: mask_direction_def)
next
  case (Cons d ds)
  have "(b AND push_bit n 1 \<noteq> 0) = d" using and_single [of n b] Cons.prems(1) Cons.prems(2) [of 0] by simp
  moreover have rest: "directed (mask_direction b) (push_bit (n + 1) 1) (ds @ [False])"
    by (rule Cons.IH) (use Cons.prems(1,3) Cons.prems(2) [of "Suc i" for i] in auto)
  moreover have "push_bit 1 (push_bit n 1) = push_bit (n + 1) (1 :: 32 word)" by (simp add: push_bit_push_bit)
  ultimately have "mask_direction b (push_bit n 1) = Inr (Inr d, push_bit (n + 1) 1)"
    by (simp only: mask_direction_def)
  then show ?case using rest by (simp del: push_bit_Suc)
qed

lemma mask_directed:
  assumes "length ds \<le> 32"
  shows "directed (mask_direction (mask_bits ds 0 0)) 1 (ds @ [False])"
  using mask_directed_from [of 0 ds "mask_bits ds 0 0"] mask_bits_bit [of _ 0 ds 0] assms by simp

lemma ordering_make_directed:
  assumes "obj_at key ks" and "length ks \<le> 32"
  obtains b where "ordering_make key = Some (Inr b)" and "directed (mask_direction b) 1 (map descending_field ks @ [False])"
proof -
  obtain k where "iterator_new key = Inr k" "it_at k ks" by (rule obj_at_iterator [OF assms(1)])
  then have "ordering_make key = Some (Inr (mask_bits (map descending_field ks) 0 0))"
    using ordering_loop_bits [of k ks 0 0] assms(2) by (simp add: ordering_make_def)
  then show thesis using that mask_directed [of "map descending_field ks"] assms(2) by simp
qed

lemma key_iterator_directed:
  assumes "obj_at key ks"
  obtains k where "key_iterator key = Inr k"
    and "directed key_direction k (if ks = [] then replicate n False else map descending_field ks @ [False])"
proof -
  obtain k where k: "iterator_new key = Inr k" "it_at k ks" by (rule obj_at_iterator [OF assms])
  then have "key_iterator key = Inr (if ks = [] then None else Some k)"
    using obj_at_empty [OF assms] by (simp add: key_iterator_def)
  then show thesis using that key_directed [OF k(2)] undirected [of n] by (cases "ks = []") auto
qed

section \<open>The theorems\<close>

lemma sub_compared:
  assumes "length (encode_fields fs) < n" and "f \<in> set fs" and "type_of_bson (snd f) \<in> {BObject, BArray}"
  shows "objects_compared (obj_compare n) (sub_fields (snd f)) gs"
  by (rule obj_compare_order) (use sub_encoded [OF assms(3)] fields_bytes [of "fst f" "snd f" fs] assms(1,2) in simp)

lemma fields_below: "length (encode_fields fs) < n \<Longrightarrow> length fs < n"
  using field_count [of fs] by linarith

lemma doc_directions:
  "min (length fs) (length gs) \<le> length dirs \<Longrightarrow> cmp_doc names (dirs @ ds) fs gs = cmp_doc names dirs fs gs"
proof (induction names dirs fs gs rule: cmp_doc.induct)
  case (3 names dirs f fs g gs)
  then show ?case by (cases dirs) auto
qed auto

lemma woCompare_compares:
  assumes "obj_at l fs" and "obj_at r gs" and "obj_at key ks" and "length (encode_fields fs) < n"
    and "ks = [] \<or> min (length fs) (length gs) \<le> length ks"
  shows "\<exists>x. obj_woCompare n l r key names = Some (Inr x) \<and> sgn x = cmp_doc names (map descending_field ks) fs gs"
proof -
  let ?dirs = "if ks = [] then replicate (Suc (length fs)) False else map descending_field ks @ [False]"
  obtain k where k: "key_iterator key = Inr k" "directed key_direction k ?dirs" by (rule key_iterator_directed [OF assms(3)])
  have "min (length fs) (length gs) < length ?dirs" using assms(5) by auto
  then have "\<exists>x. obj_woCompare n l r key names = Some (Inr x) \<and> sgn x = cmp_doc names ?dirs fs gs"
    unfolding obj_woCompare_def k(1)
    by (intro obj_compare_step sub_compared [OF assms(4)] k(2) fields_below assms(1,2,4))
  moreover have "cmp_doc names ?dirs fs gs = cmp_doc names (map descending_field ks) fs gs"
    using no_directions [of "replicate (Suc (length fs)) False" names fs gs] assms(5)
      doc_directions [of fs gs "map descending_field ks" names "[False]"] by auto
  ultimately show ?thesis by simp
qed

lemma it_step_tl:
  assumes "it_at i fs"
  obtains r where "it_next False i = Inr r" and "e_eoo (fst r) = Inr (fs = [])" and "fs \<noteq> [] \<longrightarrow> it_at (snd r) (tl fs)"
proof -
  obtain r where r: "it_next False i = Inr r" "e_eoo (fst r) = Inr (fs = [])"
    "\<And>name v fs'. fs = (name, v) # fs' \<Longrightarrow> elem_at (fst r) name v \<and> it_at (snd r) fs'"
    using it_step [OF assms] by blast
  have "it_at (snd r) (tl fs)" if "fs \<noteq> []"
    using r(3) [of "fst (hd fs)" "snd (hd fs)" "tl fs"] that by simp
  then show thesis using that r(1,2) by blast
qed

lemma directed_loops:
  assumes "it_at i fs" and "it_at j gs" and "directed D k dirs" and "directed D' k' dirs" and "min (length fs) (length gs) < length dirs"
  shows "compare_loop D E n k i j = compare_loop D' E n k' i j"
  using assms
proof (induction n arbitrary: i j fs gs k k' dirs)
  case (Suc n i j fs gs k k' dirs)
  obtain d ds where dirs: "dirs = d # ds" using Suc.prems(5) by (cases dirs) auto
  obtain h where h: "D k = Inr (Inr d, h)" "directed D h ds" using Suc.prems(3) dirs by auto
  obtain h' where h': "D' k' = Inr (Inr d, h')" "directed D' h' ds" using Suc.prems(4) dirs by auto
  obtain l where l: "it_next False i = Inr l" "e_eoo (fst l) = Inr (fs = [])" "fs \<noteq> [] \<longrightarrow> it_at (snd l) (tl fs)"
    by (rule it_step_tl [OF Suc.prems(1)])
  obtain r where r: "it_next False j = Inr r" "e_eoo (fst r) = Inr (gs = [])" "gs \<noteq> [] \<longrightarrow> it_at (snd r) (tl gs)"
    by (rule it_step_tl [OF Suc.prems(2)])
  have "compare_loop D E n h (snd l) (snd r) = compare_loop D' E n h' (snd l) (snd r)" if "fs \<noteq> []" "gs \<noteq> []"
    by (rule Suc.IH [OF l(3) [rule_format, OF that(1)] r(3) [rule_format, OF that(2)] h(2) h'(2)]) (use Suc.prems(5) dirs that in \<open>cases fs; cases gs; auto\<close>)
  then show ?case using l(1,2) r(1,2) h(1) h'(1) by (cases "fs = []"; cases "gs = []") (simp_all add: split_def Let_def cong: if_cong)
qed simp

text \<open>
  C24. For a key of at most 32 fields that is not shorter than both documents, the comparison by
  the \<^verbatim>\<open>Ordering\<close> that \<^verbatim>\<open>make\<close> computes from the key is the comparison by the key itself, with
  the same result on every branch and at every fuel.
\<close>

theorem orderings_agree:
  assumes "obj_at l fs" and "obj_at r gs" and "obj_at key ks"
    and "ks \<noteq> []" and "length ks \<le> 32" and "min (length fs) (length gs) \<le> length ks"
  shows "\<exists>b. ordering_make key = Some (Inr b) \<and> obj_woCompare_ordering n l r b names = obj_woCompare n l r key names"
proof -
  obtain b where b: "ordering_make key = Some (Inr b)" "directed (mask_direction b) 1 (map descending_field ks @ [False])"
    by (rule ordering_make_directed [OF assms(3,5)])
  obtain k where k: "key_iterator key = Inr k" "directed key_direction k (map descending_field ks @ [False])"
    using key_iterator_directed [OF assms(3)] assms(4) by (metis (full_types))
  obtain i where i: "iterator_new l = Inr i" "it_at i fs" by (rule obj_at_iterator [OF assms(1)])
  obtain j where j: "iterator_new r = Inr j" "it_at j gs" by (rule obj_at_iterator [OF assms(2)])
  have "compare_loop (mask_direction b) E n 1 i j = compare_loop key_direction E n k i j" for E
    by (rule directed_loops [OF i(2) j(2) b(2) k(2)]) (use assms(6) in simp)
  then show ?thesis using b(1) k(1) i(1) j(1) obj_at_empty [OF assms(1)] obj_at_empty [OF assms(2)]
    by (simp add: obj_woCompare_ordering_def obj_woCompare_def compare_objects_def)
qed

section \<open>64-bit integers that are doubles\<close>

lemma log2_mono:
  assumes "0 < a" and "a \<le> b"
  shows "log2 a \<le> log2 b"
proof (rule ccontr)
  assume "\<not> log2 a \<le> log2 b"
  then have "(2 :: nat) ^ Suc (log2 b) \<le> 2 ^ log2 a" by (intro power_increasing) simp_all
  then show False using log2_bounds [of a] log2_bounds [of b] assms by linarith
qed

lemma log2_less:
  assumes "0 < a" and "a < 2 ^ k"
  shows "log2 a < k"
proof -
  have "(2 :: nat) ^ log2 a < 2 ^ k" using log2_bounds [OF assms(1)] assms(2) by linarith
  then show ?thesis by simp
qed

lemma mantissa_bounds:
  assumes "0 < a" and "a < 2 ^ 53"
  shows "2 ^ 52 \<le> a * 2 ^ (52 - log2 a)" and "a * 2 ^ (52 - log2 a) < 2 ^ 53"
proof -
  have l: "log2 a \<le> 52" using log2_less [OF assms] by simp
  then have low: "(2 :: nat) ^ log2 a * 2 ^ (52 - log2 a) = 2 ^ 52" by (simp flip: power_add)
  have high: "(2 :: nat) ^ Suc (log2 a) * 2 ^ (52 - log2 a) = 2 ^ 53" using low by simp
  have b: "2 ^ log2 a \<le> a" "a < 2 ^ Suc (log2 a)" using log2_bounds [OF assms(1)] by simp_all
  show "2 ^ 52 \<le> a * 2 ^ (52 - log2 a)" unfolding low [symmetric] using b(1) by (rule mult_right_mono) simp
  show "a * 2 ^ (52 - log2 a) < 2 ^ 53" unfolding high [symmetric] using b(2) by (rule mult_strict_right_mono) simp
qed

lemma long_double_bits_mono:
  assumes "a < b" and "b \<le> 2 ^ 53"
  shows "long_double_bits a < long_double_bits b"
proof (cases "a = 0")
  case True
  then show ?thesis using assms(1) by (simp add: long_double_bits_def)
next
  case False
  let ?m = "\<lambda>a. a * 2 ^ (52 - log2 a)"
  have a: "0 < a" "a < 2 ^ 53" using False assms by simp_all
  have bits: "long_double_bits c = (log2 c + 1023) * 2 ^ 52 + (?m c - 2 ^ 52)" if "0 < c" "c < 2 ^ 53" for c
    using log2_less [OF that] that by (simp add: long_double_bits_def)
  show ?thesis
  proof (cases "log2 a = log2 b")
    case True
    then have "2 ^ log2 b < (2 :: nat) ^ 53" using log2_bounds [OF a(1)] a(2) by simp
    then have "log2 b \<le> 52" using nat_power_less_imp_less [of 2 "log2 b" 53] by simp
    then have b: "long_double_bits b = (log2 b + 1023) * 2 ^ 52 + (?m b - 2 ^ 52)"
      using assms(1) by (simp add: long_double_bits_def)
    have "?m a < ?m b" using True assms(1) by simp
    then have "?m a - 2 ^ 52 < ?m b - 2 ^ 52" using mantissa_bounds(1) [OF a] by (rule diff_less_mono)
    then show ?thesis unfolding bits [OF a] b True by (rule add_strict_left_mono)
  next
    case False
    then have "log2 a + 1023 + 1 \<le> log2 b + 1023" using log2_mono [OF a(1), of b] assms(1) by simp
    then have "(log2 a + 1023 + 1) * 2 ^ 52 \<le> (log2 b + 1023) * 2 ^ 52" by (rule mult_right_mono) simp
    moreover have "?m a - 2 ^ 52 < 2 ^ 52" using mantissa_bounds(2) [OF a] by (simp add: less_diff_conv2)
    moreover have "(log2 b + 1023) * 2 ^ 52 \<le> long_double_bits b" using assms(1) by (simp add: long_double_bits_def)
    ultimately show ?thesis unfolding bits [OF a] add_mult_distrib by linarith
  qed
qed

lemma long_double_bits_le: "a \<le> 2 ^ 53 \<Longrightarrow> long_double_bits a \<le> 1076 * 2 ^ 52"
proof -
  have "log2 (2 ^ k) = k" for k by (induction k) (simp_all add: log2.simps [of "Suc 0"] log2.simps [of "2 * 2 ^ k" for k])
  from this [of 53] have top: "long_double_bits (2 ^ 53) = 1076 * 2 ^ 52" by (simp add: long_double_bits_def div_round_def)
  show "long_double_bits a \<le> 1076 * 2 ^ 52" if "a \<le> 2 ^ 53"
    using long_double_bits_mono [of a "2 ^ 53"] that top by (cases "a = 2 ^ 53") auto
qed

lemma double_of_long_parts:
  assumes "\<bar>sint i\<bar> \<le> 2 ^ 53"
  shows "finite_double (double_of_long i)"
    and "double_key (double_of_long i) = sgn (sint i) * int (long_double_bits (nat \<bar>sint i\<bar>))"
proof -
  let ?n = "long_double_bits (nat \<bar>sint i\<bar>)"
  define s :: nat where "s = of_bool (sint i < 0)"
  have n: "?n \<le> 1076 * 2 ^ 52" using assms by (intro long_double_bits_le) simp
  have w: "double_of_long i = word_of_nat (s * 2 ^ 63 + ?n)" by (simp add: double_of_long_def s_def)
  have "s \<le> 1" by (simp add: s_def)
  then have "s * 2 ^ 63 + ?n < 2 ^ 64" using n by simp
  then have u: "unat (double_of_long i) = s * 2 ^ 63 + ?n" unfolding w by (rule unat_of_nat64)
  have "?n < 2 ^ 63" using n by simp
  then have "unat (double_of_long i) mod 2 ^ 63 = ?n" "unat (double_of_long i) div 2 ^ 63 = s"
    unfolding u by (simp_all add: div_add1_eq)
  then show "double_key (double_of_long i) = sgn (sint i) * int ?n"
    by (auto simp: double_key_def negative_def s_def sgn_if long_double_bits_def)
  have "unat (double_of_long i) div 2 ^ 52 = s * 2 ^ 11 + ?n div 2 ^ 52"
    unfolding u by (simp add: div_add1_eq)
  moreover have "?n div 2 ^ 52 \<le> 1076" using n by (simp add: less_mult_imp_div_less le_div_geq div_le_mono)
  ultimately show "finite_double (double_of_long i)" by (simp add: finite_double_def exponent_bits_def)
qed

lemma long_order:
  assumes "\<bar>sint i\<bar> \<le> 2 ^ 53" and "\<bar>sint j\<bar> \<le> 2 ^ 53"
  shows "compare_doubles (double_of_long i) (double_of_long j) = sgn (sint i - sint j)"
proof -
  let ?k = "\<lambda>x :: int. sgn x * int (long_double_bits (nat \<bar>x\<bar>))"
  have mono: "?k x < ?k y" if "x < y" "\<bar>x\<bar> \<le> 2 ^ 53" "\<bar>y\<bar> \<le> 2 ^ 53" for x y
  proof -
    have pos: "0 < long_double_bits (nat \<bar>z\<bar>)" if "z \<noteq> 0" "\<bar>z\<bar> \<le> 2 ^ 53" for z :: int
      using long_double_bits_mono [of 0 "nat \<bar>z\<bar>"] that by (simp add: long_double_bits_def [of 0])
    consider "0 \<le> x" | "x < 0" "0 \<le> y" | "y < 0" by linarith
    then show ?thesis
    proof cases
      case 1
      then show ?thesis using long_double_bits_mono [of "nat \<bar>x\<bar>" "nat \<bar>y\<bar>"] pos [of y] that by (simp add: sgn_if)
    next
      case 2
      then show ?thesis using pos [of x] that by (simp add: sgn_if)
    next
      case 3
      then show ?thesis using long_double_bits_mono [of "nat \<bar>y\<bar>" "nat \<bar>x\<bar>"] that by (simp add: sgn_if)
    qed
  qed
  have "sgn (?k x - ?k y) = sgn (x - y)" if "\<bar>x\<bar> \<le> 2 ^ 53" "\<bar>y\<bar> \<le> 2 ^ 53" for x y
    using mono [of x y] mono [of y x] that by (cases x y rule: linorder_cases) simp_all
  then show ?thesis using double_of_long_parts [OF assms(1)] double_of_long_parts [OF assms(2)] assms
    by (simp add: compare_doubles_def)
qed

section \<open>The order is a total preorder\<close>

text \<open>\<open>exact\<close> documents hold only 64-bit integers that are doubles.\<close>

fun exact_value :: "bson \<Rightarrow> bool" and exact_fields :: "fields \<Rightarrow> bool" where
  "exact_value (B_Long i) = (\<bar>sint i\<bar> \<le> 2 ^ 53)"
| "exact_value (B_Object fs) = exact_fields fs"
| "exact_value (B_Array fs) = exact_fields fs"
| "exact_value v = True"
| "exact_fields [] = True"
| "exact_fields ((n, v) # fs) = (exact_value v \<and> exact_fields fs)"

text \<open>\<open>a\<close>, \<open>b\<close> and \<open>c\<close> compare the first with the second, the second with the third and the first with the third.\<close>

definition composed :: "int \<Rightarrow> int \<Rightarrow> int \<Rightarrow> bool" where
  "composed a b c \<longleftrightarrow> (a \<le> 0 \<and> b \<le> 0 \<longrightarrow> c \<le> 0 \<and> (c = 0 \<longleftrightarrow> a = 0 \<and> b = 0))"

lemma composed_zero [simp]: "composed 0 0 0"
  by (simp add: composed_def)

lemma composed_sgn: "composed (sgn (x - y)) (sgn (y - z)) (sgn (x - z))"
  by (auto simp: composed_def sgn_if)

lemma composed_lexi:
  assumes "composed a b c" and "a = 0 \<Longrightarrow> b = 0 \<Longrightarrow> composed a' b' c'"
  shows "composed (lexi a a') (lexi b b') (lexi c c')"
  using assms by (auto simp: composed_def lexi_def split: if_splits)

lemma composed_swap: "composed a b c \<longleftrightarrow> composed b a c"
  by (auto simp: composed_def)

lemma list_order_composed: "composed (list_order xs ys) (list_order ys zs) (list_order xs zs)"
proof (induction xs arbitrary: ys zs)
  case Nil
  then show ?case by (cases ys; cases zs) (auto simp: composed_def)
next
  case (Cons x xs)
  show ?case
  proof (cases ys; cases zs)
    fix y ys' z zs' assume c: "ys = y # ys'" "zs = z # zs'"
    have "list_order (u # us) (v # vs) = lexi (sgn (u - v)) (list_order us vs)" for u v us vs
      by (simp add: lexi_def sgn_if)
    then show ?thesis unfolding c using composed_lexi [OF composed_sgn Cons.IH] by (simp only:)
  qed (auto simp: composed_def)
qed

lemma list_order_swap: "list_order ys xs = - list_order xs ys"
  by (induction xs ys rule: list_order.induct) (simp_all add: sgn_if)

lemma list_order_refl [simp]: "list_order xs xs = 0"
  by (induction xs) simp_all

lemma cmp_value_cases:
  "type_of_bson v \<in> {BObject, BArray} \<Longrightarrow> cmp_value v w = cmp_fields (sub_fields v) (sub_fields w)"
  "type_of_bson v \<notin> {BObject, BArray} \<Longrightarrow> cmp_value v w = cmp_scalar v w"
  by (cases v; simp)+

lemma sub_canon: "type_of_bson v \<in> {BObject, BArray} \<longleftrightarrow> canon v \<in> {20, 25}"
  by (cases v) (simp_all add: canon_def)

lemma exact_sub: "exact_value v \<Longrightarrow> exact_fields (sub_fields v)"
  by (cases v) simp_all

lemma cmp_scalar_key: "exact_value v \<Longrightarrow> exact_value w \<Longrightarrow> cmp_scalar v w = list_order (scalar_key v) (scalar_key w)"
proof (cases "\<exists>i j. v = B_Long i \<and> w = B_Long j")
  case True
  then show "exact_value v \<Longrightarrow> exact_value w \<Longrightarrow> ?thesis" using long_order by (auto simp: cmp_scalar_def number_key_order)
next
  case False
  then show ?thesis by (auto simp: cmp_scalar_def split: bson.split)
qed

lemma cmp_scalar_swap: "cmp_scalar w v = - cmp_scalar v w"
proof (cases "\<exists>i j. v = B_Long i \<and> w = B_Long j")
  case True
  then show ?thesis by (auto simp: cmp_scalar_def sgn_if)
next
  case False
  then have "cmp_scalar v w = list_order (scalar_key v) (scalar_key w)" "cmp_scalar w v = list_order (scalar_key w) (scalar_key v)"
    by (auto simp: cmp_scalar_def split: bson.split)
  then show ?thesis using list_order_swap [of "scalar_key w" "scalar_key v"] by simp
qed

text \<open>What a comparison of the values of two fields makes of a comparison of the fields.\<close>

lemma lexi_swap: "a' = - a \<Longrightarrow> (a = 0 \<Longrightarrow> b' = - b) \<Longrightarrow> lexi a' b' = - lexi a b"
  by (simp add: lexi_def)

lemma cmp_elem_swap:
  assumes "canon (snd f) = canon (snd g) \<Longrightarrow> cmp_value (snd g) (snd f) = - cmp_value (snd f) (snd g)"
  shows "cmp_elem names g f = - cmp_elem names f g"
  unfolding cmp_elem_def
  by (intro lexi_swap) (use assms in \<open>auto simp: list_order_swap [of "codes (fst g)"] sgn_if split: if_splits\<close>)

lemma cmp_elem_composed:
  assumes "canon (snd f) = canon (snd g) \<Longrightarrow> canon (snd g) = canon (snd h) \<Longrightarrow>
      composed (cmp_value (snd f) (snd g)) (cmp_value (snd g) (snd h)) (cmp_value (snd f) (snd h))"
  shows "composed (cmp_elem names f g) (cmp_elem names g h) (cmp_elem names f h)"
  unfolding cmp_elem_def
  by (intro composed_lexi) (use assms in \<open>auto simp: sgn_0_0 composed_sgn list_order_composed\<close>)

lemma cmp_fields_Cons: "cmp_fields (f # fs) (g # gs) = lexi (cmp_elem True f g) (cmp_fields fs gs)"
  by (cases f; cases g) (simp add: cmp_elem_def)

lemma cmp_fields_Nil: "cmp_fields (f # fs) [] = 1"
  by (cases f) simp

lemma fields_shorter: "length (encode_fields (f # fs)) < n \<Longrightarrow> length (encode_fields fs) < n"
  by (cases f) simp

lemma sub_shorter:
  assumes "length (encode_fields fs) \<le> n" and "f \<in> set fs" and "type_of_bson (snd f) \<in> {BObject, BArray}"
  shows "length (encode_fields (sub_fields (snd f))) < n"
  using sub_encoded [OF assms(3)] fields_bytes [of "fst f" "snd f" fs] assms(1,2) by simp

lemma value_swap:
  assumes "canon v = canon w"
    and "type_of_bson v \<in> {BObject, BArray} \<Longrightarrow> cmp_fields (sub_fields w) (sub_fields v) = - cmp_fields (sub_fields v) (sub_fields w)"
  shows "cmp_value w v = - cmp_value v w"
proof (cases "type_of_bson v \<in> {BObject, BArray}")
  case True
  then have "type_of_bson w \<in> {BObject, BArray}" using sub_canon [of v] sub_canon [of w] assms(1) by simp
  then show ?thesis using assms(2) [OF True] cmp_value_cases(1) [OF True] by (simp add: cmp_value_cases(1))
next
  case False
  then have "type_of_bson w \<notin> {BObject, BArray}" using sub_canon [of v] sub_canon [of w] assms(1) by simp
  then show ?thesis using cmp_scalar_swap [of w v] cmp_value_cases(2) [OF False] by (simp add: cmp_value_cases(2))
qed

lemma cmp_fields_swap: "cmp_fields gs fs = - cmp_fields fs gs"
proof (induction "length (encode_fields fs)" arbitrary: fs gs rule: less_induct)
  case less
  show ?case
  proof (cases fs; cases gs)
    fix f fs' g gs' assume c: "fs = f # fs'" "gs = g # gs'"
    have "cmp_value (snd g) (snd f) = - cmp_value (snd f) (snd g)" if "canon (snd f) = canon (snd g)"
      by (rule value_swap [OF that], rule less, rule sub_shorter [of fs]) (use c in simp_all)
    then have "cmp_elem True g f = - cmp_elem True f g" by (rule cmp_elem_swap)
    moreover have "cmp_fields gs' fs' = - cmp_fields fs' gs'" by (rule less) (use c in \<open>cases f; simp add: field_of_def\<close>)
    ultimately show ?thesis unfolding c cmp_fields_Cons by (intro lexi_swap)
  qed (auto simp: cmp_fields_Nil)
qed

lemma value_composed:
  assumes "exact_value v" and "exact_value w" and "exact_value u" and "canon v = canon w" and "canon w = canon u"
    and "type_of_bson v \<in> {BObject, BArray} \<Longrightarrow>
      composed (cmp_fields (sub_fields v) (sub_fields w)) (cmp_fields (sub_fields w) (sub_fields u)) (cmp_fields (sub_fields v) (sub_fields u))"
  shows "composed (cmp_value v w) (cmp_value w u) (cmp_value v u)"
proof (cases "type_of_bson v \<in> {BObject, BArray}")
  case True
  then have "type_of_bson w \<in> {BObject, BArray}" using sub_canon [of v] sub_canon [of w] assms(4) by simp
  then show ?thesis using assms(6) [OF True] cmp_value_cases(1) [OF True] by (simp add: cmp_value_cases(1))
next
  case False
  then have "type_of_bson w \<notin> {BObject, BArray}" using sub_canon [of v] sub_canon [of w] assms(4) by simp
  then show ?thesis using cmp_value_cases(2) [OF False] assms(1-3) list_order_composed
    by (simp add: cmp_value_cases(2) cmp_scalar_key)
qed

lemma exact_Cons: "exact_fields (f # fs) \<longleftrightarrow> exact_value (snd f) \<and> exact_fields fs"
  by (cases f) simp

lemma cmp_fields_composed:
  assumes "exact_fields fs" and "exact_fields gs" and "exact_fields hs"
  shows "composed (cmp_fields fs gs) (cmp_fields gs hs) (cmp_fields fs hs)"
  using assms
proof (induction "length (encode_fields fs)" arbitrary: fs gs hs rule: less_induct)
  case less
  show ?case
  proof (cases fs; cases gs; cases hs)
    fix f fs' g gs' h hs' assume c: "fs = f # fs'" "gs = g # gs'" "hs = h # hs'"
    then have e: "exact_value (snd f)" "exact_value (snd g)" "exact_value (snd h)" "exact_fields fs'" "exact_fields gs'" "exact_fields hs'"
      using less.prems by (simp_all add: exact_Cons)
    have "composed (cmp_value (snd f) (snd g)) (cmp_value (snd g) (snd h)) (cmp_value (snd f) (snd h))"
      if "canon (snd f) = canon (snd g)" "canon (snd g) = canon (snd h)"
      by (rule value_composed [OF e(1-3) that], rule less.hyps, rule sub_shorter [of fs]) (use c e exact_sub in simp_all)
    then have "composed (cmp_elem True f g) (cmp_elem True g h) (cmp_elem True f h)" by (rule cmp_elem_composed)
    moreover have "composed (cmp_fields fs' gs') (cmp_fields gs' hs') (cmp_fields fs' hs')"
      by (rule less.hyps [OF _ e(4-6)]) (use c in \<open>cases f; simp add: field_of_def\<close>)
    ultimately show ?thesis unfolding c cmp_fields_Cons by (intro composed_lexi)
  qed (auto simp: cmp_fields_Nil composed_def)
qed

lemma cmp_doc_swap: "cmp_doc names dirs gs fs = - cmp_doc names dirs fs gs"
proof (induction names dirs fs gs rule: cmp_doc.induct)
  case (3 names dirs f fs g gs)
  have "cmp_elem names g f = - cmp_elem names f g"
    by (rule cmp_elem_swap, rule value_swap) (auto simp: cmp_fields_swap [of "sub_fields (snd g)"])
  then show ?case using 3 by (simp add: lexi_swap)
next
  case (1 names dirs gs)
  then show ?case by (cases gs) auto
qed simp

lemma cmp_doc_composed:
  assumes "exact_fields fs" and "exact_fields gs" and "exact_fields hs"
  shows "composed (cmp_doc names dirs fs gs) (cmp_doc names dirs gs hs) (cmp_doc names dirs fs hs)"
  using assms
proof (induction fs arbitrary: dirs gs hs)
  case Nil
  then show ?case by (cases gs; cases hs) (auto simp: composed_def)
next
  case (Cons f fs)
  show ?case
  proof (cases gs; cases hs)
    fix g gs' h hs' assume c: "gs = g # gs'" "hs = h # hs'"
    have elem: "composed (cmp_elem names x y) (cmp_elem names y z) (cmp_elem names x z)"
      if "exact_value (snd x)" "exact_value (snd y)" "exact_value (snd z)" for x y z
      by (rule cmp_elem_composed, rule value_composed [OF that], assumption+, rule cmp_fields_composed) (simp_all add: that exact_sub)
    have swap: "cmp_elem names x y = - cmp_elem names y x" for x y
      by (rule cmp_elem_swap, rule value_swap) (auto simp: cmp_fields_swap [of "sub_fields (snd x)"])
    have e: "exact_value (snd f)" "exact_value (snd g)" "exact_value (snd h)" "exact_fields fs" "exact_fields gs'" "exact_fields hs'"
      using Cons.prems c by (simp_all add: exact_Cons)
    have "composed (- cmp_elem names f g) (- cmp_elem names g h) (- cmp_elem names f h)"
      using elem [OF e(3,2,1)] composed_swap swap [of f g] swap [of g h] swap [of f h] by simp
    then show ?thesis unfolding c using composed_lexi elem [OF e(1-3)] Cons.IH [OF e(4-6)] by simp
  qed (auto simp: composed_def)
qed

text \<open>
  C15. \<^verbatim>\<open>woCompare\<close> returns and is a total preorder, with or without a key and the field names,
  on documents whose 64-bit integers are at most \<open>2 ^ 53\<close> in absolute value: swapping the
  documents swaps the sign, it is transitive, and documents that compare equal are
  interchangeable. Beyond that bound it is not (\<open>longs_not_transitive\<close>).
\<close>

theorem woCompare_preorder:
  assumes "obj_at p fs" and "obj_at q gs" and "obj_at r hs" and "obj_at key ks"
    and "exact_fields fs" and "exact_fields gs" and "exact_fields hs"
    and "length (encode_fields fs) < n" and "length (encode_fields gs) < n"
    and "ks = [] \<or> length fs \<le> length ks \<and> length gs \<le> length ks"
  shows "\<exists>a b c d. obj_woCompare n p q key names = Some (Inr a) \<and> obj_woCompare n q p key names = Some (Inr b) \<and>
      obj_woCompare n q r key names = Some (Inr c) \<and> obj_woCompare n p r key names = Some (Inr d) \<and>
      sgn b = - sgn a \<and> (a \<le> 0 \<and> c \<le> 0 \<longrightarrow> d \<le> 0 \<and> (d = 0 \<longleftrightarrow> a = 0 \<and> c = 0))"
proof -
  let ?c = "cmp_doc names (map descending_field ks)"
  obtain a where a: "obj_woCompare n p q key names = Some (Inr a)" "sgn a = ?c fs gs"
    using woCompare_compares [OF assms(1,2,4,8)] assms(10) by fastforce
  obtain b where b: "obj_woCompare n q p key names = Some (Inr b)" "sgn b = ?c gs fs"
    using woCompare_compares [OF assms(2,1,4,9)] assms(10) by fastforce
  obtain c where c: "obj_woCompare n q r key names = Some (Inr c)" "sgn c = ?c gs hs"
    using woCompare_compares [OF assms(2,3,4,9)] assms(10) by fastforce
  obtain d where d: "obj_woCompare n p r key names = Some (Inr d)" "sgn d = ?c fs hs"
    using woCompare_compares [OF assms(1,3,4,8)] assms(10) by fastforce
  have "composed (sgn a) (sgn c) (sgn d)" unfolding a c d by (rule cmp_doc_composed [OF assms(5-7)])
  then have "a \<le> 0 \<and> c \<le> 0 \<longrightarrow> d \<le> 0 \<and> (d = 0 \<longleftrightarrow> a = 0 \<and> c = 0)" by (simp add: composed_def sgn_0_0 sgn_if split: if_splits)
  moreover have "sgn b = - sgn a" unfolding a b by (rule cmp_doc_swap)
  ultimately show ?thesis using a(1) b(1) c(1) d(1) by blast
qed

lemma obj_at_doc: "wf_fields fs \<Longrightarrow> int (length (encode_doc fs)) \<le> BSONObjMaxInternalSize \<Longrightarrow> obj_at (encode_doc fs) fs"
  by (auto simp: obj_at_def intro: exI [of _ "[]"])

lemma woCompare_preorder_witness:
  "\<exists>a b c d n. obj_woCompare n (encode_doc [(''a'', B_Int 2)]) (encode_doc [(''a'', B_Long 1)]) (encode_doc [(''k'', B_Int (- 1))]) True = Some (Inr a) \<and>
      obj_woCompare n (encode_doc [(''a'', B_Long 1)]) (encode_doc [(''a'', B_Int 2)]) (encode_doc [(''k'', B_Int (- 1))]) True = Some (Inr b) \<and>
      obj_woCompare n (encode_doc [(''a'', B_Long 1)]) (encode_doc [(''a'', B_Null)]) (encode_doc [(''k'', B_Int (- 1))]) True = Some (Inr c) \<and>
      obj_woCompare n (encode_doc [(''a'', B_Int 2)]) (encode_doc [(''a'', B_Null)]) (encode_doc [(''k'', B_Int (- 1))]) True = Some (Inr d) \<and>
      sgn b = - sgn a \<and> (a \<le> 0 \<and> c \<le> 0 \<longrightarrow> d \<le> 0 \<and> (d = 0 \<longleftrightarrow> a = 0 \<and> c = 0))"
proof -
  have at: "obj_at (encode_doc [(''a'', B_Int 2)]) [(''a'', B_Int 2)]" "obj_at (encode_doc [(''a'', B_Long 1)]) [(''a'', B_Long 1)]"
    "obj_at (encode_doc [(''a'', B_Null)]) [(''a'', B_Null)]" "obj_at (encode_doc [(''k'', B_Int (- 1))]) [(''k'', B_Int (- 1))]"
    by (rule obj_at_doc; simp add: encode_doc_def doc_of_def field_of_def BSONObjMaxInternalSize_def)+
  show ?thesis
    using woCompare_preorder [OF at, of "Suc (length (encode_fields [(''a'', B_Int 2)]) + length (encode_fields [(''a'', B_Long 1)]))" True]
    by (simp only: exact_fields.simps exact_value.simps) (simp, blast)
qed

lemma orderings_agree_witness:
  "\<exists>b. ordering_make (encode_doc [(''k'', B_Int (- 1))]) = Some (Inr b) \<and>
      obj_woCompare_ordering 50 (encode_doc [(''a'', B_Int 2)]) (encode_doc [(''b'', B_Bool True)]) b False =
      obj_woCompare 50 (encode_doc [(''a'', B_Int 2)]) (encode_doc [(''b'', B_Bool True)]) (encode_doc [(''k'', B_Int (- 1))]) False"
proof -
  have at: "obj_at (encode_doc [(''a'', B_Int 2)]) [(''a'', B_Int 2)]" "obj_at (encode_doc [(''b'', B_Bool True)]) [(''b'', B_Bool True)]"
    "obj_at (encode_doc [(''k'', B_Int (- 1))]) [(''k'', B_Int (- 1))]"
    by (rule obj_at_doc; simp add: encode_doc_def doc_of_def field_of_def BSONObjMaxInternalSize_def)+
  show ?thesis by (rule orderings_agree [OF at]) simp_all
qed

lemma int32_bytes:
  "int32 n = [char_of (n mod 256), char_of (n div 256 mod 256), char_of (n div 65536 mod 256), char_of (n div 16777216 mod 256)]"
proof -
  have "(4 :: nat) = Suc (Suc (Suc (Suc 0)))" by simp
  then show ?thesis by (simp only: int32_def le_bytes.simps) (simp flip: div_mult2_eq)
qed

text \<open>
  C23. Without a key, \<^verbatim>\<open>woCompare\<close> on two documents in memory never faults and computes their
  order: field by field, first the kind of the value, then the name, then the value, and a
  document that ends first is less.
\<close>

theorem woCompare_fields:
  assumes "obj_at l fs" and "obj_at r gs" and "length (encode_fields fs) < n"
  shows "\<exists>x. obj_woCompare n l r obj_default True = Some (Inr x) \<and> sgn x = cmp_fields fs gs"
proof -
  have "char_of (5 :: nat) = CHR 0x05" "char_of (0 :: nat) = nul" by (simp_all add: char_of_def bit_iff_odd)
  then have d: "obj_default = encode_doc []" by (simp add: obj_default_def encode_doc_def doc_of_def int32_bytes)
  have key: "obj_at obj_default []" unfolding d by (rule obj_at_doc) (simp_all add: BSONObjMaxInternalSize_def encode_doc_def doc_of_def)
  show ?thesis using woCompare_compares [OF assms(1,2) key assms(3), of True] by (simp add: cmp_fields_doc)
qed

lemma woCompare_fields_witness:
  "\<exists>x. obj_woCompare 50 (encode_doc [(''a'', B_Int 2)]) (encode_doc [(''b'', B_Bool True)]) obj_default True = Some (Inr x) \<and>
      sgn x = cmp_fields [(''a'', B_Int 2)] [(''b'', B_Bool True)]"
  by (rule woCompare_fields) (rule obj_at_doc; simp add: encode_doc_def doc_of_def field_of_def BSONObjMaxInternalSize_def | simp add: field_of_def)+

section \<open>Equality and \<^verbatim>\<open>operator<\<close>\<close>

lemma list_order_eq: "list_order xs ys = 0 \<longleftrightarrow> xs = ys"
  by (induction xs ys rule: list_order.induct) (auto simp: sgn_0_0)

lemma codes_inject: "codes x = codes y \<longleftrightarrow> x = y"
proof
  assume "codes x = codes y"
  then show "x = y"
  proof (induction x arbitrary: y)
    case (Cons c x)
    then show ?case by (cases y) auto
  qed (simp add: codes_def)
qed simp

text \<open>\<^verbatim>\<open>woEqual\<close> tells whether the documents are encoded by the same bytes.\<close>

lemma woEqual_bytes:
  assumes l: "obj_at l fs" and r: "obj_at r gs"
  shows "obj_woEqual l r = Inr (encode_doc fs = encode_doc gs)"
proof -
  obtain p q where p: "l = encode_doc fs @ p" "r = encode_doc gs @ q" using l r by (auto simp: obj_at_def)
  note size = obj_at_size(1) [OF l] obj_at_size(1) [OF r]
  show ?thesis
  proof (cases "length (encode_doc fs) = length (encode_doc gs)")
    case True
    then have "memcmp l r (int (length (encode_doc fs))) = Inr (list_order (codes (encode_doc fs)) (codes (encode_doc gs)))"
      unfolding p by (intro memcmp_text) simp_all
    then show ?thesis using size True by (auto simp: obj_woEqual_def list_order_eq codes_inject)
  next
    case False
    then show ?thesis using size by (auto simp: obj_woEqual_def)
  qed
qed

text \<open>\<^verbatim>\<open>operator<\<close> orders elements as \<^verbatim>\<open>woCompare\<close> without the names does.\<close>

lemma elem_less_order:
  assumes l: "elem_at l n v" and r: "elem_at r m w"
    and sub: "type_of_bson v \<in> {BObject, BArray} \<Longrightarrow> objects_compared P (sub_fields v) (sub_fields w)"
  shows "elem_less P l r = Some (Inr (cmp_elem False (n, v) (m, w) < 0))"
proof -
  have canon: "compare_canonical l r = Inr (canon v - canon w)"
    using elem_canonical [OF l] elem_canonical [OF r] by (simp add: compare_canonical_def)
  show ?thesis
  proof (cases "canon v = canon w")
    case True
    then obtain x where "compareElementValues P l r = Some (Inr x)" "sgn x = cmp_value v w"
      using values_compared [OF l r True sub] by (auto simp: compared_def)
    then show ?thesis using canon True by (simp add: elem_less_def cmp_elem_def flip: \<open>sgn x = cmp_value v w\<close>)
  next
    case False
    then show ?thesis using canon by (auto simp: elem_less_def cmp_elem_def sgn_if lexi_def)
  qed
qed

section \<open>Where the order is surprising\<close>

text \<open>Beyond \<open>2 ^ 53\<close> the order of mixed numbers is not transitive.\<close>

lemma longs_not_transitive:
  "cmp_fields [(n, B_Long 9007199254740993)] [(n, B_Double 0x4340000000000000)] = 0 \<and>
   cmp_fields [(n, B_Double 0x4340000000000000)] [(n, B_Long 9007199254740992)] = 0 \<and>
   cmp_fields [(n, B_Long 9007199254740993)] [(n, B_Long 9007199254740992)] = 1"
proof -
  have "long_double_bits 9007199254740993 = 0x4340000000000000" "long_double_bits 9007199254740992 = 0x4340000000000000"
    by (simp_all add: long_double_bits_def div_round_def log2.simps)
  then have "double_of_long 9007199254740993 = 0x4340000000000000" "double_of_long 9007199254740992 = 0x4340000000000000"
    by (simp_all add: double_of_long_def)
  then show ?thesis by (simp add: canon_def cmp_scalar_def)
qed

text \<open>The infinities are taken for NaN: both are below every finite number.\<close>

lemma infinities_below:
  "finite_double d \<Longrightarrow> compare_doubles 0x7FF0000000000000 d = - 1 \<and> compare_doubles 0x7FF0000000000000 0xFFF0000000000000 = 0"
  by (simp add: compare_doubles_def finite_double_def exponent_bits_def)

text \<open>The scope of code is compared as a string, so up to the first NUL, which is in its size.\<close>

lemma scopes_not_compared:
  "cmp_fields [(n, B_CodeWScope s [(''a'', B_Int 1)])] [(n, B_CodeWScope s [(''a'', B_Int 2)])] = 0"
  by (simp add: canon_def cmp_scalar_def encode_doc_def doc_of_def field_of_def int32_bytes)

end
