(* ===== verification/Spec2Isabelle.thy ===== *)
theory Spec2Isabelle
  imports Json_Select_Main Json_Parser Jsoncpp_Value_Laws Jsoncpp_Path Jsoncpp_Roundtrip Bson_Roundtrip Bson_Order
begin

text \<open>
  A verification of the JSON semi-index (\<^verbatim>\<open>src/semi_index\<close>), of the command line tool
  built on it (\<^verbatim>\<open>src/json_select.cpp\<close>) and of the libraries of its baselines: jsoncpp
  (\<^verbatim>\<open>src/3rd_party/jsoncpp\<close>) and the BSON part of MongoDB (\<^verbatim>\<open>src/3rd_party/mongodb\<close>).

  \<^bold>\<open>The program.\<close> A semi-index of a collection of JSON documents is a pair of succinct
  vectors: \<^verbatim>\<open>m_nav\<close> marks the structural characters of the text, \<^verbatim>\<open>m_bp\<close> holds two
  parentheses for each of them. It is built in one scan (the constructor of
  \<^verbatim>\<open>json_semi_index_base\<close>), and then a path such as \<^verbatim>\<open>a.b[-1]\<close> is followed without parsing the
  document (\<^verbatim>\<open>accessor\<close>, \<^verbatim>\<open>cursor\<close>). The tool answers queries on lines of a stream, on a
  mapped file, or on a file compressed in blocks with random access (\<^verbatim>\<open>zrandom\<close>). Path lists
  and values are parsed by Boost.Spirit grammars. Two baselines answer the same queries without
  an index: by parsing each line with jsoncpp, and by following the path in BSON documents that
  an earlier run made of the lines.

  \<^bold>\<open>Theories and sources.\<close>
  \<^item> \<open>Prelude\<close>: faults and results, wrapping subtraction, reads through an iterator, facts on
    lists.
  \<^item> \<open>Balanced_Parens\<close>, \<open>Succinct\<close>: the interface to the \<^verbatim>\<open>succinct\<close> library (a git
    submodule that is not part of the sources): the record \<open>succinct\<close> of its operations, the
    locale \<open>succinct_spec\<close> of their laws, an instance on bit lists.
  \<^item> \<open>Escape_Table\<close>: \<^verbatim>\<open>escape_table.cpp\<close>; the body of a string literal and what it denotes.
  \<^item> \<open>Semi_Index_Build\<close>: the constructor (\<^verbatim>\<open>json_semi_index.hpp\<close>, lines 26-94) as nested
    loops that push bits; the automaton \<open>marks\<close>/\<open>parens\<close> it implements.
  \<^item> \<open>Json_Tree\<close>: layout trees of documents (every character kept), well-formedness, abstract
    navigation \<open>lookup_path\<close>; the types of paths of \<^verbatim>\<open>path_parser.hpp\<close>.
  \<^item> \<open>Semi_Index_Nav\<close>, \<open>Semi_Index_Children\<close>: \<^verbatim>\<open>get_pos\<close>, \<^verbatim>\<open>FindEnd\<close>, \<^verbatim>\<open>check_key\<close>,
    \<^verbatim>\<open>get_array_child\<close>, \<^verbatim>\<open>get_object_child\<close> and their correctness.
  \<^item> \<open>Semi_Index_Access\<close>: \<^verbatim>\<open>accessor\<close> and \<^verbatim>\<open>cursor\<close>, with a heap of index objects.
  \<^item> \<open>Json_Select\<close>: \<^verbatim>\<open>si_parse_stream\<close>, \<^verbatim>\<open>si_save\<close>, \<^verbatim>\<open>saved_si_parse_stream\<close>,
    \<^verbatim>\<open>saved_si_parse_mapped\<close>; what they should print (\<open>expected_output\<close>).
  \<^item> \<open>Zrandom_Cache\<close>, \<open>Zrandom_Compress\<close>, \<open>Zrandom_Decompress\<close>, \<open>Zrandom_Roundtrip\<close>:
    \<^verbatim>\<open>zrandom.cpp\<close> and \<^verbatim>\<open>zrandom.hpp\<close>: the block cache, \<^verbatim>\<open>compress\<close>, the decompressor and
    its iterator, and their round trip.
  \<^item> \<open>Semi_Index_Zrandom\<close>: the template at the decompressor's iterator and
    \<^verbatim>\<open>saved_si_parse_compressed\<close>, with the reader's state threaded through every read; it
    refines the instance on plain bytes.
  \<^item> \<open>Spirit\<close>, \<open>Path_Parser\<close>, \<open>Json_Parser\<close>: the interface to Boost.Spirit Qi, the
    grammars of \<^verbatim>\<open>path_parser.cpp\<close> and \<^verbatim>\<open>json_spirit_parser.cpp\<close> as data, and the parsers.
  \<^item> \<open>Json_Select_Main\<close>: \<^verbatim>\<open>main\<close> with its dispatch, and sequences of runs over one file
    system; the locale \<open>linked\<close> collects the contracts of all linked libraries.
  \<^item> \<open>Decimal\<close>: decimal numerals, shared by the path notations and the number formats.
  \<^item> \<open>Jsoncpp_Value\<close>, \<open>Jsoncpp_Container\<close>, \<open>Jsoncpp_Value_Laws\<close>: the values of the vendored
    jsoncpp library (\<^verbatim>\<open>json_value.cpp\<close>, \<^verbatim>\<open>json_valueiterator.inl\<close>): construction, comparison,
    conversions and comments; arrays and objects as maps sorted by their keys, references into
    them as paths of keys, iterators.
  \<^item> \<open>Jsoncpp_Path\<close>: \<^verbatim>\<open>PathArgument\<close> and \<^verbatim>\<open>Path\<close> of \<^verbatim>\<open>json_value.cpp\<close>.
  \<^item> \<open>Jsoncpp_Reader\<close>, \<open>Jsoncpp_Reader_Steps\<close>, \<open>Jsoncpp_Reader_Safety\<close>: \<^verbatim>\<open>json_reader.cpp\<close> over a
    record of the reader's members; the invariant of the node stack, and that every parse returns.
  \<^item> \<open>Jsoncpp_Writer\<close>, \<open>Jsoncpp_Writer_Laws\<close>, \<open>Jsoncpp_Roundtrip\<close>: \<^verbatim>\<open>json_writer.cpp\<close>; the styled
    writers return, and what the fast writer writes is read back.
  \<^item> \<open>Naive_Parse\<close>: the baseline \<^verbatim>\<open>naive_parse_stream\<close> on jsoncpp's reader and writer.
  \<^item> \<open>Little_Endian\<close>, \<open>Bson_Bytes\<close>: numbers as bytes; \<^verbatim>\<open>util/hex.h\<close>, \<^verbatim>\<open>util/base64.cpp\<close> and the buffers
    of \<^verbatim>\<open>bson/util/builder.h\<close>.
  \<^item> \<open>Bson_Element\<close>, \<open>Bson_Doc\<close>: \<^verbatim>\<open>BSONElement\<close>, \<^verbatim>\<open>BSONObj\<close> and \<^verbatim>\<open>BSONObjIterator\<close> on memory
    (\<^verbatim>\<open>bson/bsonelement.h\<close>, \<^verbatim>\<open>bsonobj.h\<close>, \<^verbatim>\<open>bson-inl.h\<close>); documents as a datatype, their bytes, and
    what the operations give on these bytes.
  \<^item> \<open>Bson_Builder\<close>: \<^verbatim>\<open>BSONObjBuilder\<close> (\<^verbatim>\<open>bson/bsonobjbuilder.h\<close>); each operation appends the bytes of its
    field.
  \<^item> \<open>Double_Text\<close>, \<open>Bson_Json\<close>: \<^verbatim>\<open>jsonString\<close> (\<^verbatim>\<open>db/jsobj.cpp\<close>) and the text of a document.
  \<^item> \<open>Bson_Compare\<close>, \<open>Bson_Order\<close>: the comparison of elements and documents (\<^verbatim>\<open>db/jsobj.cpp\<close>,
    \<^verbatim>\<open>bson/ordering.h\<close>), the order on documents that it computes, and what that order is worth.
  \<^item> \<open>Spirit_Classic\<close>, \<open>Bson_Fromjson\<close>, \<open>Bson_Roundtrip\<close>: the interface to Boost.Spirit Classic,
    \<^verbatim>\<open>fromjson\<close> (\<^verbatim>\<open>db/json.cpp\<close>) with its grammar and the actions on \<^verbatim>\<open>ObjectBuilder\<close>, and that it
    reads back what \<^verbatim>\<open>jsonString\<close> prints.
  \<^item> \<open>Bson_Select\<close>: the baselines \<^verbatim>\<open>bson_save\<close> and \<^verbatim>\<open>bson_parse_mapped\<close>.
  \<^item> this theory: the properties of the commands and those that span the parsers and the index.

  \<^bold>\<open>How the state is modelled.\<close> A position is a natural number, and \<^verbatim>\<open>size_t\<close> subtraction
  wraps (\<open>sub_size\<close>). An iterator over plain bytes is the list of the bytes readable from it,
  and a read outside them is the fault \<open>Out_Of_Bounds\<close>; an iterator of the decompressor is
  its position, and reading threads the cache and the current block. An index pointer is an
  address in a heap; address 0 is null. A pointer to BSON is the memory from there on; the
  builders of \<^verbatim>\<open>fromjson\<close> are a stack of offsets into one buffer. A command's output is its value. A loop that nothing
  bounds is a \<open>partial_function\<close> in the option monad, so that every theorem with a result
  \<open>Some\<close> includes termination; the evaluation of grammars has fuel, and \<open>yields\<close> says that
  some fuel is enough (more never changes the result). Failed assertions, \<^verbatim>\<open>std::terminate\<close>
  and exceptions are faults.

  \<^bold>\<open>External code.\<close> \<^verbatim>\<open>succinct\<close> (vectors and mapper), zlib, Boost.Spirit (Qi and Classic) and its number
  parsers are arguments of the definitions, with their documented behaviour as locales:
  \<open>succinct_spec\<close>, \<open>mapper_spec\<close>, \<open>zlib_spec\<close>, \<open>zmapper_spec\<close>, \<open>spirit_spec\<close>,
  \<open>int_spec\<close>, \<open>double_spec\<close>, \<open>classic_spec\<close>, \<open>number_parsers_spec\<close>, and \<open>linked\<close> for those of a program. Each is interpreted on executable definitions, which the
  witnesses use. The interface \<open>coherent_cache\<close> between the decompressor and its cache is
  interpreted on the cache of the code.

  \<^bold>\<open>What the theorems show.\<close> The constructor computes the automaton's bits, throws exactly on
  unterminated literals, and stores balanced parentheses. Navigation returns and finds exactly
  the abstract child; positions and ends delimit exactly its text. Following a path selects
  exactly the abstract subtree, a cursor visits the documents in order. All query commands
  print the selected texts, also over several runs of the program that share their files; a
  run changes nothing but its outputs. Compressing and reading at any positions gives the original bytes,
  and the compressed query prints what the plain one prints. Path lists and values parse to
  what they denote. The hypotheses of these theorems are the limits of the code, and the
  theorems beside them show what happens outside: members without whitespace before the key,
  keys with quotes, white space before a document or inside an empty container, more lines
  than documents, an escape at the end of a literal.

  In jsoncpp, \<^verbatim>\<open>Reader::parse\<close> returns on every document with a well-formed root, no pointer
  of its node stack dangles, and it succeeds exactly when it reports no error; the writers
  return; a value written by \<^verbatim>\<open>FastWriter\<close> is read back; paths parse to what they denote, and
  \<^verbatim>\<open>make\<close> creates what \<^verbatim>\<open>resolve\<close> finds. Theorems beside them show the defects of the
  comparison \<^verbatim>\<open><=\<close>, of iterators, of \<^verbatim>\<open>resize\<close> on sparse arrays and of the parser on malformed
  texts.

  In the BSON library, a document built with the operations of the builder has the bytes of its
  encoding, is valid, and is read back by iterators and by name; \<^verbatim>\<open>jsonString\<close> prints it, and
  \<^verbatim>\<open>fromjson\<close> rebuilds it from that text up to the types that JSON cannot tell apart. What
  \<^verbatim>\<open>bson_save\<close> wrote, \<^verbatim>\<open>bson_parse_mapped\<close> queries; it prints elements with their names. The grammar
  of \<^verbatim>\<open>fromjson\<close> changes its state while it parses and an alternative that fails does not undo
  that, so the proofs show that the alternatives before the right one leave the state alone.
  \<^verbatim>\<open>woCompare\<close> computes an order on documents, by a key as by the \<^verbatim>\<open>Ordering\<close> of the key; it is a
  total preorder where 64-bit integers are doubles, and theorems beside it show what it does
  with greater integers, with infinities and with the scope of code.

  \<^bold>\<open>Bounds.\<close> A compressed file is smaller than 4 GB (\<^verbatim>\<open>avail_in\<close> has 32 bits) and the original
  smaller than \<open>2 ^ 63\<close> bytes (iterator differences are signed). The recursion of the jsoncpp
  reader has the fuel \<open>2 * length document + 3\<close>: each call reads a token or ends, so the fuel
  never runs out (\<open>parse_returns\<close>). Its integers are words of 32 bits; doubles are a parameter
  (\<open>doubles\<close>) with reading, printing and comparison.

  A \<^verbatim>\<open>BufBuilder\<close> refuses to grow beyond 512 MB, and doubles its size; documents and texts of up to
  \<open>2 ^ 28\<close> bytes always fit, so the BSON theorems have this bound. \<^verbatim>\<open>BSONObj::valid\<close> and \<^verbatim>\<open>jsonString\<close>
  have the length of the document as fuel, which bounds both the nesting and the number of
  elements; \<open>obj_valid\<close> and \<open>obj_json\<close> are shown to return with it on every encoded document, and
  \<open>obj_woCompare\<close> with any fuel above the length of the fields of the first document. The
  loop over a mapped file needs none: a valid size is positive.

  \<^bold>\<open>Not modelled.\<close> The storage that jsoncpp compiles only under \<^verbatim>\<open>JSON_VALUE_USE_INTERNAL_MAP\<close> (defined
  in no build file) with its allocators, the performance test, the size report of \<^verbatim>\<open>si_save\<close>, and
  profiling counters. Of MongoDB, the server, which the program does not call; of its BSON part,
  \<^verbatim>\<open>toString\<close>, \<^verbatim>\<open>woSortOrder\<close>, ownership of buffers, generated object ids and the stream
  notation of the builder, which the commands do not use.
\<close>

section \<open>The queries of the command line\<close>

text \<open>
  C1. Saving the index of a collection succeeds, and querying it over the mapped file prints,
  for every document in order and every path, the text of the selected value or \<^verbatim>\<open>null\<close>; in
  particular the loop over the documents terminates and no read leaves the file. The
  collection may have any layout in which members after the first are preceded by whitespace,
  and the keys of the paths contain no quote.
\<close>

theorem saved_si_parse_mapped_output:
  assumes "succinct_spec S bits" and "mapper_spec M"
    and "queryable ts" and "ts \<noteq> []"
    and "parse_paths spec = Inr paths" and "list_all plain_keys paths"
  shows "\<exists>index_file. si_save S M (map json_text ts) = Inr index_file \<and>
    saved_si_parse_mapped S M parse_paths (concat (map json_text ts)) index_file spec =
      Some (Inr (expected_output paths ts))"
  using si_save_returns [OF assms(1,3)] mapped_prints [where path_parse = parse_paths and spec = spec, OF assms] by blast

theorem saved_si_parse_mapped_output_witness:
  "\<exists>index_file. si_save list_succinct list_mapper (map json_text example_docs) = Inr index_file \<and>
     saved_si_parse_mapped list_succinct list_mapper (\<lambda>_. Inr example_paths)
       (concat (map json_text example_docs)) index_file ''b[-1],a'' =
     Some (Inr (''[ 8, 1]'' @ [CHR 0x0A] @ ''[null,null]'' @ [CHR 0x0A]))"
  using saved_si_parse_mapped_output [OF list_succ.succinct_spec_axioms
      list_map.mapper_spec_axioms example_facts(1,2) _ example_facts(3),
      of "\<lambda>_. Inr example_paths" "''b[-1],a''"]
  by (simp add: example_facts)



text \<open>
  C4. The in-memory command: with one document per line, no whitespace before it,
  \<^verbatim>\<open>si_parse_stream\<close> prints for every line and every path the text of the selected value or
  \<^verbatim>\<open>null\<close>.
\<close>

theorem si_parse_stream_output:
  assumes "succinct_spec S bits" and "queryable ts" and "list_all (\<lambda>t. before t = []) ts"
    and "parse_paths spec = Inr paths" and "list_all plain_keys paths"
  shows "si_parse_stream S parse_paths spec (map json_text ts) =
    Some (Inr (expected_output paths ts))"
  by (rule stream_prints [where path_parse = parse_paths and spec = spec, OF assms])

theorem si_parse_stream_output_witness:
  "si_parse_stream list_succinct (\<lambda>_. Inr example_paths) ''b[-1],a'' (map json_text example_docs) =
     Some (Inr (''[ 8, 1]'' @ [CHR 0x0A] @ ''[null,null]'' @ [CHR 0x0A]))"
  using si_parse_stream_output [OF list_succ.succinct_spec_axioms example_facts(1,4) _
      example_facts(3), of "\<lambda>_. Inr example_paths" "''b[-1],a''"]
  by (simp add: example_facts)

text \<open>
  C5. Querying a saved index along the stream it was built from prints the same as the
  in-memory command; if the stream has further lines the command dereferences the null index
  pointer of the default cursor.
\<close>

theorem saved_si_parse_stream_output:
  assumes "succinct_spec S bits" and "mapper_spec M" and "queryable ts" and "ts \<noteq> []"
    and "list_all (\<lambda>t. before t = []) ts"
    and "parse_paths spec = Inr paths" and "list_all plain_keys paths"
  shows "\<exists>index_file. si_save S M (map json_text ts) = Inr index_file \<and>
    (\<forall>extra. saved_si_parse_stream S M parse_paths index_file spec (map json_text ts @ extra) =
      (if extra = [] then Some (Inr (expected_output paths ts)) else Some (Inl Null_Pointer)))"
  using si_save_returns [OF assms(1,3)] saved_stream_prints [where path_parse = parse_paths and spec = spec, OF assms] by blast

theorem saved_si_parse_stream_output_witness:
  "\<exists>index_file. si_save list_succinct list_mapper (map json_text example_docs) = Inr index_file \<and>
     saved_si_parse_stream list_succinct list_mapper (\<lambda>_. Inr example_paths)
       index_file ''b[-1],a'' (map json_text example_docs) =
     Some (Inr (''[ 8, 1]'' @ [CHR 0x0A] @ ''[null,null]'' @ [CHR 0x0A])) \<and>
     saved_si_parse_stream list_succinct list_mapper (\<lambda>_. Inr example_paths)
       index_file ''b[-1],a'' (map json_text example_docs @ [''{}'']) = Some (Inl Null_Pointer)"
proof -
  from saved_si_parse_stream_output [OF list_succ.succinct_spec_axioms
      list_map.mapper_spec_axioms example_facts(1,2,4) _ example_facts(3),
      of "\<lambda>_. Inr example_paths" "''b[-1],a''"]
  obtain f where f: "si_save list_succinct list_mapper (map json_text example_docs) = Inr f"
    and out: "\<And>extra. saved_si_parse_stream list_succinct list_mapper (\<lambda>_. Inr example_paths)
      f ''b[-1],a'' (map json_text example_docs @ extra) =
      (if extra = [] then Some (Inr (expected_output example_paths example_docs))
       else Some (Inl Null_Pointer))" by auto
  from f out [of "[]"] out [of "[''{}'']"] show ?thesis by (auto simp: example_facts)
qed

section \<open>The parsers and the index together\<close>

text \<open>
  C17. A query from the command line, end to end: the path list is parsed by the grammar of
  \<^verbatim>\<open>path_parser.cpp\<close>, the index is saved and mapped, and the output is the selected text of
  every path in every document.
\<close>

theorem query_end_to_end:
  assumes "succinct_spec S bits" and "mapper_spec M" and "spirit_spec phrase_parse"
    and "int_spec int_p" and "queryable ts" and "ts \<noteq> []"
    and "list_all (list_all good_group) gss" and "gss \<noteq> []"
    and "list_all plain_keys (map groups_path gss)"
  shows "\<exists>index_file. si_save S M (map json_text ts) = Inr index_file \<and>
    saved_si_parse_mapped S M (path_parse phrase_parse int_p) (concat (map json_text ts)) index_file
      (show_paths gss) = Some (Inr (expected_output (map groups_path gss) ts))"
  using si_save_returns [OF assms(1,5)]
    mapped_prints [where path_parse = "path_parse phrase_parse int_p" and spec = "show_paths gss",
      OF assms(1,2,5,6) path_parse_groups [OF assms(3,4,7,8)] assms(9)]
  by blast

theorem query_end_to_end_witness:
  "\<exists>index_file. si_save list_succinct list_mapper (map json_text example_docs) = Inr index_file \<and>
     saved_si_parse_mapped list_succinct list_mapper (path_parse phrase_parse_ref int_ref)
       (concat (map json_text example_docs)) index_file ''b[-1],a'' =
     Some (Inr (''[ 8, 1]'' @ [CHR 0x0A] @ ''[null,null]'' @ [CHR 0x0A]))"
proof -
  let ?gss = "[[(''b'', Some (-1))], [(''a'', None)]]"
  have h: "list_all (list_all good_group) ?gss" "?gss \<noteq> []"
    "list_all plain_keys (map groups_path ?gss)" "show_paths ?gss = ''b[-1],a''"
    "map groups_path ?gss = example_paths" by code_simp+
  from query_end_to_end [OF list_succ.succinct_spec_axioms list_map.mapper_spec_axioms
      spirit_ref.spirit_spec_axioms int_ref.int_spec_axioms example_facts(1,2) h(1-3)]
  show ?thesis unfolding h(4,5) example_facts(5) .
qed



end
